(* ===== verification/Store_Spec.thy ===== *)
theory Store_Spec
  imports Main
begin

text \<open>
  The contract of a key/value store: what a lookup returns after a store or a removal,
  and the validity of the representation. A store may refuse a pair (a value that is
  too long, memory that is exhausted): \<open>accepts\<close> says which pairs it takes. The clients
  of a store (loading a whole list of pairs, filling in a default) are proved here once. A table of routes,
  below, is a store that is searched by the longest key in front of a path.
\<close>

locale kv_store =
  fixes get :: "'s \<Rightarrow> 'k \<Rightarrow> 'v option"
    and put :: "'s \<Rightarrow> 'k \<Rightarrow> 'v \<Rightarrow> 's"
    and remove :: "'s \<Rightarrow> 'k \<Rightarrow> 's"
    and valid :: "'s \<Rightarrow> bool"
    and accepts :: "'k \<Rightarrow> 'v \<Rightarrow> bool"
  assumes get_put: "\<lbrakk>valid s; accepts k v\<rbrakk> \<Longrightarrow> get (put s k v) = (get s)(k \<mapsto> v)"
    and get_remove: "valid s \<Longrightarrow> get (remove s k) = (get s)(k := None)"
    and valid_put: "valid s \<Longrightarrow> valid (put s k v)"
    and valid_remove: "valid s \<Longrightarrow> valid (remove s k)"
begin

lemma valid_put_all: "valid s \<Longrightarrow> valid (fold (\<lambda>(k, v) s. put s k v) kvs s)"
  by (induction kvs arbitrary: s) (auto simp: valid_put)

lemma get_put_all:
  "\<lbrakk>valid s; \<forall>(k, v) \<in> set kvs. accepts k v\<rbrakk> \<Longrightarrow>
     get (fold (\<lambda>(k, v) s. put s k v) kvs s) = get s ++ map_of (rev kvs)"
proof (induction kvs arbitrary: s)
  case (Cons kv kvs)
  obtain k v where kv: "kv = (k, v)" by (cases kv)
  from Cons kv have "get (put s k v) = (get s)(k \<mapsto> v)" "valid (put s k v)"
    by (auto simp: get_put valid_put)
  with Cons kv show ?case
    by (simp add: map_add_upd_left map_of_append)
qed simp

lemma get_put_all_distinct:
  assumes "valid s" and "\<forall>(k, v) \<in> set kvs. accepts k v" and "distinct (map fst kvs)"
  shows "get (fold (\<lambda>(k, v) s. put s k v) kvs s) = get s ++ map_of kvs"
proof -
  have "map_of (rev kvs) = map_of kvs"
    using assms(3) by (intro map_of_inject_set [THEN iffD2]) (auto simp: rev_map [symmetric])
  then show ?thesis
    using get_put_all [OF assms(1,2)] by simp
qed

lemma get_put_default:
  "\<lbrakk>valid s; accepts k v\<rbrakk> \<Longrightarrow>
     get (case get s k of None \<Rightarrow> put s k v | Some _ \<Rightarrow> s) =
       (get s)(k \<mapsto> (case get s k of None \<Rightarrow> v | Some w \<Rightarrow> w))"
  by (auto simp: get_put fun_upd_idem split: option.splits)

end

text \<open>
  The contract of a table of routes: a lookup finds the value of the longest key in front of a path, and the rest of the path
  behind it. A value may be missing (\<open>None\<close>): such a route was taken away, and hides the shorter ones.
\<close>

locale route_table =
  fixes find_route :: "'t \<Rightarrow> 'c list \<Rightarrow> 'v option \<times> 'c list option"
    and add_route :: "'t \<Rightarrow> 'c list \<Rightarrow> 'v option \<Rightarrow> 't"
    and routes :: "'t \<Rightarrow> 'c list \<Rightarrow> 'v option option"
    and valid :: "'t \<Rightarrow> bool"
    and is_path :: "'c list \<Rightarrow> bool"
  assumes find_longest:
      "\<lbrakk>valid t; is_path p; p = k @ r; routes t k = Some v; \<forall>q r'. p = q @ r' \<and> length k < length q \<longrightarrow> routes t q = None\<rbrakk>
        \<Longrightarrow> find_route t p = (v, Some r)"
    and routes_add: "\<lbrakk>valid t; is_path k\<rbrakk> \<Longrightarrow> routes (add_route t k v) = (routes t)(k \<mapsto> v)"
    and valid_add: "\<lbrakk>valid t; is_path k\<rbrakk> \<Longrightarrow> valid (add_route t k v)"
begin

lemma add_all:
  "\<lbrakk>valid t; \<forall>kv \<in> set kvs. is_path (fst kv)\<rbrakk> \<Longrightarrow>
     valid (fold (\<lambda>kv t. add_route t (fst kv) (snd kv)) kvs t) \<and>
     routes (fold (\<lambda>kv t. add_route t (fst kv) (snd kv)) kvs t) = routes t ++ map_of (rev kvs)"
proof (induction kvs arbitrary: t)
  case (Cons kv kvs)
  then have "valid (add_route t (fst kv) (snd kv))" "routes (add_route t (fst kv) (snd kv)) = (routes t)(fst kv \<mapsto> snd kv)"
    by (simp_all add: routes_add valid_add)
  moreover have "(routes t)(fst kv \<mapsto> snd kv) ++ map_of (rev kvs) = routes t ++ map_of (rev (kv # kvs))"
    by (cases kv) (simp add: map_of_append)
  ultimately show ?case using Cons by simp
qed simp

lemma find_added:
  assumes "valid t" and "routes t = Map.empty" and "\<forall>kv \<in> set kvs. is_path (fst kv)" and "is_path p"
    and "take (length k) p = k" and "map_of (rev kvs) k = Some v"
    and "\<forall>n. length k < n \<and> n \<le> length p \<longrightarrow> map_of (rev kvs) (take n p) = None"
  shows "find_route (fold (\<lambda>kv t. add_route t (fst kv) (snd kv)) kvs t) p = (v, Some (drop (length k) p))"
proof (rule find_longest [OF _ assms(4)])
  note all = add_all [OF assms(1,3)]
  then show "valid (fold (\<lambda>kv t. add_route t (fst kv) (snd kv)) kvs t)" by blast
  show "p = k @ drop (length k) p" using append_take_drop_id [of "length k" p] assms(5) by simp
  show "routes (fold (\<lambda>kv t. add_route t (fst kv) (snd kv)) kvs t) k = Some v" using all assms(2,6) by simp
  show "\<forall>q r'. p = q @ r' \<and> length k < length q \<longrightarrow> routes (fold (\<lambda>kv t. add_route t (fst kv) (snd kv)) kvs t) q = None"
  proof (intro allI impI)
    fix q r' assume q: "p = q @ r' \<and> length k < length q"
    then have "q = take (length q) p" "length q \<le> length p" by simp_all
    then show "routes (fold (\<lambda>kv t. add_route t (fst kv) (snd kv)) kvs t) q = None" using q all assms(2,7) by (metis empty_map_add)
  qed
qed

end

end
