(* ===== verification/Fw_Prelude.thy ===== *)
theory Fw_Prelude
  imports Main "HOL-Library.Word"
begin

text \<open>
  The shared vocabulary of the development: machine words and their byte
  representations, the outcome type every partial C routine returns, and the list
  and word lemmas that the component theories use through the collections
  \<open>fw_simps\<close> (rewriting) and \<open>fw_intros\<close> (introduction rules).
\<close>

unbundle bit_operations_syntax

section \<open>Types\<close>

type_synonym byte = "8 word"
type_synonym u16 = "16 word"
type_synonym u32 = "32 word"

text \<open>The byte order of the machine the C code is compiled for.\<close>

datatype endian = BigEndian | LittleEndian

text \<open>
  The outcome of a C routine: it returns a value, it leaves the process with
  \<^verbatim>\<open>exit(status)\<close>, or it reaches an operation that C leaves undefined (a shift by the
  width of the operand or more, an access outside an array, a NULL dereference).
\<close>

datatype 'a outcome = Ret 'a | Exit nat | Undef

primrec obind :: "'a outcome \<Rightarrow> ('a \<Rightarrow> 'b outcome) \<Rightarrow> 'b outcome" where
  "obind (Ret x) f = f x"
| "obind (Exit n) f = Exit n"
| "obind Undef f = Undef"

named_theorems fw_simps "rewrite rules of the firmware library"
named_theorems fw_intros "introduction rules of the firmware library"

lemma obind_eq_Ret [fw_simps]: "obind m f = Ret y \<longleftrightarrow> (\<exists>x. m = Ret x \<and> f x = Ret y)"
  by (cases m) auto

lemma option_eq_SomeI: "(\<And>v. x = Some v \<longleftrightarrow> y = Some v) \<Longrightarrow> x = y"
  by (cases x; cases y) auto

lemma word_xor_cancel_right [simp]: "(a :: 'a::len word) XOR c = b XOR c \<longleftrightarrow> a = b"
  by (metis xor.assoc xor.right_neutral xor_self_eq)

lemma word_xor_cancel_left [simp]: "(c :: 'a::len word) XOR a = c XOR b \<longleftrightarrow> a = b"
  by (metis xor.assoc xor.left_neutral xor_self_eq)

lemma unat_less_256 [simp]: "unat (b :: byte) < 256"
  using unsigned_less [of b] by simp

lemma ucast_and_ff: "(ucast (w AND 0xFF :: u32) :: byte) = ucast w"
proof -
  have "(0xFF :: u32) = mask 8" by (simp add: mask_eq_exp_minus_1)
  then show ?thesis
    by (simp only:) (rule bit_word_eqI, simp only: bit_unsigned_iff bit_and_iff bit_mask_iff, simp)
qed

section \<open>Words as bytes\<close>

definition bytes_be :: "u32 \<Rightarrow> byte list" where
  "bytes_be w = [ucast (drop_bit 24 w), ucast (drop_bit 16 w), ucast (drop_bit 8 w), ucast w]"

definition word_be :: "byte list \<Rightarrow> u32" where
  "word_be bs = fold (\<lambda>b w. push_bit 8 w OR ucast b) bs 0"

definition bytes_of_u32 :: "endian \<Rightarrow> u32 \<Rightarrow> byte list" where
  "bytes_of_u32 en w = (case en of BigEndian \<Rightarrow> bytes_be w | LittleEndian \<Rightarrow> rev (bytes_be w))"

definition u32_of_bytes :: "endian \<Rightarrow> byte list \<Rightarrow> u32" where
  "u32_of_bytes en bs = (case en of BigEndian \<Rightarrow> word_be bs | LittleEndian \<Rightarrow> word_be (rev bs))"

lemma length_bytes_be [simp]: "length (bytes_be w) = 4"
  by (simp add: bytes_be_def)

lemma length_bytes_of_u32 [simp]: "length (bytes_of_u32 en w) = 4"
  by (cases en) (simp_all add: bytes_of_u32_def)

lemma word_be_4:
  "word_be [a, b, c, d] =
     push_bit 24 (ucast a) OR push_bit 16 (ucast b) OR push_bit 8 (ucast c) OR ucast d"
  by (rule bit_word_eqI)
     (auto simp: word_be_def bit_simps)

lemma word_be_bytes_be [simp]: "word_be (bytes_be w) = w"
proof (rule bit_word_eqI)
  fix n
  assume "n < LENGTH(32)"
  then consider "n < 8" | "8 \<le> n" "n < 16" | "16 \<le> n" "n < 24" | "24 \<le> n" "n < 32"
    by fastforce
  then show "bit (word_be (bytes_be w)) n = bit w n"
    by cases (auto simp: bytes_be_def word_be_4 bit_simps)
qed

lemma list_4E:
  assumes "length xs = 4"
  obtains a b c d where "xs = [a, b, c, d]"
  using assms by (auto simp: numeral_eq_Suc length_Suc_conv)

lemma bytes_be_word_be [fw_simps]:
  assumes "length bs = 4"
  shows "bytes_be (word_be bs) = bs"
proof -
  obtain a b c d where bs: "bs = [a, b, c, d]"
    using assms by (rule list_4E)
  have "ucast (drop_bit 24 (word_be [a, b, c, d])) = a"
       "ucast (drop_bit 16 (word_be [a, b, c, d])) = b"
       "ucast (drop_bit 8 (word_be [a, b, c, d])) = c"
       "ucast (word_be [a, b, c, d]) = d"
    by (rule bit_word_eqI; auto simp: word_be_4 bit_simps dest: bit_imp_le_length)+
  then show ?thesis
    by (simp add: bs bytes_be_def)
qed

lemma u32_of_bytes_of_u32 [simp]: "u32_of_bytes en (bytes_of_u32 en w) = w"
  by (cases en) (simp_all add: u32_of_bytes_def bytes_of_u32_def)

lemma bytes_of_u32_of_bytes [fw_simps]:
  "length bs = 4 \<Longrightarrow> bytes_of_u32 en (u32_of_bytes en bs) = bs"
  by (cases en)
     (simp_all add: u32_of_bytes_def bytes_of_u32_def bytes_be_word_be rev_swap)

lemma unat_and_not_mask: "unat (x AND NOT (mask k)) = unat (x :: 'a::len word) - unat x mod 2 ^ k"
proof -
  have "x AND NOT (mask k) = x - take_bit k x"
  proof -
    have "x - take_bit k x = x AND NOT (take_bit k x)"
      by (rule disjunctive_diff_eq_and_not) (simp add: bit_eq_iff bit_simps)
    also have "\<dots> = x AND NOT (mask k)"
      by (rule bit_word_eqI) (auto simp: bit_simps)
    finally show ?thesis ..
  qed
  moreover have "unat (take_bit k x) = unat x mod 2 ^ k"
    unfolding unsigned_take_bit_eq by (simp add: take_bit_eq_mod)
  moreover have "take_bit k x \<le> x"
    by (simp add: word_le_nat_alt calculation(2))
  ultimately show ?thesis by (simp add: unat_sub)
qed

section \<open>Byte strings as numbers\<close>

definition be_nat :: "byte list \<Rightarrow> nat" where
  "be_nat bs = foldl (\<lambda>n b. n * 256 + unat b) 0 bs"

lemma be_nat_snoc [simp]: "be_nat (xs @ [b]) = be_nat xs * 256 + unat b"
  by (simp add: be_nat_def)

lemma be_nat_Nil [simp]: "be_nat [] = 0"
  by (simp add: be_nat_def)

lemma be_nat_append: "be_nat (xs @ ys) = be_nat xs * 256 ^ length ys + be_nat ys"
  by (induction ys rule: rev_induct) (simp_all add: algebra_simps flip: append_assoc)

lemma be_nat_less: "be_nat xs < 256 ^ length xs"
proof (induction xs rule: rev_induct)
  case (snoc b xs)
  then have "(be_nat xs + 1) * 256 \<le> 256 ^ length xs * 256"
    by (intro mult_right_mono) simp_all
  then have "be_nat xs * 256 + 256 \<le> 256 * 256 ^ length xs"
    by (simp add: algebra_simps)
  moreover have "unat b < 256" by simp
  ultimately show ?case
    unfolding be_nat_snoc length_append_singleton power_Suc by linarith
qed simp

lemma be_nat_Cons_0 [simp]: "be_nat (0 # xs) = be_nat xs"
  using be_nat_append [of "[0]" xs] by (simp add: be_nat_def)

lemma be_nat_zeros [simp]: "be_nat (replicate n 0) = 0"
  by (induction n) simp_all

lemma digit_eq:
  assumes "(b :: nat) < 256" and "c < 256"
  shows "x * 256 + b = y * 256 + c \<longleftrightarrow> x = y \<and> b = c"
proof -
  have "(z * 256 + d) div 256 = z" "(z * 256 + d) mod 256 = d" if "(d :: nat) < 256" for z d
    using that by simp_all
  with assms show ?thesis by metis
qed

lemma be_nat_inject: "length xs = length ys \<Longrightarrow> be_nat xs = be_nat ys \<longleftrightarrow> xs = ys"
proof (induction xs arbitrary: ys rule: rev_induct)
  case (snoc b xs)
  then obtain ys' c where ys: "ys = ys' @ [c]" "length ys' = length xs"
    by (cases ys rule: rev_exhaust) auto
  have "be_nat xs * 256 + unat b = be_nat ys' * 256 + unat c \<longleftrightarrow> be_nat xs = be_nat ys' \<and> unat b = unat c"
    by (rule digit_eq) simp_all
  with snoc.IH [of ys'] ys show ?case by (auto simp: word_unat_eq_iff)
qed simp

lemma be_nat_take_Suc: "i < length x \<Longrightarrow> be_nat (take (Suc i) x) = be_nat (take i x) * 256 + unat (x ! i)"
  by (simp add: take_Suc_conv_app_nth)

section \<open>Lookup tables\<close>

text \<open>The entries of a table at even and at odd positions.\<close>

fun evens :: "'a list \<Rightarrow> 'a list" where
  "evens (a # b # xs) = a # evens xs"
| "evens xs = []"

fun odds :: "'a list \<Rightarrow> 'a list" where
  "odds (a # b # xs) = b # odds xs"
| "odds xs = []"

lemma nth_evens: "2 * k + 1 < length xs \<Longrightarrow> evens xs ! k = xs ! (2 * k)"
  by (induction xs arbitrary: k rule: evens.induct) (auto simp: nth_Cons split: nat.splits)

lemma nth_odds: "2 * k + 1 < length xs \<Longrightarrow> odds xs ! k = xs ! (2 * k + 1)"
  by (induction xs arbitrary: k rule: odds.induct) (auto simp: nth_Cons split: nat.splits)

lemma length_evens: "length (evens xs) = length xs div 2"
  by (induction xs rule: evens.induct) auto

lemma length_odds: "length (odds xs) = length xs div 2"
  by (induction xs rule: odds.induct) auto

lemma funpow_8: "(f ^^ 8) x = f (f (f (f (f (f (f (f x)))))))"
  by (simp add: eval_nat_numeral)

section \<open>Hash buckets\<close>

text \<open>Buckets without repetitions whose elements are where their names (\<open>nm\<close>) belong have no
  repetitions together.\<close>

lemma distinct_buckets:
  assumes "\<forall>i < length bs. distinct (map nm (bs ! i)) \<and> (\<forall>t \<in> set (bs ! i). f (nm t) = off + i)"
  shows "distinct (map nm (concat bs))"
  using assms
proof (induction bs arbitrary: off)
  case (Cons b bs)
  have hd: "distinct (map nm b)" "\<forall>t \<in> set b. f (nm t) = off"
    using Cons.prems by force+
  have tl: "\<forall>i < length bs. distinct (map nm (bs ! i)) \<and> (\<forall>t \<in> set (bs ! i). f (nm t) = Suc off + i)"
    using Cons.prems by force
  then have later: "t \<in> set b' \<Longrightarrow> b' \<in> set bs \<Longrightarrow> off < f (nm t)" for t b'
    by (metis (no_types) add_Suc in_set_conv_nth less_add_Suc1)
  have "nm ` set b \<inter> nm ` set (concat bs) = {}"
    using hd(2) later by fastforce
  with hd(1) Cons.IH [OF tl] show ?case
    by (simp add: Int_commute)
qed simp

end
