(* ===== verification/C_Stdlib.thy ===== *)
theory C_Stdlib
  imports Fw_Prelude
begin

text \<open>
  The part of the C library that the modelled tools call: character classes, the
  number parsers \<^verbatim>\<open>strtoul\<close>, \<^verbatim>\<open>strtol\<close> and \<^verbatim>\<open>atoi\<close> for a 32-bit \<^verbatim>\<open>long\<close>, as most targets of
  the firmware have it (on the 64-bit targets, x86_64, octeon and malta, only numbers that are negative or do not fit into 32 bits are read differently), the number conversions of \<^verbatim>\<open>printf\<close>, and C strings
  stored as bytes. A C string is a \<^typ>\<open>string\<close> or a \<^typ>\<open>byte list\<close> without its
  terminating NUL.
\<close>

section \<open>Character classes and digits\<close>

definition c_isspace :: "char \<Rightarrow> bool" where
  "c_isspace c = (of_char c = (32 :: nat) \<or> 9 \<le> (of_char c :: nat) \<and> (of_char c :: nat) \<le> 13)"

definition digit_val :: "char \<Rightarrow> nat option" where
  "digit_val c = (let n = of_char c in
     if 48 \<le> n \<and> n \<le> 57 then Some (n - 48)
     else if 97 \<le> n \<and> n \<le> 122 then Some (n - 87)
     else if 65 \<le> n \<and> n \<le> 90 then Some (n - 55)
     else None)"

definition is_digit_in :: "nat \<Rightarrow> char \<Rightarrow> bool" where
  "is_digit_in base c = (case digit_val c of None \<Rightarrow> False | Some d \<Rightarrow> d < base)"

fun scan_digits :: "nat \<Rightarrow> string \<Rightarrow> nat list \<times> string" where
  "scan_digits base [] = ([], [])"
| "scan_digits base (c # cs) =
     (case digit_val c of
        None \<Rightarrow> ([], c # cs)
      | Some d \<Rightarrow>
          if d < base then (let (ds, r) = scan_digits base cs in (d # ds, r))
          else ([], c # cs))"

definition digits_value :: "nat \<Rightarrow> nat list \<Rightarrow> nat" where
  "digits_value base ds = foldl (\<lambda>v d. v * base + d) 0 ds"

section \<open>strtoul, strtol and atoi\<close>

text \<open>An optional sign: whether it is a minus, and the rest of the text.\<close>

definition strto_sign :: "string \<Rightarrow> bool \<times> string" where
  "strto_sign s =
     (case s of [] \<Rightarrow> (False, [])
      | c # cs \<Rightarrow> if c = CHR ''-'' then (True, cs)
                  else if c = CHR ''+'' then (False, cs) else (False, s))"

text \<open>
  The base the digits are read in and the text after a \<^verbatim>\<open>0x\<close> prefix. The prefix counts
  only when a hexadecimal digit follows it.
\<close>

definition strto_base :: "nat \<Rightarrow> string \<Rightarrow> nat \<times> string" where
  "strto_base base s =
     (if (base = 0 \<or> base = 16) \<and>
         (case s of z # x # d # _ \<Rightarrow>
            z = CHR ''0'' \<and> (x = CHR ''x'' \<or> x = CHR ''X'') \<and> is_digit_in 16 d
          | _ \<Rightarrow> False)
      then (16, drop 2 s)
      else if base = 0
      then (case s of z # _ \<Rightarrow> if z = CHR ''0'' then (8, s) else (10, s) | [] \<Rightarrow> (10, s))
      else (base, s))"

text \<open>
  The digits of the subject sequence: \<open>None\<close> when there is none (then the end pointer
  is the start of the text), otherwise the sign, the magnitude and the end.
\<close>

definition strto_scan :: "nat \<Rightarrow> string \<Rightarrow> (bool \<times> nat \<times> string) option" where
  "strto_scan base s =
     (let (neg, s2) = strto_sign (dropWhile c_isspace s);
          (b, s3) = strto_base base s2;
          (ds, r) = scan_digits b s3
      in if ds = [] then None else Some (neg, digits_value b ds, r))"

definition strtoul :: "nat \<Rightarrow> string \<Rightarrow> u32 \<times> string" where
  "strtoul base s =
     (case strto_scan base s of
        None \<Rightarrow> (0, s)
      | Some (neg, v, r) \<Rightarrow>
          (if v \<ge> 2 ^ 32 then - 1 else if neg then - of_nat v else of_nat v, r))"

definition strtol :: "nat \<Rightarrow> string \<Rightarrow> int \<times> string" where
  "strtol base s =
     (case strto_scan base s of
        None \<Rightarrow> (0, s)
      | Some (neg, v, r) \<Rightarrow>
          (if neg then max (- (2 ^ 31)) (- int v) else min (2 ^ 31 - 1) (int v), r))"

definition atoi :: "string \<Rightarrow> int" where
  "atoi s = fst (strtol 10 s)"

text \<open>
  A numeric conversion of \<^verbatim>\<open>scanf\<close> in base 10 or 16: leading white space is skipped, at most
  \<open>width\<close> characters are read, and a \<^verbatim>\<open>0x\<close> without a digit behind it is a matching failure.
  The result is the sign, the magnitude and the unread text.
\<close>

definition scan_num :: "nat \<Rightarrow> nat \<Rightarrow> string \<Rightarrow> (bool \<times> nat \<times> string) option" where
  "scan_num base width s =
     (let s0 = dropWhile c_isspace s;
          (neg, w2) = strto_sign (take width s0);
          (b, w3) = strto_base base w2;
          (ds, r) = scan_digits b w3
      in if ds = [] then None
         else if base = 16 \<and> b = 16 \<and> w3 = w2 \<and>
                 (case w2 of z # x # _ \<Rightarrow> z = CHR ''0'' \<and> (x = CHR ''x'' \<or> x = CHR ''X'') | _ \<Rightarrow> False)
              then None
         else Some (neg, digits_value b ds, r @ drop width s0))"

text \<open>A literal text of a \<^verbatim>\<open>scanf\<close> format: every character has to match.\<close>

fun scan_lit :: "string \<Rightarrow> string \<Rightarrow> string option" where
  "scan_lit [] s = Some s"
| "scan_lit (c # cs) [] = None"
| "scan_lit (c # cs) (d # ds) = (if c = d then scan_lit cs ds else None)"

section \<open>Numbers as printf writes them\<close>

definition hex_char :: "bool \<Rightarrow> nat \<Rightarrow> char" where
  "hex_char upper d =
     char_of (if d < 10 then 48 + d else if upper then 55 + d else 87 + d)"

text \<open>
  \<open>hex_fixed upper w v\<close> is the text of \<^verbatim>\<open>%0wX\<close> (\<^verbatim>\<open>%0wx\<close>) for a value below \<open>16 ^ w\<close>.
\<close>

fun hex_fixed :: "bool \<Rightarrow> nat \<Rightarrow> nat \<Rightarrow> string" where
  "hex_fixed upper 0 v = []"
| "hex_fixed upper (Suc w) v = hex_fixed upper w (v div 16) @ [hex_char upper (v mod 16)]"

fun dec_of_nat :: "nat \<Rightarrow> string" where
  "dec_of_nat n =
     (if n < 10 then [char_of (48 + n)] else dec_of_nat (n div 10) @ [char_of (48 + n mod 10)])"

declare dec_of_nat.simps [simp del]

definition dec_of_int :: "int \<Rightarrow> string" where
  "dec_of_int n = (if n < 0 then CHR ''-'' # dec_of_nat (nat (- n)) else dec_of_nat (nat n))"

section \<open>C strings in memory\<close>

definition byte_of_char :: "char \<Rightarrow> byte" where
  "byte_of_char c = of_nat (of_char c)"

definition cstr :: "string \<Rightarrow> byte list" where
  "cstr s = map byte_of_char s"

definition str_of_bytes :: "byte list \<Rightarrow> string" where
  "str_of_bytes bs = map (\<lambda>b. char_of (unat b)) bs"

text \<open>The string that starts at the beginning of a memory area, \<open>None\<close> when the area
  holds no NUL (reading it would leave the area).\<close>

fun c_string_at :: "byte list \<Rightarrow> byte list option" where
  "c_string_at [] = None"
| "c_string_at (b # bs) = (if b = 0 then Some [] else map_option ((#) b) (c_string_at bs))"

section \<open>Address conversion\<close>

text \<open>\<^verbatim>\<open>inet_pton\<close> and \<^verbatim>\<open>inet_ntop\<close> are not part of the sources: a tool that calls them takes them as
  an argument. The bytes are in network order.\<close>

record inet =
  pton4 :: "string \<Rightarrow> byte list option"
  pton6 :: "string \<Rightarrow> byte list option"
  ntop4 :: "byte list \<Rightarrow> string"
  ntop6 :: "byte list \<Rightarrow> string"

section \<open>Lemmas\<close>

lemma digits_value_append:
  "digits_value base (ds @ [d]) = digits_value base ds * base + d"
  by (simp add: digits_value_def)

lemma of_char_char_of_small [simp]: "n < 256 \<Longrightarrow> of_char (char_of n :: char) = (n :: nat)"
  by simp

lemma digit_val_hex_char [simp]:
  assumes "d < 16"
  shows "digit_val (hex_char upper d) = Some d"
  using assms by (auto simp: digit_val_def hex_char_def Let_def)

lemma digit_val_dec_char [simp]: "d < 10 \<Longrightarrow> digit_val (char_of (48 + d)) = Some d"
  by (simp add: digit_val_def Let_def)

fun hex_digits :: "nat \<Rightarrow> nat \<Rightarrow> nat list" where
  "hex_digits 0 v = []"
| "hex_digits (Suc w) v = hex_digits w (v div 16) @ [v mod 16]"

lemma digits_value_hex_digits: "digits_value 16 (hex_digits w v) = v mod 16 ^ w"
proof (induction w v rule: hex_digits.induct)
  case (1 v)
  then show ?case by (simp add: digits_value_def)
next
  case (2 w v)
  have "v mod 16 ^ Suc w = (v div 16 mod 16 ^ w) * 16 + v mod 16"
    by (simp add: mod_mult2_eq)
  with 2 show ?case
    by (simp add: digits_value_append)
qed

lemma hex_digits_nonempty: "0 < w \<Longrightarrow> hex_digits w v \<noteq> []"
  by (cases w) auto

lemma length_hex_fixed [simp]: "length (hex_fixed upper w v) = w"
  by (induction upper w v rule: hex_fixed.induct) auto

lemma scan_digits_append_valid:
  assumes "\<forall>c \<in> set s. is_digit_in base c"
  shows "scan_digits base (s @ r) = (let (ds, r') = scan_digits base r in (map (the \<circ> digit_val) s @ ds, r'))"
  using assms
  by (induction s) (auto simp: is_digit_in_def Let_def split: option.splits prod.splits)

lemma hex_fixed_map: "hex_fixed upper w v = map (hex_char upper) (hex_digits w v)"
  by (induction upper w v rule: hex_fixed.induct) auto

lemma hex_digits_bound: "d \<in> set (hex_digits w v) \<Longrightarrow> d < 16"
  by (induction w v rule: hex_digits.induct) auto

lemma is_digit_hex_char: "d < 16 \<Longrightarrow> is_digit_in 16 (hex_char upper d)"
  by (simp add: is_digit_in_def)

lemma scan_digits_hex_fixed:
  "scan_digits 16 (hex_fixed upper w v @ r) =
     (let (ds, r') = scan_digits 16 r in (hex_digits w v @ ds, r'))"
proof -
  have "\<forall>c \<in> set (hex_fixed upper w v). is_digit_in 16 c"
    by (auto simp: hex_fixed_map intro: is_digit_hex_char hex_digits_bound)
  moreover have "map (the \<circ> digit_val) (hex_fixed upper w v) = hex_digits w v"
    by (auto simp: hex_fixed_map intro!: map_idI dest: hex_digits_bound)
  ultimately show ?thesis
    by (simp add: scan_digits_append_valid)
qed

lemma hex_fixed_Cons:
  assumes "0 < w"
  obtains c cs where "hex_fixed upper w v = c # cs" "is_digit_in 16 c"
proof -
  obtain d ds where "hex_digits w v = d # ds"
    using hex_digits_nonempty [OF assms] by (cases "hex_digits w v") auto
  moreover from this have "d < 16"
    using hex_digits_bound [of d w v] by simp
  ultimately show ?thesis
    using that by (simp add: hex_fixed_map is_digit_hex_char)
qed

lemma strto_base_0x:
  "is_digit_in 16 c \<Longrightarrow> strto_base 0 (CHR ''0'' # CHR ''x'' # c # cs) = (16, c # cs)"
  by (simp add: strto_base_def)

lemma strto_scan_0x_hex_fixed:
  assumes "0 < w" and "v < 16 ^ w"
  shows "strto_scan 0 (''0x'' @ hex_fixed upper w v) = Some (False, v, [])"
proof -
  obtain c cs where c: "hex_fixed upper w v = c # cs" "is_digit_in 16 c"
    using assms(1) by (rule hex_fixed_Cons)
  have "scan_digits 16 (c # cs) = (hex_digits w v, [])"
    using scan_digits_hex_fixed [of upper w v "[]"] by (simp add: c(1))
  moreover have "dropWhile c_isspace (''0x'' @ hex_fixed upper w v) = ''0x'' @ hex_fixed upper w v"
    by (simp add: c_isspace_def)
  ultimately show ?thesis
    using assms hex_digits_nonempty [OF assms(1), of v]
    by (simp add: strto_scan_def strto_sign_def strto_base_0x c digits_value_hex_digits)
qed

text \<open>Reading back what \<^verbatim>\<open>0x%0wX\<close> printed gives the number, for every width that a
  32-bit value needs.\<close>

lemma strtoul_0x_hex_fixed [fw_simps]:
  assumes "0 < w" and "w \<le> 8" and "v < 16 ^ w"
  shows "strtoul 0 (''0x'' @ hex_fixed upper w v) = (of_nat v, [])"
proof -
  have "(16 :: nat) ^ w \<le> 16 ^ 8"
    using assms(2) by (intro power_increasing) auto
  with assms(3) have "v < 2 ^ 32" by simp
  then show ?thesis
    unfolding strtoul_def strto_scan_0x_hex_fixed [OF assms(1,3)] by simp
qed

lemma byte_of_char_eq_iff [simp]: "byte_of_char c = byte_of_char d \<longleftrightarrow> c = d"
proof
  assume "byte_of_char c = byte_of_char d"
  then have "unat (byte_of_char c) = unat (byte_of_char d)" by simp
  moreover have "(of_char c :: nat) < 256" "(of_char d :: nat) < 256"
    by (metis of_char_mod_256 mod_less_divisor zero_less_numeral)+
  ultimately have "(of_char c :: nat) = of_char d"
    by (simp add: byte_of_char_def unat_of_nat)
  then show "c = d" by (metis char_of_char)
qed simp

lemma of_char_less_256 [simp]: "(of_char c :: nat) < 256"
  by (metis of_char_mod_256 mod_less_divisor zero_less_numeral)

lemma unat_byte_of_char [simp]: "unat (byte_of_char c) = of_char c"
  by (simp add: byte_of_char_def unat_of_nat)

lemma str_of_bytes_cstr [simp]: "str_of_bytes (cstr s) = s"
  by (simp add: str_of_bytes_def cstr_def comp_def)

lemma cstr_eq_iff [simp]: "cstr s = cstr t \<longleftrightarrow> s = t"
  by (metis str_of_bytes_cstr)

lemma byte_of_char_neq_0 [simp]: "byte_of_char c = 0 \<longleftrightarrow> c = CHR 0x00"
proof -
  have "byte_of_char (CHR 0x00) = 0" by (simp add: byte_of_char_def)
  then show ?thesis using byte_of_char_eq_iff [of c "CHR 0x00"] by simp
qed

lemma c_string_at_append [fw_simps]:
  "0 \<notin> set s \<Longrightarrow> c_string_at (s @ 0 # r) = Some s"
  by (induction s) auto

lemma c_string_at_Some:
  "c_string_at bs = Some s \<Longrightarrow> (\<exists>r. bs = s @ 0 # r) \<and> 0 \<notin> set s"
  by (induction bs arbitrary: s) (auto split: if_splits)

lemma c_string_at_length: "c_string_at bs = Some s \<Longrightarrow> length s < length bs"
  by (drule c_string_at_Some) auto

end
