(* ===== verification/Checksum_Spec.thy ===== *)
theory Checksum_Spec
  imports Fw_Prelude
begin

unbundle bit_operations_syntax

text \<open>
  What the checksums of the firmware have in common. A \<open>checksum\<close> takes a message into a register byte by byte; if a step is injective in
  the register and in the byte, the change of a single byte is detected. The division by a polynomial is such a
  checksum (\<open>division\<close>): a byte is added to the register, which is then shifted eight times. A \<open>doubling_table\<close> holds
  the values of a function on the numbers below 256 if they agree along doubling and adding one.
\<close>

locale checksum =
  fixes step :: "'r \<Rightarrow> 'b \<Rightarrow> 'r"
  assumes step_register: "step c b = step d b \<longleftrightarrow> c = d"
    and step_byte: "step c a = step c b \<longleftrightarrow> a = b"
begin

lemma register_inject: "foldl step c bs = foldl step d bs \<longleftrightarrow> c = d"
  by (induction bs arbitrary: c d) (simp_all add: step_register)

lemma single_byte_error: "a \<noteq> b \<Longrightarrow> foldl step c (pre @ a # post) \<noteq> foldl step c (pre @ b # post)"
  by (simp add: register_inject step_byte)

end

lemma funpow_inj_iff: "inj (f :: 'a \<Rightarrow> 'a) \<Longrightarrow> (f ^^ n) x = (f ^^ n) y \<longleftrightarrow> x = y"
  by (induction n) (simp_all add: inj_eq)

locale division =
  fixes shift :: "'w :: len word \<Rightarrow> 'w word" and enter :: "byte \<Rightarrow> 'w word"
  assumes shift_inj: "inj shift" and enter_inj: "inj enter"

sublocale division \<subseteq> checksum "\<lambda>c b. (shift ^^ 8) (c XOR enter b)"
  by unfold_locales
    (simp_all add: funpow_inj_iff [OF shift_inj] word_xor_cancel_right word_xor_cancel_left inj_eq [OF enter_inj])

locale doubling_table =
  fixes table :: "'w list" and val :: "nat \<Rightarrow> 'w"
  assumes table_0: "table ! 0 = val 0"
    and table_even: "\<lbrakk>0 < k; k < 128; table ! k = val k\<rbrakk> \<Longrightarrow> table ! (2 * k) = val (2 * k)"
    and table_odd: "\<lbrakk>k < 128; table ! (2 * k) = val (2 * k)\<rbrakk> \<Longrightarrow> table ! Suc (2 * k) = val (Suc (2 * k))"
begin

lemma table_val: "k < 256 \<Longrightarrow> table ! k = val k"
proof (induction k rule: less_induct)
  case (less k)
  have ev: "table ! (2 * j) = val (2 * j)" if "j < 128" "2 * j \<le> k" for j
    using that less.IH [of j] less.prems by (cases "j = 0") (simp_all add: table_0 table_even)
  consider j where "k = 2 * j" | j where "k = Suc (2 * j)" by (metis evenE oddE add.commute plus_1_eq_Suc)
  then show ?case using ev less.prems by cases (simp_all add: table_odd)
qed

end

text \<open>The table of a division with the low bit first: the entry of \<open>k\<close> is one shift of the entry of \<open>2 * k\<close>, and the
  entry of \<open>2 * k + 1\<close> that of \<open>2 * k\<close> with the entry of 1 added.\<close>

locale reflected_table =
  fixes shift :: "'w :: len word \<Rightarrow> 'w word" and table :: "'w word list"
  assumes shift_inject: "inj shift"
    and shift_xor: "shift (a XOR b) = shift a XOR shift b"
    and shift_even: "k < 128 \<Longrightarrow> shift (of_nat (2 * k)) = of_nat k"
    and length_table: "length table = 256"
    and table_first: "table ! 0 = 0"
    and table_evens: "map shift (evens table) = take 128 table"
    and table_odds: "odds table = map (\<lambda>c. c XOR (shift ^^ 8) 1) (evens table)"
begin

lemma shifts_xor: "(shift ^^ n) (a XOR b) = (shift ^^ n) a XOR (shift ^^ n) b"
  by (induction n) (auto simp: shift_xor)

lemma shifts_zero: "(shift ^^ n) 0 = 0"
  using shifts_xor [of n 0 0] by simp

lemma nth_table: "k < 128 \<Longrightarrow> table ! k = shift (table ! (2 * k))"
    "k < 128 \<Longrightarrow> table ! Suc (2 * k) = table ! (2 * k) XOR (shift ^^ 8) 1"
  using arg_cong [OF table_evens, of "\<lambda>xs. xs ! k"] arg_cong [OF table_odds, of "\<lambda>xs. xs ! k"]
  by (simp_all add: length_table length_evens nth_evens nth_odds)

end

sublocale reflected_table \<subseteq> doubling_table table "\<lambda>k. (shift ^^ 8) (of_nat k)"
proof
  show "table ! 0 = (shift ^^ 8) (of_nat 0)" by (simp add: table_first shifts_zero)
next
  fix k assume "k < 128" and "table ! k = (shift ^^ 8) (of_nat k)"
  then have "shift (table ! (2 * k)) = shift ((shift ^^ 8) (of_nat (2 * k)))"
    by (metis nth_table(1) shift_even funpow_swap1)
  then show "table ! (2 * k) = (shift ^^ 8) (of_nat (2 * k))" by (rule injD [OF shift_inject])
next
  fix k assume "k < 128" and "table ! (2 * k) = (shift ^^ 8) (of_nat (2 * k))"
  moreover have "(of_nat (Suc (2 * k)) :: 'w word) = of_nat (2 * k) XOR 1" by (simp add: xor_one_eq)
  ultimately show "table ! Suc (2 * k) = (shift ^^ 8) (of_nat (Suc (2 * k)))" by (simp only: nth_table(2) shifts_xor)
qed

end
