(* ===== verification/Nvram_Crc.thy ===== *)
theory Nvram_Crc
  imports C_Stdlib Checksum_Spec
begin

text \<open>
  The CRC-8 of the NVRAM partition (\<^verbatim>\<open>package/utils/nvram/src/crc.c\<close>): the lookup table as
  the source has it, the byte loop \<^verbatim>\<open>hndcrc8\<close>, and the bit-serial division by the
  polynomial that the comment of the source names, to which the table is proved equal.
\<close>

section \<open>The table-driven routine\<close>

definition crc8_table :: "byte list" where
  "crc8_table = [
    0x00, 0xF7, 0xB9, 0x4E, 0x25, 0xD2, 0x9C, 0x6B,
    0x4A, 0xBD, 0xF3, 0x04, 0x6F, 0x98, 0xD6, 0x21,
    0x94, 0x63, 0x2D, 0xDA, 0xB1, 0x46, 0x08, 0xFF,
    0xDE, 0x29, 0x67, 0x90, 0xFB, 0x0C, 0x42, 0xB5,
    0x7F, 0x88, 0xC6, 0x31, 0x5A, 0xAD, 0xE3, 0x14,
    0x35, 0xC2, 0x8C, 0x7B, 0x10, 0xE7, 0xA9, 0x5E,
    0xEB, 0x1C, 0x52, 0xA5, 0xCE, 0x39, 0x77, 0x80,
    0xA1, 0x56, 0x18, 0xEF, 0x84, 0x73, 0x3D, 0xCA,
    0xFE, 0x09, 0x47, 0xB0, 0xDB, 0x2C, 0x62, 0x95,
    0xB4, 0x43, 0x0D, 0xFA, 0x91, 0x66, 0x28, 0xDF,
    0x6A, 0x9D, 0xD3, 0x24, 0x4F, 0xB8, 0xF6, 0x01,
    0x20, 0xD7, 0x99, 0x6E, 0x05, 0xF2, 0xBC, 0x4B,
    0x81, 0x76, 0x38, 0xCF, 0xA4, 0x53, 0x1D, 0xEA,
    0xCB, 0x3C, 0x72, 0x85, 0xEE, 0x19, 0x57, 0xA0,
    0x15, 0xE2, 0xAC, 0x5B, 0x30, 0xC7, 0x89, 0x7E,
    0x5F, 0xA8, 0xE6, 0x11, 0x7A, 0x8D, 0xC3, 0x34,
    0xAB, 0x5C, 0x12, 0xE5, 0x8E, 0x79, 0x37, 0xC0,
    0xE1, 0x16, 0x58, 0xAF, 0xC4, 0x33, 0x7D, 0x8A,
    0x3F, 0xC8, 0x86, 0x71, 0x1A, 0xED, 0xA3, 0x54,
    0x75, 0x82, 0xCC, 0x3B, 0x50, 0xA7, 0xE9, 0x1E,
    0xD4, 0x23, 0x6D, 0x9A, 0xF1, 0x06, 0x48, 0xBF,
    0x9E, 0x69, 0x27, 0xD0, 0xBB, 0x4C, 0x02, 0xF5,
    0x40, 0xB7, 0xF9, 0x0E, 0x65, 0x92, 0xDC, 0x2B,
    0x0A, 0xFD, 0xB3, 0x44, 0x2F, 0xD8, 0x96, 0x61,
    0x55, 0xA2, 0xEC, 0x1B, 0x70, 0x87, 0xC9, 0x3E,
    0x1F, 0xE8, 0xA6, 0x51, 0x3A, 0xCD, 0x83, 0x74,
    0xC1, 0x36, 0x78, 0x8F, 0xE4, 0x13, 0x5D, 0xAA,
    0x8B, 0x7C, 0x32, 0xC5, 0xAE, 0x59, 0x17, 0xE0,
    0x2A, 0xDD, 0x93, 0x64, 0x0F, 0xF8, 0xB6, 0x41,
    0x60, 0x97, 0xD9, 0x2E, 0x45, 0xB2, 0xFC, 0x0B,
    0xBE, 0x49, 0x07, 0xF0, 0x9B, 0x6C, 0x22, 0xD5,
    0xF4, 0x03, 0x4D, 0xBA, 0xD1, 0x26, 0x68, 0x9F]"

text \<open>\<^verbatim>\<open>while (nbytes-- > 0) crc = crc8_table[(crc ^ *pdata++) & 0xff];\<close>\<close>

fun hndcrc8 :: "byte list \<Rightarrow> byte \<Rightarrow> byte" where
  "hndcrc8 [] crc = crc"
| "hndcrc8 (b # pdata) crc = hndcrc8 pdata (crc8_table ! unat ((crc XOR b) AND 0xff))"

section \<open>The polynomial division it implements\<close>

text \<open>
  The polynomial \<open>x^8 + x^7 + x^6 + x^4 + x^2 + 1\<close> without its leading term is \<open>0xD5\<close>;
  the routine shifts right, so it uses the reflected \<open>0xAB\<close>.
\<close>

definition crc8_shift :: "byte \<Rightarrow> byte" where
  "crc8_shift c = (if bit c 0 then drop_bit 1 c XOR 0xAB else drop_bit 1 c)"

definition crc8_serial :: "byte list \<Rightarrow> byte \<Rightarrow> byte" where
  "crc8_serial bs crc = foldl (\<lambda>c b. (crc8_shift ^^ 8) (c XOR b)) crc bs"

lemma length_crc8_table [simp]: "length crc8_table = 256"
  by (simp add: crc8_table_def)

lemma bit_crc8_shift_7: "bit (crc8_shift c) 7 = bit c 0"
  by (auto simp: crc8_shift_def bit_simps dest: bit_imp_le_length)

lemma crc8_shift_inj: "inj crc8_shift"
proof (rule injI)
  fix a b :: byte
  assume eq: "crc8_shift a = crc8_shift b"
  have low: "bit a 0 = bit b 0"
    using eq by (metis bit_crc8_shift_7)
  with eq have high: "drop_bit 1 a = drop_bit 1 b"
    by (auto simp: crc8_shift_def split: if_splits)
  show "a = b"
  proof (rule bit_word_eqI)
    fix n
    show "bit a n = bit b n"
    proof (cases n)
      case 0
      with low show ?thesis by simp
    next
      case (Suc m)
      have "bit (drop_bit 1 a) m = bit (drop_bit 1 b) m"
        by (simp only: high)
      with Suc show ?thesis by (simp add: bit_drop_bit_eq)
    qed
  qed
qed

lemma crc8_shift_xor: "crc8_shift (a XOR b) = crc8_shift a XOR crc8_shift b"
  by (rule bit_word_eqI) (auto simp: crc8_shift_def bit_simps)

text \<open>The table is checked against the shift entry by entry, as the contract of a table requires.\<close>

lemma crc8_shift_even: "k < 128 \<Longrightarrow> crc8_shift (of_nat (2 * k)) = of_nat k"
proof -
  assume "k < 128"
  then have "drop_bit 1 (of_nat (2 * k) :: byte) = of_nat k"
    by (simp add: drop_bit_eq_div word_unat_eq_iff unat_div unat_of_nat del: of_nat_mult)
  moreover have "\<not> bit (of_nat (2 * k) :: byte) 0" by (simp add: bit_0)
  ultimately show ?thesis by (simp add: crc8_shift_def)
qed

lemma crc8_shift8_1: "(crc8_shift ^^ 8) 1 = 0xF7"
  by (simp add: funpow_8 crc8_shift_def)

interpretation crc8_tab: reflected_table crc8_shift crc8_table
proof
  show "map crc8_shift (evens crc8_table) = take 128 crc8_table" by (simp add: crc8_table_def crc8_shift_def)
  show "odds crc8_table = map (\<lambda>c. c XOR (crc8_shift ^^ 8) 1) (evens crc8_table)" unfolding crc8_shift8_1 by (simp add: crc8_table_def)
  show "crc8_table ! 0 = 0" by (simp add: crc8_table_def)
qed (simp_all only: crc8_shift_inj crc8_shift_xor crc8_shift_even length_crc8_table)

lemma crc8_table_nth: "crc8_table ! unat (c :: byte) = (crc8_shift ^^ 8) c"
  by (simp add: crc8_tab.table_val)

lemma byte_and_ff [simp]: "(c :: byte) AND 0xff = c"
proof -
  have "(0xff :: byte) = - 1" by simp
  then show ?thesis by (simp only: and.right_neutral)
qed

lemma hndcrc8_serial: "hndcrc8 bs crc = crc8_serial bs crc"
  by (induction bs crc rule: hndcrc8.induct) (simp_all add: crc8_serial_def crc8_table_nth)

lemma hndcrc8_append: "hndcrc8 (xs @ ys) crc = hndcrc8 ys (hndcrc8 xs crc)"
  by (induction xs crc rule: hndcrc8.induct) auto

text \<open>
  Two messages of equal length that differ in exactly one byte have different CRCs: the
  division step is injective in the register and in the byte.
\<close>

interpretation crc8: division crc8_shift "\<lambda>b. b"
  by unfold_locales (simp_all add: crc8_shift_inj)

lemma hndcrc8_single_byte_error:
  "b \<noteq> b' \<Longrightarrow> hndcrc8 (pre @ b # post) crc \<noteq> hndcrc8 (pre @ b' # post) crc"
  using crc8.single_byte_error [of b b' crc pre post] by (simp only: hndcrc8_serial crc8_serial_def not_False_eq_True)

end
