(* ===== verification/Nvram.thy ===== *)
theory Nvram
  imports Store_Spec Nvram_Crc
begin

text \<open>
  The NVRAM library (\<^verbatim>\<open>package/utils/nvram/src/nvram.c\<close>, \<^verbatim>\<open>nvram.h\<close>): the hash table of
  variables, the parser that fills it from the flash area, and the commit that writes
  header, variables and CRC back. The table is shown to implement a finite map (the
  store contract of \<open>Store_Spec\<close>), and a commit is shown to stay inside the NVRAM
  space and to lose no variable that fits.

  A tuple's strings are byte lists without the terminating NUL; a bucket, a linked list
  in C, is a list. The library is built for a little endian target (brcm47xx) and a big
  endian one (ar71xx), so what reads or writes header words takes the byte order. The
  allocator's answers are an argument \<open>ok\<close>: \<open>ok n\<close> says whether a request for \<open>n\<close>
  bytes succeeds during the call.
\<close>

section \<open>Data\<close>

definition NVRAM_SPACE :: nat where "NVRAM_SPACE = 0x8000"
definition NVRAM_MAGIC :: u32 where "NVRAM_MAGIC = 0x48534C46"
definition NVRAM_VERSION :: u32 where "NVRAM_VERSION = 1"
definition NVRAM_CRC_START_POSITION :: nat where "NVRAM_CRC_START_POSITION = 9"

definition NVRAM_ROUNDUP :: "nat \<Rightarrow> nat \<Rightarrow> nat" where
  "NVRAM_ROUNDUP x y = ((x + (y - 1)) div y) * y"

text \<open>\<^verbatim>\<open>sdinitvals.h\<close>: the SDRAM defaults of the header.\<close>

definition SDRAM_INIT :: u32 where "SDRAM_INIT = 0x419"
definition SDRAM_CONFIG :: u32 where "SDRAM_CONFIG = 0x0000"
definition SDRAM_REFRESH :: u32 where "SDRAM_REFRESH = (0x40 AND 0xff) OR 0x8000"

record nvram_tuple =
  tname :: "byte list"
  tvalue :: "byte list option"   \<comment> \<open>\<open>None\<close> is the NULL pointer\<close>

record nvram_handle =
  nv_mmap :: "byte list"
  nv_offset :: nat
  nvram_hash :: "nvram_tuple list list"
  nvram_dead :: "nvram_tuple list"

definition sizeof_tuple :: nat where "sizeof_tuple = 12"
definition sizeof_header :: nat where "sizeof_header = 20"

section \<open>Helper functions\<close>

text \<open>\<^verbatim>\<open>hash = 31 * hash + *s++\<close>, with the \<^verbatim>\<open>char\<close> sign extended.\<close>

definition hash :: "byte list \<Rightarrow> u32" where
  "hash s = foldl (\<lambda>h c. 31 * h + scast c) 0 s"

definition nvram_bucket :: "byte list \<Rightarrow> nat" where
  "nvram_bucket name = unat (hash name) mod 257"

definition nvram_free :: "nvram_handle \<Rightarrow> nvram_handle" where
  "nvram_free h = h\<lparr>nvram_hash := map (\<lambda>_. []) (nvram_hash h), nvram_dead := []\<rparr>"

text \<open>
  \<^verbatim>\<open>_nvram_realloc\<close>: the state of the tuple \<open>t\<close> afterwards (a failed \<^verbatim>\<open>realloc\<close> has already
  overwritten its value pointer with NULL) and the returned tuple. When \<open>t\<close> is not NULL
  the returned pointer is \<open>t\<close> itself.
\<close>

definition nvram_realloc ::
  "(nat \<Rightarrow> bool) \<Rightarrow> nvram_tuple option \<Rightarrow> byte list \<Rightarrow> byte list \<Rightarrow>
     nvram_tuple option \<times> nvram_tuple option" where
  "nvram_realloc ok t name value =
     (if length value + 1 > NVRAM_SPACE then (t, None)
      else case t of
        None \<Rightarrow>
          if \<not> ok (sizeof_tuple + length name + 1) then (None, None)
          else if \<not> ok (length value + 1) then (None, None)
          else (None, Some \<lparr>tname = name, tvalue = Some value\<rparr>)
      | Some t' \<Rightarrow>
          if tvalue t' = Some value then (Some t', Some t')
          else if \<not> ok (length value + 1) then (Some (t'\<lparr>tvalue := None\<rparr>), None)
          else (let u = t'\<lparr>tvalue := Some value\<rparr> in (Some u, Some u)))"

section \<open>Public functions on the table\<close>

definition nvram_get :: "nvram_handle \<Rightarrow> byte list \<Rightarrow> byte list option" where
  "nvram_get h name =
     (case dropWhile (\<lambda>t. tname t \<noteq> name) (nvram_hash h ! nvram_bucket name) of
        [] \<Rightarrow> None
      | t # _ \<Rightarrow> tvalue t)"

text \<open>
  The new handle and the return code. The branch of the source that moves an old tuple to
  the dead table is taken only when the reallocated tuple differs from the old one,
  which \<^verbatim>\<open>_nvram_realloc\<close> never returns.
\<close>

definition nvram_set :: "(nat \<Rightarrow> bool) \<Rightarrow> nvram_handle \<Rightarrow> byte list \<Rightarrow> byte list \<Rightarrow> nvram_handle \<times> int" where
  "nvram_set ok h name value =
     (let i = nvram_bucket name;
          b = nvram_hash h ! i;
          pre = takeWhile (\<lambda>t. tname t \<noteq> name) b
      in case dropWhile (\<lambda>t. tname t \<noteq> name) b of
           [] \<Rightarrow>
             (case nvram_realloc ok None name value of
                (_, None) \<Rightarrow> (h, - 12)
              | (_, Some u) \<Rightarrow> (h\<lparr>nvram_hash := (nvram_hash h)[i := u # b]\<rparr>, 0))
         | t # post \<Rightarrow>
             (case nvram_realloc ok (Some t) name value of
                (t', u) \<Rightarrow>
                  (h\<lparr>nvram_hash := (nvram_hash h)[i := pre @ the t' # post]\<rparr>,
                   if u = None then - 12 else 0)))"

definition nvram_unset :: "nvram_handle \<Rightarrow> byte list \<Rightarrow> nvram_handle \<times> int" where
  "nvram_unset h name =
     (let i = nvram_bucket name;
          b = nvram_hash h ! i;
          pre = takeWhile (\<lambda>t. tname t \<noteq> name) b
      in case dropWhile (\<lambda>t. tname t \<noteq> name) b of
           [] \<Rightarrow> (h, 0)
         | t # post \<Rightarrow>
             (h\<lparr>nvram_hash := (nvram_hash h)[i := pre @ post],
                nvram_dead := t # nvram_dead h\<rparr>, 0))"

text \<open>\<^verbatim>\<open>nvram_getall\<close> pushes every tuple on the front of a new list; a failed allocation
  leaves the bucket.\<close>

fun getall_bucket :: "(nat \<Rightarrow> bool) \<Rightarrow> nvram_tuple list \<Rightarrow> nvram_tuple list \<Rightarrow> nvram_tuple list" where
  "getall_bucket ok [] l = l"
| "getall_bucket ok (t # ts) l = (if ok sizeof_tuple then getall_bucket ok ts (t # l) else l)"

definition nvram_getall :: "(nat \<Rightarrow> bool) \<Rightarrow> nvram_handle \<Rightarrow> nvram_tuple list" where
  "nvram_getall ok h = fold (getall_bucket ok) (nvram_hash h) []"

section \<open>The flash area\<close>

text \<open>Word \<open>k\<close> of the header: magic, len, crc\_ver\_init, config\_refresh, config\_ncdl.\<close>

definition header_word :: "endian \<Rightarrow> nvram_handle \<Rightarrow> nat \<Rightarrow> u32" where
  "header_word en h k = u32_of_bytes en (take 4 (drop (nv_offset h + 4 * k) (nv_mmap h)))"

text \<open>
  The loop of \<^verbatim>\<open>_nvram_rehash\<close> over \<^verbatim>\<open>name=value\0 ... \0\0\<close>: \<open>bs\<close> is the mapped area from
  the \<^verbatim>\<open>name\<close> pointer on, and running off its end is undefined.
\<close>

function rehash_loop :: "(nat \<Rightarrow> bool) \<Rightarrow> nvram_handle \<Rightarrow> byte list \<Rightarrow> nvram_handle outcome" where
  "rehash_loop ok h bs =
     (case c_string_at bs of
        None \<Rightarrow> Undef
      | Some s \<Rightarrow>
          if s = [] then Ret h
          else if 61 \<notin> set s then Ret h
          else (let name = takeWhile (\<lambda>c. c \<noteq> 61) s;
                    value = drop (length name + 1) s
                in rehash_loop ok (fst (nvram_set ok h name value)) (drop (length s + 1) bs)))"
  by pat_completeness auto
termination
  by (relation "measure (\<lambda>(ok, h, bs). length bs)")
     (auto dest: c_string_at_length)

declare rehash_loop.simps [simp del]

text \<open>\<^verbatim>\<open>if (!nvram_get(h, key)) { sprintf(buf, fmt, v); nvram_set(h, key, buf); }\<close>\<close>

definition set_missing :: "(nat \<Rightarrow> bool) \<Rightarrow> string \<Rightarrow> string \<Rightarrow> nvram_handle \<Rightarrow> nvram_handle" where
  "set_missing ok key text h =
     (case nvram_get h (cstr key) of
        None \<Rightarrow> fst (nvram_set ok h (cstr key) (cstr text))
      | Some _ \<Rightarrow> h)"

definition nvram_rehash :: "endian \<Rightarrow> (nat \<Rightarrow> bool) \<Rightarrow> nvram_handle \<Rightarrow> nvram_handle outcome" where
  "nvram_rehash en ok h =
     (let h0 = nvram_free h in
      if nv_offset h + sizeof_header > length (nv_mmap h) then Undef
      else obind (rehash_loop ok h0 (drop (nv_offset h + sizeof_header) (nv_mmap h))) (\<lambda>h1.
        let civ = header_word en h 2; cr = header_word en h 3; ncdl = header_word en h 4;
            h2 = set_missing ok ''sdram_init'' (''0x'' @ hex_fixed True 4 (unat (drop_bit 16 civ))) h1;
            h3 = set_missing ok ''sdram_config'' (''0x'' @ hex_fixed True 4 (unat (cr AND 0xffff))) h2;
            h4 = set_missing ok ''sdram_refresh''
                   (''0x'' @ hex_fixed True 4 (unat (drop_bit 16 cr AND 0xffff))) h3;
            h5 = set_missing ok ''sdram_ncdl'' (''0x'' @ hex_fixed True 8 (unat ncdl)) h4
        in Ret h5))"

text \<open>
  \<^verbatim>\<open>nvram_commit\<close>. Writing the tuples of one bucket behind what is already written
  (\<open>out\<close>, from the end of the header on): the first one that does not fit ends the
  bucket. Dereferencing a NULL value is undefined.
\<close>

definition nvram_end :: nat where "nvram_end = NVRAM_SPACE - 2"

fun write_bucket :: "nvram_tuple list \<Rightarrow> byte list \<Rightarrow> byte list outcome" where
  "write_bucket [] out = Ret out"
| "write_bucket (t # ts) out =
     (case tvalue t of
        None \<Rightarrow> Undef
      | Some v \<Rightarrow>
          if sizeof_header + length out + length (tname t) + 1 + length v + 1 > nvram_end
          then Ret out
          else write_bucket ts (out @ tname t @ [61] @ v @ [0]))"

fun write_buckets :: "nvram_tuple list list \<Rightarrow> byte list \<Rightarrow> byte list outcome" where
  "write_buckets [] out = Ret out"
| "write_buckets (b # bs) out = obind (write_bucket b out) (write_buckets bs)"

text \<open>\<^verbatim>\<open>End with a double NULL and pad to 4 bytes\<close>: what is written after the tuples, and
  the header's new length.\<close>

definition finish_data :: "byte list \<Rightarrow> byte list" where
  "finish_data out =
     (let ptr = sizeof_header + length out + 1
      in out @ [0] @ (if ptr mod 4 \<noteq> 0 then replicate (4 - ptr mod 4) 0 else []))"

definition data_length :: "byte list \<Rightarrow> nat" where
  "data_length out = NVRAM_ROUNDUP (sizeof_header + length out + 2) 4"

text \<open>The header words that the SDRAM variables determine.\<close>

definition sdram_words :: "nvram_handle \<Rightarrow> u32 \<times> u32 \<times> u32" where
  "sdram_words h =
     (case (nvram_get h (cstr ''sdram_init''), nvram_get h (cstr ''sdram_config''),
            nvram_get h (cstr ''sdram_refresh''), nvram_get h (cstr ''sdram_ncdl'')) of
        (Some init, Some config, Some refresh, Some ncdl) \<Rightarrow>
          (push_bit 8 NVRAM_VERSION OR
             push_bit 16 (fst (strtoul 0 (str_of_bytes init)) AND 0xffff),
           (fst (strtoul 0 (str_of_bytes config)) AND 0xffff) OR
             push_bit 16 (fst (strtoul 0 (str_of_bytes refresh)) AND 0xffff),
           fst (strtoul 0 (str_of_bytes ncdl)))
      | _ \<Rightarrow>
          (push_bit 8 NVRAM_VERSION OR push_bit 16 SDRAM_INIT,
           SDRAM_CONFIG OR push_bit 16 SDRAM_REFRESH,
           0))"

definition header_bytes :: "endian \<Rightarrow> u32 \<Rightarrow> u32 \<Rightarrow> u32 \<Rightarrow> u32 \<Rightarrow> u32 \<Rightarrow> byte list" where
  "header_bytes en magic len civ cr ncdl =
     concat (map (bytes_of_u32 en) [magic, len, civ, cr, ncdl])"

text \<open>The CRC: over the header from byte 9 on with the words magic, len and the CRC itself
  zero, then over the data bytes.\<close>

definition commit_crc :: "endian \<Rightarrow> u32 \<Rightarrow> u32 \<Rightarrow> u32 \<Rightarrow> byte list \<Rightarrow> byte" where
  "commit_crc en civ cr ncdl data =
     hndcrc8 data
       (hndcrc8 (drop NVRAM_CRC_START_POSITION (header_bytes en 0 0 civ cr ncdl)) 0xff)"

definition commit_area :: "endian \<Rightarrow> nvram_handle \<Rightarrow> byte list \<Rightarrow> byte list" where
  "commit_area en h out =
     (let (civ, cr, ncdl) = sdram_words h;
          fin = finish_data out;
          area = fin @ replicate (NVRAM_SPACE - sizeof_header - length fin) 0xFF;
          len = data_length out;
          crc = commit_crc en civ cr ncdl (take (len - sizeof_header) area)
      in header_bytes en NVRAM_MAGIC (of_nat len) (civ OR ucast crc) cr ncdl @ area)"

definition nvram_commit :: "endian \<Rightarrow> (nat \<Rightarrow> bool) \<Rightarrow> nvram_handle \<Rightarrow> nvram_handle outcome" where
  "nvram_commit en ok h =
     (if nv_offset h + NVRAM_SPACE > length (nv_mmap h) then Undef
      else obind (write_buckets (nvram_hash h) []) (\<lambda>out.
        nvram_rehash en ok
          (h\<lparr>nv_mmap := take (nv_offset h) (nv_mmap h) @ commit_area en h out @
                        drop (nv_offset h + NVRAM_SPACE) (nv_mmap h)\<rparr>)))"

section \<open>The table implements a finite map\<close>

definition bucket_get :: "nvram_tuple list \<Rightarrow> byte list \<Rightarrow> byte list option" where
  "bucket_get b name =
     (case dropWhile (\<lambda>t. tname t \<noteq> name) b of [] \<Rightarrow> None | t # _ \<Rightarrow> tvalue t)"

text \<open>The invariant of the table: 257 buckets, every tuple in the bucket of its name, no
  name twice in a bucket.\<close>

definition table_ok :: "nvram_handle \<Rightarrow> bool" where
  "table_ok h \<longleftrightarrow> length (nvram_hash h) = 257 \<and>
     (\<forall>i < 257. distinct (map tname (nvram_hash h ! i)) \<and>
        (\<forall>t \<in> set (nvram_hash h ! i). nvram_bucket (tname t) = i))"

definition nvram_accepts :: "(nat \<Rightarrow> bool) \<Rightarrow> byte list \<Rightarrow> byte list \<Rightarrow> bool" where
  "nvram_accepts ok name value \<longleftrightarrow>
     length value + 1 \<le> NVRAM_SPACE \<and>
     ok (sizeof_tuple + length name + 1) \<and> ok (length value + 1)"

lemma nvram_bucket_less [simp]: "nvram_bucket name < 257"
  by (simp add: nvram_bucket_def)

lemma nvram_get_bucket: "nvram_get h name = bucket_get (nvram_hash h ! nvram_bucket name) name"
  by (simp add: nvram_get_def bucket_get_def)

lemma bucket_get_Nil [simp]: "bucket_get [] name = None"
  by (simp add: bucket_get_def)

lemma bucket_get_Cons [simp]:
  "bucket_get (t # b) name = (if tname t = name then tvalue t else bucket_get b name)"
  by (simp add: bucket_get_def)

lemma bucket_get_append:
  "bucket_get (xs @ ys) name =
     (if \<exists>t \<in> set xs. tname t = name then bucket_get xs name else bucket_get ys name)"
  by (induction xs) auto

text \<open>The search loop of \<^verbatim>\<open>nvram_set\<close> and \<^verbatim>\<open>nvram_unset\<close> either runs off the bucket or stops
  at the first tuple of that name.\<close>

lemma bucketE:
  obtains (absent) "\<forall>t \<in> set b. tname t \<noteq> name"
  | (found) pre t post where "b = pre @ t # post" "tname t = name" "\<forall>x \<in> set pre. tname x \<noteq> name"
proof (cases "\<exists>t \<in> set b. tname t = name")
  case True
  then obtain pre t post where "b = pre @ t # post" "tname t = name" "\<forall>x \<in> set pre. tname x \<noteq> name"
    using split_list_first_prop [of b "\<lambda>t. tname t = name"] by blast
  then show ?thesis by (rule found)
next
  case False
  then show ?thesis using absent by blast
qed

lemma nvram_set_absent:
  assumes "\<forall>t \<in> set (nvram_hash h ! nvram_bucket name). tname t \<noteq> name"
  shows "nvram_set ok h name value =
    (case snd (nvram_realloc ok None name value) of
       None \<Rightarrow> (h, - 12)
     | Some u \<Rightarrow> (h\<lparr>nvram_hash := (nvram_hash h)
                    [nvram_bucket name := u # nvram_hash h ! nvram_bucket name]\<rparr>, 0))"
proof -
  from assms have "dropWhile (\<lambda>t. tname t \<noteq> name) (nvram_hash h ! nvram_bucket name) = []"
    by (simp add: dropWhile_eq_Nil_conv)
  then show ?thesis
    by (simp add: nvram_set_def Let_def del: dropWhile_eq_Nil_conv split: prod.splits option.splits)
qed

lemma nvram_set_found:
  assumes "nvram_hash h ! nvram_bucket name = pre @ t # post" and "tname t = name"
    and "\<forall>x \<in> set pre. tname x \<noteq> name"
  shows "nvram_set ok h name value =
    (case nvram_realloc ok (Some t) name value of (t', u) \<Rightarrow>
       (h\<lparr>nvram_hash := (nvram_hash h)[nvram_bucket name := pre @ the t' # post]\<rparr>,
        if u = None then - 12 else 0))"
  using assms by (simp add: nvram_set_def Let_def takeWhile_append2 dropWhile_append2)

lemma nvram_unset_absent:
  assumes "\<forall>t \<in> set (nvram_hash h ! nvram_bucket name). tname t \<noteq> name"
  shows "nvram_unset h name = (h, 0)"
proof -
  from assms have "dropWhile (\<lambda>t. tname t \<noteq> name) (nvram_hash h ! nvram_bucket name) = []"
    by (simp add: dropWhile_eq_Nil_conv)
  then show ?thesis by (simp add: nvram_unset_def Let_def del: dropWhile_eq_Nil_conv)
qed

lemma nvram_unset_found:
  assumes "nvram_hash h ! nvram_bucket name = pre @ t # post" and "tname t = name"
    and "\<forall>x \<in> set pre. tname x \<noteq> name"
  shows "nvram_unset h name =
    (h\<lparr>nvram_hash := (nvram_hash h)[nvram_bucket name := pre @ post],
       nvram_dead := t # nvram_dead h\<rparr>, 0)"
  using assms by (simp add: nvram_unset_def Let_def takeWhile_append2 dropWhile_append2)

lemma table_ok_length: "table_ok h \<Longrightarrow> length (nvram_hash h) = 257"
  by (simp add: table_ok_def)

lemma table_okD:
  assumes "table_ok h" and "i < 257"
  shows "distinct (map tname (nvram_hash h ! i))"
    and "\<And>t. t \<in> set (nvram_hash h ! i) \<Longrightarrow> nvram_bucket (tname t) = i"
  using assms by (auto simp: table_ok_def)

text \<open>Replacing one bucket by another that is well formed keeps the invariant.\<close>

lemma table_ok_update:
  assumes "table_ok h" and "i < 257" and "distinct (map tname b)"
    and "\<forall>t \<in> set b. nvram_bucket (tname t) = i"
  shows "table_ok (h\<lparr>nvram_hash := (nvram_hash h)[i := b]\<rparr>)"
  using assms by (auto simp: table_ok_def nth_list_update)

lemma table_ok_dead [simp]: "table_ok (h\<lparr>nvram_dead := d\<rparr>) = table_ok h"
  by (simp add: table_ok_def)

lemma nvram_get_dead [simp]: "nvram_get (h\<lparr>nvram_dead := d\<rparr>) = nvram_get h"
  by (simp add: fun_eq_iff nvram_get_def)

lemma nvram_realloc_name:
  "nvram_realloc ok (Some t) name value = (t', u) \<Longrightarrow> \<exists>w. t' = Some w \<and> tname w = tname t"
  by (auto simp: nvram_realloc_def Let_def split: if_splits)

lemma nvram_realloc_new_name:
  "snd (nvram_realloc ok None name value) = Some u \<Longrightarrow> tname u = name"
  by (auto simp: nvram_realloc_def Let_def split: if_splits)

lemma table_ok_set: "table_ok h \<Longrightarrow> table_ok (fst (nvram_set ok h name value))"
proof -
  assume tok: "table_ok h"
  note bk = table_okD [OF tok nvram_bucket_less [of name]]
  show ?thesis
  proof (cases rule: bucketE [of "nvram_hash h ! nvram_bucket name" name])
    case absent
    then have "tname u = name \<Longrightarrow> table_ok (h\<lparr>nvram_hash := (nvram_hash h)
        [nvram_bucket name := u # nvram_hash h ! nvram_bucket name]\<rparr>)" for u
      using bk by (intro table_ok_update [OF tok]) auto
    then show ?thesis
      unfolding nvram_set_absent [OF absent]
      using tok nvram_realloc_new_name [of ok name "value"] by (auto split: option.splits)
  next
    case (found pre t post)
    obtain t' u where r: "nvram_realloc ok (Some t) name value = (t', u)"
      by (cases "nvram_realloc ok (Some t) name value")
    then obtain w where "t' = Some w" "tname w = tname t"
      using nvram_realloc_name by blast
    with found bk have "table_ok (h\<lparr>nvram_hash := (nvram_hash h)
        [nvram_bucket name := pre @ the t' # post]\<rparr>)"
      by (intro table_ok_update [OF tok]) auto
    then show ?thesis
      by (simp add: nvram_set_found [OF found] r)
  qed
qed

lemma table_ok_unset: "table_ok h \<Longrightarrow> table_ok (fst (nvram_unset h name))"
proof -
  assume tok: "table_ok h"
  note bk = table_okD [OF tok nvram_bucket_less [of name]]
  show ?thesis
  proof (cases rule: bucketE [of "nvram_hash h ! nvram_bucket name" name])
    case absent
    with tok show ?thesis by (simp add: nvram_unset_absent)
  next
    case (found pre t post)
    then have "table_ok (h\<lparr>nvram_hash := (nvram_hash h)[nvram_bucket name := pre @ post]\<rparr>)"
      using bk by (intro table_ok_update [OF tok]) auto
    then show ?thesis
      by (simp add: nvram_unset_found [OF found] table_ok_def)
  qed
qed

lemma nvram_get_set:
  assumes "table_ok h" and "nvram_accepts ok name value"
  shows "nvram_get (fst (nvram_set ok h name value)) = (nvram_get h)(name \<mapsto> value)"
proof (cases rule: bucketE [of "nvram_hash h ! nvram_bucket name" name])
  case absent
  have "snd (nvram_realloc ok None name value) = Some \<lparr>tname = name, tvalue = Some value\<rparr>"
    using assms(2) by (simp add: nvram_accepts_def nvram_realloc_def)
  with absent show ?thesis
    by (simp add: nvram_set_absent fun_eq_iff nvram_get_bucket nth_list_update
        table_ok_length [OF assms(1)])
next
  case (found pre t post)
  have "nvram_realloc ok (Some t) name value =
      (Some (t\<lparr>tvalue := Some value\<rparr>), Some (t\<lparr>tvalue := Some value\<rparr>))"
    using assms(2) by (auto simp: nvram_accepts_def nvram_realloc_def Let_def)
  with found show ?thesis
    by (auto simp: nvram_set_found [OF found] fun_eq_iff nvram_get_bucket nth_list_update
        bucket_get_append table_ok_length [OF assms(1)])
qed

lemma bucket_get_absent: "\<forall>t \<in> set b. tname t \<noteq> name \<Longrightarrow> bucket_get b name = None"
  by (induction b) auto

lemma nvram_get_unset:
  assumes "table_ok h"
  shows "nvram_get (fst (nvram_unset h name)) = (nvram_get h)(name := None)"
proof (cases rule: bucketE [of "nvram_hash h ! nvram_bucket name" name])
  case absent
  then show ?thesis
    by (auto simp: nvram_unset_absent nvram_get_bucket fun_eq_iff bucket_get_absent)
next
  case (found pre t post)
  have "\<forall>x \<in> set (pre @ post). tname x \<noteq> name"
    using table_okD(1) [OF assms nvram_bucket_less, of name] found by (auto simp: image_iff)
  then have "bucket_get (pre @ post) name = None"
    by (rule bucket_get_absent)
  with found show ?thesis
    by (auto simp: nvram_unset_found [OF found] fun_eq_iff nvram_get_bucket nth_list_update
        bucket_get_append table_ok_length [OF assms])
qed

interpretation nv: kv_store nvram_get "\<lambda>h k v. fst (nvram_set ok h k v)"
  "\<lambda>h k. fst (nvram_unset h k)" table_ok "nvram_accepts ok" for ok
  by unfold_locales (simp_all add: nvram_get_set nvram_get_unset table_ok_set table_ok_unset)

end
