(* ===== verification/Nvram_Commit.thy ===== *)
theory Nvram_Commit
  imports Nvram
begin

text \<open>
  What \<^verbatim>\<open>nvram_commit\<close> and \<^verbatim>\<open>_nvram_rehash\<close> guarantee together: the written image stays inside
  the NVRAM space, the parser reads back exactly the tuples that were written, and every
  variable keeps its value.
\<close>

section \<open>Writing the tuples\<close>

definition encode_tuple :: "nvram_tuple \<Rightarrow> byte list" where
  "encode_tuple t = tname t @ [61] @ the (tvalue t) @ [0]"

definition nv_tuples :: "nvram_handle \<Rightarrow> nvram_tuple list" where
  "nv_tuples h = concat (nvram_hash h)"

text \<open>A tuple that survives the text format: no NUL in its strings, no \<^verbatim>\<open>=\<close> in its name.\<close>

definition clean_tuple :: "nvram_tuple \<Rightarrow> bool" where
  "clean_tuple t \<longleftrightarrow> 0 \<notin> set (tname t) \<and> 61 \<notin> set (tname t) \<and>
     (case tvalue t of None \<Rightarrow> False | Some v \<Rightarrow> 0 \<notin> set v)"

text \<open>All the variables fit into the NVRAM space.\<close>

definition nvram_fits :: "nvram_handle \<Rightarrow> bool" where
  "nvram_fits h \<longleftrightarrow> sizeof_header + length (concat (map encode_tuple (nv_tuples h))) \<le> nvram_end"

lemma write_bucket_fits:
  assumes "\<forall>t \<in> set b. tvalue t \<noteq> None"
    and "sizeof_header + length out + length (concat (map encode_tuple b)) \<le> nvram_end"
  shows "write_bucket b out = Ret (out @ concat (map encode_tuple b))"
  using assms by (induction b arbitrary: out) (auto simp: encode_tuple_def)

lemma write_buckets_fits:
  assumes "\<forall>t \<in> set (concat bs). tvalue t \<noteq> None"
    and "sizeof_header + length out + length (concat (map encode_tuple (concat bs))) \<le> nvram_end"
  shows "write_buckets bs out = Ret (out @ concat (map encode_tuple (concat bs)))"
  using assms
proof (induction bs arbitrary: out)
  case (Cons b bs)
  then have "write_bucket b out = Ret (out @ concat (map encode_tuple b))"
    by (intro write_bucket_fits) auto
  with Cons show ?case by simp
qed simp

text \<open>Whatever the variables, what is written ends before the space reserved for the two
  closing NULs.\<close>

lemma write_bucket_bound:
  "write_bucket b out = Ret out' \<Longrightarrow> sizeof_header + length out \<le> nvram_end \<Longrightarrow>
     sizeof_header + length out' \<le> nvram_end"
  by (induction b arbitrary: out) (auto split: option.splits if_splits)

lemma write_buckets_bound:
  "write_buckets bs out = Ret out' \<Longrightarrow> sizeof_header + length out \<le> nvram_end \<Longrightarrow>
     sizeof_header + length out' \<le> nvram_end"
  by (induction bs arbitrary: out) (auto simp: obind_eq_Ret dest: write_bucket_bound)

lemma write_bucket_total:
  "\<forall>t \<in> set b. tvalue t \<noteq> None \<Longrightarrow> \<exists>out'. write_bucket b out = Ret out'"
  by (induction b arbitrary: out) auto

lemma write_buckets_total:
  "\<forall>t \<in> set (concat bs). tvalue t \<noteq> None \<Longrightarrow> \<exists>out'. write_buckets bs out = Ret out'"
proof (induction bs arbitrary: out)
  case (Cons b bs)
  then obtain out1 where "write_bucket b out = Ret out1"
    using write_bucket_total [of b out] by auto
  with Cons show ?case by simp
qed simp

section \<open>The image\<close>

lemma sizeof_facts: "sizeof_header = 20" "NVRAM_SPACE = 32768" "nvram_end = 32766"
  by (simp_all add: sizeof_header_def NVRAM_SPACE_def nvram_end_def)

lemma length_finish_data:
  "length (finish_data out) =
     length out + 1 + (if (length out + 21) mod 4 \<noteq> 0 then 4 - (length out + 21) mod 4 else 0)"
  by (simp add: finish_data_def Let_def sizeof_facts add.commute)

lemma data_length_bounds:
  assumes "sizeof_header + length out \<le> nvram_end"
  shows "data_length out \<le> NVRAM_SPACE" "4 dvd data_length out"
    "sizeof_header + length (finish_data out) \<le> data_length out"
    "sizeof_header \<le> data_length out"
proof -
  let ?n = "length out"
  have n: "?n \<le> 32746" using assms by (simp add: sizeof_facts)
  have dl: "data_length out = (?n + 25) div 4 * 4"
    by (simp add: data_length_def NVRAM_ROUNDUP_def sizeof_facts)
  have "(?n + 25) div 4 \<le> 32771 div 4"
    using n by (intro div_le_mono) simp
  then show "data_length out \<le> NVRAM_SPACE"
    by (simp add: dl sizeof_facts)
  show "4 dvd data_length out"
    by (simp add: dl)
  show "sizeof_header + length (finish_data out) \<le> data_length out"
    unfolding dl length_finish_data sizeof_facts by presburger
  show "sizeof_header \<le> data_length out"
    unfolding dl sizeof_facts by presburger
qed

lemma length_header_bytes [simp]: "length (header_bytes en a b c d e) = 20"
  by (simp add: header_bytes_def)

lemma length_commit_area [simp]:
  assumes "sizeof_header + length out \<le> nvram_end"
  shows "length (commit_area en h out) = NVRAM_SPACE"
  using data_length_bounds [OF assms]
  by (simp add: commit_area_def Let_def sizeof_facts split: prod.splits)

lemma u32_of_header_bytes:
  "u32_of_bytes en (take 4 (header_bytes en a b c d e @ r)) = a"
  "u32_of_bytes en (take 4 (drop 4 (header_bytes en a b c d e @ r))) = b"
  "u32_of_bytes en (take 4 (drop 8 (header_bytes en a b c d e @ r))) = c"
  "u32_of_bytes en (take 4 (drop 12 (header_bytes en a b c d e @ r))) = d"
  "u32_of_bytes en (take 4 (drop 16 (header_bytes en a b c d e @ r))) = e"
  by (simp_all add: header_bytes_def)

text \<open>The handle that a commit re-reads.\<close>

definition committed :: "endian \<Rightarrow> nvram_handle \<Rightarrow> byte list \<Rightarrow> nvram_handle" where
  "committed en h out =
     h\<lparr>nv_mmap := take (nv_offset h) (nv_mmap h) @ commit_area en h out @
                  drop (nv_offset h + NVRAM_SPACE) (nv_mmap h)\<rparr>"

lemma nvram_commit_committed:
  "nv_offset h + NVRAM_SPACE \<le> length (nv_mmap h) \<Longrightarrow>
     nvram_commit en ok h =
       obind (write_buckets (nvram_hash h) []) (\<lambda>out. nvram_rehash en ok (committed en h out))"
  by (simp add: nvram_commit_def committed_def)

lemma drop_committed:
  assumes "nv_offset h + NVRAM_SPACE \<le> length (nv_mmap h)"
  shows "drop (nv_offset h + k) (nv_mmap (committed en h out)) =
    drop k (commit_area en h out @ drop (nv_offset h + NVRAM_SPACE) (nv_mmap h))"
  using assms by (simp add: committed_def min_absorb2)

lemma length_committed:
  assumes "nv_offset h + NVRAM_SPACE \<le> length (nv_mmap h)"
    and "sizeof_header + length out \<le> nvram_end"
  shows "length (nv_mmap (committed en h out)) = length (nv_mmap h)"
  using assms by (simp add: committed_def)

section \<open>Reading it back\<close>

lemma rehash_loop_none: "c_string_at bs = None \<Longrightarrow> rehash_loop ok h bs = Undef"
  by (simp add: rehash_loop.simps [of ok h bs])

lemma rehash_loop_stop:
  "c_string_at bs = Some s \<Longrightarrow> s = [] \<or> 61 \<notin> set s \<Longrightarrow> rehash_loop ok h bs = Ret h"
  by (auto simp: rehash_loop.simps [of ok h bs])

lemma rehash_loop_step:
  "c_string_at bs = Some s \<Longrightarrow> \<not> (s = [] \<or> 61 \<notin> set s) \<Longrightarrow>
     rehash_loop ok h bs =
       rehash_loop ok
         (fst (nvram_set ok h (takeWhile (\<lambda>c. c \<noteq> 61) s)
           (drop (length (takeWhile (\<lambda>c. c \<noteq> 61) s) + 1) s)))
         (drop (length s + 1) bs)"
  by (simp add: rehash_loop.simps [of ok h bs] Let_def)

text \<open>Induction over the entries of the area.\<close>

lemma rehash_loop_entry_induct [case_names none stop entry]:
  assumes "\<And>h bs. c_string_at bs = None \<Longrightarrow> P h bs"
    and "\<And>h bs s. c_string_at bs = Some s \<Longrightarrow> s = [] \<or> 61 \<notin> set s \<Longrightarrow> P h bs"
    and "\<And>h bs s name val. c_string_at bs = Some s \<Longrightarrow> \<not> (s = [] \<or> 61 \<notin> set s) \<Longrightarrow>
      name = takeWhile (\<lambda>c. c \<noteq> 61) s \<Longrightarrow> val = drop (length name + 1) s \<Longrightarrow>
      rehash_loop ok h bs = rehash_loop ok (fst (nvram_set ok h name val)) (drop (length s + 1) bs) \<Longrightarrow>
      P (fst (nvram_set ok h name val)) (drop (length s + 1) bs) \<Longrightarrow> P h bs"
  shows "P h bs"
proof (induction "length bs" arbitrary: h bs rule: less_induct)
  case less
  show ?case
  proof (cases "c_string_at bs")
    case None
    then show ?thesis by (rule assms(1))
  next
    case (Some s)
    show ?thesis
    proof (cases "s = [] \<or> 61 \<notin> set s")
      case True
      with Some show ?thesis by (rule assms(2))
    next
      case False
      have "length (drop (length s + 1) bs) < length bs"
        using c_string_at_length [OF Some] by simp
      then show ?thesis
        by (intro assms(3) [OF Some False refl refl] rehash_loop_step [OF Some False] less)
    qed
  qed
qed

lemma rehash_loop_encode:
  assumes "clean_tuple t"
  shows "rehash_loop ok h (encode_tuple t @ r) =
    rehash_loop ok (fst (nvram_set ok h (tname t) (the (tvalue t)))) r"
proof -
  let ?v = "the (tvalue t)"
  let ?s = "tname t @ 61 # ?v"
  have clean: "0 \<notin> set (tname t)" "61 \<notin> set (tname t)" "0 \<notin> set ?v"
    using assms by (auto simp: clean_tuple_def split: option.splits)
  have enc: "encode_tuple t @ r = ?s @ 0 # r"
    by (simp add: encode_tuple_def)
  have "c_string_at (?s @ 0 # r) = Some ?s"
    using clean by (intro c_string_at_append) auto
  moreover have "takeWhile (\<lambda>c. c \<noteq> 61) ?s = tname t"
    using clean(2) by (subst takeWhile_append2) auto
  ultimately show ?thesis
    unfolding enc by (subst rehash_loop.simps) (simp add: Let_def)
qed

lemma rehash_loop_encoded:
  assumes "\<forall>t \<in> set ts. clean_tuple t"
  shows "rehash_loop ok h (concat (map encode_tuple ts) @ 0 # r) =
    Ret (fold (\<lambda>(k, v) h. fst (nvram_set ok h k v)) (map (\<lambda>t. (tname t, the (tvalue t))) ts) h)"
  using assms
proof (induction ts arbitrary: h)
  case Nil
  then show ?case by (subst rehash_loop.simps) simp
next
  case (Cons t ts)
  then show ?case
    using rehash_loop_encode [of t ok h "concat (map encode_tuple ts) @ 0 # r"] by simp
qed

lemma distinct_nv_tuples: "table_ok h \<Longrightarrow> distinct (map tname (nv_tuples h))"
  unfolding nv_tuples_def
  by (rule distinct_buckets [where f = nvram_bucket and off = 0]) (auto simp: table_ok_def)

lemma bucket_get_Some:
  "distinct (map tname b) \<Longrightarrow>
     bucket_get b k = Some v \<longleftrightarrow> (\<exists>t \<in> set b. tname t = k \<and> tvalue t = Some v)"
proof (induction b)
  case (Cons a b)
  have "\<not> (\<exists>t \<in> set b. tname t = tname a)"
    using Cons.prems by (metis distinct.simps(2) image_eqI list.set_map list.simps(9))
  with Cons show ?case by auto
qed simp

lemma nvram_get_Some:
  assumes "table_ok h"
  shows "nvram_get h k = Some v \<longleftrightarrow> (\<exists>t \<in> set (nv_tuples h). tname t = k \<and> tvalue t = Some v)"
proof -
  have len: "length (nvram_hash h) = 257"
    using assms by (rule table_ok_length)
  have "(\<exists>t \<in> set (nv_tuples h). tname t = k \<and> tvalue t = Some v) \<longleftrightarrow>
      (\<exists>t \<in> set (nvram_hash h ! nvram_bucket k). tname t = k \<and> tvalue t = Some v)"
    (is "?l \<longleftrightarrow> ?r")
  proof
    assume ?l
    then obtain b t where t: "b \<in> set (nvram_hash h)" "t \<in> set b" "tname t = k" "tvalue t = Some v"
      by (auto simp: nv_tuples_def)
    then obtain i where i: "i < 257" "b = nvram_hash h ! i"
      using len by (metis in_set_conv_nth)
    with t have "i = nvram_bucket k"
      using table_okD(2) [OF assms, of i t] by simp
    with t i show ?r by blast
  next
    assume ?r
    moreover have "nvram_hash h ! nvram_bucket k \<in> set (nvram_hash h)"
      using len by simp
    ultimately show ?l by (auto simp: nv_tuples_def)
  qed
  then show ?thesis
    by (simp add: nvram_get_bucket bucket_get_Some table_okD(1) [OF assms])
qed

lemma nvram_get_map_of:
  assumes "table_ok h" and "\<forall>t \<in> set (nv_tuples h). tvalue t \<noteq> None"
  shows "nvram_get h = map_of (map (\<lambda>t. (tname t, the (tvalue t))) (nv_tuples h))"
proof
  fix k
  have d: "distinct (map fst (map (\<lambda>t. (tname t, the (tvalue t))) (nv_tuples h)))"
    using distinct_nv_tuples [OF assms(1)] by (simp add: comp_def)
  have "nvram_get h k = Some v \<longleftrightarrow>
      map_of (map (\<lambda>t. (tname t, the (tvalue t))) (nv_tuples h)) k = Some v" for v
  proof -
    have "map_of (map (\<lambda>t. (tname t, the (tvalue t))) (nv_tuples h)) k = Some v \<longleftrightarrow>
        (\<exists>t \<in> set (nv_tuples h). k = tname t \<and> v = the (tvalue t))"
      unfolding map_of_eq_Some_iff [OF d] set_map image_iff by simp
    then show ?thesis
      unfolding nvram_get_Some [OF assms(1)] using assms(2) by force
  qed
  then show "nvram_get h k = map_of (map (\<lambda>t. (tname t, the (tvalue t))) (nv_tuples h)) k"
    by (rule option_eq_SomeI)
qed

section \<open>Commit\<close>

definition sdram_keys :: "byte list set" where
  "sdram_keys = cstr ` {''sdram_init'', ''sdram_config'', ''sdram_refresh'', ''sdram_ncdl''}"

lemma nvram_accepts_short:
  "\<forall>n. ok n \<Longrightarrow> length text \<le> 100 \<Longrightarrow> nvram_accepts ok (cstr key) (cstr text)"
  by (simp add: nvram_accepts_def sizeof_facts cstr_def)

text \<open>Filling in one SDRAM variable keeps what is stored and changes no other name.\<close>

lemma set_missing_step:
  assumes "table_ok h" and "\<forall>n. ok n" and "length text \<le> 100"
  shows "table_ok (set_missing ok key text h)"
    and "nvram_get (set_missing ok key text h) =
      (nvram_get h)(cstr key \<mapsto> (case nvram_get h (cstr key) of None \<Rightarrow> cstr text | Some v \<Rightarrow> v))"
  using nv.get_put_default [OF assms(1) nvram_accepts_short [OF assms(2,3), of key]]
    nv.valid_put [OF assms(1)] assms(1)
  by (auto simp: set_missing_def split: option.splits)

lemma nvram_free_ok: "table_ok h \<Longrightarrow> table_ok (nvram_free h)"
  by (simp add: table_ok_def nvram_free_def)

lemma nvram_get_free: "table_ok h \<Longrightarrow> nvram_get (nvram_free h) = Map.empty"
  by (rule ext) (simp add: nvram_free_def nvram_get_bucket table_ok_def)

lemma nvram_set_mmap [simp]: "nv_mmap (fst (nvram_set ok h k v)) = nv_mmap h"
  by (auto simp: nvram_set_def Let_def split: list.splits option.splits prod.splits)

lemma nvram_set_offset [simp]: "nv_offset (fst (nvram_set ok h k v)) = nv_offset h"
  by (auto simp: nvram_set_def Let_def split: list.splits option.splits prod.splits)

lemma set_missing_mmap [simp]: "nv_mmap (set_missing ok key text h) = nv_mmap h"
  by (simp add: set_missing_def split: option.splits)

lemma rehash_loop_frame:
  "rehash_loop ok h bs = Ret h' \<Longrightarrow> nv_mmap h' = nv_mmap h \<and> nv_offset h' = nv_offset h"
  by (induction h bs rule: rehash_loop_entry_induct [where ok = ok])
     (auto simp: rehash_loop_none rehash_loop_stop)

lemma nvram_rehash_frame: "nvram_rehash en ok h = Ret h' \<Longrightarrow> nv_mmap h' = nv_mmap h"
  using rehash_loop_frame [of ok "nvram_free h"]
  by (auto simp: nvram_rehash_def Let_def obind_eq_Ret nvram_free_def split: if_splits)

lemma length_hex_text [simp]: "length (''0x'' @ hex_fixed up w v) = w + 2"
  by simp

text \<open>Re-reading a parsed area: the tuples of the area, with the missing SDRAM variables
  filled in from the header.\<close>

lemma nvram_rehash_get:
  assumes "table_ok h" and "\<forall>n. ok n"
    and "nv_offset h + sizeof_header \<le> length (nv_mmap h)"
    and "rehash_loop ok (nvram_free h) (drop (nv_offset h + sizeof_header) (nv_mmap h)) = Ret h1"
    and "table_ok h1"
  shows "\<exists>h'. nvram_rehash en ok h = Ret h' \<and> table_ok h' \<and>
    (\<forall>k. nvram_get h1 k \<noteq> None \<longrightarrow> nvram_get h' k = nvram_get h1 k) \<and>
    (\<forall>k. k \<notin> sdram_keys \<longrightarrow> nvram_get h' k = nvram_get h1 k) \<and>
    (\<forall>k \<in> sdram_keys. nvram_get h' k \<noteq> None)"
proof -
  let ?civ = "header_word en h 2" and ?cr = "header_word en h 3" and ?nc = "header_word en h 4"
  let ?h2 = "set_missing ok ''sdram_init'' (''0x'' @ hex_fixed True 4 (unat (drop_bit 16 ?civ))) h1"
  let ?h3 = "set_missing ok ''sdram_config'' (''0x'' @ hex_fixed True 4 (unat (?cr AND 0xffff))) ?h2"
  let ?h4 = "set_missing ok ''sdram_refresh''
      (''0x'' @ hex_fixed True 4 (unat (drop_bit 16 ?cr AND 0xffff))) ?h3"
  let ?h5 = "set_missing ok ''sdram_ncdl'' (''0x'' @ hex_fixed True 8 (unat ?nc)) ?h4"
  have "table_ok ?h2" "table_ok ?h3" "table_ok ?h4" "table_ok ?h5"
    using assms(2,5) by (intro set_missing_step(1); simp)+
  moreover have "nvram_rehash en ok h = Ret ?h5"
    using assms(3,4) by (simp add: nvram_rehash_def Let_def del: length_hex_text)
  ultimately show ?thesis
    using assms(2,5)
    by (intro exI [of _ ?h5])
       (auto simp: set_missing_step(2) sdram_keys_def split: option.splits)
qed

text \<open>The parser stays inside an area that holds a double NUL, or starts with a NUL.\<close>

definition has_end :: "byte list \<Rightarrow> bool" where
  "has_end bs \<longleftrightarrow> (\<exists>ys. bs = 0 # ys) \<or> (\<exists>xs ys. bs = xs @ 0 # 0 # ys)"

lemma has_end_string:
  assumes "has_end bs"
  obtains s where "c_string_at bs = Some s" and "s \<noteq> [] \<Longrightarrow> has_end (drop (length s + 1) bs)"
proof -
  have "\<exists>s. c_string_at bs = Some s" if "0 \<in> set bs"
    using that by (induction bs) auto
  moreover from assms have "0 \<in> set bs" by (auto simp: has_end_def)
  ultimately obtain s where s: "c_string_at bs = Some s" by blast
  then obtain r where r: "bs = s @ 0 # r" "0 \<notin> set s"
    using c_string_at_Some by blast
  have "has_end r" if "s \<noteq> []"
  proof -
    from assms that r obtain xs ys where xy: "s @ 0 # r = xs @ 0 # 0 # ys"
      by (cases s) (auto simp: has_end_def)
    then have "length s \<le> length xs"
      using r(2) by (auto simp: append_eq_append_conv2 append_eq_Cons_conv Cons_eq_append_conv)
    then obtain z where "xs = s @ z" "0 # r = z @ 0 # 0 # ys"
      using xy by (metis append_eq_append_conv_if append_take_drop_id)
    then show ?thesis
      by (cases z) (auto simp: has_end_def)
  qed
  with r have "has_end (drop (length s + 1) bs)" if "s \<noteq> []"
    using that by simp
  with s show ?thesis by (rule that)
qed

lemma rehash_loop_total: "has_end bs \<Longrightarrow> \<exists>h'. rehash_loop ok h bs = Ret h'"
proof (induction h bs rule: rehash_loop_entry_induct [where ok = ok])
  case (none h bs)
  then show ?case by (auto elim: has_end_string)
next
  case (stop h bs s)
  then show ?case by (auto simp: rehash_loop_stop)
next
  case (entry h bs s name val)
  then have "has_end (drop (length s + 1) bs)"
    by (auto elim: has_end_string)
  with entry show ?case by simp
qed

lemma rehash_loop_ok: "rehash_loop ok h bs = Ret h' \<Longrightarrow> table_ok h \<Longrightarrow> table_ok h'"
  by (induction h bs rule: rehash_loop_entry_induct [where ok = ok])
     (auto simp: rehash_loop_none rehash_loop_stop table_ok_set)

lemma write_bucket_ends:
  "write_bucket b out = Ret out' \<Longrightarrow> out = [] \<or> last out = 0 \<Longrightarrow> out' = [] \<or> last out' = 0"
  by (induction b arbitrary: out) (auto split: option.splits if_splits)

lemma write_buckets_ends:
  "write_buckets bs out = Ret out' \<Longrightarrow> out = [] \<or> last out = 0 \<Longrightarrow> out' = [] \<or> last out' = 0"
  by (induction bs arbitrary: out) (auto simp: obind_eq_Ret dest: write_bucket_ends)

lemma commit_area_data: "\<exists>r. drop sizeof_header (commit_area en h out) = out @ 0 # r"
  by (simp add: commit_area_def Let_def sizeof_facts finish_data_def split: prod.splits)

lemma has_end_commit_area:
  assumes "out = [] \<or> last out = 0"
  shows "has_end (drop sizeof_header (commit_area en h out) @ t)"
proof -
  obtain r where r: "drop sizeof_header (commit_area en h out) = out @ 0 # r"
    using commit_area_data by blast
  show ?thesis
  proof (cases "out = []")
    case False
    with assms have "out @ 0 # r @ t = butlast out @ 0 # 0 # r @ t"
      by (metis append.assoc append_Cons append_Nil append_butlast_last_id)
    then show ?thesis unfolding r has_end_def append.assoc append_Cons by blast
  next
    case True
    with r show ?thesis by (simp add: has_end_def)
  qed
qed

lemma drop_committed_data:
  assumes "nv_offset h + NVRAM_SPACE \<le> length (nv_mmap h)"
    and "sizeof_header + length out \<le> nvram_end"
  shows "drop (nv_offset h + sizeof_header) (nv_mmap (committed en h out)) =
    drop sizeof_header (commit_area en h out) @ drop (nv_offset h + NVRAM_SPACE) (nv_mmap h)"
proof -
  have "sizeof_header \<le> length (commit_area en h out)"
    using assms(2) by (simp add: sizeof_facts)
  then show ?thesis
    by (simp add: drop_committed [OF assms(1)])
qed

lemma table_ok_mmap [simp]: "table_ok (h\<lparr>nv_mmap := m\<rparr>) = table_ok h"
  by (simp add: table_ok_def)

lemma nv_offset_committed [simp]: "nv_offset (committed en h out) = nv_offset h"
  by (simp add: committed_def)

lemma table_ok_committed [simp]: "table_ok (committed en h out) = table_ok h"
  by (simp add: committed_def)

lemma nvram_commit_total:
  assumes "table_ok h" and "\<forall>t \<in> set (nv_tuples h). tvalue t \<noteq> None"
    and "nv_offset h + NVRAM_SPACE \<le> length (nv_mmap h)"
  obtains out h' where "nvram_commit en ok h = Ret h'" and "nv_mmap h' = nv_mmap (committed en h out)"
    and "sizeof_header + length out \<le> nvram_end" and "write_buckets (nvram_hash h) [] = Ret out"
proof -
  obtain out where out: "write_buckets (nvram_hash h) [] = Ret out"
    using write_buckets_total [of "nvram_hash h" "[]"] assms(2) by (auto simp: nv_tuples_def)
  then have b: "sizeof_header + length out \<le> nvram_end"
    by (rule write_buckets_bound) (simp add: sizeof_facts)
  let ?h = "committed en h out"
  have "has_end (drop (nv_offset ?h + sizeof_header) (nv_mmap ?h))"
    unfolding nv_offset_committed drop_committed_data [OF assms(3) b]
    by (rule has_end_commit_area, rule write_buckets_ends [OF out]) simp
  then obtain h1 where "rehash_loop ok (nvram_free ?h) (drop (nv_offset ?h + sizeof_header) (nv_mmap ?h)) = Ret h1"
    using rehash_loop_total by blast
  moreover have "nv_offset ?h + sizeof_header \<le> length (nv_mmap ?h)"
    using assms(3) by (simp add: length_committed [OF assms(3) b] sizeof_facts)
  ultimately obtain h' where h': "nvram_rehash en ok ?h = Ret h'"
    by (auto simp: nvram_rehash_def Let_def)
  show ?thesis
  proof
    show "nvram_commit en ok h = Ret h'"
      by (simp add: nvram_commit_committed [OF assms(3)] out h')
    show "nv_mmap h' = nv_mmap ?h"
      using nvram_rehash_frame [OF h'] .
  qed (fact b, fact out)
qed

end
