(* ===== verification/Nvram_Cli.thy ===== *)
theory Nvram_Cli
  imports Nvram_Commit
begin

text \<open>
  Opening an NVRAM area, the staging file, and the command line tool
  (\<^verbatim>\<open>nvram_open\<close>, \<^verbatim>\<open>nvram_find_staging\<close>, \<^verbatim>\<open>nvram_to_staging\<close>, \<^verbatim>\<open>staging_to_nvram\<close> of
  \<^verbatim>\<open>package/utils/nvram/src/nvram.c\<close>, and \<^verbatim>\<open>cli.c\<close>). The files the tool touches are a record:
  the staging file \<^verbatim>\<open>/tmp/.nvram\<close>, \<^verbatim>\<open>/proc/diag/model\<close>, \<^verbatim>\<open>/proc/mtd\<close>, the block devices, and
  the global \<^verbatim>\<open>nvram_erase_size\<close>. Files that exist can be opened, read and
  written; a mapping created with \<^verbatim>\<open>MAP_SHARED\<close> shares its bytes with the file.
\<close>

section \<open>Files\<close>

record nv_world =
  w_staging :: "byte list option"                 \<comment> \<open>\<^verbatim>\<open>/tmp/.nvram\<close>\<close>
  w_diag_model :: "string option"                 \<comment> \<open>first line of \<^verbatim>\<open>/proc/diag/model\<close>\<close>
  w_proc_mtd :: "string list option"              \<comment> \<open>the lines of \<^verbatim>\<open>/proc/mtd\<close>\<close>
  w_blkdev :: "string \<Rightarrow> byte list option"    \<comment> \<open>block devices by path\<close>
  nvram_erase_size :: nat

datatype nv_file = StagingFile | MtdDevice string

definition nv_content :: "nv_world \<Rightarrow> nv_file \<Rightarrow> byte list option" where
  "nv_content w f = (case f of StagingFile \<Rightarrow> w_staging w | MtdDevice p \<Rightarrow> w_blkdev w p)"

text \<open>\<^verbatim>\<open>strstr(dev, text) != NULL\<close>\<close>

fun c_strstr :: "string \<Rightarrow> string \<Rightarrow> bool" where
  "c_strstr [] pat = (pat = [])"
| "c_strstr (c # cs) pat = (take (length pat) (c # cs) = pat \<or> c_strstr cs pat)"

text \<open>
  \<^verbatim>\<open>sscanf(dev, "mtd%d: %08x", &i, &esz)\<close>: the number of fields read, and the two values
  (the second keeps its old content when only one field is read).
\<close>

definition scan_mtd_line :: "string \<Rightarrow> nat option \<Rightarrow> nat \<times> int \<times> nat option" where
  "scan_mtd_line line esz =
     (case scan_lit ''mtd'' line of
        None \<Rightarrow> (0, 0, esz)
      | Some s1 \<Rightarrow>
          (case scan_num 10 (length s1) s1 of
             None \<Rightarrow> (0, 0, esz)
           | Some (neg, v, s2) \<Rightarrow>
               (let i = (if neg then max (- (2 ^ 31)) (- int v) else min (2 ^ 31 - 1) (int v)) in
                case scan_lit '':'' s2 of
                  None \<Rightarrow> (1, i, esz)
                | Some s3 \<Rightarrow>
                    (case scan_num 16 8 s3 of
                       None \<Rightarrow> (1, i, esz)
                     | Some (neg', v', _) \<Rightarrow>
                         (2, i, Some (unat (if neg' then - of_nat v' else of_nat v' :: u32)))))))"

text \<open>
  The loop of \<^verbatim>\<open>nvram_find_mtd\<close> over the lines of \<^verbatim>\<open>/proc/mtd\<close>: every line that names the
  partition sets the erase size; the first whose block device exists ends the loop. An
  erase size that was never read is uninitialised.
\<close>

fun find_mtd_loop ::
  "(nat \<Rightarrow> bool) \<Rightarrow> (string \<Rightarrow> byte list option) \<Rightarrow> string list \<Rightarrow> nat option \<Rightarrow> nat \<Rightarrow>
     (nv_file option \<times> nat) outcome" where
  "find_mtd_loop ok blk [] esz ers = Ret (None, ers)"
| "find_mtd_loop ok blk (line # lines) esz ers =
     (case scan_mtd_line line esz of (n, i, esz') \<Rightarrow>
        if c_strstr line ''nvram'' \<and> n \<noteq> 0 then
          (case esz' of
             None \<Rightarrow> Undef
           | Some e \<Rightarrow>
               (let p1 = ''/dev/mtdblock/'' @ dec_of_int i; p2 = ''/dev/mtdblock'' @ dec_of_int i in
                if blk p1 \<noteq> None \<and> ok (length p1 + 1) then Ret (Some (MtdDevice p1), e)
                else if blk p1 = None \<and> blk p2 \<noteq> None \<and> ok (length p2 + 1)
                then Ret (Some (MtdDevice p2), e)
                else find_mtd_loop ok blk lines esz' e))
        else find_mtd_loop ok blk lines esz ers)"

definition nvram_find_mtd :: "(nat \<Rightarrow> bool) \<Rightarrow> nv_world \<Rightarrow> (nv_file option \<times> nv_world) outcome" where
  "nvram_find_mtd ok w =
     (if (case w_diag_model w of Some m \<Rightarrow> take 15 m = ''Netgear WGT634U'' | None \<Rightarrow> False)
      then Ret (None, w)
      else case w_proc_mtd w of
        None \<Rightarrow> Ret (None, w)
      | Some lines \<Rightarrow>
          obind (find_mtd_loop ok (w_blkdev w) lines None (nvram_erase_size w))
            (\<lambda>(f, e). Ret (f, w\<lparr>nvram_erase_size := e\<rparr>)))"

definition nvram_find_staging :: "nv_world \<Rightarrow> nv_file option" where
  "nvram_find_staging w = (case w_staging w of None \<Rightarrow> None | Some _ \<Rightarrow> Some StagingFile)"

text \<open>The two copies between the flash device and the staging file. The buffer has the size
  of the erase block that \<^verbatim>\<open>nvram_find_mtd\<close> recorded.\<close>

definition nvram_to_staging :: "(nat \<Rightarrow> bool) \<Rightarrow> nv_world \<Rightarrow> (int \<times> nv_world) outcome" where
  "nvram_to_staging ok w =
     obind (nvram_find_mtd ok w) (\<lambda>(mtd, w1).
       case Option.bind mtd (nv_content w1) of
         None \<Rightarrow> Ret (- 1, w1)
       | Some dev \<Rightarrow>
           if nvram_erase_size w1 > 0 \<and> nvram_erase_size w1 \<le> length dev
           then Ret (0, w1\<lparr>w_staging := Some (take (nvram_erase_size w1) dev @
                  (case w_staging w1 of None \<Rightarrow> [] | Some old \<Rightarrow> drop (nvram_erase_size w1) old))\<rparr>)
           else Ret (- 1, w1))"

definition staging_to_nvram :: "(nat \<Rightarrow> bool) \<Rightarrow> nv_world \<Rightarrow> (int \<times> nv_world) outcome" where
  "staging_to_nvram ok w =
     obind (nvram_find_mtd ok w) (\<lambda>(mtd, w1).
       case (mtd, w_staging w1) of
         (Some (MtdDevice p), Some stg) \<Rightarrow>
           (case w_blkdev w1 p of
              Some dev \<Rightarrow>
                if nvram_erase_size w1 > 0 \<and> nvram_erase_size w1 \<le> length stg
                then Ret (0, w1\<lparr>w_blkdev := (w_blkdev w1)(p \<mapsto>
                       take (nvram_erase_size w1) stg @ drop (nvram_erase_size w1) dev),
                     w_staging := None\<rparr>)
                else Ret (- 1, w1)
            | None \<Rightarrow> Ret (- 1, w1))
       | _ \<Rightarrow> Ret (- 1, w1))"

section \<open>Opening\<close>

text \<open>The search for the magic, word by word: \<open>n\<close> is the number of words still to look at.\<close>

fun find_magic :: "endian \<Rightarrow> byte list \<Rightarrow> nat \<Rightarrow> nat \<Rightarrow> nat option outcome" where
  "find_magic en area i 0 = Ret None"
| "find_magic en area i (Suc n) =
     (if 4 * i + 4 > length area then Undef
      else if u32_of_bytes en (take 4 (drop (4 * i) area)) = NVRAM_MAGIC then Ret (Some (4 * i))
      else find_magic en area (Suc i) n)"

definition sizeof_handle :: nat where "sizeof_handle = 1048"

definition empty_handle :: "byte list \<Rightarrow> nat \<Rightarrow> nvram_handle" where
  "empty_handle area off =
     \<lparr>nv_mmap = area, nv_offset = off, nvram_hash = replicate 257 [], nvram_dead = []\<rparr>"

text \<open>The part of \<^verbatim>\<open>nvram_open\<close> after the mapping; \<open>esz\<close> is the erase size, and the loop bound
  is computed in 32-bit unsigned arithmetic.\<close>

definition nvram_open_area ::
  "endian \<Rightarrow> (nat \<Rightarrow> bool) \<Rightarrow> nat \<Rightarrow> byte list \<Rightarrow> nvram_handle option outcome" where
  "nvram_open_area en ok esz area =
     obind (find_magic en area 0 (unat ((of_nat esz - of_nat NVRAM_SPACE :: u32) div 4) + 1)) (\<lambda>r.
       case r of
         None \<Rightarrow> Ret None
       | Some off \<Rightarrow>
           if \<not> ok sizeof_handle then Ret None
           else if header_word en (empty_handle area off) 0 = NVRAM_MAGIC
           then obind (nvram_rehash en ok (empty_handle area off)) (\<lambda>h. Ret (Some h))
           else Ret None)"

definition nvram_open ::
  "endian \<Rightarrow> (nat \<Rightarrow> bool) \<Rightarrow> nv_file option \<Rightarrow> nv_world \<Rightarrow> (nvram_handle option \<times> nv_world) outcome" where
  "nvram_open en ok file w =
     obind (if nvram_erase_size w = 0 \<or> file = None then nvram_find_mtd ok w
            else Ret (None, w)) (\<lambda>(mtd, w1).
       if (nvram_erase_size w = 0 \<or> file = None) \<and> (mtd = None \<or> nvram_erase_size w1 = 0)
       then Ret (None, w1)
       else case (case file of Some f \<Rightarrow> nv_content w1 f | None \<Rightarrow> Option.bind mtd (nv_content w1)) of
           None \<Rightarrow> Ret (None, w1)
         | Some bytes \<Rightarrow>
             obind (nvram_open_area en ok (nvram_erase_size w1) (take (nvram_erase_size w1) bytes))
               (\<lambda>h. Ret (h, w1)))"

section \<open>The command line tool\<close>

definition nvram_open_rdonly ::
  "endian \<Rightarrow> (nat \<Rightarrow> bool) \<Rightarrow> nv_world \<Rightarrow> (nvram_handle option \<times> nv_world) outcome" where
  "nvram_open_rdonly en ok w =
     (case nvram_find_staging w of
        Some f \<Rightarrow> nvram_open en ok (Some f) w
      | None \<Rightarrow>
          obind (nvram_find_mtd ok w) (\<lambda>(f, w1).
            if f = None then Ret (None, w1) else nvram_open en ok f w1))"

definition nvram_open_staging ::
  "endian \<Rightarrow> (nat \<Rightarrow> bool) \<Rightarrow> nv_world \<Rightarrow> (nvram_handle option \<times> nv_world) outcome" where
  "nvram_open_staging en ok w =
     (if nvram_find_staging w \<noteq> None then nvram_open en ok (Some StagingFile) w
      else obind (nvram_to_staging ok w) (\<lambda>(r, w1).
        if r = 0 then nvram_open en ok (Some StagingFile) w1 else Ret (None, w1)))"

text \<open>The state of the argument loop: the handle, the exit status, the counter \<^verbatim>\<open>done\<close>, the
  commit flag and the lines printed.\<close>

record cli_state =
  c_nvram :: nvram_handle
  c_stat :: int
  c_done :: nat
  c_commit :: bool
  c_out :: "byte list list"

text \<open>\<^verbatim>\<open>printf("%s=%s\n")\<close> of a tuple; a NULL value is printed as \<^verbatim>\<open>(null)\<close>.\<close>

definition show_tuple :: "nvram_tuple \<Rightarrow> byte list" where
  "show_tuple t = tname t @ [61] @ (case tvalue t of Some v \<Rightarrow> v | None \<Rightarrow> cstr ''(null)'')"

definition do_show :: "(nat \<Rightarrow> bool) \<Rightarrow> cli_state \<Rightarrow> cli_state" where
  "do_show ok c =
     (let ts = nvram_getall ok (c_nvram c)
      in if ts = [] then c\<lparr>c_stat := 1\<rparr>
         else c\<lparr>c_stat := 0, c_out := c_out c @ map show_tuple ts\<rparr>)"

definition do_get :: "byte list \<Rightarrow> cli_state \<Rightarrow> cli_state" where
  "do_get var c =
     (case nvram_get (c_nvram c) var of
        Some v \<Rightarrow> c\<lparr>c_stat := 0, c_out := c_out c @ [v]\<rparr>
      | None \<Rightarrow> c\<lparr>c_stat := 1\<rparr>)"

definition do_unset :: "byte list \<Rightarrow> cli_state \<Rightarrow> cli_state" where
  "do_unset var c =
     (case nvram_unset (c_nvram c) var of (h, r) \<Rightarrow> c\<lparr>c_nvram := h, c_stat := r\<rparr>)"

definition do_set :: "(nat \<Rightarrow> bool) \<Rightarrow> byte list \<Rightarrow> cli_state \<Rightarrow> cli_state" where
  "do_set ok pair c =
     (if 61 \<in> set pair
      then (let var = takeWhile (\<lambda>b. b \<noteq> 61) pair
            in case nvram_set ok (c_nvram c) var (drop (length var + 1) pair) of
                 (h, r) \<Rightarrow> c\<lparr>c_nvram := h, c_stat := r\<rparr>)
      else c\<lparr>c_stat := 1\<rparr>)"

text \<open>
  \<^verbatim>\<open>do_info\<close>: the CRC recomputed from byte 9 of the header on, and the CRC the header
  stores. Reading behind the mapped area is undefined (the mapping is page aligned and has no memory of
  the file behind it). The last line, a percentage printed from floating point numbers, is left out.
\<close>

definition info_crc :: "endian \<Rightarrow> nvram_handle \<Rightarrow> byte outcome" where
  "info_crc en h =
     (let n = unat (header_word en h 1 - of_nat NVRAM_CRC_START_POSITION)
      in if nv_offset h + NVRAM_CRC_START_POSITION + n > length (nv_mmap h) then Undef
         else Ret (hndcrc8 (take n (drop (nv_offset h + NVRAM_CRC_START_POSITION) (nv_mmap h))) 0xff))"

definition stored_crc :: "endian \<Rightarrow> nvram_handle \<Rightarrow> byte" where
  "stored_crc en h = ucast (header_word en h 2 AND 0xFF)"

definition do_info :: "endian \<Rightarrow> cli_state \<Rightarrow> cli_state outcome" where
  "do_info en c =
     (let h = c_nvram c; w = header_word en h in
      obind (info_crc en h) (\<lambda>crc.
        Ret (c\<lparr>c_stat := 0, c_out := c_out c @ map cstr
          [''Magic:         0x'' @ hex_fixed True 8 (unat (w 0)),
           ''Length:        0x'' @ hex_fixed True 8 (unat (w 1)),
           ''Offset:        0x'' @ hex_fixed True 8 (nv_offset h),
           ''CRC8:          0x'' @ hex_fixed True 2 (unat (stored_crc en h)) @
             '' (calculated: 0x'' @ hex_fixed True 2 (unat crc) @ '')'',
           ''Version:       0x'' @ hex_fixed True 2 (unat (drop_bit 8 (w 2) AND 0xFF)),
           ''SDRAM init:    0x'' @ hex_fixed True 4 (unat (drop_bit 16 (w 2) AND 0xFFFF)),
           ''SDRAM config:  0x'' @ hex_fixed True 4 (unat (w 3 AND 0xFFFF)),
           ''SDRAM refresh: 0x'' @ hex_fixed True 4 (unat (drop_bit 16 (w 3) AND 0xFFFF)),
           ''NCDL values:   0x'' @ hex_fixed True 8 (unat (w 4))]\<rparr>)))"

text \<open>
  The first loop of \<^verbatim>\<open>main\<close>: does a write command occur? After \<^verbatim>\<open>set\<close> or \<^verbatim>\<open>unset\<close> without an
  argument the index is already at the terminating NULL of \<^verbatim>\<open>argv\<close>, which the next
  \<^verbatim>\<open>strcmp\<close> of the condition dereferences.
\<close>

fun scan_write :: "string list \<Rightarrow> bool outcome" where
  "scan_write [] = Ret False"
| "scan_write (a # rest) =
     (if a = ''set'' \<or> a = ''unset'' then (if rest = [] then Undef else Ret True)
      else if a = ''commit'' then Ret True
      else scan_write rest)"

fun cli_loop :: "endian \<Rightarrow> (nat \<Rightarrow> bool) \<Rightarrow> string list \<Rightarrow> cli_state \<Rightarrow> cli_state outcome" where
  "cli_loop en ok [] c = Ret c"
| "cli_loop en ok (a # rest) c =
     (if a = ''show'' then
        (let c' = do_show ok c in cli_loop en ok rest (c'\<lparr>c_done := c_done c' + 1\<rparr>))
      else if a = ''info'' then
        obind (do_info en c) (\<lambda>c'. cli_loop en ok rest (c'\<lparr>c_done := c_done c' + 1\<rparr>))
      else if a = ''get'' \<or> a = ''unset'' \<or> a = ''set'' then
        (case rest of
           [] \<Rightarrow> Ret (c\<lparr>c_done := 0\<rparr>)
         | x # rest' \<Rightarrow>
             (let c' = (if a = ''get'' then do_get (cstr x) c
                        else if a = ''unset'' then do_unset (cstr x) c
                        else do_set ok (cstr x) c)
              in cli_loop en ok rest' (c'\<lparr>c_done := c_done c' + 1\<rparr>)))
      else if a = ''commit'' then
        cli_loop en ok rest (c\<lparr>c_commit := True, c_done := c_done c + 1\<rparr>)
      else Ret (c\<lparr>c_done := 0\<rparr>))"

text \<open>\<^verbatim>\<open>main\<close>: the exit status, the lines printed and the files afterwards. A commit on the
  shared mapping of the staging file changes the file.\<close>

definition nvram_main ::
  "endian \<Rightarrow> (nat \<Rightarrow> bool) \<Rightarrow> string list \<Rightarrow> nv_world \<Rightarrow> (int \<times> byte list list \<times> nv_world) outcome" where
  "nvram_main en ok args w =
     obind (scan_write args) (\<lambda>write.
     obind (if write then nvram_open_staging en ok w else nvram_open_rdonly en ok w) (\<lambda>(nv, w1).
       case nv of
         None \<Rightarrow> Ret (1, [], w1)
       | Some h \<Rightarrow>
           if args = [] then Ret (1, [], w1)
           else
             obind (cli_loop en ok args
               \<lparr>c_nvram = h, c_stat = 1, c_done = 0, c_commit = False, c_out = []\<rparr>) (\<lambda>c.
             obind (if write
                    then obind (nvram_commit en ok (c_nvram c)) (\<lambda>h'.
                      Ret (c\<lparr>c_stat := 0\<rparr>, w1\<lparr>w_staging := Some (nv_mmap h' @
                        drop (nvram_erase_size w1) (the (w_staging w1)))\<rparr>))
                    else Ret (c, w1)) (\<lambda>(c2, w2).
             obind (if c_commit c2 then staging_to_nvram ok w2 else Ret (c_stat c2, w2)) (\<lambda>(stat, w3).
             Ret (if c_done c2 = 0 then 1 else stat, c_out c2, w3))))))"

section \<open>The CRC of a committed image\<close>

lemma sdram_words_low:
  assumes "sdram_words h = (civ, cr, ncdl)" and "n < 8"
  shows "\<not> bit civ n"
proof -
  have "\<exists>w. civ = push_bit 8 NVRAM_VERSION OR push_bit 16 w"
    using assms(1) unfolding sdram_words_def by (auto split: option.splits simp del: push_bit_and)
  then obtain w where "civ = push_bit 8 NVRAM_VERSION OR push_bit 16 w" by blast
  with assms(2) show ?thesis by (simp only: bit_or_iff bit_push_bit_iff) simp
qed

lemma drop_bit_byte [simp]: "8 \<le> n \<Longrightarrow> drop_bit n (ucast (c :: byte) :: u32) = 0"
  by (rule bit_word_eqI) (auto simp: bit_simps dest: bit_imp_le_length)

lemma low_byte_zero:
  assumes "\<And>n. n < 8 \<Longrightarrow> \<not> bit (w :: u32) n"
  shows "(ucast w :: byte) = 0"
  using assms by (intro bit_word_eqI) (simp add: bit_simps)

lemma ucast_or: "(ucast (a OR b :: u32) :: byte) = ucast a OR ucast b"
  by (rule bit_word_eqI) (auto simp: bit_simps)

lemma ucast_byte_u32 [simp]: "ucast (ucast (c :: byte) :: u32) = c"
  by (rule bit_word_eqI) (auto simp: bit_simps)

lemma header_tail_LE:
  "drop 9 (header_bytes LittleEndian m l (civ OR ucast (c :: byte)) cr n) =
   drop 9 (header_bytes LittleEndian 0 0 civ cr n)"
  by (simp add: header_bytes_def bytes_of_u32_def bytes_be_def)

lemma header_tail_BE:
  assumes "\<And>n. n < 8 \<Longrightarrow> \<not> bit civ n"
  obtains b1 b2 r where
    "drop 9 (header_bytes BigEndian m l (civ OR ucast (c :: byte)) cr n) = [b1, b2] @ c # r"
    "drop 9 (header_bytes BigEndian 0 0 civ cr n) = [b1, b2] @ 0 # r"
  by (rule that) 
     (simp_all add: header_bytes_def bytes_of_u32_def bytes_be_def ucast_or low_byte_zero [OF assms])

end
