(* ===== verification/Nvram_Props.thy ===== *)
theory Nvram_Props
  imports Nvram_Cli
begin

text \<open>
  The properties of the NVRAM library and its command line tool, over the definitions of
  \<open>Nvram_Crc\<close>, \<open>Nvram\<close>, \<open>Nvram_Commit\<close> and \<open>Nvram_Cli\<close>.
\<close>

section \<open>Setting a variable\<close>

lemma nvram_set_accepted:
  assumes "nvram_accepts ok name value"
  shows "snd (nvram_set ok h name value) = 0"
proof (cases rule: bucketE [of "nvram_hash h ! nvram_bucket name" name])
  case absent
  with assms show ?thesis
    by (simp add: nvram_set_absent nvram_realloc_def nvram_accepts_def)
next
  case (found pre t post)
  with assms show ?thesis
    by (simp add: nvram_set_found [OF found] nvram_realloc_def nvram_accepts_def Let_def)
qed

lemma nvram_set_oversize:
  assumes "NVRAM_SPACE < length value + 1"
  shows "nvram_set ok h name value = (h, - 12)"
proof (cases rule: bucketE [of "nvram_hash h ! nvram_bucket name" name])
  case absent
  with assms show ?thesis
    by (simp add: nvram_set_absent nvram_realloc_def)
next
  case (found pre t post)
  have "(nvram_hash h)[nvram_bucket name := pre @ t # post] = nvram_hash h"
    unfolding found(1) [symmetric] by (rule list_update_id)
  with assms show ?thesis
    by (simp add: nvram_set_found [OF found] nvram_realloc_def)
qed

section \<open>Commit and re-read\<close>

lemma clean_tuple_value: "clean_tuple t \<Longrightarrow> tvalue t \<noteq> None"
  by (auto simp: clean_tuple_def split: option.splits)

lemma length_encoded_member:
  "t \<in> set ts \<Longrightarrow> length (encode_tuple t) \<le> length (concat (map encode_tuple ts))"
  by (induction ts) auto

lemma clean_fits_accepts:
  assumes "\<forall>t \<in> set (nv_tuples h). clean_tuple t" and "nvram_fits h" and "\<forall>n. ok n"
  shows "\<forall>(k, v) \<in> set (map (\<lambda>t. (tname t, the (tvalue t))) (nv_tuples h)). nvram_accepts ok k v"
  using assms length_encoded_member [of _ "nv_tuples h"]
  by (fastforce simp: nvram_accepts_def nvram_fits_def encode_tuple_def sizeof_facts)

lemma write_buckets_clean:
  assumes "\<forall>t \<in> set (nv_tuples h). clean_tuple t" and "nvram_fits h"
  shows "write_buckets (nvram_hash h) [] = Ret (concat (map encode_tuple (nv_tuples h)))"
  using write_buckets_fits [of "nvram_hash h" "[]"] assms
  by (auto simp: nv_tuples_def nvram_fits_def clean_tuple_def split: option.splits)

text \<open>Any handle on a committed image reads the variables that were committed.\<close>

lemma rehash_committed:
  fixes h g
  defines "out \<equiv> concat (map encode_tuple (nv_tuples h))"
  assumes tok: "table_ok h" and clean: "\<forall>t \<in> set (nv_tuples h). clean_tuple t"
    and fits: "nvram_fits h" and ok: "\<forall>n. ok n"
    and space: "nv_offset h + NVRAM_SPACE \<le> length (nv_mmap h)"
    and g: "table_ok g" "nv_mmap g = nv_mmap (committed en h out)" "nv_offset g = nv_offset h"
  shows "\<exists>h'. nvram_rehash en ok g = Ret h' \<and> table_ok h' \<and>
    (\<forall>k. nvram_get h k \<noteq> None \<longrightarrow> nvram_get h' k = nvram_get h k) \<and>
    (\<forall>k. k \<notin> sdram_keys \<longrightarrow> nvram_get h' k = nvram_get h k) \<and>
    (\<forall>k \<in> sdram_keys. nvram_get h' k \<noteq> None)"
proof -
  let ?kvs = "map (\<lambda>t. (tname t, the (tvalue t))) (nv_tuples h)"
  let ?h1 = "fold (\<lambda>(k, v) h. fst (nvram_set ok h k v)) ?kvs (nvram_free g)"
  have b: "sizeof_header + length out \<le> nvram_end"
    using fits by (simp add: nvram_fits_def out_def)
  obtain r where "drop (nv_offset g + sizeof_header) (nv_mmap g) = out @ 0 # r"
    using commit_area_data [of en h out] drop_committed_data [OF space b, of en] g(2,3) by auto
  then have loop: "rehash_loop ok (nvram_free g) (drop (nv_offset g + sizeof_header) (nv_mmap g)) = Ret ?h1"
    using rehash_loop_encoded [OF clean] by (simp add: out_def)
  have "\<forall>t \<in> set (nv_tuples h). tvalue t \<noteq> None"
    using clean clean_tuple_value by blast
  then have geth: "nvram_get h = map_of ?kvs"
    using nvram_get_map_of [OF tok] by blast
  have "distinct (map fst ?kvs)"
    using distinct_nv_tuples [OF tok] by (simp add: comp_def)
  then have get1: "nvram_get ?h1 = nvram_get h"
    using nv.get_put_all_distinct [OF nvram_free_ok [OF g(1)] clean_fits_accepts [OF clean fits ok]]
    by (simp add: nvram_get_free [OF g(1)] geth)
  have tok1: "table_ok ?h1"
    by (rule nv.valid_put_all [OF nvram_free_ok [OF g(1)]])
  have "nv_offset g + sizeof_header \<le> length (nv_mmap g)"
    using space by (simp add: g(2,3) length_committed [OF space b] sizeof_facts)
  from nvram_rehash_get [OF g(1) ok this loop tok1, of en] show ?thesis
    by (simp add: get1)
qed

lemma header_word_committed:
  assumes "nv_offset h + NVRAM_SPACE \<le> length (nv_mmap h)"
    and "sdram_words h = (civ, cr, ncdl)"
  shows "header_word en (committed en h out) 0 = NVRAM_MAGIC"
    and "header_word en (committed en h out) 1 = of_nat (data_length out)"
    and "header_word en (committed en h out) 2 = civ OR ucast (commit_crc en civ cr ncdl
      (take (data_length out - sizeof_header) (drop sizeof_header (commit_area en h out))))"
  unfolding header_word_def nv_offset_committed drop_committed [OF assms(1)]
  by (simp_all add: commit_area_def Let_def assms(2) u32_of_header_bytes [simplified] sizeof_facts
      del: append_assoc add: append_assoc)

lemma nvram_rehash_offset: "nvram_rehash en ok h = Ret h' \<Longrightarrow> nv_offset h' = nv_offset h"
  using rehash_loop_frame [of ok "nvram_free h"]
  by (auto simp: nvram_rehash_def Let_def obind_eq_Ret nvram_free_def set_missing_def
      split: if_splits option.splits)

lemma header_word_cong:
  "nv_mmap h' = nv_mmap h \<Longrightarrow> nv_offset h' = nv_offset h \<Longrightarrow> header_word en h' = header_word en h"
  by (simp add: fun_eq_iff header_word_def)

text \<open>Everything a commit leaves in the handle's mapping, in terms of the image written.\<close>

lemma nvram_commit_image:
  assumes "table_ok h" and "\<forall>t \<in> set (nv_tuples h). tvalue t \<noteq> None"
    and "nv_offset h + NVRAM_SPACE \<le> length (nv_mmap h)"
  obtains out h' where "nvram_commit en ok h = Ret h'" and "nv_mmap h' = nv_mmap (committed en h out)"
    and "nv_offset h' = nv_offset h" and "sizeof_header + length out \<le> nvram_end"
    and "header_word en h' = header_word en (committed en h out)"
proof -
  obtain out h' where c: "nvram_commit en ok h = Ret h'" "nv_mmap h' = nv_mmap (committed en h out)"
      "sizeof_header + length out \<le> nvram_end" "write_buckets (nvram_hash h) [] = Ret out"
    using nvram_commit_total [OF assms] by metis
  then have "nv_offset h' = nv_offset h"
    using nvram_rehash_offset [of en ok "committed en h out" h']
    by (simp add: nvram_commit_committed [OF assms(3)])
  with c show ?thesis
    by (intro that [of h' out]) (auto intro: header_word_cong)
qed

lemma of_nat_data_length:
  assumes "sizeof_header + length out \<le> nvram_end"
  shows "unat (of_nat (data_length out) :: u32) = data_length out"
  using data_length_bounds(1) [OF assms] by (simp add: unat_of_nat sizeof_facts)

section \<open>The CRC that \<^verbatim>\<open>nvram info\<close> recomputes\<close>

text \<open>The bytes that \<^verbatim>\<open>do_info\<close> feeds to the CRC on a committed image.\<close>

lemma info_crc_committed:
  assumes "nv_offset h + NVRAM_SPACE \<le> length (nv_mmap h)" and "sdram_words h = (civ, cr, ncdl)"
    and "sizeof_header + length out \<le> nvram_end"
    and "nv_mmap h' = nv_mmap (committed en h out)" and "nv_offset h' = nv_offset h"
  shows "\<exists>data. let c = commit_crc en civ cr ncdl data in
    stored_crc en h' = ucast (civ OR ucast c) \<and>
    info_crc en h' = Ret (hndcrc8 (drop 9 (header_bytes en NVRAM_MAGIC
      (of_nat (data_length out)) (civ OR ucast c) cr ncdl) @ data) 0xff)"
proof -
  let ?area = "finish_data out @ replicate (NVRAM_SPACE - sizeof_header - length (finish_data out)) 0xFF"
  let ?data = "take (data_length out - sizeof_header) ?area"
  let ?c = "commit_crc en civ cr ncdl ?data"
  let ?hd = "header_bytes en NVRAM_MAGIC (of_nat (data_length out)) (civ OR ucast ?c) cr ncdl"
  note b = data_length_bounds [OF assms(3)]
  have hw: "header_word en h' = header_word en (committed en h out)"
    using assms(4,5) by (intro header_word_cong) simp_all
  have "unat (header_word en h' 1 - of_nat NVRAM_CRC_START_POSITION) =
      unat (of_nat (data_length out - 9) :: u32)"
    using b(4) by (simp add: hw header_word_committed(2) [OF assms(1,2), simplified] NVRAM_CRC_START_POSITION_def
        of_nat_diff sizeof_facts)
  also have "\<dots> = data_length out - 9"
    using b(1) by (simp add: unat_of_nat sizeof_facts)
  finally have n: "unat (header_word en h' 1 - of_nat NVRAM_CRC_START_POSITION) = data_length out - 9" .
  have area: "commit_area en h out = ?hd @ ?area"
    by (simp add: commit_area_def Let_def assms(2) sizeof_facts)
  then have drop_area: "drop sizeof_header (commit_area en h out) = ?area"
    by (simp add: sizeof_facts)
  have "length ?area = NVRAM_SPACE - sizeof_header"
    using b(1,3) by (simp add: sizeof_facts)
  then have "take (data_length out - 9) (drop (nv_offset h + 9) (nv_mmap (committed en h out))) =
      drop 9 ?hd @ ?data"
    unfolding drop_committed [OF assms(1)] area
    using b(1,4) by (simp add: sizeof_facts del: length_append)
  moreover have "nv_offset h' + NVRAM_CRC_START_POSITION + (data_length out - 9) \<le> length (nv_mmap h')"
    using assms(1) b(1,4)
    by (simp add: assms(4,5) length_committed [OF assms(1,3)] NVRAM_CRC_START_POSITION_def sizeof_facts)
  ultimately have "info_crc en h' = Ret (hndcrc8 (drop 9 ?hd @ ?data) 0xff)"
    unfolding info_crc_def n Let_def by (simp add: assms(4,5) NVRAM_CRC_START_POSITION_def)
  moreover have "stored_crc en h' = ucast (civ OR ucast ?c)"
    unfolding stored_crc_def hw header_word_committed(3) [OF assms(1,2)] drop_area
    by (rule ucast_and_ff)
  ultimately show ?thesis
    unfolding Let_def by blast
qed

section \<open>Finding the image again\<close>

definition magic_at :: "endian \<Rightarrow> byte list \<Rightarrow> nat \<Rightarrow> bool" where
  "magic_at en area off \<longleftrightarrow> u32_of_bytes en (take 4 (drop off area)) = NVRAM_MAGIC"

lemma find_magic_spec:
  assumes "4 * (i + n) \<le> length area"
  shows "find_magic en area i n =
    Ret (if \<exists>j. i \<le> j \<and> j < i + n \<and> magic_at en area (4 * j)
         then Some (4 * (LEAST j. i \<le> j \<and> magic_at en area (4 * j))) else None)"
  using assms
proof (induction n arbitrary: i)
  case (Suc n)
  show ?case
  proof (cases "magic_at en area (4 * i)")
    case True
    then have "(LEAST j. i \<le> j \<and> magic_at en area (4 * j)) = i"
      by (intro Least_equality) auto
    with True Suc.prems show ?thesis
      by (auto simp: magic_at_def intro: exI [of _ i])
  next
    case False
    then have shift: "i \<le> j \<and> magic_at en area (4 * j) \<longleftrightarrow> Suc i \<le> j \<and> magic_at en area (4 * j)" for j
      by (cases "j = i") auto
    then have eq: "(\<lambda>j. i \<le> j \<and> magic_at en area (4 * j)) = (\<lambda>j. Suc i \<le> j \<and> magic_at en area (4 * j))"
      by blast
    have "find_magic en area i (Suc n) = find_magic en area (Suc i) n"
      using False Suc.prems by (simp add: magic_at_def)
    also have "\<dots> = Ret (if \<exists>j. Suc i \<le> j \<and> j < Suc i + n \<and> magic_at en area (4 * j)
         then Some (4 * (LEAST j. Suc i \<le> j \<and> magic_at en area (4 * j))) else None)"
      using Suc.prems by (intro Suc.IH) simp
    moreover have "(\<exists>j. Suc i \<le> j \<and> j < Suc i + n \<and> magic_at en area (4 * j)) \<longleftrightarrow>
       (\<exists>j. i \<le> j \<and> j < i + Suc n \<and> magic_at en area (4 * j))"
      using shift by auto
    ultimately show ?thesis
      by (simp only: eq)
  qed
qed simp

lemma magic_steps:
  "NVRAM_SPACE \<le> esz \<Longrightarrow> esz < 2 ^ 32 \<Longrightarrow>
     unat ((of_nat esz - of_nat NVRAM_SPACE :: u32) div 4) = (esz - NVRAM_SPACE) div 4"
proof -
  assume esz: "NVRAM_SPACE \<le> esz" "esz < 2 ^ 32"
  have "(of_nat esz - of_nat NVRAM_SPACE :: u32) = of_nat (esz - NVRAM_SPACE)"
    using esz(1) by (rule of_nat_diff [symmetric])
  then have "unat (of_nat esz - of_nat NVRAM_SPACE :: u32) = esz - NVRAM_SPACE"
    using esz(2) by (simp only: unat_of_nat) simp
  then show ?thesis by (simp add: unat_div)
qed

text \<open>The aligned offsets the search visits, and the first of them that holds the magic.\<close>

definition magic_offsets :: "endian \<Rightarrow> byte list \<Rightarrow> nat set" where
  "magic_offsets en area = {off. 4 dvd off \<and> off + NVRAM_SPACE \<le> length area \<and> magic_at en area off}"

lemma find_magic_area:
  assumes "NVRAM_SPACE \<le> length area" and "length area < 2 ^ 32"
  shows "find_magic en area 0 (unat ((of_nat (length area) - of_nat NVRAM_SPACE :: u32) div 4) + 1) =
    Ret (if magic_offsets en area = {} then None else Some (LEAST off. off \<in> magic_offsets en area))"
proof -
  let ?n = "(length area - NVRAM_SPACE) div 4 + 1"
  let ?P = "\<lambda>j. 0 \<le> j \<and> magic_at en area (4 * j)"
  have n: "4 * (0 + ?n) \<le> length area" and le: "j < 0 + ?n \<longleftrightarrow> 4 * j + NVRAM_SPACE \<le> length area" for j
    using assms(1) by (auto simp: sizeof_facts)
  have mem: "off \<in> magic_offsets en area \<longleftrightarrow> (\<exists>j < 0 + ?n. off = 4 * j \<and> ?P j)" for off
    unfolding magic_offsets_def le by auto
  have "4 * (LEAST j. ?P j) = (LEAST off. off \<in> magic_offsets en area)" if "\<exists>j < 0 + ?n. ?P j"
  proof -
    from that obtain j where j: "j < 0 + ?n" "?P j" by blast
    then have "?P (LEAST j. ?P j)" "(LEAST j. ?P j) \<le> j"
      by (auto intro: LeastI Least_le)
    with j(1) have "4 * (LEAST j. ?P j) \<in> magic_offsets en area"
      unfolding mem by (intro exI [of _ "LEAST j. ?P j"]) (simp only: le_less_trans)
    moreover have "4 * (LEAST j. ?P j) \<le> off" if "off \<in> magic_offsets en area" for off
      using that unfolding mem by (auto intro: Least_le)
    ultimately show ?thesis
      by (metis (no_types, lifting) Least_equality)
  qed
  moreover have "magic_offsets en area = {} \<longleftrightarrow> \<not> (\<exists>j < 0 + ?n. ?P j)"
    using mem by blast
  ultimately show ?thesis
    unfolding magic_steps [OF assms] find_magic_spec [OF n] by auto
qed

section \<open>Parsed variables are well formed\<close>

definition clean_handle :: "nvram_handle \<Rightarrow> bool" where
  "clean_handle h \<longleftrightarrow> (\<forall>t \<in> set (nv_tuples h). clean_tuple t)"

lemma clean_bucket_update:
  "clean_handle h \<Longrightarrow> \<forall>t \<in> set b. clean_tuple t \<Longrightarrow>
     clean_handle (h\<lparr>nvram_hash := (nvram_hash h)[i := b]\<rparr>)"
  by (auto simp: clean_handle_def nv_tuples_def dest!: set_update_subset_insert [THEN subsetD])

lemma clean_bucket:
  "clean_handle h \<Longrightarrow> length (nvram_hash h) = 257 \<Longrightarrow>
     t \<in> set (nvram_hash h ! nvram_bucket name) \<Longrightarrow> clean_tuple t"
  by (force simp: clean_handle_def nv_tuples_def)

lemma clean_handle_set:
  assumes "clean_handle h" and "table_ok h" and "\<forall>n. ok n"
    and "0 \<notin> set name" and "61 \<notin> set name" and "0 \<notin> set value"
  shows "clean_handle (fst (nvram_set ok h name value))"
proof (cases "NVRAM_SPACE < length value + 1")
  case True
  with assms(1) show ?thesis by (simp add: nvram_set_oversize)
next
  case False
  note cb = clean_bucket [OF assms(1) table_ok_length [OF assms(2)]]
  show ?thesis
  proof (cases rule: bucketE [of "nvram_hash h ! nvram_bucket name" name])
    case absent
    have "clean_handle (h\<lparr>nvram_hash := (nvram_hash h)
        [nvram_bucket name := \<lparr>tname = name, tvalue = Some value\<rparr> # nvram_hash h ! nvram_bucket name]\<rparr>)"
      using assms(4-6) cb by (intro clean_bucket_update [OF assms(1)]) (auto simp: clean_tuple_def)
    with absent False assms(3) show ?thesis
      by (simp add: nvram_set_absent nvram_realloc_def)
  next
    case (found pre t post)
    have "clean_handle (h\<lparr>nvram_hash := (nvram_hash h)
        [nvram_bucket name := pre @ t\<lparr>tvalue := Some value\<rparr> # post]\<rparr>)"
      using assms(4-6) cb [of _ name] found
      by (intro clean_bucket_update [OF assms(1)]) (auto simp: clean_tuple_def)
    moreover have "nvram_realloc ok (Some t) name value =
        (Some (t\<lparr>tvalue := Some value\<rparr>), Some (t\<lparr>tvalue := Some value\<rparr>))"
      using False assms(3) by (auto simp: nvram_realloc_def Let_def)
    ultimately show ?thesis
      by (simp add: nvram_set_found [OF found])
  qed
qed

lemma clean_rehash_loop:
  "rehash_loop ok h bs = Ret h' \<Longrightarrow> \<forall>n. ok n \<Longrightarrow> table_ok h \<Longrightarrow> clean_handle h \<Longrightarrow> clean_handle h'"
proof (induction h bs rule: rehash_loop_entry_induct [where ok = ok])
  case (entry h bs s name val)
  have "0 \<notin> set s"
    using entry.hyps(1) by (auto dest: c_string_at_Some)
  then have "0 \<notin> set name" "61 \<notin> set name" "0 \<notin> set val"
    unfolding entry.hyps(3,4) by (auto dest: set_takeWhileD in_set_dropD)
  with entry.prems have "clean_handle (fst (nvram_set ok h name val))"
    by (intro clean_handle_set)
  moreover have "rehash_loop ok (fst (nvram_set ok h name val)) (drop (length s + 1) bs) = Ret h'"
    using entry.prems(1) unfolding entry.hyps(5) .
  ultimately show ?case
    using entry.prems(2,3) by (intro entry.IH table_ok_set)
qed (auto simp: rehash_loop_none rehash_loop_stop)

lemma cstr_hex_fixed_clean: "0 \<notin> set (cstr (''0x'' @ hex_fixed up w v))"
proof -
  have "is_digit_in 16 c" if "c \<in> set (hex_fixed up w v)" for c
    using that by (auto simp: hex_fixed_map intro: is_digit_hex_char hex_digits_bound)
  moreover have "\<not> is_digit_in 16 CHR 0x00"
    by (simp add: is_digit_in_def digit_val_def)
  ultimately have "CHR 0x00 \<notin> set (hex_fixed up w v)"
    by blast
  then show ?thesis
    by (auto simp: cstr_def image_iff dest!: sym [of 0])
qed

lemma clean_set_missing:
  assumes "clean_handle h" and "table_ok h" and "\<forall>n. ok n"
    and "0 \<notin> set (cstr key)" and "61 \<notin> set (cstr key)" and "0 \<notin> set (cstr text)"
  shows "clean_handle (set_missing ok key text h)"
  using assms by (auto simp: set_missing_def intro: clean_handle_set split: option.splits)

lemma nvram_free_clean: "clean_handle (nvram_free h)"
  by (auto simp: clean_handle_def nv_tuples_def nvram_free_def)

lemma rehash_clean:
  assumes "nvram_rehash en ok h = Ret h'" and ok: "\<forall>n. ok n" and "table_ok h"
  shows "table_ok h' \<and> clean_handle h'"
proof -
  have step: "table_ok (set_missing ok key (''0x'' @ hex_fixed True w v) g) \<and>
      clean_handle (set_missing ok key (''0x'' @ hex_fixed True w v) g)"
    if "table_ok g \<and> clean_handle g" "w \<le> 8"
      "key \<in> {''sdram_init'', ''sdram_config'', ''sdram_refresh'', ''sdram_ncdl''}" for key w v g
    using that ok cstr_hex_fixed_clean [of True w v]
    by (auto intro!: set_missing_step(1) clean_set_missing simp del: append.simps)
       (auto simp: cstr_def byte_of_char_def)
  obtain h1 where "rehash_loop ok (nvram_free h) (drop (nv_offset h + sizeof_header) (nv_mmap h)) = Ret h1"
    and h': "h' = set_missing ok ''sdram_ncdl'' (''0x'' @ hex_fixed True 8 (unat (header_word en h 4)))
      (set_missing ok ''sdram_refresh'' (''0x'' @ hex_fixed True 4 (unat (drop_bit 16 (header_word en h 3) AND 0xffff)))
      (set_missing ok ''sdram_config'' (''0x'' @ hex_fixed True 4 (unat (header_word en h 3 AND 0xffff)))
      (set_missing ok ''sdram_init'' (''0x'' @ hex_fixed True 4 (unat (drop_bit 16 (header_word en h 2)))) h1)))"
    using assms(1) by (auto simp: nvram_rehash_def Let_def obind_eq_Ret split: if_splits)
  then have "table_ok h1 \<and> clean_handle h1"
    using rehash_loop_ok clean_rehash_loop ok nvram_free_ok [OF assms(3)] nvram_free_clean by blast
  then show ?thesis
    unfolding h' by (intro step) simp_all
qed

section \<open>The size of the encoded variables\<close>

definition nv_size :: "nvram_handle \<Rightarrow> nat" where
  "nv_size h = length (concat (map encode_tuple (nv_tuples h)))"

definition bucket_size :: "nvram_tuple list \<Rightarrow> nat" where
  "bucket_size b = sum_list (map (\<lambda>t. length (encode_tuple t)) b)"

lemma nv_size_buckets: "nv_size h = sum_list (map bucket_size (nvram_hash h))"
proof -
  have "length (concat (map encode_tuple (concat bs))) = sum_list (map bucket_size bs)" for bs
    by (induction bs) (auto simp: bucket_size_def length_concat comp_def)
  then show ?thesis by (simp add: nv_size_def nv_tuples_def)
qed

lemma nv_size_update:
  assumes "table_ok h" and "i < 257" and "bucket_size b \<le> bucket_size (nvram_hash h ! i) + n"
  shows "nv_size (h\<lparr>nvram_hash := (nvram_hash h)[i := b]\<rparr>) \<le> nv_size h + n"
proof -
  have "i < length (map bucket_size (nvram_hash h))"
    using assms(1,2) by (simp add: table_ok_length)
  from elem_le_sum_list [OF this] sum_list_update [OF this, of "bucket_size b"] show ?thesis
    using assms table_ok_length [OF assms(1)] by (simp add: nv_size_buckets map_update)
qed

lemma nv_size_set:
  assumes "table_ok h" and "\<forall>n. ok n"
  shows "nv_size (fst (nvram_set ok h name value)) \<le> nv_size h + (length name + length value + 2)"
proof (cases "NVRAM_SPACE < length value + 1")
  case True
  then show ?thesis by (simp add: nvram_set_oversize)
next
  case False
  show ?thesis
  proof (cases rule: bucketE [of "nvram_hash h ! nvram_bucket name" name])
    case absent
    have "nv_size (h\<lparr>nvram_hash := (nvram_hash h)[nvram_bucket name :=
        \<lparr>tname = name, tvalue = Some value\<rparr> # nvram_hash h ! nvram_bucket name]\<rparr>)
      \<le> nv_size h + (length name + length value + 2)"
      by (rule nv_size_update [OF assms(1)]) (simp_all add: bucket_size_def encode_tuple_def)
    with absent False assms(2) show ?thesis
      by (simp add: nvram_set_absent nvram_realloc_def)
  next
    case (found pre t post)
    have "nvram_realloc ok (Some t) name value =
        (Some (t\<lparr>tvalue := Some value\<rparr>), Some (t\<lparr>tvalue := Some value\<rparr>))"
      using False assms(2) by (auto simp: nvram_realloc_def Let_def)
    moreover have "nv_size (h\<lparr>nvram_hash := (nvram_hash h)[nvram_bucket name :=
        pre @ t\<lparr>tvalue := Some value\<rparr> # post]\<rparr>) \<le> nv_size h + (length name + length value + 2)"
      using found by (intro nv_size_update [OF assms(1)]) (simp_all add: bucket_size_def encode_tuple_def)
    ultimately show ?thesis
      by (simp add: nvram_set_found [OF found])
  qed
qed

section \<open>Opening what was committed\<close>

lemma table_ok_empty [simp]: "table_ok (empty_handle area off)"
  by (simp add: table_ok_def empty_handle_def)

lemma empty_handle_simps [simp]:
  "nv_mmap (empty_handle area off) = area" "nv_offset (empty_handle area off) = off"
  "nv_tuples (empty_handle area off) = []"
  by (simp_all add: empty_handle_def nv_tuples_def)

lemma open_area_result:
  assumes "NVRAM_SPACE \<le> length area" and "length area < 2 ^ 32" and "\<forall>n. ok n"
  shows "nvram_open_area en ok (length area) area =
    (if magic_offsets en area = {} then Ret None
     else obind (nvram_rehash en ok (empty_handle area (LEAST off. off \<in> magic_offsets en area)))
            (\<lambda>h. Ret (Some h)))"
proof -
  have "magic_at en area (LEAST off. off \<in> magic_offsets en area)" if "magic_offsets en area \<noteq> {}"
    using LeastI_ex [of "\<lambda>off. off \<in> magic_offsets en area"] that by (auto simp: magic_offsets_def)
  then have hw: "header_word en (empty_handle area (LEAST off. off \<in> magic_offsets en area)) 0 = NVRAM_MAGIC"
    if "magic_offsets en area \<noteq> {}"
    using that by (simp add: header_word_def magic_at_def empty_handle_def)
  show ?thesis
    unfolding nvram_open_area_def find_magic_area [OF assms(1,2)]
    using hw assms(3) by (cases "magic_offsets en area = {}") simp_all
qed

lemma open_area_handle:
  assumes "NVRAM_SPACE \<le> length area" and "length area < 2 ^ 32" and "\<forall>n. ok n"
    and "nvram_open_area en ok (length area) area = Ret (Some h)"
  shows "table_ok h" "clean_handle h" "nv_mmap h = area" "nv_offset h \<in> magic_offsets en area"
    "nv_offset h = (LEAST off. off \<in> magic_offsets en area)"
proof -
  let ?off = "LEAST off. off \<in> magic_offsets en area"
  have ne: "magic_offsets en area \<noteq> {}" and h: "nvram_rehash en ok (empty_handle area ?off) = Ret h"
    using assms(4) unfolding open_area_result [OF assms(1-3)] by (auto simp: obind_eq_Ret split: if_splits)
  show "table_ok h" "clean_handle h"
    using rehash_clean [OF h assms(3)] by simp_all
  show "nv_mmap h = area" and off: "nv_offset h = ?off"
    using nvram_rehash_frame [OF h] nvram_rehash_offset [OF h] by (simp_all add: empty_handle_def)
  show "nv_offset h \<in> magic_offsets en area"
    unfolding off using ne by (auto intro: LeastI_ex)
qed

text \<open>A commit leaves the first magic where it was.\<close>

lemma magic_committed:
  assumes "nv_offset h + NVRAM_SPACE \<le> length (nv_mmap h)" and "4 dvd nv_offset h"
    and "sizeof_header + length out \<le> nvram_end"
    and least: "nv_offset h = (LEAST off. off \<in> magic_offsets en (nv_mmap h))"
  shows "(LEAST off. off \<in> magic_offsets en (nv_mmap (committed en h out))) = nv_offset h"
    and "nv_offset h \<in> magic_offsets en (nv_mmap (committed en h out))"
proof -
  let ?m = "nv_mmap (committed en h out)"
  have len: "length ?m = length (nv_mmap h)"
    by (rule length_committed [OF assms(1,3)])
  obtain civ cr ncdl where sw: "sdram_words h = (civ, cr, ncdl)"
    by (cases "sdram_words h") auto
  show mem: "nv_offset h \<in> magic_offsets en ?m"
    using header_word_committed(1) [OF assms(1) sw, of en out] assms(1,2)
    by (simp add: magic_offsets_def magic_at_def header_word_def len)
  have "nv_offset h \<le> off" if off: "off \<in> magic_offsets en ?m" for off
  proof (rule ccontr)
    assume "\<not> nv_offset h \<le> off"
    moreover have "4 dvd off" using off by (simp add: magic_offsets_def)
    ultimately have le: "off + 4 \<le> nv_offset h"
      using assms(2) by (auto simp: dvd_def)
    have "take 4 (drop off (take (nv_offset h) ?m)) = take 4 (drop off (take (nv_offset h) (nv_mmap h)))"
      using assms(1) by (simp add: committed_def)
    with le have "take 4 (drop off ?m) = take 4 (drop off (nv_mmap h))"
      by (simp add: drop_take min_absorb1)
    with off have "off \<in> magic_offsets en (nv_mmap h)"
      by (simp add: magic_offsets_def magic_at_def len)
    then have "nv_offset h \<le> off"
      unfolding least by (rule Least_le)
    with le show False by simp
  qed
  with mem show "(LEAST off. off \<in> magic_offsets en ?m) = nv_offset h"
    by (intro Least_equality)
qed

lemma find_mtd_staging:
  "nvram_find_mtd ok (w\<lparr>w_staging := s\<rparr>) =
     obind (nvram_find_mtd ok w) (\<lambda>(f, w1). Ret (f, w1\<lparr>w_staging := s\<rparr>))"
  by (cases "w_proc_mtd w";
      cases "find_mtd_loop ok (w_blkdev w) (the (w_proc_mtd w)) None (nvram_erase_size w)")
     (auto simp: nvram_find_mtd_def split: option.splits)

text \<open>Opening the staging file in a fresh process, where the erase size is still unknown.\<close>

lemma open_staging_file:
  assumes "nvram_find_mtd ok w = Ret (Some f, w\<lparr>nvram_erase_size := e\<rparr>)" and "0 < e"
    and "nvram_erase_size w = 0" and "w_staging w = Some stg"
  shows "nvram_open en ok (Some StagingFile) w =
    obind (nvram_open_area en ok e (take e stg)) (\<lambda>h. Ret (h, w\<lparr>nvram_erase_size := e\<rparr>))"
  using assms by (simp add: nvram_open_def nv_content_def)

lemma cstr_append: "cstr (s @ t) = cstr s @ cstr t"
  by (simp add: cstr_def)

lemma cstr_no_eq: "CHR ''='' \<notin> set k \<Longrightarrow> 61 \<notin> set (cstr k)"
proof -
  have "byte_of_char CHR ''='' = 61" by (simp add: byte_of_char_def)
  then show "CHR ''='' \<notin> set k \<Longrightarrow> ?thesis"
    by (auto simp: cstr_def simp flip: \<open>byte_of_char CHR ''='' = 61\<close>)
qed

lemma cstr_no_nul: "CHR 0x00 \<notin> set k \<Longrightarrow> 0 \<notin> set (cstr k)"
  by (auto simp: cstr_def dest!: sym [of 0])

lemma do_set_pair:
  assumes "CHR ''='' \<notin> set k"
  shows "do_set ok (cstr (k @ ''='' @ v)) c =
    (case nvram_set ok (c_nvram c) (cstr k) (cstr v) of (h, r) \<Rightarrow> c\<lparr>c_nvram := h, c_stat := r\<rparr>)"
proof -
  have "cstr (k @ ''='' @ v) = cstr k @ 61 # cstr v"
    by (simp add: cstr_append) (simp add: cstr_def byte_of_char_def)
  moreover have "takeWhile (\<lambda>b. b \<noteq> 61) (cstr k @ 61 # cstr v) = cstr k"
    using cstr_no_eq [OF assms] by (subst takeWhile_append2) auto
  ultimately show ?thesis
    by (simp add: do_set_def Let_def)
qed

lemma set_commit_reopen:
  assumes ok: "\<forall>n. ok n" and len: "NVRAM_SPACE \<le> length area" "length area < 2 ^ 32"
    and h: "nvram_open_area en ok (length area) area = Ret (Some h)"
    and kv: "0 \<notin> set k" "61 \<notin> set k" "0 \<notin> set v" "length v + 1 \<le> NVRAM_SPACE"
    and fits: "sizeof_header + (nv_size h + (length k + length v + 2)) \<le> nvram_end"
  shows "\<exists>h1 h' h''. nvram_set ok h k v = (h1, 0) \<and> nvram_commit en ok h1 = Ret h' \<and>
    length (nv_mmap h') = length area \<and>
    nvram_open_area en ok (length area) (nv_mmap h') = Ret (Some h'') \<and> nvram_get h'' k = Some v"
proof -
  note o = open_area_handle [OF len ok h]
  have acc: "nvram_accepts ok k v"
    using kv(4) ok by (simp add: nvram_accepts_def)
  define h1 where "h1 = fst (nvram_set ok h k v)"
  have h1: "table_ok h1" "clean_handle h1" "nv_mmap h1 = area" "nv_offset h1 = nv_offset h"
      "nvram_get h1 k = Some v" "nvram_set ok h k v = (h1, 0)"
    using o acc kv ok nvram_set_accepted [OF acc, of h]
    by (auto simp: h1_def table_ok_set nvram_get_set prod_eq_iff intro: clean_handle_set)
  have fits1: "nvram_fits h1"
    using nv_size_set [OF o(1) ok, of k v] fits by (simp add: nvram_fits_def h1_def nv_size_def)
  have clean: "\<forall>t \<in> set (nv_tuples h1). clean_tuple t"
    using h1(2) by (simp add: clean_handle_def)
  have space: "nv_offset h1 + NVRAM_SPACE \<le> length (nv_mmap h1)" and dvd: "4 dvd nv_offset h1"
    using o(4) by (simp_all add: h1 magic_offsets_def)
  let ?out = "concat (map encode_tuple (nv_tuples h1))"
  let ?c = "committed en h1 ?out"
  have b: "sizeof_header + length ?out \<le> nvram_end"
    using fits1 by (simp add: nvram_fits_def)
  have len': "length (nv_mmap ?c) = length area"
    using length_committed [OF space b] h1(3) by simp
  note mc = magic_committed [OF space dvd b, of en, unfolded h1(3,4), OF o(5)]
  note rc = rehash_committed [OF h1(1) clean fits1 ok space, of _ en]
  obtain h' where h': "nvram_rehash en ok ?c = Ret h'"
    using rc [of ?c] h1(1) by auto
  obtain h'' where h'': "nvram_rehash en ok (empty_handle (nv_mmap ?c) (nv_offset h)) = Ret h''"
      "nvram_get h1 k \<noteq> None \<longrightarrow> nvram_get h'' k = nvram_get h1 k"
    using rc [of "empty_handle (nv_mmap ?c) (nv_offset h)"] by (auto simp: h1(4))
  have "nvram_commit en ok h1 = Ret h'" "nv_mmap h' = nv_mmap ?c"
    using h' nvram_rehash_frame [OF h']
    by (simp_all add: nvram_commit_committed [OF space] write_buckets_clean [OF clean fits1])
  moreover have "nvram_open_area en ok (length area) (nv_mmap ?c) = Ret (Some h'')"
    using open_area_result [of "nv_mmap ?c" ok en] len ok mc h''(1) by (auto simp: len')
  ultimately show ?thesis
    using h1(5,6) h''(2) len' by auto
qed

section \<open>Properties\<close>

text \<open>
  C1. The hash table of variables refines a finite map. On a well-formed table \<^verbatim>\<open>nvram_set\<close>
  and \<^verbatim>\<open>nvram_unset\<close> keep the table well formed; an accepted \<^verbatim>\<open>nvram_set\<close> returns 0 and
  updates the map at that name only; \<^verbatim>\<open>nvram_unset\<close> removes exactly that name; a value that
  cannot fit the NVRAM space is refused with \<^verbatim>\<open>-ENOMEM\<close> and changes nothing.
\<close>

theorem nvram_table_refines_map:
  assumes "table_ok h"
  shows "table_ok (fst (nvram_set ok h name value)) \<and> table_ok (fst (nvram_unset h name)) \<and>
    nvram_get (fst (nvram_unset h name)) = (nvram_get h)(name := None) \<and>
    (nvram_accepts ok name value \<longrightarrow> snd (nvram_set ok h name value) = 0 \<and>
       nvram_get (fst (nvram_set ok h name value)) = (nvram_get h)(name \<mapsto> value)) \<and>
    (NVRAM_SPACE < length value + 1 \<longrightarrow> nvram_set ok h name value = (h, - 12))"
  using nv.valid_put [OF assms] nv.valid_remove [OF assms] nv.get_remove [OF assms]
    nv.get_put [OF assms] nvram_set_accepted nvram_set_oversize
  by blast

theorem nvram_table_refines_map_witness:
  "nvram_get (fst (nvram_set (\<lambda>_. True) (empty_handle [] 0) (cstr ''lan_ip'') (cstr ''10.0.0.1'')))
     (cstr ''lan_ip'') = Some (cstr ''10.0.0.1'')"
  using nvram_table_refines_map [OF table_ok_empty [of "[]" 0], of "\<lambda>_. True" "cstr ''lan_ip''" "cstr ''10.0.0.1''"]
  by (simp add: nvram_accepts_def sizeof_facts cstr_def)

text \<open>
  C2. A commit returns and stays inside the NVRAM space, whatever the variables and whatever
  the allocator answers while the area is re-read: the bytes of the mapping before and
  after the space are unchanged, the header carries the magic, and its length is a multiple
  of four that does not exceed the space.
\<close>

theorem nvram_commit_in_space:
  assumes "table_ok h" and "\<forall>t \<in> set (nv_tuples h). tvalue t \<noteq> None"
    and "nv_offset h + NVRAM_SPACE \<le> length (nv_mmap h)"
  shows "\<exists>h'. nvram_commit en ok h = Ret h' \<and> length (nv_mmap h') = length (nv_mmap h) \<and>
    take (nv_offset h) (nv_mmap h') = take (nv_offset h) (nv_mmap h) \<and>
    drop (nv_offset h + NVRAM_SPACE) (nv_mmap h') = drop (nv_offset h + NVRAM_SPACE) (nv_mmap h) \<and>
    header_word en h' 0 = NVRAM_MAGIC \<and>
    4 dvd unat (header_word en h' 1) \<and> unat (header_word en h' 1) \<le> NVRAM_SPACE"
proof -
  obtain out h' where c: "nvram_commit en ok h = Ret h'" "nv_mmap h' = nv_mmap (committed en h out)"
      "sizeof_header + length out \<le> nvram_end" "header_word en h' = header_word en (committed en h out)"
    using nvram_commit_image [OF assms] by metis
  obtain civ cr ncdl where sw: "sdram_words h = (civ, cr, ncdl)"
    by (cases "sdram_words h") auto
  have "take (nv_offset h) (nv_mmap h') = take (nv_offset h) (nv_mmap h)"
    using assms(3) by (simp add: c(2) committed_def)
  moreover have "drop (nv_offset h + NVRAM_SPACE) (nv_mmap h') = drop (nv_offset h + NVRAM_SPACE) (nv_mmap h)"
    using drop_committed [OF assms(3), of NVRAM_SPACE] length_commit_area [OF c(3)] by (simp add: c(2))
  ultimately show ?thesis
    using c(1) length_committed [OF assms(3) c(3)] header_word_committed [OF assms(3) sw]
      data_length_bounds [OF c(3)] of_nat_data_length [OF c(3)]
    by (auto simp: c(2,4))
qed

theorem nvram_commit_in_space_witness:
  "\<exists>h'. nvram_commit BigEndian (\<lambda>_. False) (empty_handle (replicate 32772 0xFF) 4) = Ret h' \<and>
    length (nv_mmap h') = 32772 \<and> take 4 (nv_mmap h') = replicate 4 0xFF \<and>
    header_word BigEndian h' 0 = NVRAM_MAGIC"
  using nvram_commit_in_space [of "empty_handle (replicate 32772 0xFF) 4" BigEndian "\<lambda>_. False"]
  by (auto simp: sizeof_facts)

text \<open>
  C3. A commit loses nothing: when the variables are plain text without \<^verbatim>\<open>=\<close> in a name, fit
  the NVRAM space, and memory does not run out, every variable still has its value after the
  area was written and parsed again; no other name appears than the four SDRAM parameters,
  which are then always present.
\<close>

theorem nvram_commit_roundtrip:
  assumes "table_ok h" and "\<forall>t \<in> set (nv_tuples h). clean_tuple t" and "nvram_fits h"
    and "\<forall>n. ok n" and "nv_offset h + NVRAM_SPACE \<le> length (nv_mmap h)"
  shows "\<exists>h'. nvram_commit en ok h = Ret h' \<and> table_ok h' \<and>
    (\<forall>k. nvram_get h k \<noteq> None \<longrightarrow> nvram_get h' k = nvram_get h k) \<and>
    (\<forall>k. k \<notin> sdram_keys \<longrightarrow> nvram_get h' k = nvram_get h k) \<and>
    (\<forall>k \<in> sdram_keys. nvram_get h' k \<noteq> None)"
  using rehash_committed [OF assms, of _ en] assms(1)
  by (simp add: nvram_commit_committed [OF assms(5)] write_buckets_clean [OF assms(2,3)])

theorem nvram_commit_roundtrip_witness:
  "\<exists>h'. nvram_commit LittleEndian (\<lambda>_. True) (fst (nvram_set (\<lambda>_. True)
      (empty_handle (replicate 32768 0) 0) (cstr ''a'') (cstr ''1''))) = Ret h' \<and>
    nvram_get h' (cstr ''a'') = Some (cstr ''1'')"
proof -
  let ?e = "empty_handle (replicate 32768 0) 0" and ?ok = "\<lambda>_ :: nat. True"
  let ?h = "fst (nvram_set ?ok ?e (cstr ''a'') (cstr ''1''))"
  have "clean_handle ?h"
    by (rule clean_handle_set) (auto simp: clean_handle_def cstr_def byte_of_char_def)
  moreover have "nv_size ?h \<le> 4"
    using nv_size_set [of ?e ?ok "cstr ''a''" "cstr ''1''"] by (simp add: nv_size_def cstr_def)
  moreover have "nvram_get ?h (cstr ''a'') = Some (cstr ''1'')"
    by (subst nvram_get_set) (simp_all add: nvram_accepts_def sizeof_facts cstr_def)
  ultimately show ?thesis
    using nvram_commit_roundtrip [of ?h ?ok LittleEndian]
    by (auto simp: clean_handle_def nvram_fits_def nv_size_def sizeof_facts table_ok_set)
qed

text \<open>
  C4. The table driven CRC of the header is the bit-serial division of the message by
  \<open>x^8 + x^7 + x^6 + x^4 + x^2 + 1\<close>, least significant bit first.
\<close>

theorem hndcrc8_is_polynomial_division: "hndcrc8 pdata crc = crc8_serial pdata crc"
  by (rule hndcrc8_serial)

text \<open>
  The CRC \<^verbatim>\<open>nvram info\<close> recomputes on a committed image agrees with the stored one on a
  little endian machine. On a big endian machine the stored CRC byte lies inside the bytes
  summed up, and the two agree only when the stored CRC is 0.
\<close>

theorem nvram_info_crc:
  assumes "table_ok h" and "\<forall>t \<in> set (nv_tuples h). tvalue t \<noteq> None"
    and "nv_offset h + NVRAM_SPACE \<le> length (nv_mmap h)"
  shows "\<exists>h'. nvram_commit en ok h = Ret h' \<and>
    (info_crc en h' = Ret (stored_crc en h') \<longleftrightarrow> en = LittleEndian \<or> stored_crc en h' = 0)"
proof -
  obtain out h' where c: "nvram_commit en ok h = Ret h'" "nv_mmap h' = nv_mmap (committed en h out)"
      "nv_offset h' = nv_offset h" "sizeof_header + length out \<le> nvram_end"
    using nvram_commit_image [OF assms] by metis
  obtain civ cr ncdl where sw: "sdram_words h = (civ, cr, ncdl)"
    by (cases "sdram_words h") auto
  note low = low_byte_zero [OF sdram_words_low [OF sw]]
  obtain data where d: "stored_crc en h' = commit_crc en civ cr ncdl data"
      "info_crc en h' = Ret (hndcrc8 (drop 9 (header_bytes en NVRAM_MAGIC (of_nat (data_length out))
        (civ OR ucast (commit_crc en civ cr ncdl data)) cr ncdl) @ data) 0xff)"
    using info_crc_committed [OF assms(3) sw c(4,2,3)] by (auto simp: Let_def ucast_or low)
  show ?thesis
  proof (cases en)
    case LittleEndian
    then show ?thesis
      using c(1) d by (simp add: header_tail_LE commit_crc_def hndcrc8_append NVRAM_CRC_START_POSITION_def)
  next
    case BigEndian
    obtain b1 b2 r where t:
      "drop 9 (header_bytes BigEndian NVRAM_MAGIC (of_nat (data_length out))
         (civ OR ucast (stored_crc en h')) cr ncdl) = [b1, b2] @ stored_crc en h' # r"
      "drop 9 (header_bytes BigEndian 0 0 civ cr ncdl) = [b1, b2] @ 0 # r"
      using header_tail_BE [OF sdram_words_low [OF sw]] by blast
    have st: "stored_crc en h' = hndcrc8 ([b1, b2] @ 0 # r @ data) 0xff"
      using d(1) t(2) by (simp add: BigEndian commit_crc_def hndcrc8_append NVRAM_CRC_START_POSITION_def)
    have "info_crc en h' = Ret (hndcrc8 ([b1, b2] @ stored_crc en h' # r @ data) 0xff)"
      using d(2) t(1) unfolding d(1) [symmetric] by (simp add: BigEndian)
    moreover have "hndcrc8 ([b1, b2] @ stored_crc en h' # r @ data) 0xff = stored_crc en h' \<longleftrightarrow>
        stored_crc en h' = 0"
      using hndcrc8_single_byte_error [of "stored_crc en h'" 0 "[b1, b2]" "r @ data" "0xff"] st by metis
    ultimately show ?thesis
      using c(1) BigEndian by simp
  qed
qed

theorem nvram_info_crc_witness:
  "\<exists>h'. nvram_commit LittleEndian (\<lambda>_. True) (empty_handle (replicate 32768 0) 0) = Ret h' \<and>
    info_crc LittleEndian h' = Ret (stored_crc LittleEndian h')"
  using nvram_info_crc [of "empty_handle (replicate 32768 0) 0" LittleEndian "\<lambda>_. True"]
  by (auto simp: sizeof_facts)

text \<open>
  Opening an area of at least the NVRAM space never reads behind it while searching, and
  selects the first word-aligned offset that holds the magic and leaves room for the whole
  space; without one it returns NULL. The handle it returns is well formed and all its
  variables can be written back.
\<close>

theorem nvram_open_finds_first_image:
  assumes "NVRAM_SPACE \<le> length area" and "length area < 2 ^ 32" and "\<forall>n. ok n"
  shows "(magic_offsets en area = {} \<longrightarrow> nvram_open_area en ok (length area) area = Ret None) \<and>
    (\<forall>h. nvram_open_area en ok (length area) area = Ret (Some h) \<longrightarrow>
       table_ok h \<and> (\<forall>t \<in> set (nv_tuples h). clean_tuple t) \<and> nv_mmap h = area \<and>
       nv_offset h \<in> magic_offsets en area \<and> (\<forall>off \<in> magic_offsets en area. nv_offset h \<le> off))"
  using open_area_result [OF assms, of en] open_area_handle [OF assms, of en]
  by (auto simp: clean_handle_def intro: Least_le)

theorem nvram_open_finds_first_image_witness:
  "nvram_open_area LittleEndian (\<lambda>_. True) 32768 (replicate 32768 0) = Ret None"
proof -
  have "u32_of_bytes LittleEndian [0, 0, 0, 0] \<noteq> NVRAM_MAGIC"
    by (simp add: u32_of_bytes_def word_be_def NVRAM_MAGIC_def)
  moreover have "replicate 4 (0 :: byte) = [0, 0, 0, 0]"
    by (simp add: numeral_eq_Suc)
  ultimately have "magic_offsets LittleEndian (replicate 32768 0) = {}"
    by (auto simp: magic_offsets_def magic_at_def sizeof_facts min_def)
  then show ?thesis
    using nvram_open_finds_first_image [of "replicate 32768 0" "\<lambda>_. True" LittleEndian]
    by (simp add: sizeof_facts)
qed

text \<open>
  C7. From one process to the next: \<^verbatim>\<open>nvram set k=v\<close> on an existing staging file succeeds, and
  \<^verbatim>\<open>nvram get k\<close> in a new process finds the image again and prints exactly \<^verbatim>\<open>v\<close>.
  The name must not be one of the write commands, which the argument scan of \<^verbatim>\<open>main\<close> would take
  for a command.
\<close>

theorem nvram_set_then_get:
  assumes "\<forall>n. ok n" and "w_staging w = Some stg" and "nvram_erase_size w = 0"
    and "nvram_find_mtd ok w = Ret (Some f, w\<lparr>nvram_erase_size := e\<rparr>)"
    and "NVRAM_SPACE \<le> e" and "e < 2 ^ 32" and "e \<le> length stg"
    and "nvram_open_area en ok e (take e stg) = Ret (Some h)"
    and "CHR ''='' \<notin> set k" and "CHR 0x00 \<notin> set k" and "CHR 0x00 \<notin> set v"
    and "k \<notin> {''set'', ''unset'', ''commit''}"
    and "sizeof_header + (nv_size h + (length k + length v + 2)) \<le> nvram_end"
  shows "\<exists>w'. nvram_main en ok [''set'', k @ ''='' @ v] w = Ret (0, [], w') \<and>
    nvram_main en ok [''get'', k] (w'\<lparr>nvram_erase_size := 0\<rparr>) = Ret (0, [cstr v], w')"
proof -
  have la: "length (take e stg) = e" using assms(7) by simp
  have e0: "0 < e" using assms(5) by (simp add: sizeof_facts)
  obtain h1 h' h'' where r: "nvram_set ok h (cstr k) (cstr v) = (h1, 0)"
      "nvram_commit en ok h1 = Ret h'" "length (nv_mmap h') = e"
      "nvram_open_area en ok e (nv_mmap h') = Ret (Some h'')" "nvram_get h'' (cstr k) = Some (cstr v)"
    using set_commit_reopen [OF assms(1), of "take e stg" en h "cstr k" "cstr v"] assms(5,6,8,13)
      cstr_no_eq [OF assms(9)] cstr_no_nul [OF assms(10)] cstr_no_nul [OF assms(11)]
    unfolding la by (auto simp: cstr_def sizeof_facts)
  let ?w1 = "w\<lparr>nvram_erase_size := e\<rparr>"
  let ?w' = "?w1\<lparr>w_staging := Some (nv_mmap h' @ drop e stg)\<rparr>"
  have "nvram_open_staging en ok w = Ret (Some h, ?w1)"
    using assms(2,8) open_staging_file [OF assms(4) e0 assms(3,2), of en]
    by (simp add: nvram_open_staging_def nvram_find_staging_def)
  then have "nvram_main en ok [''set'', k @ ''='' @ v] w = Ret (0, [], ?w')"
    using r(1,2) assms(2) do_set_pair [OF assms(9), of ok v, simplified] by (simp add: nvram_main_def)
  moreover have w'': "?w'\<lparr>nvram_erase_size := 0\<rparr> = w\<lparr>w_staging := Some (nv_mmap h' @ drop e stg)\<rparr>"
    using assms(3) by simp
  have "nvram_open_rdonly en ok (?w'\<lparr>nvram_erase_size := 0\<rparr>) = Ret (Some h'', ?w')"
    unfolding w'' nvram_open_rdonly_def nvram_find_staging_def
    using open_staging_file [of ok "w\<lparr>w_staging := Some (nv_mmap h' @ drop e stg)\<rparr>" f e _ en]
      r(3,4) assms(3,4) e0 by (simp add: find_mtd_staging)
  then have "nvram_main en ok [''get'', k] (?w'\<lparr>nvram_erase_size := 0\<rparr>) = Ret (0, [cstr v], ?w')"
    using r(5) assms(12) by (simp add: nvram_main_def do_get_def)
  ultimately show ?thesis by blast
qed

definition blank_image :: "byte list" where
  "blank_image = nv_mmap (committed LittleEndian (empty_handle (replicate 32768 0) 0) [])"

definition blank_world :: nv_world where
  "blank_world = \<lparr>w_staging = Some blank_image, w_diag_model = None,
     w_proc_mtd = Some [''dev:    size   erasesize  name'', ''mtd3: 00008000 00010000 nvram''],
     w_blkdev = [''/dev/mtdblock3'' \<mapsto> []], nvram_erase_size = 0\<rparr>"

lemma nv_size_set_missing:
  "table_ok h \<Longrightarrow> \<forall>n. ok n \<Longrightarrow>
     nv_size (set_missing ok key text h) \<le> nv_size h + (length key + length text + 2)"
  using nv_size_set [of h ok "cstr key" "cstr text"]
  by (auto simp: set_missing_def cstr_def split: option.splits)

lemma nv_size_rehash:
  assumes "nvram_rehash en ok h = Ret h'" and "\<forall>n. ok n" and "table_ok h1" and "nv_size h1 = 0"
    and "rehash_loop ok (nvram_free h) (drop (nv_offset h + sizeof_header) (nv_mmap h)) = Ret h1"
  shows "nv_size h' \<le> 100"
proof -
  let ?s = "\<lambda>key w (v :: u32). set_missing ok key (''0x'' @ hex_fixed True w (unat v))"
  note sz = nv_size_set_missing [OF _ assms(2)] and tk = set_missing_step(1) [OF _ assms(2)]
  have step: "table_ok (?s key w v g) \<and> nv_size (?s key w v g) \<le> n + length key + w + 4"
    if "table_ok g \<and> nv_size g \<le> n" "w \<le> 8" for key w v g n
    using that sz [of g key "''0x'' @ hex_fixed True w (unat v)"] tk [of g] by auto
  have "table_ok h1 \<and> nv_size h1 \<le> 0" using assms(3,4) by simp
  note t = step [where key = "''sdram_ncdl''" and w = 8, OF step [where key = "''sdram_refresh''" and w = 4,
      OF step [where key = "''sdram_config''" and w = 4, OF step [where key = "''sdram_init''" and w = 4, OF this]]]]
  show ?thesis
    using assms(1,5) t [of "header_word en h 4" "drop_bit 16 (header_word en h 3) AND 0xffff"
      "header_word en h 3 AND 0xffff" "drop_bit 16 (header_word en h 2)"]
    by (auto simp: nvram_rehash_def Let_def split: if_splits)
qed

lemma blank_image_opens:
  "\<exists>h. nvram_open_area LittleEndian (\<lambda>_. True) 32768 blank_image = Ret (Some h) \<and> nv_size h \<le> 100"
proof -
  let ?e = "empty_handle (replicate 32768 0) 0" and ?ok = "\<lambda>_ :: nat. True"
  let ?g = "empty_handle blank_image 0"
  obtain civ cr ncdl where sw: "sdram_words ?e = (civ, cr, ncdl)"
    by (cases "sdram_words ?e") auto
  have len: "length blank_image = 32768"
    unfolding blank_image_def by (subst length_committed) (simp_all add: sizeof_facts)
  have "header_word LittleEndian (committed LittleEndian ?e []) 0 = NVRAM_MAGIC"
    by (rule header_word_committed(1) [OF _ sw]) (simp add: sizeof_facts)
  then have "0 \<in> magic_offsets LittleEndian blank_image"
    by (simp add: magic_offsets_def magic_at_def header_word_def blank_image_def [symmetric] len sizeof_facts)
  then have least: "(LEAST off. off \<in> magic_offsets LittleEndian blank_image) = 0"
      "magic_offsets LittleEndian blank_image \<noteq> {}"
    by (auto intro: Least_equality)
  obtain r where "drop (nv_offset ?g + sizeof_header) (nv_mmap ?g) = 0 # r"
    using commit_area_data [of LittleEndian ?e "[]"] drop_committed_data [of ?e "[]" LittleEndian]
    by (auto simp: blank_image_def sizeof_facts)
  then have loop: "rehash_loop ?ok (nvram_free ?g) (drop (nv_offset ?g + sizeof_header) (nv_mmap ?g)) =
      Ret (nvram_free ?g)"
    by (simp add: rehash_loop_stop)
  then obtain h where h: "nvram_rehash LittleEndian ?ok ?g = Ret h"
    by (auto simp: nvram_rehash_def Let_def len sizeof_facts)
  have "nv_size h \<le> 100"
    using nvram_free_ok [OF table_ok_empty]
    by (rule nv_size_rehash [OF h _ _ _ loop, rotated])
       (auto simp: nv_size_def nv_tuples_def nvram_free_def)
  moreover have "nvram_open_area LittleEndian ?ok 32768 blank_image = Ret (Some h)"
    using open_area_result [of blank_image ?ok LittleEndian] h by (simp add: len sizeof_facts least)
  ultimately show ?thesis by blast
qed

lemma blank_world_line:
  "scan_mtd_line ''mtd3: 00008000 00010000 nvram'' None = (2, 3, Some 32768)"
proof -
  have "scan_num 10 (length ''3: 00008000 00010000 nvram'') ''3: 00008000 00010000 nvram'' =
      Some (False, 3, '': 00008000 00010000 nvram'')"
    by code_simp
  moreover have "scan_num 16 8 '' 00008000 00010000 nvram'' = Some (False, 32768, '' 00010000 nvram'')"
    by (simp add: scan_num_def Let_def strto_sign_def strto_base_def digit_val_def digits_value_def c_isspace_def)
  ultimately show ?thesis by (simp add: scan_mtd_line_def)
qed

lemma blank_world_mtd:
  "nvram_find_mtd (\<lambda>_. True) blank_world =
     Ret (Some (MtdDevice ''/dev/mtdblock3''), blank_world\<lparr>nvram_erase_size := 32768\<rparr>)"
proof -
  have "dec_of_int 3 = ''3''" by (simp add: dec_of_int_def dec_of_nat.simps char_of_def bit_0)
  then show ?thesis
    using blank_world_line by (simp add: blank_world_def nvram_find_mtd_def)
qed

theorem nvram_set_then_get_witness:
  "\<exists>w'. nvram_main LittleEndian (\<lambda>_. True) [''set'', ''lan_ip=10.0.0.1''] blank_world = Ret (0, [], w') \<and>
    nvram_main LittleEndian (\<lambda>_. True) [''get'', ''lan_ip''] (w'\<lparr>nvram_erase_size := 0\<rparr>) =
      Ret (0, [cstr ''10.0.0.1''], w')"
proof -
  obtain h where "nvram_open_area LittleEndian (\<lambda>_. True) 32768 blank_image = Ret (Some h)" "nv_size h \<le> 100"
    using blank_image_opens by blast
  moreover have "length blank_image = 32768"
    unfolding blank_image_def by (subst length_committed) (simp_all add: sizeof_facts)
  ultimately show ?thesis
    using nvram_set_then_get [OF _ _ _ blank_world_mtd, of blank_image LittleEndian h "''lan_ip''" "''10.0.0.1''"]
    by (simp add: sizeof_facts blank_world_def)
qed

text \<open>
  A trailing \<^verbatim>\<open>set\<close> or \<^verbatim>\<open>unset\<close> without its argument, with no write command before it, makes
  the argument scan of \<^verbatim>\<open>main\<close> compare the terminating NULL of \<^verbatim>\<open>argv\<close>, before the branch that
  would report the missing argument is reached.
\<close>

theorem nvram_main_missing_argument:
  assumes "cmd \<in> {''set'', ''unset''}" and "set args \<inter> {''set'', ''unset'', ''commit''} = {}"
  shows "nvram_main en ok (args @ [cmd]) w = Undef"
proof -
  have "scan_write (args @ [cmd]) = Undef"
    using assms by (induction args) auto
  then show ?thesis by (simp add: nvram_main_def)
qed

theorem nvram_main_missing_argument_witness:
  "nvram_main LittleEndian (\<lambda>_. True) [''show'', ''set'']
     \<lparr>w_staging = None, w_diag_model = None, w_proc_mtd = None, w_blkdev = Map.empty,
      nvram_erase_size = 0\<rparr> = Undef"
  using nvram_main_missing_argument [of "''set''" "[''show'']"] by simp

end
