(* ===== verification/Owipcalc.thy ===== *)
theory Owipcalc
  imports C_Stdlib
begin

text \<open>
  The IP calculator (\<^verbatim>\<open>package/network/utils/owipcalc/src/owipcalc.c\<close>): a stack machine on
  IPv4 and IPv6 prefixes. One definition per C function, in the order of the source; the
  table \<open>ops\<close>, the dispatcher \<open>runop\<close> and \<open>owipcalc_main\<close> close the model.

  The address union is its sixteen bytes in memory; an IPv4 address is the first four, in
  network order, and the code never reads the other twelve of one. Code that computes on
  \<^verbatim>\<open>s_addr\<close> in host order takes the byte order \<open>en\<close> of the machine. The conversions
  \<^verbatim>\<open>inet_pton\<close> and \<^verbatim>\<open>inet_ntop\<close> are the argument \<open>net\<close>. The number of allocations that still
  succeed is part of the state: after the first failed one the program only winds up.
\<close>

section \<open>Data\<close>

datatype af = AF_INET | AF_INET6

record cidr =
  family :: af
  prefix :: u32
  addr :: "byte list"

text \<open>The messages on \<^verbatim>\<open>stderr\<close>.\<close>

datatype errmsg = Overflow string | Underflow string | Needs_argument string
  | Invalid_argument string | Not_supported string af

record ostate =
  quiet :: bool
  printed :: bool
  stack :: "cidr list"
  out :: string
  err :: "errmsg list"
  mallocs :: nat

type_synonym opres = "(bool \<times> ostate) outcome"

definition qprintf :: "string \<Rightarrow> ostate \<Rightarrow> ostate" where
  "qprintf s st = st\<lparr>out := (if quiet st then out st else out st @ s), printed := True\<rparr>"

definition qsep :: "ostate \<Rightarrow> ostate" where
  "qsep st = (if printed st then qprintf '' '' st else st)"

definition eprintf :: "errmsg \<Rightarrow> ostate \<Rightarrow> ostate" where
  "eprintf s st = st\<lparr>err := err st @ [s]\<rparr>"

text \<open>\<^verbatim>\<open>if (printed) qprintf(" ");\<close> followed by a truth value.\<close>

definition qbool :: "bool \<Rightarrow> ostate \<Rightarrow> opres" where
  "qbool b st = Ret (b, qprintf (if b then ''1'' else ''0'') (qsep st))"

section \<open>The stack\<close>

definition cidr_push :: "cidr \<Rightarrow> ostate \<Rightarrow> ostate" where
  "cidr_push a st = st\<lparr>stack := a # stack st\<rparr>"

definition cidr_pop :: "ostate \<Rightarrow> bool \<times> ostate" where
  "cidr_pop st = (case stack st of [] \<Rightarrow> (False, st) | _ # r \<Rightarrow> (True, st\<lparr>stack := r\<rparr>))"

text \<open>The copy is pushed; the caller then changes it with \<open>set_top\<close>.\<close>

definition cidr_clone :: "cidr \<Rightarrow> ostate \<Rightarrow> ostate outcome" where
  "cidr_clone a st =
     (if mallocs st = 0 then Exit 255
      else Ret (cidr_push a (st\<lparr>mallocs := mallocs st - 1\<rparr>)))"

definition set_top :: "cidr \<Rightarrow> ostate \<Rightarrow> ostate" where
  "set_top n st = st\<lparr>stack := n # tl (stack st)\<rparr>"

section \<open>Words in network order\<close>

definition s_addr :: "endian \<Rightarrow> cidr \<Rightarrow> u32" where
  "s_addr en a = u32_of_bytes en (take 4 (addr a))"

definition set_s_addr :: "endian \<Rightarrow> u32 \<Rightarrow> cidr \<Rightarrow> cidr" where
  "set_s_addr en w a = a\<lparr>addr := bytes_of_u32 en w @ drop 4 (addr a)\<rparr>"

definition htonl :: "endian \<Rightarrow> u32 \<Rightarrow> u32" where
  "htonl en w = u32_of_bytes en (bytes_be w)"

definition ntohl :: "endian \<Rightarrow> u32 \<Rightarrow> u32" where
  "ntohl en w = word_be (bytes_of_u32 en w)"

text \<open>
  \<^verbatim>\<open>1 << k\<close> and \<^verbatim>\<open>(1 << k) - 1\<close> on \<^verbatim>\<open>int\<close>: a shift by 32 or more is undefined, and after a
  shift by 31 the subtraction overflows.
\<close>

definition shl1 :: "u32 \<Rightarrow> u32 outcome" where
  "shl1 k = (if k < 32 then Ret (push_bit (unat k) 1) else Undef)"

definition low_bits :: "u32 \<Rightarrow> u32 outcome" where
  "low_bits k = (if k < 31 then Ret (push_bit (unat k) 1 - 1) else Undef)"

section \<open>IPv4\<close>

text \<open>\<^verbatim>\<open>for (prefix = 0; mask; mask >>= 1) prefix += mask & 1\<close>\<close>

function mask_prefix :: "u32 \<Rightarrow> u32 \<Rightarrow> u32" where
  "mask_prefix m p = (if m = 0 then p else mask_prefix (drop_bit 1 m) (p + (m AND 1)))"
  by pat_completeness auto
termination
proof (relation "measure (\<lambda>(m, p). unat m)")
  fix m p :: u32
  assume "m \<noteq> 0"
  then have "unat m \<noteq> 0" by (simp add: unat_eq_0)
  then have "unat m div 2 < unat m" by (intro div_less_dividend) simp_all
  then show "((drop_bit 1 m, p + (m AND 1)), m, p) \<in> measure (\<lambda>(m, p). unat m)"
    by (simp add: drop_bit_eq_div unat_div)
qed simp

declare mask_prefix.simps [simp del]

text \<open>The text before the first \<^verbatim>\<open>/\<close> and, if there is one, the text behind it.\<close>

definition split_slash :: "string \<Rightarrow> string \<times> string option" where
  "split_slash s =
     (let h = takeWhile (\<lambda>c. c \<noteq> CHR ''/'') s
      in (h, if CHR ''/'' \<in> set s then Some (drop (length h + 1) s) else None))"

text \<open>A parser allocates its result first; without memory it returns NULL.\<close>

definition with_malloc :: "cidr option \<Rightarrow> ostate \<Rightarrow> cidr option \<times> ostate" where
  "with_malloc c st = (if mallocs st = 0 then (None, st) else (c, st\<lparr>mallocs := mallocs st - 1\<rparr>))"

definition parse_prefix :: "nat \<Rightarrow> string \<Rightarrow> u32 option" where
  "parse_prefix limit p =
     (let (v, r) = strtoul 10 p in if r = p \<or> r \<noteq> [] \<or> v > of_nat limit then None else Some v)"

text \<open>The prefix length of \<^verbatim>\<open>cidr_parse4\<close>: none given, a dotted mask, or a number.\<close>

definition parse4_prefix :: "endian \<Rightarrow> inet \<Rightarrow> string option \<Rightarrow> u32 option" where
  "parse4_prefix en net p =
     (case p of
        None \<Rightarrow> Some 32
      | Some t \<Rightarrow>
          if CHR ''.'' \<in> set t
          then map_option (\<lambda>m. mask_prefix (u32_of_bytes en m) 0) (pton4 net t)
          else parse_prefix 32 t)"

definition parse4_text :: "endian \<Rightarrow> inet \<Rightarrow> string \<Rightarrow> cidr option" where
  "parse4_text en net s =
     (if length s \<ge> 33 then None
      else case split_slash s of (h, p) \<Rightarrow>
        Option.bind (parse4_prefix en net p) (\<lambda>pl.
          map_option (\<lambda>bs. \<lparr>family = AF_INET, prefix = pl, addr = bs @ replicate 12 0\<rparr>)
            (if p \<noteq> None \<and> h = [] then Some (replicate 4 0) else pton4 net h)))"

definition cidr_parse4 :: "endian \<Rightarrow> inet \<Rightarrow> string \<Rightarrow> ostate \<Rightarrow> cidr option \<times> ostate" where
  "cidr_parse4 en net s st = with_malloc (parse4_text en net s) st"

definition cidr_add4 :: "endian \<Rightarrow> cidr \<Rightarrow> cidr \<Rightarrow> ostate \<Rightarrow> opres" where
  "cidr_add4 en a b st =
     (let x = ntohl en (s_addr en a); y = ntohl en (s_addr en b) in
      obind (cidr_clone a st) (\<lambda>st.
        if family a \<noteq> AF_INET \<or> family b \<noteq> AF_INET then Ret (False, st)
        else if x + y < x then Ret (False, eprintf (Overflow ''add'') st)
        else Ret (True, set_top (set_s_addr en (htonl en (x + y)) a) st)))"

definition cidr_sub4 :: "endian \<Rightarrow> cidr \<Rightarrow> cidr \<Rightarrow> ostate \<Rightarrow> opres" where
  "cidr_sub4 en a b st =
     (let x = ntohl en (s_addr en a); y = ntohl en (s_addr en b) in
      obind (cidr_clone a st) (\<lambda>st.
        if family a \<noteq> AF_INET \<or> family b \<noteq> AF_INET then Ret (False, st)
        else if x - y > x then Ret (False, eprintf (Underflow ''sub'') st)
        else Ret (True, set_top (set_s_addr en (htonl en (x - y)) a) st)))"

definition cidr_network4 :: "endian \<Rightarrow> cidr \<Rightarrow> ostate \<Rightarrow> opres" where
  "cidr_network4 en a st =
     obind (cidr_clone a st) (\<lambda>st.
     obind (low_bits (32 - prefix a)) (\<lambda>m.
       Ret (True, set_top ((set_s_addr en (s_addr en a AND htonl en (NOT m)) a)\<lparr>prefix := 32\<rparr>) st)))"

definition cidr_broadcast4 :: "endian \<Rightarrow> cidr \<Rightarrow> ostate \<Rightarrow> opres" where
  "cidr_broadcast4 en a st =
     obind (cidr_clone a st) (\<lambda>st.
     obind (low_bits (32 - prefix a)) (\<lambda>m.
       Ret (True, set_top ((set_s_addr en (s_addr en a OR htonl en m) a)\<lparr>prefix := 32\<rparr>) st)))"

definition cidr_contains4 :: "endian \<Rightarrow> cidr \<Rightarrow> cidr \<Rightarrow> ostate \<Rightarrow> opres" where
  "cidr_contains4 en a b st =
     obind (low_bits (32 - prefix a)) (\<lambda>m.
       let net1 = s_addr en a AND htonl en (NOT m); net2 = s_addr en b AND htonl en (NOT m)
       in qbool (prefix b \<ge> prefix a \<and> net1 = net2) st)"

definition cidr_netmask4 :: "endian \<Rightarrow> cidr \<Rightarrow> ostate \<Rightarrow> opres" where
  "cidr_netmask4 en a st =
     obind (cidr_clone a st) (\<lambda>st.
     obind (low_bits (32 - prefix a)) (\<lambda>m.
       Ret (True, set_top ((set_s_addr en (htonl en (NOT m)) a)\<lparr>prefix := 32\<rparr>) st)))"

definition cidr_private4 :: "endian \<Rightarrow> cidr \<Rightarrow> ostate \<Rightarrow> opres" where
  "cidr_private4 en a st =
     (let x = ntohl en (s_addr en a)
      in qbool ((x \<ge> 0x0A000000 \<and> x \<le> 0x0AFFFFFF) \<or> (x \<ge> 0xAC100000 \<and> x \<le> 0xAC1FFFFF) \<or>
                (x \<ge> 0xC0A80000 \<and> x \<le> 0xC0A8FFFF)) st)"

definition cidr_linklocal4 :: "endian \<Rightarrow> cidr \<Rightarrow> ostate \<Rightarrow> opres" where
  "cidr_linklocal4 en a st =
     (let x = ntohl en (s_addr en a) in qbool (x \<ge> 0xA9FE0000 \<and> x \<le> 0xA9FEFFFF) st)"

definition cidr_prev4 :: "endian \<Rightarrow> cidr \<Rightarrow> cidr \<Rightarrow> ostate \<Rightarrow> opres" where
  "cidr_prev4 en a b st =
     obind (cidr_clone a st) (\<lambda>st.
     obind (shl1 (32 - prefix b)) (\<lambda>s.
       Ret (True, set_top ((set_s_addr en (s_addr en a - htonl en s) a)\<lparr>prefix := prefix b\<rparr>) st)))"

definition cidr_next4 :: "endian \<Rightarrow> cidr \<Rightarrow> cidr \<Rightarrow> ostate \<Rightarrow> opres" where
  "cidr_next4 en a b st =
     obind (cidr_clone a st) (\<lambda>st.
     obind (shl1 (32 - prefix b)) (\<lambda>s.
       Ret (True, set_top ((set_s_addr en (s_addr en a + htonl en s) a)\<lparr>prefix := prefix b\<rparr>) st)))"

definition cidr_6to4 :: "endian \<Rightarrow> cidr \<Rightarrow> ostate \<Rightarrow> opres" where
  "cidr_6to4 en a st =
     (let x = s_addr en a in
      obind (cidr_clone a st) (\<lambda>st.
        Ret (True, set_top \<lparr>family = AF_INET6, prefix = 48,
          addr = [0x20, 0x02, ucast (drop_bit 24 x), ucast (drop_bit 16 x AND 0xFF),
                  ucast (drop_bit 8 x AND 0xFF), ucast (x AND 0xFF)] @ replicate 10 0\<rparr> st)))"

definition cidr_print4 :: "inet \<Rightarrow> cidr \<Rightarrow> ostate \<Rightarrow> opres" where
  "cidr_print4 net a st =
     (if family a \<noteq> AF_INET then Ret (False, st)
      else
        (let st1 = qprintf (ntop4 net (take 4 (addr a))) (qsep st);
             st2 = (if prefix a < 32 then qprintf (''/'' @ dec_of_nat (unat (prefix a))) st1 else st1)
         in Ret (True, snd (cidr_pop st2))))"

section \<open>IPv6\<close>

definition parse6_text :: "inet \<Rightarrow> string \<Rightarrow> cidr option" where
  "parse6_text net s =
     (if length s \<ge> 51 then None
      else case split_slash s of (h, p) \<Rightarrow>
        Option.bind (case p of None \<Rightarrow> Some 128 | Some t \<Rightarrow> parse_prefix 128 t) (\<lambda>pl.
          map_option (\<lambda>bs. \<lparr>family = AF_INET6, prefix = pl, addr = bs\<rparr>)
            (if p \<noteq> None \<and> h = [] then Some (replicate 16 0) else pton6 net h)))"

definition cidr_parse6 :: "inet \<Rightarrow> string \<Rightarrow> ostate \<Rightarrow> cidr option \<times> ostate" where
  "cidr_parse6 net s st = with_malloc (parse6_text net s) st"

text \<open>The byte loops \<^verbatim>\<open>do { ... } while (idx-- > 0)\<close>: the new bytes and the last carry.\<close>

fun add6_loop :: "nat \<Rightarrow> byte list \<Rightarrow> byte list \<Rightarrow> byte \<Rightarrow> byte list \<times> byte" where
  "add6_loop idx x y carry =
     (let overflow = (if unat (x ! idx) + unat (y ! idx) + unat carry \<ge> 256 then 1 else 0);
          x' = x[idx := x ! idx + (y ! idx + carry)]
      in case idx of 0 \<Rightarrow> (x', overflow) | Suc i \<Rightarrow> add6_loop i x' y overflow)"

fun sub6_loop :: "nat \<Rightarrow> byte list \<Rightarrow> byte list \<Rightarrow> byte \<Rightarrow> byte list \<times> byte" where
  "sub6_loop idx x y carry =
     (let underflow = (if int (unat (x ! idx)) - int (unat (y ! idx)) - int (unat carry) < 0 then 1 else 0);
          x' = x[idx := x ! idx - (y ! idx + carry)]
      in case idx of 0 \<Rightarrow> (x', underflow) | Suc i \<Rightarrow> sub6_loop i x' y underflow)"

fun prev6_loop :: "nat \<Rightarrow> byte list \<Rightarrow> byte \<Rightarrow> byte list \<times> byte" where
  "prev6_loop idx x carry =
     (let underflow = (if int (unat (x ! idx)) - int (unat carry) < 0 then 1 else 0);
          x' = x[idx := x ! idx - carry]
      in case idx of 0 \<Rightarrow> (x', underflow) | Suc i \<Rightarrow> prev6_loop i x' underflow)"

fun next6_loop :: "nat \<Rightarrow> byte list \<Rightarrow> byte \<Rightarrow> byte list \<times> byte" where
  "next6_loop idx x carry =
     (let overflow = (if unat (x ! idx) + unat carry \<ge> 256 then 1 else 0);
          x' = x[idx := x ! idx + carry]
      in case idx of 0 \<Rightarrow> (x', overflow) | Suc i \<Rightarrow> next6_loop i x' overflow)"

declare add6_loop.simps [simp del] sub6_loop.simps [simp del]
  prev6_loop.simps [simp del] next6_loop.simps [simp del]

definition cidr_add6 :: "cidr \<Rightarrow> cidr \<Rightarrow> ostate \<Rightarrow> opres" where
  "cidr_add6 a b st =
     obind (cidr_clone a st) (\<lambda>st.
       if family a \<noteq> AF_INET6 \<or> family b \<noteq> AF_INET6 then Ret (False, st)
       else (case add6_loop 15 (addr a) (addr b) 0 of (x, carry) \<Rightarrow>
         let st' = set_top (a\<lparr>addr := x\<rparr>) st
         in if carry \<noteq> 0 then Ret (False, eprintf (Overflow ''add'') st') else Ret (True, st')))"

definition cidr_sub6 :: "cidr \<Rightarrow> cidr \<Rightarrow> ostate \<Rightarrow> opres" where
  "cidr_sub6 a b st =
     obind (cidr_clone a st) (\<lambda>st.
       if family a \<noteq> AF_INET6 \<or> family b \<noteq> AF_INET6 then Ret (False, st)
       else (case sub6_loop 15 (addr a) (addr b) 0 of (x, carry) \<Rightarrow>
         let st' = set_top (a\<lparr>addr := x\<rparr>) st
         in if carry \<noteq> 0 then Ret (False, eprintf (Underflow ''sub'') st') else Ret (True, st')))"

text \<open>\<^verbatim>\<open>idx = (b->prefix - 1) / 8\<close> in a \<^verbatim>\<open>uint8_t\<close>; an index past the sixteen bytes is undefined.\<close>

definition prefix_index :: "cidr \<Rightarrow> nat" where
  "prefix_index b = unat (ucast ((prefix b - 1) div 8) :: byte)"

definition cidr_prev6 :: "cidr \<Rightarrow> cidr \<Rightarrow> ostate \<Rightarrow> opres" where
  "cidr_prev6 a b st =
     obind (cidr_clone a st) (\<lambda>st.
       if prefix b = 0 then Ret (False, eprintf (Underflow ''prev'') st)
       else if prefix_index b > 15 then Undef
       else (case prev6_loop (prefix_index b) (addr a) 1 of (x, carry) \<Rightarrow>
         if carry \<noteq> 0
         then Ret (False, eprintf (Underflow ''prev'') (set_top (a\<lparr>addr := x\<rparr>) st))
         else Ret (True, set_top (a\<lparr>addr := x, prefix := prefix b\<rparr>) st)))"

definition cidr_next6 :: "cidr \<Rightarrow> cidr \<Rightarrow> ostate \<Rightarrow> opres" where
  "cidr_next6 a b st =
     obind (cidr_clone a st) (\<lambda>st.
       if prefix b = 0 then Ret (False, eprintf (Overflow ''next'') st)
       else if prefix_index b > 15 then Undef
       else (case next6_loop (prefix_index b) (addr a) 1 of (x, carry) \<Rightarrow>
         if carry \<noteq> 0
         then Ret (False, eprintf (Overflow ''next'') (set_top (a\<lparr>addr := x\<rparr>) st))
         else Ret (True, set_top (a\<lparr>addr := x, prefix := prefix b\<rparr>) st)))"

text \<open>The loop of \<^verbatim>\<open>cidr_network6\<close> that clears whole bytes from the end: \<open>i\<close> is the counter and
  \<open>n\<close> the number of bytes left. Clearing a seventeenth byte is undefined.\<close>

fun clear_bytes :: "nat \<Rightarrow> nat \<Rightarrow> byte list \<Rightarrow> byte list outcome" where
  "clear_bytes i 0 x = Ret x"
| "clear_bytes i (Suc n) x = (if i > 15 then Undef else clear_bytes (Suc i) n (x[15 - i := 0]))"

text \<open>\<^verbatim>\<open>~((1 << k) - 1)\<close> cut to a byte, for \<^verbatim>\<open>k < 8\<close>.\<close>

definition high_bits :: "nat \<Rightarrow> byte" where
  "high_bits k = NOT (push_bit k 1 - 1)"

definition cidr_network6 :: "cidr \<Rightarrow> ostate \<Rightarrow> opres" where
  "cidr_network6 a st =
     obind (cidr_clone a st) (\<lambda>st.
       let host = unat (128 - prefix a) in
       obind (clear_bytes 0 (host div 8) (addr a)) (\<lambda>x.
         let i = host div 8;
             x' = (if host mod 8 \<noteq> 0 then x[15 - i := x ! (15 - i) AND high_bits (host mod 8)] else x)
         in if host mod 8 \<noteq> 0 \<and> i > 15 then Undef
            else Ret (True, set_top (a\<lparr>addr := x'\<rparr>) st)))"

definition cidr_contains6 :: "cidr \<Rightarrow> cidr \<Rightarrow> ostate \<Rightarrow> opres" where
  "cidr_contains6 a b st =
     obind (cidr_clone a st) (\<lambda>st.
       let host = unat (128 - prefix a);
           i = (host div 8) mod 256;
           m = high_bits (host mod 8);
           net1 = addr a ! (15 - i) AND m;
           net2 = addr b ! (15 - i) AND m
       in if i > 15 then Undef
          else qbool (prefix b \<ge> prefix a \<and> net1 = net2 \<and>
                 (i = 15 \<or> take (15 - i) (addr a) = take (15 - i) (addr b))) st)"

definition cidr_linklocal6 :: "cidr \<Rightarrow> ostate \<Rightarrow> opres" where
  "cidr_linklocal6 a st =
     qbool (addr a ! 0 = 0xFE \<and> addr a ! 1 \<ge> 0x80 \<and> addr a ! 1 \<le> 0xBF) st"

definition cidr_ula6 :: "cidr \<Rightarrow> ostate \<Rightarrow> opres" where
  "cidr_ula6 a st = qbool (addr a ! 0 \<ge> 0xFC \<and> addr a ! 0 \<le> 0xFD) st"

definition cidr_print6 :: "inet \<Rightarrow> cidr \<Rightarrow> ostate \<Rightarrow> opres" where
  "cidr_print6 net a st =
     (if family a \<noteq> AF_INET6 then Ret (False, st)
      else
        (let st1 = qprintf (ntop6 net (addr a)) (qsep st);
             st2 = (if prefix a < 128 then qprintf (''/'' @ dec_of_nat (unat (prefix a))) st1 else st1)
         in Ret (True, snd (cidr_pop st2))))"

section \<open>Arguments\<close>

text \<open>The sixteen bytes of a number, \<^verbatim>\<open>s6_addr[15-i] = sum % 256; sum >>= 8\<close>.\<close>

definition bytes16 :: "u32 \<Rightarrow> byte list" where
  "bytes16 v = replicate 12 0 @ bytes_be v"

definition cidr_parse ::
  "endian \<Rightarrow> inet \<Rightarrow> string \<Rightarrow> string \<Rightarrow> af \<Rightarrow> ostate \<Rightarrow> (cidr option \<times> ostate) outcome" where
  "cidr_parse en net op s af_hint st =
     (case strtoul 0 s of (v, r) \<Rightarrow>
        if length r < length s \<and> r = []
        then Ret (with_malloc (Some
               (if af_hint = AF_INET
                then \<lparr>family = AF_INET, prefix = v, addr = bytes_be v @ replicate 12 0\<rparr>
                else \<lparr>family = AF_INET6, prefix = v, addr = bytes16 v\<rparr>)) st)
        else (case (if CHR '':'' \<in> set s then cidr_parse6 net s st else cidr_parse4 en net s st) of
                (None, st') \<Rightarrow> Ret (None, st')
              | (Some a, st') \<Rightarrow> if family a \<noteq> af_hint then Exit 4 else Ret (Some a, st')))"

definition cidr_howmany :: "cidr \<Rightarrow> cidr \<Rightarrow> ostate \<Rightarrow> opres" where
  "cidr_howmany a b st =
     (let st1 = qsep st in
      if prefix b < prefix a then Ret (True, qprintf ''0'' st1)
      else obind (shl1 (prefix b - prefix a)) (\<lambda>n. Ret (True, qprintf (dec_of_nat (unat n)) st1)))"

definition cidr_prefix :: "cidr \<Rightarrow> cidr \<Rightarrow> ostate \<Rightarrow> opres" where
  "cidr_prefix a b st = Ret (True, set_top (a\<lparr>prefix := prefix b\<rparr>) st)"

definition cidr_quiet :: "cidr \<Rightarrow> ostate \<Rightarrow> opres" where
  "cidr_quiet a st = Ret (True, st\<lparr>quiet := True\<rparr>)"

section \<open>The operations table, the dispatcher and main\<close>

record op =
  op_name :: string
  f4_a1 :: "(cidr \<Rightarrow> ostate \<Rightarrow> opres) option"
  f4_a2 :: "(cidr \<Rightarrow> cidr \<Rightarrow> ostate \<Rightarrow> opres) option"
  f6_a1 :: "(cidr \<Rightarrow> ostate \<Rightarrow> opres) option"
  f6_a2 :: "(cidr \<Rightarrow> cidr \<Rightarrow> ostate \<Rightarrow> opres) option"

definition op1 where
  "op1 name f g = \<lparr>op_name = name, f4_a1 = f, f4_a2 = None, f6_a1 = g, f6_a2 = None\<rparr>"

definition op2 where
  "op2 name f g = \<lparr>op_name = name, f4_a1 = None, f4_a2 = f, f6_a1 = None, f6_a2 = g\<rparr>"

definition ops :: "endian \<Rightarrow> inet \<Rightarrow> op list" where
  "ops en net =
     [op2 ''add'' (Some (cidr_add4 en)) (Some cidr_add6),
      op2 ''sub'' (Some (cidr_sub4 en)) (Some cidr_sub6),
      op2 ''next'' (Some (cidr_next4 en)) (Some cidr_next6),
      op2 ''prev'' (Some (cidr_prev4 en)) (Some cidr_prev6),
      op1 ''network'' (Some (cidr_network4 en)) (Some cidr_network6),
      op1 ''broadcast'' (Some (cidr_broadcast4 en)) None,
      op2 ''prefix'' (Some cidr_prefix) (Some cidr_prefix),
      op1 ''netmask'' (Some (cidr_netmask4 en)) None,
      op1 ''6to4'' (Some (cidr_6to4 en)) None,
      op2 ''howmany'' (Some cidr_howmany) (Some cidr_howmany),
      op2 ''contains'' (Some (cidr_contains4 en)) (Some cidr_contains6),
      op1 ''private'' (Some (cidr_private4 en)) None,
      op1 ''linklocal'' (Some (cidr_linklocal4 en)) (Some cidr_linklocal6),
      op1 ''ula'' None (Some cidr_ula6),
      op1 ''quiet'' (Some cidr_quiet) (Some cidr_quiet),
      op1 ''pop'' (Some (\<lambda>a st. Ret (cidr_pop st))) (Some (\<lambda>a st. Ret (cidr_pop st))),
      op1 ''print'' (Some (cidr_print4 net)) (Some (cidr_print6 net))]"

text \<open>
  \<^verbatim>\<open>runop\<close>: whether to go on, the arguments left, the status and the state. The operation's
  argument is looked at only when there is an operation, so \<open>arg\<close> is the list of the
  arguments not yet consumed. With an empty stack \<^verbatim>\<open>a->family\<close> dereferences NULL.
\<close>

definition runop ::
  "endian \<Rightarrow> inet \<Rightarrow> string list \<Rightarrow> nat \<Rightarrow> ostate \<Rightarrow> (bool \<times> string list \<times> nat \<times> ostate) outcome" where
  "runop en net arg status st =
     (case arg of
        [] \<Rightarrow> Ret (False, arg, status, st)
      | arg1 # rest \<Rightarrow>
          (case find (\<lambda>o'. op_name o' = arg1) (ops en net) of
             None \<Rightarrow> Ret (False, arg, status, st)
           | Some o' \<Rightarrow>
               if f4_a2 o' \<noteq> None \<or> f6_a2 o' \<noteq> None then
                 (case rest of
                    [] \<Rightarrow> Ret (False, arg, 2, eprintf (Needs_argument arg1) st)
                  | arg2 # rest2 \<Rightarrow>
                      (case stack st of
                         [] \<Rightarrow> Undef
                       | a # _ \<Rightarrow>
                           obind (cidr_parse en net arg1 arg2 (family a) st) (\<lambda>(b, st1).
                             case b of
                               None \<Rightarrow> Ret (False, arg, 3, eprintf (Invalid_argument arg1) st1)
                             | Some b' \<Rightarrow>
                                 (case (if family a = AF_INET then f4_a2 o' else f6_a2 o') of
                                    None \<Rightarrow> Ret (False, rest2, 5, eprintf (Not_supported arg1 (family a)) st1)
                                  | Some f \<Rightarrow>
                                      obind (f a b' st1) (\<lambda>(ok, st2).
                                        Ret (True, rest2, if ok then 0 else 1, st2))))))
               else
                 (case stack st of
                    [] \<Rightarrow> Undef
                  | a # _ \<Rightarrow>
                      (case (if family a = AF_INET then f4_a1 o' else f6_a1 o') of
                         None \<Rightarrow> Ret (False, rest, 5, eprintf (Not_supported arg1 (family a)) st)
                       | Some f \<Rightarrow>
                           obind (f a st) (\<lambda>(ok, st2). Ret (True, rest, if ok then 0 else 1, st2))))))"

text \<open>\<^verbatim>\<open>while (runop(&arg, &status));\<close>: every operation that goes on has consumed an argument.\<close>

lemma runop_consumes:
  "runop en net arg status st = Ret (True, arg', r) \<Longrightarrow> length arg' < length arg"
  by (auto simp: runop_def obind_eq_Ret split: list.splits option.splits if_splits prod.splits)

function runops :: "endian \<Rightarrow> inet \<Rightarrow> string list \<Rightarrow> nat \<Rightarrow> ostate \<Rightarrow> (string list \<times> nat \<times> ostate) outcome" where
  "runops en net arg status st =
     (case runop en net arg status st of
        Undef \<Rightarrow> Undef
      | Exit n \<Rightarrow> Exit n
      | Ret (go, arg', status', st') \<Rightarrow>
          if go then runops en net arg' status' st' else Ret (arg', status', st'))"
  by pat_completeness auto
termination
  by (relation "measure (\<lambda>(en, net, arg, status, st). length arg)") (auto dest: runop_consumes)

declare runops.simps [simp del]

definition init_state :: "nat \<Rightarrow> ostate" where
  "init_state n = \<lparr>quiet = False, printed = False, stack = [], out = [], err = [], mallocs = n\<rparr>"

text \<open>What \<^verbatim>\<open>main\<close> does after the loop: unless something was printed, print the top of the stack.\<close>

definition owipcalc_end :: "inet \<Rightarrow> string list \<times> nat \<times> ostate \<Rightarrow> (nat \<times> ostate) outcome" where
  "owipcalc_end net = (\<lambda>(arg, status, st).
     if arg \<noteq> [] then Exit 6
     else
       obind (if \<not> printed st \<and> status < 2
              then (case stack st of
                      [] \<Rightarrow> Undef
                    | t # _ \<Rightarrow>
                        obind (if family t = AF_INET then cidr_print4 net t st else cidr_print6 net t st)
                          (\<lambda>(_, st'). Ret st'))
              else Ret st) (\<lambda>st'. Ret (status, qprintf [CHR 0x0A] st')))"

text \<open>
  \<^verbatim>\<open>main\<close> for the arguments after the program name, with \<open>n\<close> allocations that succeed: \<open>Ret\<close> holds
  the final status and state; \<open>Exit\<close> is an early end (1 usage, 4 wrong address family,
  6 unknown operation, 255 out of memory), where the output so far is not recorded.
\<close>

definition owipcalc_main :: "endian \<Rightarrow> inet \<Rightarrow> nat \<Rightarrow> string list \<Rightarrow> (nat \<times> ostate) outcome" where
  "owipcalc_main en net n args =
     (case args of
        base # arg1 # rest \<Rightarrow>
          (case (if CHR '':'' \<in> set base then cidr_parse6 net base (init_state n)
                 else cidr_parse4 en net base (init_state n)) of
             (None, _) \<Rightarrow> Exit 1
           | (Some a, st) \<Rightarrow> obind (runops en net (arg1 # rest) 0 (cidr_push a st)) (owipcalc_end net))
      | _ \<Rightarrow> Exit 1)"

end
