(* ===== verification/Owipcalc_Props.thy ===== *)
theory Owipcalc_Props
  imports Owipcalc
begin

text \<open>
  The properties of the IP calculator: its IPv4 operations against arithmetic on 32-bit
  addresses, its byte loops against arithmetic on 128-bit addresses, membership of prefixes
  as inclusion of address ranges, and the exit status of the program.
\<close>

section \<open>IPv4 addresses as numbers\<close>

definition addr4 :: "cidr \<Rightarrow> u32" where
  "addr4 a = word_be (take 4 (addr a))"

lemma not_bit_byte: "8 \<le> n \<Longrightarrow> \<not> bit (b :: byte) n"
  by (auto dest: bit_imp_le_length)

lemma word_be_4_bit:
  assumes "n < 32"
  shows "bit (word_be [a, b, c, d]) n =
    (if n < 8 then bit d n else if n < 16 then bit c (n - 8)
     else if n < 24 then bit b (n - 16) else bit a (n - 24))"
  using assms by (auto simp: word_be_4 bit_simps not_bit_byte)

lemma word_be_4_and:
  "word_be [a AND a', b AND b', c AND c', d AND d'] = word_be [a, b, c, d] AND word_be [a', b', c', d']"
  by (rule bit_word_eqI) (simp add: word_be_4_bit bit_and_iff)

lemma word_be_4_or:
  "word_be [a OR a', b OR b', c OR c', d OR d'] = word_be [a, b, c, d] OR word_be [a', b', c', d']"
  by (rule bit_word_eqI) (simp add: word_be_4_bit bit_or_iff)

lemma ucast_drop_and: "(ucast (drop_bit n (x AND y :: u32)) :: byte) = ucast (drop_bit n x) AND ucast (drop_bit n y)"
  by (rule bit_word_eqI) (auto simp: bit_simps)

lemma ucast_drop_or: "(ucast (drop_bit n (x OR y :: u32)) :: byte) = ucast (drop_bit n x) OR ucast (drop_bit n y)"
  by (rule bit_word_eqI) (auto simp: bit_simps)

lemma htonl_and: "htonl en (x AND y) = htonl en x AND htonl en y"
  using ucast_drop_and [of 0 x y]
  by (cases en) (simp_all only: htonl_def u32_of_bytes_def bytes_be_def endian.case rev.simps append.simps
      ucast_drop_and word_be_4_and drop_bit_0 id_apply)

lemma htonl_or: "htonl en (x OR y) = htonl en x OR htonl en y"
  using ucast_drop_or [of 0 x y]
  by (cases en) (simp_all only: htonl_def u32_of_bytes_def bytes_be_def endian.case rev.simps append.simps
      ucast_drop_or word_be_4_or drop_bit_0 id_apply)

lemma s_addr_htonl: "length (addr a) = 16 \<Longrightarrow> s_addr en a = htonl en (addr4 a)"
  by (simp add: s_addr_def htonl_def addr4_def bytes_be_word_be)

lemma ntohl_htonl [simp]: "ntohl en (htonl en w) = w"
  by (simp add: ntohl_def htonl_def bytes_of_u32_of_bytes)

lemma bytes_of_htonl [simp]: "bytes_of_u32 en (htonl en w) = bytes_be w"
  by (simp add: htonl_def bytes_of_u32_of_bytes)

lemma htonl_inject [simp]: "htonl en x = htonl en y \<longleftrightarrow> x = y"
  by (metis ntohl_htonl)

lemma addr4_set [simp]: "addr4 (set_s_addr en (htonl en w) a) = w"
  by (simp add: addr4_def set_s_addr_def)

lemma addr4_prefix [simp]: "addr4 (a\<lparr>prefix := p\<rparr>) = addr4 a"
  by (simp add: addr4_def)

lemma unat_u32_less: "unat (w :: u32) < 4294967296"
  using unsigned_less [of w, where 'a = nat] by simp

section \<open>Prefix lengths and masks\<close>

lemma unat_host: "p \<le> (32 :: u32) \<Longrightarrow> unat (32 - p) = 32 - unat p"
  by (simp add: unat_sub)

lemma low_bits_defined:
  "low_bits (32 - p) = (if 2 \<le> p \<and> p \<le> 32 then Ret (mask (32 - unat p)) else Undef)"
proof (cases "p \<le> 32")
  case True
  then have "32 - p < 31 \<longleftrightarrow> 2 \<le> p"
    by (simp add: word_less_nat_alt word_le_nat_alt unat_host) arith
  with True show ?thesis
    by (auto simp: low_bits_def unat_host mask_eq_exp_minus_1)
next
  case False
  then have "\<not> 32 - p < 31"
    using unat_u32_less [of p] by (simp add: word_less_nat_alt word_le_nat_alt unat_sub_if_size word_size)
  with False show ?thesis by (simp add: low_bits_def)
qed

lemma shl1_defined:
  "shl1 (32 - p) = (if 1 \<le> p \<and> p \<le> 32 then Ret (2 ^ (32 - unat p)) else Undef)"
proof (cases "p \<le> 32")
  case True
  then have "32 - p < 32 \<longleftrightarrow> 1 \<le> p"
    by (simp add: word_less_nat_alt word_le_nat_alt unat_host) arith
  with True show ?thesis
    by (auto simp: shl1_def unat_host)
next
  case False
  then have "\<not> 32 - p < 32"
    using unat_u32_less [of p] by (simp add: word_less_nat_alt word_le_nat_alt unat_sub_if_size word_size)
  with False show ?thesis by (simp add: shl1_def)
qed

lemma unat_mask_u32: "k \<le> 32 \<Longrightarrow> unat (mask k :: u32) = 2 ^ k - 1"
proof -
  assume "k \<le> 32"
  have "unat (take_bit k (- 1) :: u32) = 2 ^ k - 1"
    using \<open>k \<le> 32\<close> by (simp only: unsigned_take_bit_eq unsigned_minus_1_eq_mask take_bit_of_mask)
      (simp add: min_def mask_eq_exp_minus_1)
  then show ?thesis by (simp add: take_bit_minus_one_eq_mask)
qed

lemma unat_or_mask:
  assumes "k \<le> 32"
  shows "unat (x OR mask k) = unat (x :: u32) - unat x mod 2 ^ k + (2 ^ k - 1)"
proof -
  have "x OR mask k = (x AND NOT (mask k)) OR mask k"
    by (rule bit_word_eqI) (auto simp: bit_simps)
  also have "\<dots> = (x AND NOT (mask k)) + mask k"
    by (rule disjunctive_add_eq_or [symmetric]) (simp add: bit_eq_iff bit_simps)
  finally have eq: "x OR mask k = (x AND NOT (mask k)) + mask k" .
  have "unat (x AND NOT (mask k)) + unat (mask k :: u32) < 2 ^ 32"
  proof -
    have "unat x div 2 ^ k < 2 ^ (32 - k)"
      using unat_u32_less [of x] assms by (simp add: less_mult_imp_div_less flip: power_add)
    then have "(unat x div 2 ^ k + 1) * 2 ^ k \<le> 2 ^ (32 - k) * (2 ^ k :: nat)"
      by (intro mult_right_mono) simp_all
    then have "unat x div 2 ^ k * 2 ^ k + 2 ^ k \<le> (2 :: nat) ^ 32"
      using assms by (simp add: power_add [symmetric])
    moreover have "(1 :: nat) \<le> 2 ^ k" by simp
    ultimately show ?thesis
      unfolding unat_and_not_mask unat_mask_u32 [OF assms] minus_mod_eq_div_mult by linarith
  qed
  then show ?thesis
    by (simp add: eq unat_word_ariths unat_and_not_mask unat_mask_u32 [OF assms])
qed

section \<open>The byte loops\<close>

lemma nat_add_256:
  "(x :: nat) < 256 \<Longrightarrow> y < 256 \<Longrightarrow> c \<le> 1 \<Longrightarrow>
     (x + y + c) mod 256 + (if 256 \<le> x + y + c then 256 else 0) = x + y + c"
  by (auto simp: mod_if)

lemma nat_sub_256:
  "(x :: nat) < 256 \<Longrightarrow> y < 256 \<Longrightarrow> c \<le> 1 \<Longrightarrow> z = (y + c) mod 256 \<Longrightarrow>
     (if z \<le> x then x - z else x + 256 - z) + y + c = x + (if x < y + c then 256 else 0)"
  by (cases "y + c = 256") auto

lemma byte_add:
  assumes "unat (c :: byte) \<le> 1"
  shows "unat (x + (y + c)) + (if 256 \<le> unat x + unat y + unat c then 256 else 0) =
    unat x + unat y + unat (c :: byte)"
proof -
  have "unat (x + (y + c)) = (unat x + unat y + unat c) mod 256"
    by (simp add: unat_word_ariths mod_simps add.assoc)
  then show ?thesis
    using nat_add_256 [OF unat_less_256 unat_less_256 assms] by simp
qed

lemma byte_sub:
  assumes "unat (c :: byte) \<le> 1"
  shows "unat (x - (y + c)) + unat y + unat c =
    unat x + (if int (unat x) - int (unat y) - int (unat c) < 0 then 256 else 0)"
proof -
  have neg: "int (unat x) - int (unat y) - int (unat c) < 0 \<longleftrightarrow> unat x < unat y + unat c"
    by linarith
  have "unat (x - (y + c)) = (if unat (y + c) \<le> unat x then unat x - unat (y + c) else unat x + 256 - unat (y + c))"
    by (simp add: unat_sub_if_size word_size)
  moreover have "unat (y + c) = (unat y + unat c) mod 256"
    by (simp add: unat_word_ariths)
  ultimately show ?thesis
    unfolding neg using nat_sub_256 [OF unat_less_256 unat_less_256 assms] by simp
qed

text \<open>After the rest of the loop, the byte it started from still has the value it got.\<close>

lemma loop_next:
  assumes "drop (Suc i) x' = drop (Suc i) (x[Suc i := v])" and "length x' = length x" and "Suc i < length x"
  shows "x' ! Suc i = v" and "drop (Suc (Suc i)) x' = drop (Suc (Suc i)) x"
  using arg_cong [OF assms(1), of hd] arg_cong [OF assms(1), of tl] assms(2,3)
  by (simp_all add: hd_drop_conv_nth drop_Suc tl_drop flip: drop_Suc)

text \<open>What a run of a loop from byte \<open>idx\<close> down to byte 0 leaves.\<close>

lemma add6_loop_value:
  assumes "add6_loop idx x y carry = (x', c)"
    and "idx < length x" and "length y = length x" and "unat carry \<le> 1"
  shows "length x' = length x \<and> drop (Suc idx) x' = drop (Suc idx) x \<and> unat c \<le> 1 \<and>
    be_nat (take (Suc idx) x') + unat c * 256 ^ Suc idx =
      be_nat (take (Suc idx) x) + be_nat (take (Suc idx) y) + unat carry"
  using assms
proof (induction idx arbitrary: x carry)
  case 0
  then show ?case
    using byte_add [of carry "x ! 0" "y ! 0"]
    by (auto simp: add6_loop.simps [of 0] Let_def be_nat_take_Suc drop_update_swap split: if_splits)
next
  case (Suc i)
  let ?v = "x ! Suc i + (y ! Suc i + carry)"
  let ?o = "if 256 \<le> unat (x ! Suc i) + unat (y ! Suc i) + unat carry then 1 else 0 :: byte"
  let ?x = "x[Suc i := ?v]"
  from Suc.prems(1) have "add6_loop i ?x y ?o = (x', c)"
    by (simp add: add6_loop.simps [of "Suc i"] Let_def)
  from Suc.IH [OF this] Suc.prems have ih: "length x' = length x" "drop (Suc i) x' = drop (Suc i) ?x"
      "unat c \<le> 1" "be_nat (take (Suc i) x') + unat c * 256 ^ Suc i =
        be_nat (take (Suc i) x) + be_nat (take (Suc i) y) + unat ?o"
    by auto
  note nx = loop_next [OF ih(2,1) Suc.prems(2)]
  have "be_nat (take (Suc (Suc i)) x') + unat c * 256 ^ Suc (Suc i) =
      256 * (be_nat (take (Suc i) x') + unat c * 256 ^ Suc i) + unat ?v"
    using Suc.prems(2) ih(1) nx by (simp add: be_nat_take_Suc [of "Suc i"])
  also have "\<dots> = 256 * (be_nat (take (Suc i) x) + be_nat (take (Suc i) y)) + (256 * unat ?o + unat ?v)"
    by (simp only: ih(4)) simp
  also have "256 * unat ?o + unat ?v = unat (x ! Suc i) + unat (y ! Suc i) + unat carry"
    using byte_add [OF Suc.prems(4), of "x ! Suc i" "y ! Suc i"] by (simp split: if_splits)
  finally show ?case
    using Suc.prems ih nx by (simp add: be_nat_take_Suc [of "Suc i"] algebra_simps)
qed

lemma sub6_loop_value:
  assumes "sub6_loop idx x y carry = (x', c)"
    and "idx < length x" and "length y = length x" and "unat carry \<le> 1"
  shows "length x' = length x \<and> drop (Suc idx) x' = drop (Suc idx) x \<and> unat c \<le> 1 \<and>
    be_nat (take (Suc idx) x') + be_nat (take (Suc idx) y) + unat carry =
      be_nat (take (Suc idx) x) + unat c * 256 ^ Suc idx"
  using assms
proof (induction idx arbitrary: x carry)
  case 0
  then show ?case
    using byte_sub [of carry "x ! 0" "y ! 0"]
    by (auto simp: sub6_loop.simps [of 0] Let_def be_nat_take_Suc drop_update_swap split: if_splits)
next
  case (Suc i)
  let ?v = "x ! Suc i - (y ! Suc i + carry)"
  let ?o = "if int (unat (x ! Suc i)) - int (unat (y ! Suc i)) - int (unat carry) < 0 then 1 else 0 :: byte"
  let ?x = "x[Suc i := ?v]"
  from Suc.prems(1) have "sub6_loop i ?x y ?o = (x', c)"
    by (simp add: sub6_loop.simps [of "Suc i"] Let_def)
  from Suc.IH [OF this] Suc.prems have ih: "length x' = length x" "drop (Suc i) x' = drop (Suc i) ?x"
      "unat c \<le> 1" "be_nat (take (Suc i) x') + be_nat (take (Suc i) y) + unat ?o =
        be_nat (take (Suc i) x) + unat c * 256 ^ Suc i"
    by auto
  note nx = loop_next [OF ih(2,1) Suc.prems(2)]
  have "be_nat (take (Suc (Suc i)) z) = be_nat (take (Suc i) z) * 256 + unat (z ! Suc i)"
    if "length z = length x" for z
    using that Suc.prems(2) by (simp add: be_nat_take_Suc)
  note bn = this [OF ih(1), unfolded nx(1)] this [OF Suc.prems(3)] this [OF refl]
  have "unat ?v + unat (y ! Suc i) + unat carry = unat (x ! Suc i) + 256 * unat ?o"
    using byte_sub [OF Suc.prems(4), of "x ! Suc i" "y ! Suc i"] by (simp split: if_splits)
  moreover have "unat c * 256 ^ Suc (Suc i) = 256 * (unat c * 256 ^ Suc i)" by simp
  ultimately have "be_nat (take (Suc (Suc i)) x') + be_nat (take (Suc (Suc i)) y) + unat carry =
      be_nat (take (Suc (Suc i)) x) + unat c * 256 ^ Suc (Suc i)"
    unfolding bn using ih(4) by linarith
  with ih(1,3) nx(2) show ?case by simp
qed

lemma next6_loop_add: "idx < n \<Longrightarrow> next6_loop idx x carry = add6_loop idx x (replicate n 0) carry"
  by (induction idx arbitrary: x carry)
     (simp_all add: next6_loop.simps [of 0] next6_loop.simps [of "Suc _"]
       add6_loop.simps [of 0] add6_loop.simps [of "Suc _"])

lemma prev6_loop_sub: "idx < n \<Longrightarrow> prev6_loop idx x carry = sub6_loop idx x (replicate n 0) carry"
  by (induction idx arbitrary: x carry)
     (simp_all add: prev6_loop.simps [of 0] prev6_loop.simps [of "Suc _"]
       sub6_loop.simps [of 0] sub6_loop.simps [of "Suc _"])

lemma loop_widen:
  assumes "length x = 16" and "length x' = 16" and "idx < 16" and "drop (Suc idx) x' = drop (Suc idx) x"
    and "be_nat (take (Suc idx) x') + P = be_nat (take (Suc idx) x) + Q"
  shows "be_nat x' + P * 256 ^ (15 - idx) = be_nat x + Q * 256 ^ (15 - idx)"
proof -
  have split: "be_nat z = be_nat (take (Suc idx) z) * 256 ^ (15 - idx) + be_nat (drop (Suc idx) z)"
    if "length z = 16" for z
    using that be_nat_append [of "take (Suc idx) z" "drop (Suc idx) z"] by simp
  have "(be_nat (take (Suc idx) x') + P) * 256 ^ (15 - idx) = (be_nat (take (Suc idx) x) + Q) * 256 ^ (15 - idx)"
    by (simp only: assms(5))
  then show ?thesis
    unfolding split [OF assms(1)] split [OF assms(2)] assms(4) add_mult_distrib by linarith
qed

lemma power_256_16: "idx < 16 \<Longrightarrow> 256 ^ Suc idx * 256 ^ (15 - idx) = (2 :: nat) ^ 128"
proof -
  assume "idx < 16"
  then have "256 ^ Suc idx * 256 ^ (15 - idx) = (256 :: nat) ^ 16"
    by (simp flip: power_add power_Suc)
  then show ?thesis by simp
qed

text \<open>A loop from byte \<open>idx\<close> on adds or subtracts on the whole 128-bit number.\<close>

lemma next6_loop_value:
  assumes "next6_loop idx x 1 = (x', c)" and "length x = 16" and "idx < 16"
  shows "length x' = 16" and "c = 0 \<longleftrightarrow> be_nat x + 256 ^ (15 - idx) < 2 ^ 128"
    and "c = 0 \<Longrightarrow> be_nat x' = be_nat x + 256 ^ (15 - idx)"
proof -
  from assms have "add6_loop idx x (replicate 16 0) 1 = (x', c)"
    by (simp add: next6_loop_add [of idx 16])
  from add6_loop_value [OF this] assms have l: "length x' = 16" "drop (Suc idx) x' = drop (Suc idx) x"
      "unat c \<le> 1" "be_nat (take (Suc idx) x') + unat c * 256 ^ Suc idx = be_nat (take (Suc idx) x) + 1"
    by auto
  show "length x' = 16" by (fact l)
  have v: "be_nat x' + unat c * 2 ^ 128 = be_nat x + 256 ^ (15 - idx)"
    using loop_widen [OF assms(2) l(1) assms(3) l(2,4)] power_256_16 [OF assms(3)]
    by (simp only: mult.assoc mult_1)
  have "be_nat x' < 2 ^ 128" using be_nat_less [of x'] l(1) by simp
  moreover have "c = 0 \<or> unat c = 1"
    using l(3) by (cases "unat c") (simp_all add: unat_eq_0)
  ultimately show "c = 0 \<longleftrightarrow> be_nat x + 256 ^ (15 - idx) < 2 ^ 128"
      "c = 0 \<Longrightarrow> be_nat x' = be_nat x + 256 ^ (15 - idx)"
    using v by auto
qed

lemma prev6_loop_value:
  assumes "prev6_loop idx x 1 = (x', c)" and "length x = 16" and "idx < 16"
  shows "length x' = 16" and "c = 0 \<longleftrightarrow> 256 ^ (15 - idx) \<le> be_nat x"
    and "c = 0 \<Longrightarrow> be_nat x' + 256 ^ (15 - idx) = be_nat x"
proof -
  from assms have "sub6_loop idx x (replicate 16 0) 1 = (x', c)"
    by (simp add: prev6_loop_sub [of idx 16])
  from sub6_loop_value [OF this] assms have l: "length x' = 16" "drop (Suc idx) x' = drop (Suc idx) x"
      "unat c \<le> 1" "be_nat (take (Suc idx) x') + 1 = be_nat (take (Suc idx) x) + unat c * 256 ^ Suc idx"
    by auto
  show "length x' = 16" by (fact l)
  have v: "be_nat x' + 256 ^ (15 - idx) = be_nat x + unat c * 2 ^ 128"
    using loop_widen [OF assms(2) l(1) assms(3) l(2,4)] power_256_16 [OF assms(3)]
    by (simp only: mult.assoc mult_1)
  have "be_nat x' < 2 ^ 128" using be_nat_less [of x'] l(1) by simp
  moreover have "c = 0 \<or> unat c = 1"
    using l(3) by (cases "unat c") (simp_all add: unat_eq_0)
  ultimately show "c = 0 \<longleftrightarrow> 256 ^ (15 - idx) \<le> be_nat x"
      "c = 0 \<Longrightarrow> be_nat x' + 256 ^ (15 - idx) = be_nat x"
    using v by auto
qed

lemma prefix_index_small:
  assumes "1 \<le> prefix b" and "prefix b \<le> 128"
  shows "prefix_index b = (unat (prefix b) - 1) div 8"
proof -
  have p: "1 \<le> unat (prefix b)" "unat (prefix b) \<le> 128"
    using assms by (simp_all add: word_le_nat_alt)
  have "unat ((prefix b - 1) div 8) = (unat (prefix b) - 1) div 8"
    using assms(1) by (simp add: unat_div unat_sub)
  moreover have "unat (ucast w :: byte) = unat w mod 256" for w :: u32
    by (simp add: unsigned_ucast_eq take_bit_eq_mod)
  ultimately show ?thesis
    using p(2) by (simp add: prefix_index_def)
qed

lemma step_is_prefix_size:
  assumes "1 \<le> p" and "p \<le> 128"
  shows "256 ^ (15 - (p - 1) div 8) = (2 :: nat) ^ (128 - p) \<longleftrightarrow> 8 dvd p"
proof -
  have "256 ^ (15 - (p - 1) div 8) = (2 :: nat) ^ (8 * (15 - (p - 1) div 8))"
    by (simp add: power_mult)
  then have "256 ^ (15 - (p - 1) div 8) = (2 :: nat) ^ (128 - p) \<longleftrightarrow> 8 * (15 - (p - 1) div 8) = 128 - p"
    by simp
  also have "\<dots> \<longleftrightarrow> 8 dvd p"
  proof -
    let ?q = "(p - 1) div 8" and ?r = "(p - 1) mod 8"
    have p: "p = ?r + 1 + 8 * ?q" "?r < 8" "?q \<le> 15"
      using assms mod_mult_div_eq [of "p - 1" 8] by auto
    have "8 dvd p \<longleftrightarrow> 8 dvd ?r + 1"
      by (subst p(1)) (simp only: dvd_add_times_triv_right_iff mult.commute [of 8])
    also have "\<dots> \<longleftrightarrow> ?r = 7"
      using p(2) by (auto dest: dvd_imp_le)
    finally show ?thesis using p by linarith
  qed
  finally show ?thesis .
qed

section \<open>Leading bits\<close>

lemma and_not_mask_eq_iff:
  "(x :: 'a::len word) AND NOT (mask k) = y AND NOT (mask k) \<longleftrightarrow> unat x div 2 ^ k = unat y div 2 ^ k"
  by (auto simp: word_unat_eq_iff unat_and_not_mask minus_mod_eq_div_mult)

lemma high_bits_mask: "high_bits k = NOT (mask k)"
  by (simp add: high_bits_def mask_eq_exp_minus_1)

lemma be_nat_div:
  assumes "length x = 16" and "host = 8 * i + r" and "i \<le> 15" and "r < 8"
  shows "be_nat x div 2 ^ host = be_nat (take (15 - i) x) * 2 ^ (8 - r) + unat (x ! (15 - i)) div 2 ^ r"
proof -
  have 16: "16 - i = Suc (15 - i)" using assms(3) by simp
  have "be_nat x = be_nat (take (16 - i) x) * 256 ^ i + be_nat (drop (16 - i) x)"
    using be_nat_append [of "take (16 - i) x" "drop (16 - i) x"] assms(1,3) by simp
  moreover have "be_nat (drop (16 - i) x) < 256 ^ i"
    using be_nat_less [of "drop (16 - i) x"] assms(1,3) by simp
  ultimately have "be_nat x div 256 ^ i = be_nat (take (16 - i) x)" by simp
  moreover have "(2 :: nat) ^ host = 256 ^ i * 2 ^ r"
    by (simp add: assms(2) power_add power_mult)
  ultimately have "be_nat x div 2 ^ host = be_nat (take (16 - i) x) div 2 ^ r"
    by (simp add: div_mult2_eq)
  also have "\<dots> = (be_nat (take (15 - i) x) * 2 ^ (8 - r) * 2 ^ r + unat (x ! (15 - i))) div 2 ^ r"
  proof -
    have "2 ^ (8 - r) * 2 ^ r = (256 :: nat)"
      using assms(4) by (simp flip: power_add)
    then show ?thesis
      unfolding 16 using assms(1) by (simp only: be_nat_take_Suc mult.assoc)
  qed
  finally show ?thesis by simp
qed

lemma leading_bits_eq:
  assumes "length x = 16" and "length y = 16" and "host = 8 * i + r" and "i \<le> 15" and "r < 8"
  shows "be_nat x div 2 ^ host = be_nat y div 2 ^ host \<longleftrightarrow>
    x ! (15 - i) AND high_bits r = y ! (15 - i) AND high_bits r \<and> take (15 - i) x = take (15 - i) y"
proof -
  let ?s = "2 ^ (8 - r) :: nat"
  have small: "unat (b :: byte) div 2 ^ r < ?s" for b
    using unat_less_256 [of b] assms(5) by (simp add: less_mult_imp_div_less del: unat_less_256 flip: power_add)
  have "m * ?s + c = n * ?s + d \<longleftrightarrow> m = n \<and> c = d" if "c < ?s" "d < ?s" for m n c d :: nat
  proof -
    have "(z * ?s + e) div ?s = z" "(z * ?s + e) mod ?s = e" if "e < ?s" for z e
      using that by simp_all
    with that show ?thesis by metis
  qed
  note this [OF small small]
  moreover have "be_nat (take (15 - i) x) = be_nat (take (15 - i) y) \<longleftrightarrow> take (15 - i) x = take (15 - i) y"
    using assms(1,2) by (intro be_nat_inject) simp
  ultimately show ?thesis
    by (auto simp: be_nat_div [OF assms(1,3-)] be_nat_div [OF assms(2,3-)] high_bits_mask and_not_mask_eq_iff)
qed

lemma clear_bytes_zeros:
  "i + n \<le> 16 \<Longrightarrow> length x = 16 \<Longrightarrow>
     clear_bytes i n x = Ret (take (16 - i - n) x @ replicate n 0 @ drop (16 - i) x)"
proof (induction n arbitrary: i x)
  case (Suc n)
  then have "clear_bytes i (Suc n) x =
      Ret (take (16 - Suc i - n) (x[15 - i := 0]) @ replicate n 0 @ drop (16 - Suc i) (x[15 - i := 0]))"
    by simp
  moreover have "drop (16 - Suc i) (x[15 - i := 0]) = 0 # drop (16 - i) x"
    using Suc.prems by (intro nth_equalityI) (auto simp: nth_list_update nth_Cons Suc_diff_le split: nat.splits)
  ultimately show ?case
    using Suc.prems by (simp add: replicate_app_Cons_same)
qed simp

section \<open>Address ranges\<close>

definition range4 :: "cidr \<Rightarrow> u32 set" where
  "range4 a = {y. unat y div 2 ^ (32 - unat (prefix a)) = unat (addr4 a) div 2 ^ (32 - unat (prefix a))}"

lemma block_refine:
  assumes "(s :: nat) dvd t" and "x div s = y div s"
  shows "x div t = y div t"
proof -
  obtain k where "t = s * k" using assms(1) by (rule dvdE)
  then show ?thesis using assms(2) by (simp add: div_mult2_eq)
qed

text \<open>A block of \<open>t\<close> numbers is not inside one of half its size or less.\<close>

lemma block_too_large:
  assumes "2 * s \<le> t" and "0 < s" and "t dvd 2 ^ 32"
  shows "\<exists>(y :: u32) (y' :: u32). unat y div t = unat b div t \<and> unat y' div t = unat (b :: u32) div t \<and>
    unat y div s \<noteq> unat y' div s"
proof -
  let ?q = "unat b div t * t"
  obtain k where k: "2 ^ 32 = t * k" using assms(3) by (rule dvdE)
  have t: "0 < t" using assms(1,2) by simp
  have "unat b div t < k"
    using unat_u32_less [of b] k t by (simp add: less_mult_imp_div_less mult.commute)
  then have "(unat b div t + 1) * t \<le> k * t"
    by (intro mult_right_mono) simp_all
  then have le: "?q + t \<le> 4294967296"
    using k by (simp add: mult.commute)
  have u: "unat (of_nat n :: u32) = n" if "n < 4294967296" for n
    using that by (simp add: unat_of_nat)
  have "?q < 4294967296" "?q + s < 4294967296"
    using le assms(1,2) t by linarith+
  then obtain y y' :: u32 where "unat y = ?q" "unat y' = ?q + s"
    using u by blast
  moreover have "?q div t = unat b div t" "(?q + s) div t = unat b div t"
    using t assms(1,2) by simp_all
  moreover have "(?q + s) div s = ?q div s + 1"
    using assms(2) by (rule div_add_self2 [OF gr_implies_not0])
  ultimately have "unat y div t = unat b div t \<and> unat y' div t = unat b div t \<and> unat y div s \<noteq> unat y' div s"
    by (simp only:) simp
  then show ?thesis by blast
qed

lemma range4_subset:
  assumes "prefix a \<le> 32" and "prefix b \<le> 32"
  shows "range4 b \<subseteq> range4 a \<longleftrightarrow>
    prefix a \<le> prefix b \<and> unat (addr4 a) div 2 ^ (32 - unat (prefix a)) = unat (addr4 b) div 2 ^ (32 - unat (prefix a))"
proof -
  let ?pa = "unat (prefix a)" and ?pb = "unat (prefix b)"
  have le: "?pa \<le> 32" "?pb \<le> 32" "prefix a \<le> prefix b \<longleftrightarrow> ?pa \<le> ?pb"
    using assms by (simp_all add: word_le_nat_alt)
  have mem: "addr4 b \<in> range4 b" by (simp add: range4_def)
  show ?thesis
  proof (cases "?pa \<le> ?pb")
    case True
    then have "(2 :: nat) ^ (32 - ?pb) dvd 2 ^ (32 - ?pa)"
      by (intro le_imp_power_dvd) simp
    with True mem le show ?thesis
      by (auto simp: range4_def dest: block_refine)
  next
    case False
    have "2 * 2 ^ (32 - ?pa) \<le> (2 :: nat) ^ (32 - ?pb)"
      using False le(1) by (simp flip: power_Suc)
    moreover have "(2 :: nat) ^ (32 - ?pb) dvd 2 ^ 32"
      by (intro le_imp_power_dvd) simp
    ultimately obtain y y' :: u32 where "y \<in> range4 b" "y' \<in> range4 b"
        "unat y div 2 ^ (32 - ?pa) \<noteq> unat y' div 2 ^ (32 - ?pa)"
      using block_too_large [of "2 ^ (32 - ?pa)" "2 ^ (32 - ?pb)" "addr4 b"] by (auto simp: range4_def)
    then have "y \<notin> range4 a \<or> y' \<notin> range4 a" by (auto simp: range4_def)
    with \<open>y \<in> range4 b\<close> \<open>y' \<in> range4 b\<close> have "\<not> range4 b \<subseteq> range4 a" by blast
    with False le show ?thesis by simp
  qed
qed

section \<open>Results of the operations\<close>

lemma clone_defined: "mallocs st \<noteq> 0 \<Longrightarrow> \<exists>st'. cidr_clone a st = Ret st' \<and> stack st' = a # stack st"
  by (simp add: cidr_clone_def cidr_push_def)

lemma set_top_stack [simp]: "stack (set_top n st) = n # tl (stack st)"
  by (simp add: set_top_def)

lemma eprintf_stack [simp]: "stack (eprintf m st) = stack st"
  by (simp add: eprintf_def)

lemma qbool_result: "\<exists>st'. qbool v st = Ret (v, st') \<and> stack st' = stack st \<and> printed st'"
  by (simp add: qbool_def qprintf_def qsep_def)

lemma addr4_set_addr: "length (addr a) = 16 \<Longrightarrow> length (addr (set_s_addr en w a)) = 16"
  by (simp add: set_s_addr_def)

lemmas v4_simps = s_addr_htonl htonl_and [symmetric] htonl_or [symmetric] low_bits_defined shl1_defined

lemma unat_not_mask: "k \<le> 32 \<Longrightarrow> unat (NOT (mask k) :: u32) = 2 ^ 32 - 2 ^ k"
proof -
  assume k: "k \<le> 32"
  have 1: "unat (- 1 :: u32) = 2 ^ 32 - 1"
    by (simp only: unsigned_minus_1_eq_mask mask_eq_exp_minus_1) simp
  have "unat (- 1 - mask k :: u32) = unat (- 1 :: u32) - unat (mask k :: u32)"
    by (rule unat_sub) simp
  moreover have "(2 :: nat) ^ k \<le> 2 ^ 32"
    using k by (intro power_increasing) simp_all
  moreover have "(1 :: nat) \<le> 2 ^ k" by simp
  moreover have "(NOT (mask k) :: u32) = - 1 - mask k"
    by (simp add: not_eq_complement)
  ultimately show ?thesis
    using 1 unat_mask_u32 [OF k] by simp
qed

lemma v4_mask_ops:
  assumes "length (addr a) = 16" and "mallocs st \<noteq> 0"
  obtains st' where "stack st' = a # stack st"
    and "cidr_network4 en a st = (if 2 \<le> prefix a \<and> prefix a \<le> 32
      then Ret (True, set_top ((set_s_addr en (htonl en
        (addr4 a AND NOT (mask (32 - unat (prefix a))))) a)\<lparr>prefix := 32\<rparr>) st') else Undef)"
    and "cidr_broadcast4 en a st = (if 2 \<le> prefix a \<and> prefix a \<le> 32
      then Ret (True, set_top ((set_s_addr en (htonl en
        (addr4 a OR mask (32 - unat (prefix a)))) a)\<lparr>prefix := 32\<rparr>) st') else Undef)"
    and "cidr_netmask4 en a st = (if 2 \<le> prefix a \<and> prefix a \<le> 32
      then Ret (True, set_top ((set_s_addr en (htonl en
        (NOT (mask (32 - unat (prefix a))))) a)\<lparr>prefix := 32\<rparr>) st') else Undef)"
proof -
  obtain st' where "cidr_clone a st = Ret st'" "stack st' = a # stack st"
    using clone_defined [OF assms(2)] by blast
  then show ?thesis
    using assms(1)
    by (intro that [of st'])
       (simp_all add: cidr_network4_def cidr_broadcast4_def cidr_netmask4_def v4_simps)
qed

lemma clear_to_prefix:
  assumes "length x = 16" and "host = 8 * i + r" and "i \<le> 15" and "r < 8"
  shows "be_nat ((take (16 - i) x @ replicate i 0)[15 - i := x ! (15 - i) AND high_bits r]) =
    be_nat x - be_nat x mod 2 ^ host"
proof -
  let ?b = "x ! (15 - i)" and ?P = "be_nat (take (15 - i) x)"
  have 16: "16 - i = Suc (15 - i)" using assms(3) by simp
  have "take (16 - i) x = take (15 - i) x @ [?b]"
    unfolding 16 using assms(1) by (intro take_Suc_conv_app_nth) simp
  then have "(take (16 - i) x @ replicate i 0)[15 - i := ?b AND high_bits r] =
      take (15 - i) x @ (?b AND high_bits r) # replicate i 0"
    using assms(1,3) by (simp add: list_update_append)
  also have "be_nat \<dots> = (?P * 256 + (unat ?b - unat ?b mod 2 ^ r)) * 256 ^ i"
    using be_nat_append [of "take (15 - i) x @ [?b AND high_bits r]" "replicate i 0"]
    by (simp add: high_bits_mask unat_and_not_mask)
  also have "\<dots> = (?P * (2 ^ (8 - r) * 2 ^ r) + unat ?b div 2 ^ r * 2 ^ r) * 256 ^ i"
    using assms(4) by (simp add: minus_mod_eq_div_mult flip: power_add)
  also have "\<dots> = (?P * 2 ^ (8 - r) + unat ?b div 2 ^ r) * 2 ^ host"
  proof -
    have "(2 :: nat) ^ host = 256 ^ i * 2 ^ r"
      by (simp add: assms(2) power_add power_mult)
    then show ?thesis by (simp only:) (simp add: algebra_simps)
  qed
  also have "\<dots> = be_nat x - be_nat x mod 2 ^ host"
    using be_nat_div [OF assms] by (simp add: minus_mod_eq_div_mult)
  finally show ?thesis .
qed

lemma host6:
  assumes "p \<le> (128 :: u32)"
  shows "unat (128 - p) = 128 - unat p" and "unat p \<le> 128"
  using assms by (simp_all add: unat_sub word_le_nat_alt)

lemma runop_status:
  assumes "runop en net arg status st = Ret (go, arg', status', st')" and "status \<le> 1"
  shows "(go \<longrightarrow> status' \<le> 1) \<and> (\<not> go \<longrightarrow> arg' = [] \<longrightarrow> status' \<le> 1 \<or> status' = 5)"
  using assms by (auto simp: runop_def obind_eq_Ret split: list.splits option.splits if_splits prod.splits)

lemma runops_status:
  "runops en net arg status st = Ret (arg', status', st') \<Longrightarrow> status \<le> 1 \<Longrightarrow>
     arg' = [] \<Longrightarrow> status' \<le> 1 \<or> status' = 5"
proof (induction arg arbitrary: status st rule: length_induct)
  case (1 arg)
  from "1.prems"(1) obtain go arg1 status1 st1 where r: "runop en net arg status st = Ret (go, arg1, status1, st1)"
    and c: "if go then runops en net arg1 status1 st1 = Ret (arg', status', st')
            else (arg1, status1, st1) = (arg', status', st')"
    by (subst (asm) runops.simps) (auto split: outcome.splits prod.splits if_splits)
  show ?case
  proof (cases go)
    case True
    with r have "length arg1 < length arg" by (auto dest: runop_consumes)
    with "1.IH" "1.prems" c True runop_status [OF r "1.prems"(2)] show ?thesis by auto
  next
    case False
    with c "1.prems" runop_status [OF r "1.prems"(2)] show ?thesis by auto
  qed
qed

lemma end_status: "owipcalc_end net (arg, status, st) = Ret (status', st') \<Longrightarrow> arg = [] \<and> status' = status"
  by (auto simp: owipcalc_end_def obind_eq_Ret split: if_splits)

lemma main_runops:
  assumes "owipcalc_main en net n args = Ret (status, st)"
  shows "\<exists>arg st0 st1. runops en net arg 0 st0 = Ret ([], status, st1)"
proof -
  obtain arg st0 r where "runops en net arg 0 st0 = Ret r" "owipcalc_end net r = Ret (status, st)"
    using assms by (auto simp: owipcalc_main_def obind_eq_Ret split: list.splits option.splits prod.splits)
  then show ?thesis
    by (cases r) (auto dest: end_status)
qed

section \<open>Properties\<close>

text \<open>
  C9. On either byte order, \<^verbatim>\<open>network\<close>, \<^verbatim>\<open>broadcast\<close> and \<^verbatim>\<open>netmask\<close> of an IPv4 prefix \<open>p\<close> push the
  first address of its block of \<open>2^(32-p)\<close> addresses, the last one, and the mask, each as a
  host address, and leave the rest of the stack alone. This needs \<open>2 \<le> p \<le> 32\<close>: for every
  other prefix length the shift or the subtraction behind it is undefined.
\<close>

theorem cidr_v4_prefix_ops:
  assumes "length (addr a) = 16" and "mallocs st \<noteq> 0" and "x = unat (addr4 a)"
    and "n = 2 ^ (32 - unat (prefix a))"
  shows "if 2 \<le> prefix a \<and> prefix a \<le> 32 then
      \<exists>net bc nm s1 s2 s3.
        cidr_network4 en a st = Ret (True, s1) \<and> stack s1 = net # stack st \<and>
        unat (addr4 net) = x - x mod n \<and> prefix net = 32 \<and>
        cidr_broadcast4 en a st = Ret (True, s2) \<and> stack s2 = bc # stack st \<and>
        unat (addr4 bc) = x - x mod n + (n - 1) \<and> prefix bc = 32 \<and>
        cidr_netmask4 en a st = Ret (True, s3) \<and> stack s3 = nm # stack st \<and>
        unat (addr4 nm) = 2 ^ 32 - n \<and> prefix nm = 32
    else cidr_network4 en a st = Undef \<and> cidr_broadcast4 en a st = Undef \<and>
      cidr_netmask4 en a st = Undef"
proof -
  let ?k = "32 - unat (prefix a)"
  obtain st' where ops: "stack st' = a # stack st"
    "cidr_network4 en a st = (if 2 \<le> prefix a \<and> prefix a \<le> 32
      then Ret (True, set_top ((set_s_addr en (htonl en (addr4 a AND NOT (mask ?k))) a)\<lparr>prefix := 32\<rparr>) st') else Undef)"
    "cidr_broadcast4 en a st = (if 2 \<le> prefix a \<and> prefix a \<le> 32
      then Ret (True, set_top ((set_s_addr en (htonl en (addr4 a OR mask ?k)) a)\<lparr>prefix := 32\<rparr>) st') else Undef)"
    "cidr_netmask4 en a st = (if 2 \<le> prefix a \<and> prefix a \<le> 32
      then Ret (True, set_top ((set_s_addr en (htonl en (NOT (mask ?k))) a)\<lparr>prefix := 32\<rparr>) st') else Undef)"
    using v4_mask_ops [OF assms(1,2), of en] by blast
  show ?thesis
    unfolding ops(2-4) using ops(1)
    by (simp add: unat_and_not_mask unat_or_mask unat_not_mask assms(3,4))
qed

theorem cidr_v4_prefix_ops_witness:
  "cidr_network4 LittleEndian \<lparr>family = AF_INET, prefix = 0, addr = [10, 1, 2, 3] @ replicate 12 0\<rparr> (init_state 4) = Undef \<and>
   (\<exists>s1. cidr_network4 LittleEndian \<lparr>family = AF_INET, prefix = 24, addr = [10, 1, 2, 3] @ replicate 12 0\<rparr>
      (init_state 4) = Ret (True, s1) \<and> unat (addr4 (hd (stack s1))) = 0x0A010200)"
proof -
  let ?a = "\<lambda>p. \<lparr>family = AF_INET, prefix = p, addr = [10, 1, 2, 3] @ replicate 12 0\<rparr>"
  have "unat (addr4 (?a 24)) = 0x0A010203"
    by (simp add: addr4_def word_be_def)
  then show ?thesis
    using cidr_v4_prefix_ops [of "?a 0" "init_state 4" _ _ LittleEndian]
      cidr_v4_prefix_ops [of "?a 24" "init_state 4" _ _ LittleEndian, OF _ _ refl refl]
    by (auto simp: init_state_def)
qed

text \<open>
  \<^verbatim>\<open>contains\<close> on IPv4 prefixes answers whether every address of the argument lies in the
  base prefix, on either byte order, and prints that answer.
\<close>

theorem cidr_contains4_is_subset:
  assumes "length (addr a) = 16" and "length (addr b) = 16"
    and "2 \<le> prefix a" and "prefix a \<le> 32" and "prefix b \<le> 32"
  shows "\<exists>st'. cidr_contains4 en a b st = Ret (range4 b \<subseteq> range4 a, st') \<and>
    stack st' = stack st \<and> printed st'"
proof -
  have "cidr_contains4 en a b st = qbool (range4 b \<subseteq> range4 a) st"
    using assms
    by (simp add: cidr_contains4_def v4_simps Let_def and_not_mask_eq_iff range4_subset conj_commute)
  then show ?thesis
    using qbool_result by metis
qed

theorem cidr_contains4_is_subset_witness:
  "\<exists>st'. cidr_contains4 BigEndian \<lparr>family = AF_INET, prefix = 8, addr = replicate 16 10\<rparr>
     \<lparr>family = AF_INET, prefix = 24, addr = replicate 16 10\<rparr> (init_state 0) =
     Ret (range4 \<lparr>family = AF_INET, prefix = 24, addr = replicate 16 10\<rparr> \<subseteq>
          range4 \<lparr>family = AF_INET, prefix = 8, addr = replicate 16 10\<rparr>, st') \<and> printed st'"
  using cidr_contains4_is_subset [of "\<lparr>family = AF_INET, prefix = 8, addr = replicate 16 10\<rparr>"
      "\<lparr>family = AF_INET, prefix = 24, addr = replicate 16 10\<rparr>" BigEndian "init_state 0"]
  by auto

text \<open>
  \<^verbatim>\<open>add\<close> and \<^verbatim>\<open>sub\<close> of IPv4 addresses, on either byte order: the operation succeeds exactly
  when the sum (difference) of the two addresses is an address, and then pushes it with the
  prefix of the base; otherwise it reports the overflow and pushes an unchanged copy.
\<close>

theorem cidr_v4_arithmetic:
  assumes "family a = AF_INET" and "family b = AF_INET"
    and "length (addr a) = 16" and "length (addr b) = 16" and "mallocs st \<noteq> 0"
  shows "\<exists>n s1 m s2.
    cidr_add4 en a b st = Ret (unat (addr4 a) + unat (addr4 b) < 2 ^ 32, s1) \<and> stack s1 = n # stack st \<and>
    prefix n = prefix a \<and> unat (addr4 n) =
      unat (addr4 a) + (if unat (addr4 a) + unat (addr4 b) < 2 ^ 32 then unat (addr4 b) else 0) \<and>
    cidr_sub4 en a b st = Ret (addr4 b \<le> addr4 a, s2) \<and> stack s2 = m # stack st \<and>
    prefix m = prefix a \<and> unat (addr4 m) =
      unat (addr4 a) - (if addr4 b \<le> addr4 a then unat (addr4 b) else 0)"
proof -
  obtain st' where st': "cidr_clone a st = Ret st'" "stack st' = a # stack st"
    using clone_defined [OF assms(5)] by blast
  have add: "addr4 a + addr4 b < addr4 a \<longleftrightarrow> \<not> unat (addr4 a) + unat (addr4 b) < 2 ^ 32"
      "unat (addr4 a) + unat (addr4 b) < 2 ^ 32 \<Longrightarrow> unat (addr4 a + addr4 b) = unat (addr4 a) + unat (addr4 b)"
    using unat_u32_less [of "addr4 a"] unat_u32_less [of "addr4 b"]
    by (auto simp: word_less_nat_alt unat_plus_if_size word_size)
  have sub: "addr4 a - addr4 b > addr4 a \<longleftrightarrow> \<not> addr4 b \<le> addr4 a"
      "addr4 b \<le> addr4 a \<Longrightarrow> unat (addr4 a - addr4 b) = unat (addr4 a) - unat (addr4 b)"
    using unat_u32_less [of "addr4 a"] unat_u32_less [of "addr4 b"]
    by (auto simp: word_less_nat_alt word_le_nat_alt unat_sub_if_size word_size)
  show ?thesis
    using assms st' add sub
    by (simp add: cidr_add4_def cidr_sub4_def s_addr_htonl Let_def) (simp add: set_s_addr_def)
qed

theorem cidr_v4_arithmetic_witness:
  "\<exists>n s1. cidr_add4 LittleEndian \<lparr>family = AF_INET, prefix = 24, addr = [192, 168, 1, 255] @ replicate 12 0\<rparr>
     \<lparr>family = AF_INET, prefix = 1, addr = [0, 0, 0, 1] @ replicate 12 0\<rparr> (init_state 1) = Ret (True, s1) \<and>
     stack s1 = [n] \<and> unat (addr4 n) = 0xC0A80200"
proof -
  let ?a = "\<lparr>family = AF_INET, prefix = 24, addr = [192, 168, 1, 255] @ replicate 12 0\<rparr>"
  let ?b = "\<lparr>family = AF_INET, prefix = 1, addr = [0, 0, 0, 1] @ replicate 12 0\<rparr>"
  have "unat (addr4 ?a) = 0xC0A801FF" "unat (addr4 ?b) = 1"
    by (simp_all add: addr4_def word_be_def)
  then show ?thesis
    using cidr_v4_arithmetic [of ?a ?b "init_state 1" LittleEndian] by (auto simp: init_state_def)
qed

text \<open>
  C12. \<^verbatim>\<open>add\<close> and \<^verbatim>\<open>sub\<close> of IPv6 addresses, done byte by byte with a carry, are addition and
  subtraction of 128-bit numbers: they succeed exactly when the result is an address, and
  then push it.
\<close>

theorem cidr_v6_arithmetic:
  assumes "family a = AF_INET6" and "family b = AF_INET6"
    and "length (addr a) = 16" and "length (addr b) = 16" and "mallocs st \<noteq> 0"
  shows "\<exists>n s1 m s2.
    cidr_add6 a b st = Ret (be_nat (addr a) + be_nat (addr b) < 2 ^ 128, s1) \<and> stack s1 = n # stack st \<and>
    prefix n = prefix a \<and> be_nat (addr n) = (be_nat (addr a) + be_nat (addr b)) mod 2 ^ 128 \<and>
    cidr_sub6 a b st = Ret (be_nat (addr b) \<le> be_nat (addr a), s2) \<and> stack s2 = m # stack st \<and>
    prefix m = prefix a \<and> (be_nat (addr m) + be_nat (addr b)) mod 2 ^ 128 = be_nat (addr a)"
proof -
  obtain st' where st': "cidr_clone a st = Ret st'" "stack st' = a # stack st"
    using clone_defined [OF assms(5)] by blast
  have c01: "c = 0 \<or> unat (c :: byte) = 1" if "unat c \<le> 1" for c
    using that by (cases "unat c") (simp_all add: unat_eq_0)
  obtain x c where x: "add6_loop 15 (addr a) (addr b) 0 = (x, c)"
    by (cases "add6_loop 15 (addr a) (addr b) 0")
  from add6_loop_value [OF x] assms have xv: "length x = 16" "unat c \<le> 1"
      "be_nat x + unat c * 2 ^ 128 = be_nat (addr a) + be_nat (addr b)"
    by auto
  obtain y d where y: "sub6_loop 15 (addr a) (addr b) 0 = (y, d)"
    by (cases "sub6_loop 15 (addr a) (addr b) 0")
  from sub6_loop_value [OF y] assms have yv: "length y = 16" "unat d \<le> 1"
      "be_nat y + be_nat (addr b) = be_nat (addr a) + unat d * 2 ^ 128"
    by auto
  have lt: "be_nat z < 2 ^ 128" if "length z = 16" for z
    using be_nat_less [of z] that by simp
  have "c = 0 \<longleftrightarrow> be_nat (addr a) + be_nat (addr b) < 2 ^ 128"
      "be_nat x = (be_nat (addr a) + be_nat (addr b)) mod 2 ^ 128"
    using xv c01 [OF xv(2)] lt [OF xv(1)] by (auto simp flip: xv(3))
  moreover have "d = 0 \<longleftrightarrow> be_nat (addr b) \<le> be_nat (addr a)"
      "(be_nat y + be_nat (addr b)) mod 2 ^ 128 = be_nat (addr a)"
    using yv c01 [OF yv(2)] lt [OF yv(1)] lt [OF assms(3)] by auto
  ultimately show ?thesis
    using assms(1,2) st' by (simp add: cidr_add6_def cidr_sub6_def x y Let_def)
qed

theorem cidr_v6_arithmetic_witness:
  "\<exists>n s1. cidr_add6 \<lparr>family = AF_INET6, prefix = 64, addr = replicate 15 0 @ [255]\<rparr>
     \<lparr>family = AF_INET6, prefix = 1, addr = replicate 15 0 @ [1]\<rparr> (init_state 1) = Ret (True, s1) \<and>
     stack s1 = [n] \<and> be_nat (addr n) = 256"
proof -
  let ?a = "\<lparr>family = AF_INET6, prefix = 64, addr = replicate 15 0 @ [255]\<rparr>"
  let ?b = "\<lparr>family = AF_INET6, prefix = 1, addr = replicate 15 0 @ [1]\<rparr>"
  show ?thesis
    using cidr_v6_arithmetic [of ?a ?b "init_state 1"] by (auto simp: init_state_def)
qed

text \<open>
  What \<^verbatim>\<open>next\<close> and \<^verbatim>\<open>prev\<close> of an IPv6 address by a prefix length \<open>p\<close> do: they add or subtract
  one in the byte that holds the last bit of the prefix, that is the number
  \<open>256^(15 - (p-1) div 8)\<close>, with carry into the bytes before it, and fail exactly when the
  result is not an address. The step is the size \<open>2^(128-p)\<close> of the prefix only when \<open>p\<close> is a
  multiple of eight.
\<close>

theorem cidr_v6_next_prev:
  assumes "length (addr a) = 16" and "mallocs st \<noteq> 0" and "1 \<le> prefix b" and "prefix b \<le> 128"
    and "p = unat (prefix b)" and "step = 256 ^ (15 - (p - 1) div 8)"
  shows "\<exists>n s1 m s2.
    cidr_next6 a b st = Ret (be_nat (addr a) + step < 2 ^ 128, s1) \<and> stack s1 = n # stack st \<and>
    (be_nat (addr a) + step < 2 ^ 128 \<longrightarrow> be_nat (addr n) = be_nat (addr a) + step \<and> prefix n = prefix b) \<and>
    cidr_prev6 a b st = Ret (step \<le> be_nat (addr a), s2) \<and> stack s2 = m # stack st \<and>
    (step \<le> be_nat (addr a) \<longrightarrow> be_nat (addr m) = be_nat (addr a) - step \<and> prefix m = prefix b) \<and>
    (step = 2 ^ (128 - p) \<longleftrightarrow> 8 dvd p)"
proof -
  obtain st' where st': "cidr_clone a st = Ret st'" "stack st' = a # stack st"
    using clone_defined [OF assms(2)] by blast
  have p: "1 \<le> p" "p \<le> 128"
    using assms(3-5) by (simp_all add: word_le_nat_alt)
  define i where "i = (p - 1) div 8"
  have idx: "prefix_index b = i" "i < 16"
    using prefix_index_small [OF assms(3,4)] p by (simp_all add: assms(5) i_def)
  have step: "step = 256 ^ (15 - i)" by (simp add: assms(6) i_def)
  obtain x c where x: "next6_loop i (addr a) 1 = (x, c)"
    by (cases "next6_loop i (addr a) 1")
  obtain y d where y: "prev6_loop i (addr a) 1 = (y, d)"
    by (cases "prev6_loop i (addr a) 1")
  note xv = next6_loop_value [OF x assms(1) idx(2), folded step]
    and yv = prev6_loop_value [OF y assms(1) idx(2), folded step]
  have "prefix b \<noteq> 0" using assms(3) by auto
  then show ?thesis
    using st' xv yv idx step_is_prefix_size [OF p, folded assms(6)]
    by (auto simp: cidr_next6_def cidr_prev6_def x y)
qed

theorem cidr_v6_next_prev_witness:
  "\<exists>n s1. cidr_next6 \<lparr>family = AF_INET6, prefix = 60, addr = replicate 16 0\<rparr>
     \<lparr>family = AF_INET6, prefix = 60, addr = replicate 16 0\<rparr> (init_state 1) = Ret (True, s1) \<and>
     stack s1 = [n] \<and> be_nat (addr n) = 2 ^ 64"
  using cidr_v6_next_prev [of "\<lparr>family = AF_INET6, prefix = 60, addr = replicate 16 0\<rparr>" "init_state 1"
      "\<lparr>family = AF_INET6, prefix = 60, addr = replicate 16 0\<rparr>" 60 "256 ^ 8"]
  by (auto simp: init_state_def)

text \<open>
  On IPv6, \<^verbatim>\<open>network\<close> clears exactly the host bits of the address (and keeps the prefix), and
  \<^verbatim>\<open>contains\<close> compares the leading bits: it holds iff the argument's prefix is at least as long
  and both addresses agree on the bits of the base prefix. For the prefix length 0, where
  every address is contained, \<^verbatim>\<open>contains\<close> indexes the address with \<open>-1\<close>, which is undefined.
\<close>

theorem cidr_v6_network_contains:
  assumes "length (addr a) = 16" and "length (addr b) = 16" and "mallocs st \<noteq> 0"
    and "prefix a \<le> 128" and "host = 128 - unat (prefix a)"
  shows "(\<exists>n s1. cidr_network6 a st = Ret (True, s1) \<and> stack s1 = n # stack st \<and>
      prefix n = prefix a \<and> be_nat (addr n) = be_nat (addr a) - be_nat (addr a) mod 2 ^ host) \<and>
    (if prefix a = 0 then cidr_contains6 a b st = Undef
     else \<exists>s2. cidr_contains6 a b st = Ret (prefix a \<le> prefix b \<and>
            be_nat (addr a) div 2 ^ host = be_nat (addr b) div 2 ^ host, s2) \<and> printed s2)"
proof -
  obtain st' where st': "cidr_clone a st = Ret st'" "stack st' = a # stack st"
    using clone_defined [OF assms(3)] by blast
  note h = host6 [OF assms(4), folded assms(5)]
  define i where "i = host div 8"
  define r where "r = host mod 8"
  have ir: "host = 8 * i + r" "r < 8" "i \<le> 16" and "i = 16 \<longleftrightarrow> unat (prefix a) = 0"
    using h(2) assms(5) by (auto simp: i_def r_def)
  then have i16: "i = 16 \<longleftrightarrow> prefix a = 0" by (simp add: unat_eq_0)
  show ?thesis
  proof (cases "prefix a = 0")
    case True
    then have "host = 128" "i = 16" "r = 0" using assms(5) by (simp_all add: i_def r_def)
    then show ?thesis
      using True st' assms(1) be_nat_less [of "addr a"] h(1)
      by (simp add: cidr_network6_def cidr_contains6_def clear_bytes_zeros Let_def)
  next
    case False
    then have i15: "i \<le> 15" using ir(3) i16 by auto
    let ?x = "take (16 - i) (addr a) @ replicate i 0"
    have "clear_bytes 0 i (addr a) = Ret ?x"
      using clear_bytes_zeros [of 0 i "addr a"] ir(3) assms(1) by simp
    moreover have "?x ! (15 - i) = addr a ! (15 - i)"
    proof -
      have "15 - i < 16 - i" using i15 by arith
      then show ?thesis using assms(1) by (simp add: nth_append)
    qed
    moreover have "?x[15 - i := addr a ! (15 - i) AND high_bits 0] = ?x"
      using calculation(2) by (metis and.right_neutral bit.compl_zero high_bits_mask list_update_id mask_0)
    ultimately have "\<exists>s1. cidr_network6 a st = Ret (True, s1) \<and>
        stack s1 = a\<lparr>addr := ?x[15 - i := addr a ! (15 - i) AND high_bits r]\<rparr> # stack st"
      using st' i15 h(1)
      by (cases "r = 0") (simp_all add: cidr_network6_def Let_def flip: i_def r_def)
    moreover have "\<exists>s2. cidr_contains6 a b st = Ret (prefix a \<le> prefix b \<and>
            be_nat (addr a) div 2 ^ host = be_nat (addr b) div 2 ^ host, s2) \<and> printed s2"
    proof -
      have "cidr_contains6 a b st = qbool (prefix a \<le> prefix b \<and>
            addr a ! (15 - i) AND high_bits r = addr b ! (15 - i) AND high_bits r \<and>
            (i = 15 \<or> take (15 - i) (addr a) = take (15 - i) (addr b))) st'"
        using st'(1) i15 h(1) by (simp add: cidr_contains6_def Let_def flip: i_def r_def)
      moreover have "(i = 15 \<or> take (15 - i) (addr a) = take (15 - i) (addr b)) \<longleftrightarrow>
          take (15 - i) (addr a) = take (15 - i) (addr b)"
        by auto
      ultimately have "cidr_contains6 a b st = qbool (prefix a \<le> prefix b \<and>
            be_nat (addr a) div 2 ^ host = be_nat (addr b) div 2 ^ host) st'"
        unfolding leading_bits_eq [OF assms(1,2) ir(1) i15 ir(2)] by (simp only:)
      then show ?thesis using qbool_result [of _ st'] by auto
    qed
    ultimately show ?thesis
      using False clear_to_prefix [OF assms(1) ir(1) i15 ir(2)] by auto
  qed
qed

theorem cidr_v6_network_contains_witness:
  "cidr_contains6 \<lparr>family = AF_INET6, prefix = 0, addr = replicate 16 0\<rparr>
     \<lparr>family = AF_INET6, prefix = 64, addr = replicate 16 1\<rparr> (init_state 1) = Undef \<and>
   (\<exists>n s1. cidr_network6 \<lparr>family = AF_INET6, prefix = 124, addr = replicate 15 0 @ [255]\<rparr> (init_state 1) =
      Ret (True, s1) \<and> stack s1 = [n] \<and> be_nat (addr n) = 240)"
proof
  let ?b = "\<lparr>family = AF_INET6, prefix = 64, addr = replicate 16 1\<rparr>"
  let ?a = "\<lparr>family = AF_INET6, prefix = 0, addr = replicate 16 0\<rparr>"
  let ?c = "\<lparr>family = AF_INET6, prefix = 124, addr = replicate 15 0 @ [255]\<rparr>"
  show "cidr_contains6 ?a ?b (init_state 1) = Undef"
    using cidr_v6_network_contains [of ?a ?b "init_state 1" 128, THEN conjunct2]
    by (simp add: init_state_def)
  have v: "be_nat (addr ?c) = 255" and st: "stack (init_state 1) = []"
    by (simp, simp add: init_state_def)
  have "length (addr ?c) = 16" "length (addr ?b) = 16" "mallocs (init_state 1) \<noteq> 0" "prefix ?c \<le> 128"
      "(4 :: nat) = 128 - unat (prefix ?c)"
    by (simp_all add: init_state_def)
  from cidr_v6_network_contains [OF this, THEN conjunct1]
  show "\<exists>n s1. cidr_network6 ?c (init_state 1) = Ret (True, s1) \<and> stack s1 = [n] \<and> be_nat (addr n) = 240"
    unfolding v st by auto
qed

text \<open>
  \<^verbatim>\<open>next\<close>, \<^verbatim>\<open>prev\<close> and \<^verbatim>\<open>6to4\<close> of an IPv4 address compute on the address in host order. On a
  big endian machine they step by the size of the prefix and embed the address; on a little
  endian machine \<^verbatim>\<open>6to4\<close> embeds the octets in reverse order, and \<^verbatim>\<open>next 24\<close> of \<open>10.0.255.0\<close> is
  \<open>10.0.0.1\<close> instead of \<open>10.1.0.0\<close>.
\<close>

theorem cidr_v4_host_order:
  assumes "length (addr a) = 16" and "mallocs st \<noteq> 0" and "1 \<le> prefix b" and "prefix b \<le> 32"
  shows "(\<exists>n s1. cidr_next4 BigEndian a b st = Ret (True, s1) \<and> stack s1 = n # stack st \<and>
      addr4 n = addr4 a + 2 ^ (32 - unat (prefix b)) \<and> prefix n = prefix b) \<and>
    (\<exists>n s1. cidr_prev4 BigEndian a b st = Ret (True, s1) \<and> stack s1 = n # stack st \<and>
      addr4 n = addr4 a - 2 ^ (32 - unat (prefix b)) \<and> prefix n = prefix b) \<and>
    (\<exists>n s1. cidr_6to4 en a st = Ret (True, s1) \<and> stack s1 = n # stack st \<and> prefix n = 48 \<and>
      family n = AF_INET6 \<and> addr n = [0x20, 0x02] @
        (if en = BigEndian then take 4 (addr a) else rev (take 4 (addr a))) @ replicate 10 0) \<and>
    (\<exists>n s1. cidr_next4 LittleEndian
        \<lparr>family = AF_INET, prefix = 24, addr = [10, 0, 255, 0] @ replicate 12 0\<rparr>
        \<lparr>family = AF_INET, prefix = 24, addr = replicate 16 0\<rparr> st = Ret (True, s1) \<and>
      stack s1 = n # stack st \<and> take 4 (addr n) = [10, 0, 0, 1])"
proof -
  obtain st' where st': "cidr_clone a st = Ret st'" "stack st' = a # stack st"
    using clone_defined [OF assms(2)] by blast
  have be: "htonl BigEndian w = w" for w
    by (simp add: htonl_def u32_of_bytes_def)
  have "addr4 ((set_s_addr BigEndian w a)\<lparr>prefix := p\<rparr>) = w" for w p
    using addr4_set [of BigEndian w a] by (simp add: be)
  then have step: "\<exists>n s1. cidr_next4 BigEndian a b st = Ret (True, s1) \<and> stack s1 = n # stack st \<and>
      addr4 n = addr4 a + 2 ^ (32 - unat (prefix b)) \<and> prefix n = prefix b"
    "\<exists>n s1. cidr_prev4 BigEndian a b st = Ret (True, s1) \<and> stack s1 = n # stack st \<and>
      addr4 n = addr4 a - 2 ^ (32 - unat (prefix b)) \<and> prefix n = prefix b"
    using assms(1,3,4) st'
    by (simp_all add: cidr_next4_def cidr_prev4_def shl1_defined s_addr_htonl be)
  have x: "[ucast (drop_bit 24 w), ucast (drop_bit 16 w AND 0xFF), ucast (drop_bit 8 w AND 0xFF),
      ucast (w AND 0xFF)] = bytes_be w" for w :: u32
    by (simp add: bytes_be_def ucast_and_ff)
  have "bytes_be (s_addr en a) = (if en = BigEndian then take 4 (addr a) else rev (take 4 (addr a)))"
    using assms(1) by (cases en) (simp_all add: s_addr_def u32_of_bytes_def bytes_be_word_be)
  then have "\<exists>n s1. cidr_6to4 en a st = Ret (True, s1) \<and> stack s1 = n # stack st \<and> prefix n = 48 \<and>
      family n = AF_INET6 \<and> addr n = [0x20, 0x02] @
        (if en = BigEndian then take 4 (addr a) else rev (take 4 (addr a))) @ replicate 10 0"
    using st' x [of "s_addr en a"] by (simp add: cidr_6to4_def Let_def)
  moreover have "\<exists>n s1. cidr_next4 LittleEndian
        \<lparr>family = AF_INET, prefix = 24, addr = [10, 0, 255, 0] @ replicate 12 0\<rparr>
        \<lparr>family = AF_INET, prefix = 24, addr = replicate 16 0\<rparr> st = Ret (True, s1) \<and>
      stack s1 = n # stack st \<and> take 4 (addr n) = [10, 0, 0, 1]"
  proof -
    let ?c = "\<lparr>family = AF_INET, prefix = 24, addr = [10, 0, 255, 0] @ replicate 12 0\<rparr>"
    obtain sc where "cidr_clone ?c st = Ret sc" "stack sc = ?c # stack st"
      using clone_defined [OF assms(2)] by blast
    then show ?thesis
      by (simp add: cidr_next4_def shl1_def s_addr_def u32_of_bytes_def word_be_def htonl_def
          bytes_be_def set_s_addr_def bytes_of_u32_def)
  qed
  ultimately show ?thesis using step by blast
qed

theorem cidr_v4_host_order_witness:
  "\<exists>n s1. cidr_6to4 LittleEndian \<lparr>family = AF_INET, prefix = 32, addr = [192, 0, 2, 1] @ replicate 12 0\<rparr>
     (init_state 1) = Ret (True, s1) \<and> stack s1 = [n] \<and>
     addr n = [0x20, 0x02, 1, 2, 0, 192] @ replicate 10 0"
  using cidr_v4_host_order [of "\<lparr>family = AF_INET, prefix = 32, addr = [192, 0, 2, 1] @ replicate 12 0\<rparr>"
      "init_state 1" "\<lparr>family = AF_INET, prefix = 24, addr = replicate 16 0\<rparr>" LittleEndian]
  by (auto simp: init_state_def)

text \<open>
  The exit status of the program. A run that reaches the end exits with 0, 1 (an operation
  answered no or failed) or 5 (operation not supported for the family): the statuses 2 (missing
  argument) and 3 (invalid argument) that \<^verbatim>\<open>runop\<close> sets are never the exit status, because
  \<^verbatim>\<open>runop\<close> leaves the operation unconsumed and \<^verbatim>\<open>main\<close> then exits with 6, as for an unknown
  operation.
\<close>

theorem owipcalc_exit_status:
  assumes "owipcalc_main en net n args = Ret (status, st)"
  shows "status \<in> {0, 1, 5}"
proof -
  obtain arg st0 st1 where "runops en net arg 0 st0 = Ret ([], status, st1)"
    using main_runops [OF assms] by blast
  from runops_status [OF this] show ?thesis by auto
qed

theorem owipcalc_exit_status_witness:
  "\<exists>status st. owipcalc_main BigEndian
      \<lparr>pton4 = [''1.2.3.4'' \<mapsto> [1, 2, 3, 4]], pton6 = Map.empty, ntop4 = (\<lambda>_. ''1.2.3.4''), ntop6 = (\<lambda>_. [])\<rparr> 1
      [''1.2.3.4'', ''quiet''] = Ret (status, st) \<and> status \<in> {0, 1, 5}"
proof -
  let ?net = "\<lparr>pton4 = [''1.2.3.4'' \<mapsto> [1, 2, 3, 4]], pton6 = Map.empty, ntop4 = (\<lambda>_. ''1.2.3.4''), ntop6 = (\<lambda>_. [])\<rparr>"
  have "\<exists>status st. owipcalc_main BigEndian ?net 1 [''1.2.3.4'', ''quiet''] = Ret (status, st)"
    by (simp add: owipcalc_main_def cidr_parse4_def with_malloc_def init_state_def parse4_text_def split_slash_def
        parse4_prefix_def cidr_push_def runops.simps [of _ _ "_ # _"] runops.simps [of _ _ "[]"] runop_def
        ops_def op1_def op2_def cidr_quiet_def owipcalc_end_def cidr_print4_def)
  then show ?thesis
    using owipcalc_exit_status [of BigEndian ?net 1] by blast
qed

text \<open>Evaluating the steps of the example of the usage text.\<close>

lemma example_strtoul_examples: "strtoul 0 ''100'' = (100, [])" "strtoul 0 ''150'' = (150, [])"
  by (simp_all add: strtoul_def strto_scan_def strto_sign_def strto_base_def digit_val_def digits_value_def c_isspace_def)
lemma example_mask_24: "mask_prefix (u32_of_bytes en [255,255,255,0]) 0 = 24"
  by (cases en) (simp_all add: u32_of_bytes_def word_be_def mask_prefix.simps)
lemma example_find_ops:
  "find (\<lambda>o'. op_name o' = ''network'') (ops en net) = Some (op1 ''network'' (Some (cidr_network4 en)) (Some cidr_network6))"
  "find (\<lambda>o'. op_name o' = ''add'') (ops en net) = Some (op2 ''add'' (Some (cidr_add4 en)) (Some cidr_add6))"
  "find (\<lambda>o'. op_name o' = ''print'') (ops en net) = Some (op1 ''print'' (Some (cidr_print4 net)) (Some (cidr_print6 net)))"
  by (simp_all add: ops_def op1_def op2_def)

abbreviation ip4 :: "byte list \<Rightarrow> u32 \<Rightarrow> cidr" where
  "ip4 bs p \<equiv> \<lparr>family = AF_INET, prefix = p, addr = bs @ replicate 12 0\<rparr>"

lemma example_network_step: "stack st = ip4 [192,168,1,1] 24 # r \<Longrightarrow> mallocs st \<noteq> 0 \<Longrightarrow>
  runop en net (''network'' # rest) s st = Ret (True, rest, 0, st\<lparr>stack := ip4 [192,168,1,0] 32 # stack st, mallocs := mallocs st - 1\<rparr>)"
  by (cases en) (simp_all add: runop_def example_find_ops op1_def cidr_network4_def cidr_clone_def cidr_push_def low_bits_def
     set_top_def set_s_addr_def s_addr_def htonl_def u32_of_bytes_def bytes_be_def word_be_def bytes_of_u32_def)

lemma example_add_step:
  assumes "k = ''100'' \<and> d = 100 \<or> k = ''150'' \<and> d = 150" "mallocs st \<ge> 2" "stack st = ip4 [192,168,1,0] 32 # r"
  shows "runop en net (''add'' # k # rest) s st = Ret (True, rest, 0, st\<lparr>stack := ip4 [192,168,1,d] 32 # stack st, mallocs := mallocs st - 2\<rparr>)"
  using assms
  by (cases en) (auto simp: runop_def example_find_ops op2_def cidr_parse_def example_strtoul_examples with_malloc_def cidr_add4_def cidr_clone_def cidr_push_def
     set_top_def set_s_addr_def s_addr_def ntohl_def htonl_def u32_of_bytes_def bytes_be_def word_be_def bytes_of_u32_def)
lemma example_print_step:
  assumes "stack st = ip4 [a,b,c,d] 32 # r"
  shows "runop en net (''print'' # rest) s st = Ret (True, rest, 0, (qprintf (ntop4 net [a,b,c,d]) (qsep st))\<lparr>stack := r\<rparr>)"
  using assms by (simp add: runop_def example_find_ops op1_def cidr_print4_def cidr_pop_def qprintf_def qsep_def)

lemma example_base_parse:
  assumes "pton4 net ''192.168.1.1'' = Some [192,168,1,1]" "pton4 net ''255.255.255.0'' = Some [255,255,255,0]"
  shows "cidr_parse4 en net ''192.168.1.1/255.255.255.0'' (init_state (Suc n)) = (Some (ip4 [192,168,1,1] 24), init_state n)"
  using assms by (simp add: cidr_parse4_def with_malloc_def init_state_def parse4_text_def split_slash_def parse4_prefix_def example_mask_24)
text \<open>
  The DHCP range example of the usage text,
  \<^verbatim>\<open>192.168.1.1/255.255.255.0 network add 100 print add 150 print\<close>, prints \<open>192.168.1.100\<close> and
  \<open>192.168.1.150\<close> on one line: \<^verbatim>\<open>print\<close> pops its operand, so the second \<^verbatim>\<open>add\<close> starts from the
  network address again. The usage text promises \<open>192.168.1.250\<close>, on a line of its own.
\<close>

theorem owipcalc_usage_example:
  assumes "pton4 net ''192.168.1.1'' = Some [192, 168, 1, 1]"
    and "pton4 net ''255.255.255.0'' = Some [255, 255, 255, 0]"
    and "ntop4 net [192, 168, 1, 100] = ''192.168.1.100''"
    and "ntop4 net [192, 168, 1, 150] = ''192.168.1.150''"
  shows "\<exists>st. owipcalc_main en net 6 [''192.168.1.1/255.255.255.0'', ''network'', ''add'', ''100'', ''print'',
      ''add'', ''150'', ''print''] = Ret (0, st) \<and>
    out st = ''192.168.1.100 192.168.1.150'' @ [CHR 0x0A] \<and> err st = []"
  using assms example_base_parse [OF assms(1,2), of en 5]
  by (simp add: owipcalc_main_def runops.simps [of _ _ "_ # _"] runops.simps [of _ _ "[]"] cidr_push_def init_state_def
      example_network_step example_add_step example_print_step qprintf_def qsep_def runop_def [of _ _ "[]"]
      owipcalc_end_def)

theorem owipcalc_usage_example_witness:
  "\<exists>st. owipcalc_main LittleEndian
      \<lparr>pton4 = [''192.168.1.1'' \<mapsto> [192, 168, 1, 1], ''255.255.255.0'' \<mapsto> [255, 255, 255, 0]],
       pton6 = Map.empty,
       ntop4 = (\<lambda>b. if b ! 3 = 100 then ''192.168.1.100'' else ''192.168.1.150''), ntop6 = (\<lambda>_. [])\<rparr> 6
      [''192.168.1.1/255.255.255.0'', ''network'', ''add'', ''100'', ''print'', ''add'', ''150'', ''print''] = Ret (0, st) \<and>
    out st = ''192.168.1.100 192.168.1.150'' @ [CHR 0x0A]"
  using owipcalc_usage_example [of "\<lparr>pton4 = [''192.168.1.1'' \<mapsto> [192, 168, 1, 1], ''255.255.255.0'' \<mapsto> [255, 255, 255, 0]],
       pton6 = Map.empty,
       ntop4 = (\<lambda>b. if b ! 3 = 100 then ''192.168.1.100'' else ''192.168.1.150''), ntop6 = (\<lambda>_. [])\<rparr>" LittleEndian]
  by auto

end
