(* ===== verification/Kconfig_Expr.thy ===== *)
theory Kconfig_Expr
  imports Fw_Prelude
begin

text \<open>
  The dependency expressions of the configuration system
  (\<^verbatim>\<open>scripts/config/expr.c\<close>, \<^verbatim>\<open>expr.h\<close>): three-valued expressions over configuration symbols,
  their evaluation, and the simplifications that the menus apply to them.

  A symbol is a pointer in C: the three constants have names of their own, every other
  symbol a number. The symbol table gives what the code reads of a symbol: its name, its type,
  whether it is a constant, and its current value, that is after \<^verbatim>\<open>sym_calc_value\<close>. An
  expression is the tree of the node types that occur in a dependency; the node types
  \<^verbatim>\<open>E_LIST\<close> and \<^verbatim>\<open>E_RANGE\<close> hold symbols of a choice or a range and never occur in one. Nodes are
  not shared, so a function that rewrites a tree in place is a function on trees, and
  \<^verbatim>\<open>expr_copy\<close> is the identity.
\<close>

section \<open>Data\<close>

datatype tristate = T_no | T_mod | T_yes

primrec tri_num :: "tristate \<Rightarrow> nat" where
  "tri_num T_no = 0"
| "tri_num T_mod = 1"
| "tri_num T_yes = 2"

instantiation tristate :: linorder
begin

definition less_eq_tristate :: "tristate \<Rightarrow> tristate \<Rightarrow> bool" where
  "a \<le> b \<longleftrightarrow> tri_num a \<le> tri_num b"

definition less_tristate :: "tristate \<Rightarrow> tristate \<Rightarrow> bool" where
  "a < b \<longleftrightarrow> tri_num a < tri_num b"

instance
proof
  fix x y :: tristate
  show "x \<le> y \<Longrightarrow> y \<le> x \<Longrightarrow> x = y"
    by (cases x; cases y) (simp_all add: less_eq_tristate_def)
qed (auto simp: less_eq_tristate_def less_tristate_def)

end

definition EXPR_OR :: "tristate \<Rightarrow> tristate \<Rightarrow> tristate" where
  "EXPR_OR a b = (if a > b then a else b)"

definition EXPR_AND :: "tristate \<Rightarrow> tristate \<Rightarrow> tristate" where
  "EXPR_AND a b = (if a < b then a else b)"

primrec EXPR_NOT :: "tristate \<Rightarrow> tristate" where
  "EXPR_NOT T_no = T_yes"
| "EXPR_NOT T_mod = T_mod"
| "EXPR_NOT T_yes = T_no"

datatype expr_type = E_NONE | E_OR | E_AND | E_NOT | E_EQUAL | E_UNEQUAL | E_LIST | E_SYMBOL | E_RANGE

datatype symbol_type = S_UNKNOWN | S_BOOLEAN | S_TRISTATE | S_INT | S_HEX | S_STRING | S_OTHER

datatype sym = symbol_yes | symbol_mod | symbol_no | Sym nat

record symbol =
  sym_name :: "string option"
  sym_type :: symbol_type
  sym_const :: bool
  curr_val :: string
  curr_tri :: tristate

record symtab =
  sym_of :: "sym \<Rightarrow> symbol"
  modules_tri :: tristate

datatype expr =
  ESymbol sym
| ENot expr
| EAnd expr expr
| EOr expr expr
| EEqual sym sym
| EUnequal sym sym

primrec etype :: "expr \<Rightarrow> expr_type" where
  "etype (ESymbol s) = E_SYMBOL"
| "etype (ENot e) = E_NOT"
| "etype (EAnd l r) = E_AND"
| "etype (EOr l r) = E_OR"
| "etype (EEqual s t) = E_EQUAL"
| "etype (EUnequal s t) = E_UNEQUAL"

section \<open>Values\<close>

text \<open>\<^verbatim>\<open>sym_get_string_value\<close> of \<^verbatim>\<open>symbol.c\<close>: a boolean or tristate symbol has the text of its value
  (\<^verbatim>\<open>m\<close> only while modules are enabled), every other symbol its value string.\<close>

definition sym_get_string_value :: "symtab \<Rightarrow> sym \<Rightarrow> string" where
  "sym_get_string_value tab s =
     (let y = sym_of tab s in
      if sym_type y = S_BOOLEAN \<or> sym_type y = S_TRISTATE
      then (case curr_tri y of
              T_no \<Rightarrow> ''n''
            | T_mod \<Rightarrow> if modules_tri tab = T_no then ''n'' else ''m''
            | T_yes \<Rightarrow> ''y'')
      else curr_val y)"

primrec expr_calc_value :: "symtab \<Rightarrow> expr \<Rightarrow> tristate" where
  "expr_calc_value tab (ESymbol s) = curr_tri (sym_of tab s)"
| "expr_calc_value tab (EAnd l r) = EXPR_AND (expr_calc_value tab l) (expr_calc_value tab r)"
| "expr_calc_value tab (EOr l r) = EXPR_OR (expr_calc_value tab l) (expr_calc_value tab r)"
| "expr_calc_value tab (ENot e) = EXPR_NOT (expr_calc_value tab e)"
| "expr_calc_value tab (EEqual s t) =
     (if sym_get_string_value tab s = sym_get_string_value tab t then T_yes else T_no)"
| "expr_calc_value tab (EUnequal s t) =
     (if sym_get_string_value tab s = sym_get_string_value tab t then T_no else T_yes)"

text \<open>A NULL expression is \<^verbatim>\<open>y\<close>.\<close>

definition calc_value_ptr :: "symtab \<Rightarrow> expr option \<Rightarrow> tristate" where
  "calc_value_ptr tab e = (case e of None \<Rightarrow> T_yes | Some x \<Rightarrow> expr_calc_value tab x)"

section \<open>Building\<close>

definition expr_alloc_and :: "expr option \<Rightarrow> expr option \<Rightarrow> expr option" where
  "expr_alloc_and e1 e2 =
     (case e1 of None \<Rightarrow> e2 | Some a \<Rightarrow> (case e2 of None \<Rightarrow> e1 | Some b \<Rightarrow> Some (EAnd a b)))"

definition expr_alloc_or :: "expr option \<Rightarrow> expr option \<Rightarrow> expr option" where
  "expr_alloc_or e1 e2 =
     (case e1 of None \<Rightarrow> e2 | Some a \<Rightarrow> (case e2 of None \<Rightarrow> e1 | Some b \<Rightarrow> Some (EOr a b)))"

text \<open>\<^verbatim>\<open>expr_alloc_two\<close> for the two junctions, and the operands of a junction of a given type.\<close>

definition expr_alloc_two :: "expr_type \<Rightarrow> expr \<Rightarrow> expr \<Rightarrow> expr" where
  "expr_alloc_two ty l r = (if ty = E_AND then EAnd l r else EOr l r)"

fun operands :: "expr_type \<Rightarrow> expr \<Rightarrow> (expr \<times> expr) option" where
  "operands E_AND (EAnd l r) = Some (l, r)"
| "operands E_OR (EOr l r) = Some (l, r)"
| "operands _ _ = None"

definition neutral :: "expr_type \<Rightarrow> expr" where
  "neutral ty = ESymbol (if ty = E_AND then symbol_yes else symbol_no)"

section \<open>Constants\<close>

fun expr_eliminate_yn :: "expr \<Rightarrow> expr" where
  "expr_eliminate_yn (EAnd l r) =
     (let l' = expr_eliminate_yn l; r' = expr_eliminate_yn r in
      if l' = ESymbol symbol_no then ESymbol symbol_no
      else if l' = ESymbol symbol_yes then r'
      else if r' = ESymbol symbol_no then ESymbol symbol_no
      else if r' = ESymbol symbol_yes then l'
      else EAnd l' r')"
| "expr_eliminate_yn (EOr l r) =
     (let l' = expr_eliminate_yn l; r' = expr_eliminate_yn r in
      if l' = ESymbol symbol_no then r'
      else if l' = ESymbol symbol_yes then ESymbol symbol_yes
      else if r' = ESymbol symbol_no then l'
      else if r' = ESymbol symbol_yes then ESymbol symbol_yes
      else EOr l' r')"
| "expr_eliminate_yn e = e"

fun expr_trans_bool :: "symtab \<Rightarrow> expr \<Rightarrow> expr" where
  "expr_trans_bool tab (EAnd l r) = EAnd (expr_trans_bool tab l) (expr_trans_bool tab r)"
| "expr_trans_bool tab (EOr l r) = EOr (expr_trans_bool tab l) (expr_trans_bool tab r)"
| "expr_trans_bool tab (ENot e) = ENot (expr_trans_bool tab e)"
| "expr_trans_bool tab (EUnequal s t) =
     (if sym_type (sym_of tab s) = S_TRISTATE \<and> t = symbol_no then ESymbol s else EUnequal s t)"
| "expr_trans_bool tab e = e"

section \<open>Equality up to order\<close>

definition same_symbol :: "expr \<times> expr \<Rightarrow> bool" where
  "same_symbol p = (case fst p of ESymbol s \<Rightarrow> snd p = ESymbol s | _ \<Rightarrow> False)"

text \<open>
  \<^verbatim>\<open>__expr_eliminate_eq\<close>, \<^verbatim>\<open>expr_eliminate_eq\<close> and \<^verbatim>\<open>expr_eq\<close> call each other. The first removes
  the operands that two junctions of the same type share, by replacing both by the neutral
  constant; two expressions are equal when nothing else is left of them. The counter
  \<^verbatim>\<open>trans_count\<close> that the first one increments is saved and restored by \<^verbatim>\<open>expr_eq\<close>.
\<close>

function (domintros) elim_eq :: "expr_type \<Rightarrow> expr \<Rightarrow> expr \<Rightarrow> expr \<times> expr"
  and expr_eliminate_eq :: "expr \<Rightarrow> expr \<Rightarrow> expr \<times> expr"
  and expr_eq :: "expr \<Rightarrow> expr \<Rightarrow> bool"
where
  "elim_eq ty e1 e2 =
     (case operands ty e1 of
        Some (l, r) \<Rightarrow>
          (let (l', e2') = elim_eq ty l e2; (r', e2'') = elim_eq ty r e2'
           in (expr_alloc_two ty l' r', e2''))
      | None \<Rightarrow>
          (case operands ty e2 of
             Some (l, r) \<Rightarrow>
               (let (e1', l') = elim_eq ty e1 l; (e1'', r') = elim_eq ty e1' r
                in (e1'', expr_alloc_two ty l' r'))
           | None \<Rightarrow>
               if e1 = e2 \<and> (e1 = ESymbol symbol_yes \<or> e1 = ESymbol symbol_no) then (e1, e2)
               else if \<not> expr_eq e1 e2 then (e1, e2)
               else if ty = E_OR \<or> ty = E_AND then (neutral ty, neutral ty)
               else (e1, e2)))"
| "expr_eliminate_eq e1 e2 =
     (let (a, b) = (if etype e1 = E_OR \<or> etype e1 = E_AND then elim_eq (etype e1) e1 e2 else (e1, e2));
          (c, d) = (if etype a \<noteq> etype b \<and> (etype b = E_OR \<or> etype b = E_AND)
                    then elim_eq (etype b) a b else (a, b))
      in (expr_eliminate_yn c, expr_eliminate_yn d))"
| "expr_eq e1 e2 =
     (if etype e1 \<noteq> etype e2 then False
      else case e1 of
        EEqual s t \<Rightarrow> e2 = EEqual s t
      | EUnequal s t \<Rightarrow> e2 = EUnequal s t
      | ESymbol s \<Rightarrow> e2 = ESymbol s
      | ENot x \<Rightarrow> (case e2 of ENot y \<Rightarrow> expr_eq x y | _ \<Rightarrow> False)
      | EAnd _ _ \<Rightarrow> same_symbol (expr_eliminate_eq e1 e2)
      | EOr _ _ \<Rightarrow> same_symbol (expr_eliminate_eq e1 e2))"
  by pat_completeness auto

lemma operands_Some: "operands ty e = Some (l, r) \<Longrightarrow> e = expr_alloc_two ty l r \<and> (ty = E_AND \<or> ty = E_OR)"
  by (cases "(ty, e)" rule: operands.cases) (auto simp: expr_alloc_two_def)

lemma size_alloc_two [simp]: "size (expr_alloc_two ty l r) = Suc (size l + size r)"
  by (simp add: expr_alloc_two_def)

lemma size_neutral [simp]: "size (neutral ty) = 0"
  by (simp add: neutral_def)

lemma operands_etype: "etype e = E_OR \<or> etype e = E_AND \<Longrightarrow> operands (etype e) e \<noteq> None"
  by (cases e) auto

text \<open>Removing shared operands never enlarges an expression.\<close>

lemma elim_eq_size_partial:
  "elim_eq_expr_eliminate_eq_expr_eq_dom (Inl (ty, e1, e2)) \<Longrightarrow>
     size (fst (elim_eq ty e1 e2)) \<le> size e1 \<and> size (snd (elim_eq ty e1 e2)) \<le> size e2"
  "elim_eq_expr_eliminate_eq_expr_eq_dom (Inr (Inl (e1, e2))) \<Longrightarrow> True"
  "elim_eq_expr_eliminate_eq_expr_eq_dom (Inr (Inr (e1, e2))) \<Longrightarrow> True"
proof (induction ty e1 e2 and e1 e2 and e1 e2 rule: elim_eq_expr_eliminate_eq_expr_eq.pinduct)
  case (1 ty e1 e2)
  note psimp = elim_eq.psimps [OF "1.hyps"]
  show ?case
  proof (cases "operands ty e1")
    case (Some lr)
    then obtain l r where lr: "operands ty e1 = Some (l, r)" by (cases lr) auto
    obtain l' b where l': "elim_eq ty l e2 = (l', b)" by (cases "elim_eq ty l e2")
    obtain r' c where r': "elim_eq ty r b = (r', c)" by (cases "elim_eq ty r b")
    have "size l' \<le> size l" "size b \<le> size e2"
      using "1.IH"(4) [OF lr refl] l' by auto
    moreover have "size r' \<le> size r" "size c \<le> size b"
      using "1.IH"(5) [OF lr refl l' [symmetric] refl] r' by auto
    moreover have "elim_eq ty e1 e2 = (expr_alloc_two ty l' r', c)"
      by (simp add: psimp lr l' r')
    moreover have "size e1 = Suc (size l + size r)"
      using operands_Some [OF lr] by simp
    ultimately show ?thesis by simp
  next
    case None
    show ?thesis
    proof (cases "operands ty e2")
      case (Some lr)
      then obtain l r where lr: "operands ty e2 = Some (l, r)" by (cases lr) auto
      obtain b l' where l': "elim_eq ty e1 l = (b, l')" by (cases "elim_eq ty e1 l")
      obtain c r' where r': "elim_eq ty b r = (c, r')" by (cases "elim_eq ty b r")
      have "size l' \<le> size l" "size b \<le> size e1"
        using "1.IH"(2) [OF None lr refl] l' by auto
      moreover have "size r' \<le> size r" "size c \<le> size b"
        using "1.IH"(3) [OF None lr refl l' [symmetric] refl] r' by auto
      moreover have "elim_eq ty e1 e2 = (c, expr_alloc_two ty l' r')"
        by (simp add: psimp None lr l' r')
      moreover have "size e2 = Suc (size l + size r)"
        using operands_Some [OF lr] by simp
      ultimately show ?thesis by simp
    qed (simp add: psimp None)
  qed
qed auto

text \<open>Every call works on smaller expressions, or on the same ones closer to a comparison of
  their operands.\<close>

definition eq_rank :: "(expr_type \<times> expr \<times> expr) + (expr \<times> expr) + (expr \<times> expr) \<Rightarrow> nat \<times> nat" where
  "eq_rank x = (case x of
      Inl (ty, e1, e2) \<Rightarrow>
        (size e1 + size e2, if operands ty e1 \<noteq> None \<or> operands ty e2 \<noteq> None then 0 else 3)
    | Inr (Inl (e1, e2)) \<Rightarrow> (size e1 + size e2, 1)
    | Inr (Inr (e1, e2)) \<Rightarrow> (size e1 + size e2, 2))"

lemma eq_rank_simps [simp]:
  "eq_rank (Inl (ty, e1, e2)) =
     (size e1 + size e2, if operands ty e1 \<noteq> None \<or> operands ty e2 \<noteq> None then 0 else 3)"
  "eq_rank (Inr (Inl (e1, e2))) = (size e1 + size e2, 1)"
  "eq_rank (Inr (Inr (e1, e2))) = (size e1 + size e2, 2)"
  by (simp_all add: eq_rank_def)

lemma operands_size: "operands ty e = Some (l, r) \<Longrightarrow> size e = Suc (size l + size r)"
  by (auto dest!: operands_Some)

termination elim_eq
proof (relation "inv_image (less_than <*lex*> less_than) eq_rank", goal_cases)
  case (4 ty e1 e2 x2 x y xa xb ya)
  then have "size xb \<le> size e1"
    using elim_eq_size_partial(1) [of ty e1 x] by (metis fst_conv)
  with 4 show ?case by (auto dest: operands_size)
next
  case (6 ty e1 e2 x2 x y xa xb ya)
  then have "size ya \<le> size e2"
    using elim_eq_size_partial(1) [of ty x e2] by (metis snd_conv)
  with 6 show ?case by (auto dest: operands_size)
next
  case (7 e1 e2)
  then have "operands (etype e1) e1 \<noteq> None" using operands_etype by blast
  then show ?case by simp
next
  case (8 e1 e2 x xa y)
  then have "size xa \<le> size e1 \<and> size y \<le> size e2"
    using elim_eq_size_partial(1) [of "etype e1" e1 e2] by (metis fst_conv snd_conv order_refl)
  moreover have "operands (etype y) y \<noteq> None"
    using 8(3) operands_etype by blast
  ultimately show ?case
    by (cases "size xa + size y = size e1 + size e2") auto
qed (auto dest: operands_size operands_etype)

lemmas elim_eq_simps = elim_eq.simps expr_eliminate_eq.simps expr_eq.simps
declare elim_eq.simps [simp del] expr_eliminate_eq.simps [simp del] expr_eq.simps [simp del]

section \<open>Joining two operands\<close>

text \<open>
  The symbol that an operand of \<^verbatim>\<open>expr_join_or\<close> and \<^verbatim>\<open>expr_join_and\<close> tests: \<open>None\<close> is the early
  return. A negation is looked through, on the left also when it negates a comparison.
\<close>

definition join_sym1 :: "expr \<Rightarrow> sym option" where
  "join_sym1 e =
     (case e of
        ESymbol s \<Rightarrow> Some s
      | EEqual s _ \<Rightarrow> Some s
      | EUnequal s _ \<Rightarrow> Some s
      | ENot (ESymbol s) \<Rightarrow> Some s
      | ENot (EEqual s _) \<Rightarrow> Some s
      | ENot (EUnequal s _) \<Rightarrow> Some s
      | _ \<Rightarrow> None)"

definition join_sym2 :: "expr \<Rightarrow> sym option" where
  "join_sym2 e =
     (case e of
        ESymbol s \<Rightarrow> Some s
      | EEqual s _ \<Rightarrow> Some s
      | EUnequal s _ \<Rightarrow> Some s
      | ENot (ESymbol s) \<Rightarrow> Some s
      | _ \<Rightarrow> None)"

text \<open>The two orders of the conditions of the source: the same comparison of \<open>a\<close> with two
  constants, and the bare symbol \<open>a\<close> next to an operand \<open>c\<close>.\<close>

definition pair_cmp :: "(sym \<Rightarrow> sym \<Rightarrow> expr) \<Rightarrow> expr \<Rightarrow> expr \<Rightarrow> sym \<Rightarrow> sym \<Rightarrow> sym \<Rightarrow> bool" where
  "pair_cmp cmp e1 e2 a s t \<longleftrightarrow>
     (e1 = cmp a s \<and> e2 = cmp a t) \<or> (e1 = cmp a t \<and> e2 = cmp a s)"

definition sym_with :: "expr \<Rightarrow> expr \<Rightarrow> sym \<Rightarrow> expr \<Rightarrow> bool" where
  "sym_with e1 e2 a c \<longleftrightarrow> (e1 = ESymbol a \<and> e2 = c) \<or> (e2 = ESymbol a \<and> e1 = c)"

definition expr_join_or :: "symtab \<Rightarrow> expr \<Rightarrow> expr \<Rightarrow> expr option" where
  "expr_join_or tab e1 e2 =
     (if expr_eq e1 e2 then Some e1
      else case (join_sym1 e1, join_sym2 e2) of
        (Some a, Some b) \<Rightarrow>
          (let ty = sym_type (sym_of tab a) in
           if a \<noteq> b then None
           else if ty \<noteq> S_BOOLEAN \<and> ty \<noteq> S_TRISTATE then None
           else if ty = S_TRISTATE \<and> pair_cmp EEqual e1 e2 a symbol_yes symbol_mod
           then Some (EUnequal a symbol_no)
           else if ty = S_TRISTATE \<and> pair_cmp EEqual e1 e2 a symbol_yes symbol_no
           then Some (EUnequal a symbol_mod)
           else if ty = S_TRISTATE \<and> pair_cmp EEqual e1 e2 a symbol_mod symbol_no
           then Some (EUnequal a symbol_yes)
           else if ty = S_BOOLEAN \<and> sym_with e1 e2 a (ENot (ESymbol a))
           then Some (ESymbol symbol_yes)
           else None)
      | _ \<Rightarrow> None)"

text \<open>\<^verbatim>\<open>(a='b') && (a!='c')\<close> for constants \<^verbatim>\<open>b\<close> and \<^verbatim>\<open>c\<close>, in either order.\<close>

definition join_eq_uneq :: "symtab \<Rightarrow> expr \<Rightarrow> expr \<Rightarrow> expr option" where
  "join_eq_uneq tab e1 e2 =
     (case (e1, e2) of
        (EEqual a b, EUnequal _ c) \<Rightarrow>
          if sym_const (sym_of tab c) \<and> sym_const (sym_of tab b)
          then Some (if b \<noteq> c then EEqual a b else ESymbol symbol_no) else None
      | (EUnequal _ c, EEqual a b) \<Rightarrow>
          if sym_const (sym_of tab c) \<and> sym_const (sym_of tab b)
          then Some (if b \<noteq> c then EEqual a b else ESymbol symbol_no) else None
      | _ \<Rightarrow> None)"

definition expr_join_and :: "symtab \<Rightarrow> expr \<Rightarrow> expr \<Rightarrow> expr option" where
  "expr_join_and tab e1 e2 =
     (if expr_eq e1 e2 then Some e1
      else case (join_sym1 e1, join_sym2 e2) of
        (Some a, Some b) \<Rightarrow>
          (let ty = sym_type (sym_of tab a) in
           if a \<noteq> b then None
           else if ty \<noteq> S_BOOLEAN \<and> ty \<noteq> S_TRISTATE then None
           else if sym_with e1 e2 a (EEqual a symbol_yes) then Some (EEqual a symbol_yes)
           else if sym_with e1 e2 a (EUnequal a symbol_no) then Some (ESymbol a)
           else if sym_with e1 e2 a (EUnequal a symbol_mod) then Some (EEqual a symbol_yes)
           else if ty = S_TRISTATE then
             (case join_eq_uneq tab e1 e2 of
                Some e \<Rightarrow> Some e
              | None \<Rightarrow>
                  if pair_cmp EUnequal e1 e2 a symbol_yes symbol_no then Some (EEqual a symbol_mod)
                  else if pair_cmp EUnequal e1 e2 a symbol_yes symbol_mod then Some (EEqual a symbol_no)
                  else if pair_cmp EUnequal e1 e2 a symbol_mod symbol_no then Some (EEqual a symbol_yes)
                  else None)
           else None)
      | _ \<Rightarrow> None)"

section \<open>Questions about an expression\<close>

primrec expr_contains_symbol :: "expr \<Rightarrow> sym \<Rightarrow> bool" where
  "expr_contains_symbol (EAnd l r) s = (expr_contains_symbol l s \<or> expr_contains_symbol r s)"
| "expr_contains_symbol (EOr l r) s = (expr_contains_symbol l s \<or> expr_contains_symbol r s)"
| "expr_contains_symbol (ESymbol a) s = (a = s)"
| "expr_contains_symbol (EEqual a b) s = (a = s \<or> b = s)"
| "expr_contains_symbol (EUnequal a b) s = (a = s \<or> b = s)"
| "expr_contains_symbol (ENot e) s = expr_contains_symbol e s"

primrec expr_depends_symbol :: "expr \<Rightarrow> sym \<Rightarrow> bool" where
  "expr_depends_symbol (EAnd l r) s = (expr_depends_symbol l s \<or> expr_depends_symbol r s)"
| "expr_depends_symbol (EOr l r) s = False"
| "expr_depends_symbol (ESymbol a) s = (a = s)"
| "expr_depends_symbol (EEqual a b) s = (a = s \<and> (b = symbol_yes \<or> b = symbol_mod))"
| "expr_depends_symbol (EUnequal a b) s = (a = s \<and> b = symbol_no)"
| "expr_depends_symbol (ENot e) s = False"

section \<open>Comparison with a constant\<close>

text \<open>\<^verbatim>\<open>expr_trans_compare\<close> for the comparison types \<^verbatim>\<open>E_EQUAL\<close> (\<open>eq\<close>) and \<^verbatim>\<open>E_UNEQUAL\<close>; NULL is \<open>None\<close>.\<close>

fun expr_trans_compare :: "expr \<Rightarrow> bool \<Rightarrow> sym \<Rightarrow> expr option" where
  "expr_trans_compare (EAnd l r) eq s =
     (let e = (if s = symbol_yes then
                 Option.bind (expr_trans_compare l True s) (\<lambda>a. map_option (EAnd a) (expr_trans_compare r True s))
               else if s = symbol_no then
                 Option.bind (expr_trans_compare l True s) (\<lambda>a. map_option (EOr a) (expr_trans_compare r True s))
               else Some (EAnd l r))
      in if eq then e else map_option ENot e)"
| "expr_trans_compare (EOr l r) eq s =
     (let e = (if s = symbol_yes then
                 Option.bind (expr_trans_compare l True s) (\<lambda>a. map_option (EOr a) (expr_trans_compare r True s))
               else if s = symbol_no then
                 Option.bind (expr_trans_compare l True s) (\<lambda>a. map_option (EAnd a) (expr_trans_compare r True s))
               else Some (EOr l r))
      in if eq then e else map_option ENot e)"
| "expr_trans_compare (ENot e) eq s = expr_trans_compare e (\<not> eq) s"
| "expr_trans_compare (ESymbol a) eq s = Some (if eq then EEqual a s else EUnequal a s)"
| "expr_trans_compare e eq s =
     (if s = symbol_yes then Some (if eq then e else ENot e)
      else if s = symbol_mod then Some (ESymbol (if eq then symbol_no else symbol_yes))
      else if s = symbol_no then Some (if eq then ENot e else e)
      else None)"

section \<open>Negations\<close>

text \<open>The rewriting of a comparison of a boolean symbol with a constant.\<close>

definition transform_cmp :: "symtab \<Rightarrow> bool \<Rightarrow> sym \<Rightarrow> sym \<Rightarrow> expr" where
  "transform_cmp tab eq a b =
     (if sym_type (sym_of tab a) \<noteq> S_BOOLEAN then (if eq then EEqual a b else EUnequal a b)
      else if b = symbol_no then (if eq then ENot (ESymbol a) else ESymbol a)
      else if b = symbol_mod then ESymbol (if eq then symbol_no else symbol_yes)
      else if b = symbol_yes then (if eq then ESymbol a else ENot (ESymbol a))
      else if eq then EEqual a b else EUnequal a b)"

function (domintros) expr_transform :: "symtab \<Rightarrow> expr \<Rightarrow> expr" where
  "expr_transform tab (EEqual a b) = transform_cmp tab True a b"
| "expr_transform tab (EUnequal a b) = transform_cmp tab False a b"
| "expr_transform tab (ESymbol a) = ESymbol a"
| "expr_transform tab (EAnd l r) = EAnd (expr_transform tab l) (expr_transform tab r)"
| "expr_transform tab (EOr l r) = EOr (expr_transform tab l) (expr_transform tab r)"
| "expr_transform tab (ENot e) =
     (case expr_transform tab e of
        ENot x \<Rightarrow> expr_transform tab x
      | EEqual a b \<Rightarrow> EUnequal a b
      | EUnequal a b \<Rightarrow> EEqual a b
      | EOr x y \<Rightarrow> expr_transform tab (EAnd (ENot x) (ENot y))
      | EAnd x y \<Rightarrow> expr_transform tab (EOr (ENot x) (ENot y))
      | ESymbol a \<Rightarrow>
          if a = symbol_yes then ESymbol symbol_no
          else if a = symbol_mod then ESymbol symbol_mod
          else if a = symbol_no then ESymbol symbol_yes
          else ENot (ESymbol a))"
  by pat_completeness auto

text \<open>Moving a negation inwards makes the expression longer, but not heavier.\<close>

primrec weight :: "expr \<Rightarrow> nat" where
  "weight (ESymbol a) = 1"
| "weight (EEqual a b) = 2"
| "weight (EUnequal a b) = 2"
| "weight (ENot e) = 2 * weight e"
| "weight (EAnd l r) = weight l + weight r + 1"
| "weight (EOr l r) = weight l + weight r + 1"

lemma weight_pos [simp]: "0 < weight e"
  by (induction e) auto

lemma weight_transform_cmp: "weight (transform_cmp tab eq a b) \<le> 2"
  by (simp add: transform_cmp_def)

lemma expr_transform_weight_partial:
  "expr_transform_dom (tab, e) \<Longrightarrow> weight (expr_transform tab e) \<le> weight e"
proof (induction tab e rule: expr_transform.pinduct)
  case (6 tab e)
  note psimp = expr_transform.psimps(6) [OF "6.hyps"]
  show ?case
  proof (cases "expr_transform tab e")
    case (ENot x)
    with "6.IH"(1) "6.IH"(2) [OF ENot] show ?thesis by (simp add: psimp)
  next
    case (EAnd x y)
    with "6.IH"(1) "6.IH"(3) [OF EAnd] show ?thesis by (simp add: psimp)
  next
    case (EOr x y)
    with "6.IH"(1) "6.IH"(4) [OF EOr] show ?thesis by (simp add: psimp)
  qed (use "6.IH"(1) in \<open>auto simp: psimp\<close>)
qed (auto simp: expr_transform.psimps weight_transform_cmp)

lemma expr_transform_weight_result:
  "expr_transform tab e = x \<Longrightarrow> expr_transform_dom (tab, e) \<Longrightarrow> weight x \<le> weight e \<and> weight x < 2 * weight e"
proof -
  assume "expr_transform tab e = x" "expr_transform_dom (tab, e)"
  then have "weight x \<le> weight e" using expr_transform_weight_partial by blast
  moreover have "0 < weight e" by simp
  ultimately show ?thesis by linarith
qed

termination expr_transform
  by (relation "measure (\<lambda>(tab, e). weight e)") (auto dest!: expr_transform_weight_result)

declare expr_transform.simps(6) [simp del]

section \<open>Common parts\<close>

text \<open>
  \<^verbatim>\<open>expr_extract_eq\<close>: the operands that both junctions have are collected in \<^verbatim>\<open>*ep\<close> and replaced
  by the neutral constant in both. The result is the new \<^verbatim>\<open>*ep\<close>, \<^verbatim>\<open>*ep1\<close> and \<^verbatim>\<open>*ep2\<close>.
\<close>

function (domintros) expr_extract_eq ::
  "expr_type \<Rightarrow> expr option \<Rightarrow> expr \<Rightarrow> expr \<Rightarrow> expr option \<times> expr \<times> expr" where
  "expr_extract_eq ty ep e1 e2 =
     (case operands ty e1 of
        Some (l, r) \<Rightarrow>
          (let (ep', l', e2') = expr_extract_eq ty ep l e2;
               (ep'', r', e2'') = expr_extract_eq ty ep' r e2'
           in (ep'', expr_alloc_two ty l' r', e2''))
      | None \<Rightarrow>
          (case operands ty e2 of
             Some (l, r) \<Rightarrow>
               (let (ep', e1', l') = expr_extract_eq ty ep e1 l;
                    (ep'', e1'', r') = expr_extract_eq ty ep' e1' r
                in (ep'', e1'', expr_alloc_two ty l' r'))
           | None \<Rightarrow>
               if expr_eq e1 e2
               then (Some (case ep of None \<Rightarrow> e1 | Some p \<Rightarrow> expr_alloc_two ty p e1), neutral ty, neutral ty)
               else (ep, e1, e2)))"
  by pat_completeness auto

lemma expr_extract_eq_size_partial:
  "expr_extract_eq_dom (ty, ep, e1, e2) \<Longrightarrow> expr_extract_eq ty ep e1 e2 = (p, a, b) \<Longrightarrow>
     size a \<le> size e1 \<and> size b \<le> size e2"
proof (induction ty ep e1 e2 arbitrary: p a b rule: expr_extract_eq.pinduct)
  case (1 ty ep e1 e2)
  note psimp = expr_extract_eq.psimps [OF "1.hyps"]
  show ?case
  proof (cases "operands ty e1")
    case (Some lr)
    then obtain l r where lr: "operands ty e1 = Some (l, r)" by (cases lr) auto
    obtain p1 l' c where l': "expr_extract_eq ty ep l e2 = (p1, l', c)"
      by (cases "expr_extract_eq ty ep l e2")
    obtain p2 r' d where r': "expr_extract_eq ty p1 r c = (p2, r', d)"
      by (cases "expr_extract_eq ty p1 r c")
    have "size l' \<le> size l \<and> size c \<le> size e2" "size r' \<le> size r \<and> size d \<le> size c"
      using "1.IH"(3) [OF lr refl l'] "1.IH"(4) [OF lr refl l' [symmetric] refl refl r'] by simp_all
    with "1.prems" operands_size [OF lr] show ?thesis by (auto simp: psimp lr l' r')
  next
    case None
    show ?thesis
    proof (cases "operands ty e2")
      case (Some lr)
      then obtain l r where lr: "operands ty e2 = Some (l, r)" by (cases lr) auto
      obtain p1 c l' where l': "expr_extract_eq ty ep e1 l = (p1, c, l')"
        by (cases "expr_extract_eq ty ep e1 l")
      obtain p2 d r' where r': "expr_extract_eq ty p1 c r = (p2, d, r')"
        by (cases "expr_extract_eq ty p1 c r")
      have "size l' \<le> size l \<and> size c \<le> size e1" "size r' \<le> size r \<and> size d \<le> size c"
        using "1.IH"(1) [OF None lr refl l'] "1.IH"(2) [OF None lr refl l' [symmetric] refl refl r'] by simp_all
      with "1.prems" operands_size [OF lr] show ?thesis by (auto simp: psimp None lr l' r')
    next
      case None2: None
      with "1.prems" None show ?thesis by (auto simp: psimp split: if_splits)
    qed
  qed
qed

termination expr_extract_eq
  by (relation "measure (\<lambda>(ty, ep, e1, e2). size e1 + size e2)")
     (auto dest!: expr_extract_eq_size_partial operands_size [symmetric] sym [of _ "expr_extract_eq _ _ _ _"])

declare expr_extract_eq.simps [simp del]

definition expr_extract_eq_and :: "expr \<Rightarrow> expr \<Rightarrow> expr option \<times> expr \<times> expr" where
  "expr_extract_eq_and e1 e2 =
     (case expr_extract_eq E_AND None e1 e2 of
        (Some p, a, b) \<Rightarrow> (Some p, expr_eliminate_yn a, expr_eliminate_yn b)
      | r \<Rightarrow> r)"

definition expr_extract_eq_or :: "expr \<Rightarrow> expr \<Rightarrow> expr option \<times> expr \<times> expr" where
  "expr_extract_eq_or e1 e2 =
     (case expr_extract_eq E_OR None e1 e2 of
        (Some p, a, b) \<Rightarrow> (Some p, expr_eliminate_yn a, expr_eliminate_yn b)
      | r \<Rightarrow> r)"

end
