(* ===== verification/Kconfig_Props.thy ===== *)
theory Kconfig_Props
  imports Kconfig_Expr
begin

text \<open>
  What the simplifications of the configuration system preserve: each rewriting is compared
  with the three-valued evaluation \<^verbatim>\<open>expr_calc_value\<close> on every symbol table that
  \<^verbatim>\<open>sym_calc_value\<close> can leave.
\<close>

section \<open>Symbol tables\<close>

definition const_symbol :: "string \<Rightarrow> tristate \<Rightarrow> symbol" where
  "const_symbol name v =
     \<lparr>sym_name = Some name, sym_type = S_UNKNOWN, sym_const = True, curr_val = name, curr_tri = v\<rparr>"

text \<open>
  The tables of the program: the three constants are those of \<^verbatim>\<open>symbol.c\<close>; a calculated
  boolean is never \<^verbatim>\<open>m\<close>, and a tristate is \<^verbatim>\<open>m\<close> only while modules are enabled; constants are
  looked up by name, so two of them never have the same text.
\<close>

definition symtab_ok :: "symtab \<Rightarrow> bool" where
  "symtab_ok tab \<longleftrightarrow>
     sym_of tab symbol_yes = const_symbol ''y'' T_yes \<and>
     sym_of tab symbol_mod = const_symbol ''m'' T_mod \<and>
     sym_of tab symbol_no = const_symbol ''n'' T_no \<and>
     (\<forall>s. sym_type (sym_of tab s) = S_BOOLEAN \<longrightarrow> curr_tri (sym_of tab s) \<noteq> T_mod) \<and>
     (\<forall>s. sym_type (sym_of tab s) = S_TRISTATE \<longrightarrow> curr_tri (sym_of tab s) = T_mod \<longrightarrow>
        modules_tri tab \<noteq> T_no) \<and>
     (\<forall>s t. sym_const (sym_of tab s) \<longrightarrow> sym_const (sym_of tab t) \<longrightarrow>
        sym_get_string_value tab s = sym_get_string_value tab t \<longrightarrow> s = t)"

lemma symtab_consts [simp]:
  assumes "symtab_ok tab"
  shows "curr_tri (sym_of tab symbol_yes) = T_yes" "curr_tri (sym_of tab symbol_mod) = T_mod"
    "curr_tri (sym_of tab symbol_no) = T_no"
    "sym_get_string_value tab symbol_yes = ''y''" "sym_get_string_value tab symbol_mod = ''m''"
    "sym_get_string_value tab symbol_no = ''n''"
  using assms by (simp_all add: symtab_ok_def const_symbol_def sym_get_string_value_def)

lemma boolean_not_mod:
  "symtab_ok tab \<Longrightarrow> sym_type (sym_of tab s) = S_BOOLEAN \<Longrightarrow> curr_tri (sym_of tab s) \<noteq> T_mod"
  unfolding symtab_ok_def by blast

lemma tristate_mod:
  "symtab_ok tab \<Longrightarrow> sym_type (sym_of tab s) = S_TRISTATE \<Longrightarrow> curr_tri (sym_of tab s) = T_mod \<Longrightarrow>
     modules_tri tab \<noteq> T_no"
  unfolding symtab_ok_def by blast

lemma const_inject:
  "symtab_ok tab \<Longrightarrow> sym_const (sym_of tab s) \<Longrightarrow> sym_const (sym_of tab t) \<Longrightarrow>
     sym_get_string_value tab s = sym_get_string_value tab t \<longleftrightarrow> s = t"
  unfolding symtab_ok_def by blast

text \<open>The text of a boolean or tristate symbol determines its value.\<close>

lemma string_value_tri:
  assumes "symtab_ok tab" and "sym_type (sym_of tab s) = S_BOOLEAN \<or> sym_type (sym_of tab s) = S_TRISTATE"
  shows "sym_get_string_value tab s =
    (case curr_tri (sym_of tab s) of T_no \<Rightarrow> ''n'' | T_mod \<Rightarrow> ''m'' | T_yes \<Rightarrow> ''y'')"
  using assms(2) boolean_not_mod [OF assms(1), of s] tristate_mod [OF assms(1), of s]
  by (auto simp: sym_get_string_value_def Let_def split: tristate.splits)

section \<open>Three-valued logic\<close>

lemma EXPR_OR_max: "EXPR_OR a b = max a b"
  by (auto simp: EXPR_OR_def max_def)

lemma EXPR_AND_min: "EXPR_AND a b = min a b"
  by (auto simp: EXPR_AND_def min_def)

lemmas tri_simps = EXPR_OR_def EXPR_AND_def less_tristate_def less_eq_tristate_def

lemma EXPR_consts [simp]:
  "EXPR_AND T_no a = T_no" "EXPR_AND a T_no = T_no" "EXPR_AND T_yes a = a" "EXPR_AND a T_yes = a"
  "EXPR_OR T_no a = a" "EXPR_OR a T_no = a" "EXPR_OR T_yes a = T_yes" "EXPR_OR a T_yes = T_yes"
  by (cases a; simp add: tri_simps)+

lemma EXPR_idem [simp]: "EXPR_AND a a = a" "EXPR_OR a a = a"
  by (simp_all add: EXPR_AND_def EXPR_OR_def)

lemma EXPR_NOT_NOT [simp]: "EXPR_NOT (EXPR_NOT a) = a"
  by (cases a) auto

lemma EXPR_de_morgan:
  "EXPR_NOT (EXPR_OR a b) = EXPR_AND (EXPR_NOT a) (EXPR_NOT b)"
  "EXPR_NOT (EXPR_AND a b) = EXPR_OR (EXPR_NOT a) (EXPR_NOT b)"
  by (cases a; cases b; simp add: tri_simps)+

text \<open>The operation of a junction, and that it is commutative, associative and idempotent.\<close>

definition jop :: "expr_type \<Rightarrow> tristate \<Rightarrow> tristate \<Rightarrow> tristate" where
  "jop ty = (if ty = E_AND then EXPR_AND else EXPR_OR)"

lemma jop_ac:
  "jop ty a b = jop ty b a" "jop ty (jop ty a b) c = jop ty a (jop ty b c)"
  "jop ty a (jop ty b c) = jop ty b (jop ty a c)"
  by (simp_all add: jop_def EXPR_AND_min EXPR_OR_max ac_simps)

lemma value_alloc_two [simp]:
  "expr_calc_value tab (expr_alloc_two ty l r) = jop ty (expr_calc_value tab l) (expr_calc_value tab r)"
  by (simp add: expr_alloc_two_def jop_def)

lemma jop_neutral:
  "symtab_ok tab \<Longrightarrow> jop ty (expr_calc_value tab (neutral ty)) a = a"
  by (simp add: jop_def neutral_def)

section \<open>Eliminating constants\<close>

lemma eliminate_yn_value:
  "symtab_ok tab \<Longrightarrow> expr_calc_value tab (expr_eliminate_yn e) = expr_calc_value tab e"
proof (induction e rule: expr_eliminate_yn.induct)
  case (1 l r)
  then show ?case by (auto simp: Let_def) 
next
  case (2 l r)
  then show ?case by (auto simp: Let_def)
qed auto

text \<open>No operand of a junction is a constant \<^verbatim>\<open>y\<close> or \<^verbatim>\<open>n\<close>, outside negations.\<close>

fun yn_free :: "expr \<Rightarrow> bool" where
  "yn_free (EAnd l r) = (yn_free l \<and> yn_free r \<and>
     l \<notin> {ESymbol symbol_yes, ESymbol symbol_no} \<and> r \<notin> {ESymbol symbol_yes, ESymbol symbol_no})"
| "yn_free (EOr l r) = (yn_free l \<and> yn_free r \<and>
     l \<notin> {ESymbol symbol_yes, ESymbol symbol_no} \<and> r \<notin> {ESymbol symbol_yes, ESymbol symbol_no})"
| "yn_free e = True"

lemma eliminate_yn_free: "yn_free (expr_eliminate_yn e)"
  by (induction e rule: expr_eliminate_yn.induct) (auto simp: Let_def)

lemma eliminate_yn_size: "size (expr_eliminate_yn e) \<le> size e"
  by (induction e rule: expr_eliminate_yn.induct) (auto simp: Let_def)

lemma yn_free_id: "yn_free e \<Longrightarrow> expr_eliminate_yn e = e"
  by (induction e rule: expr_eliminate_yn.induct) (auto simp: Let_def)

section \<open>Equality up to order\<close>

lemma elim_eq_sound:
  assumes tab: "symtab_ok tab"
  shows "\<exists>x. expr_calc_value tab e1 = jop ty (expr_calc_value tab (fst (elim_eq ty e1 e2))) x \<and>
             expr_calc_value tab e2 = jop ty (expr_calc_value tab (snd (elim_eq ty e1 e2))) x"
    and "\<exists>f. expr_calc_value tab f1 = f (expr_calc_value tab (fst (expr_eliminate_eq f1 f2))) \<and>
             expr_calc_value tab f2 = f (expr_calc_value tab (snd (expr_eliminate_eq f1 f2)))"
    and "expr_eq g1 g2 \<Longrightarrow> expr_calc_value tab g1 = expr_calc_value tab g2"
proof (induction ty e1 e2 and f1 f2 and g1 g2 rule: elim_eq_expr_eliminate_eq_expr_eq.induct)
  case (1 ty e1 e2)
  let ?v = "expr_calc_value tab"
  have ne: "jop ty (?v (neutral ty)) z = z" for z
    by (rule jop_neutral [OF tab])
  show ?case
  proof (cases "operands ty e1")
    case (Some lr)
    then obtain l r where lr: "operands ty e1 = Some (l, r)" by (cases lr) auto
    obtain l' b where l': "elim_eq ty l e2 = (l', b)" by (cases "elim_eq ty l e2")
    obtain r' c where r': "elim_eq ty r b = (r', c)" by (cases "elim_eq ty r b")
    obtain x where x: "?v l = jop ty (?v l') x" "?v e2 = jop ty (?v b) x"
      using "1.IH"(4) [OF lr refl] l' by auto
    obtain y where y: "?v r = jop ty (?v r') y" "?v b = jop ty (?v c) y"
      using "1.IH"(5) [OF lr refl l' [symmetric] refl] r' by auto
    have e1: "?v e1 = jop ty (?v l) (?v r)" using operands_Some [OF lr] by simp
    have "elim_eq ty e1 e2 = (expr_alloc_two ty l' r', c)"
      by (simp add: elim_eq.simps [of ty e1 e2] lr l' r')
    then show ?thesis
      unfolding e1 x y by (intro exI [of _ "jop ty x y"]) (simp add: jop_ac)
  next
    case None
    show ?thesis
    proof (cases "operands ty e2")
      case (Some lr)
      then obtain l r where lr: "operands ty e2 = Some (l, r)" by (cases lr) auto
      obtain b l' where l': "elim_eq ty e1 l = (b, l')" by (cases "elim_eq ty e1 l")
      obtain c r' where r': "elim_eq ty b r = (c, r')" by (cases "elim_eq ty b r")
      obtain x where x: "?v e1 = jop ty (?v b) x" "?v l = jop ty (?v l') x"
        using "1.IH"(2) [OF None lr refl] l' by auto
      obtain y where y: "?v b = jop ty (?v c) y" "?v r = jop ty (?v r') y"
        using "1.IH"(3) [OF None lr refl l' [symmetric] refl] r' by auto
      have e2: "?v e2 = jop ty (?v l) (?v r)" using operands_Some [OF lr] by simp
      have "elim_eq ty e1 e2 = (c, expr_alloc_two ty l' r')"
        by (simp add: elim_eq.simps [of ty e1 e2] None lr l' r')
      then show ?thesis
        unfolding e2 x y by (intro exI [of _ "jop ty x y"]) (simp add: jop_ac)
    next
      case None2: None
      let ?yn = "e1 = e2 \<and> (e1 = ESymbol symbol_yes \<or> e1 = ESymbol symbol_no)"
      have eq: "elim_eq ty e1 e2 = (if ?yn \<or> \<not> expr_eq e1 e2 \<or> \<not> (ty = E_OR \<or> ty = E_AND)
          then (e1, e2) else (neutral ty, neutral ty))"
        by (simp only: elim_eq.simps [of ty e1 e2] None None2 option.case) argo
      consider "elim_eq ty e1 e2 = (e1, e2)" | "elim_eq ty e1 e2 = (neutral ty, neutral ty)" "?v e1 = ?v e2"
      proof (cases "?yn \<or> \<not> expr_eq e1 e2 \<or> \<not> (ty = E_OR \<or> ty = E_AND)")
        case True
        then show thesis using eq that(1) by simp
      next
        case False
        then have "\<not> ?yn" "expr_eq e1 e2" by argo+
        then have "?v e1 = ?v e2" using "1.IH"(1) [OF None None2] by blast
        moreover have "elim_eq ty e1 e2 = (neutral ty, neutral ty)" using eq False by argo
        ultimately show thesis by (rule that(2) [rotated])
      qed
      then show ?thesis
      proof cases
        case 1
        then show ?thesis by (intro exI [of _ "?v (neutral ty)"]) (simp add: jop_ac(1) [of ty _ "?v (neutral ty)"] ne)
      next
        case 2
        then show ?thesis by (intro exI [of _ "?v e1"]) (simp add: ne)
      qed
    qed
  qed
next
  case (2 e1 e2)
  let ?v = "expr_calc_value tab"
  obtain a b where ab: "(if etype e1 = E_OR \<or> etype e1 = E_AND then elim_eq (etype e1) e1 e2 else (e1, e2)) = (a, b)"
    by fastforce
  obtain c d where cd: "(if etype a \<noteq> etype b \<and> (etype b = E_OR \<or> etype b = E_AND)
      then elim_eq (etype b) a b else (a, b)) = (c, d)"
    by fastforce
  have "\<exists>f. ?v e1 = f (?v a) \<and> ?v e2 = f (?v b)"
  proof (cases "etype e1 = E_OR \<or> etype e1 = E_AND")
    case True
    from "2.IH"(1) [OF this] ab True obtain x
      where "?v e1 = jop (etype e1) (?v a) x" "?v e2 = jop (etype e1) (?v b) x" by auto
    then show ?thesis by (intro exI [of _ "\<lambda>z. jop (etype e1) z x"]) simp
  next
    case False
    with ab show ?thesis by (intro exI [of _ "\<lambda>z. z"]) simp
  qed
  then obtain f where f: "?v e1 = f (?v a)" "?v e2 = f (?v b)" by blast
  have "\<exists>g. ?v a = g (?v c) \<and> ?v b = g (?v d)"
  proof (cases "etype a \<noteq> etype b \<and> (etype b = E_OR \<or> etype b = E_AND)")
    case True
    from "2.IH"(2) [OF refl ab [symmetric] this] cd True obtain x
      where "?v a = jop (etype b) (?v c) x" "?v b = jop (etype b) (?v d) x" by auto
    then show ?thesis by (intro exI [of _ "\<lambda>z. jop (etype b) z x"]) simp
  next
    case False
    with cd have "c = a" "d = b" by (simp_all split: if_splits)
    then show ?thesis by (intro exI [of _ "\<lambda>z. z"]) simp
  qed
  then obtain g where g: "?v a = g (?v c)" "?v b = g (?v d)" by blast
  have "expr_eliminate_eq e1 e2 = (expr_eliminate_yn c, expr_eliminate_yn d)"
    by (simp only: expr_eliminate_eq.simps ab cd Let_def prod.case)
  with f g show ?case
    by (intro exI [of _ "f \<circ> g"]) (simp add: eliminate_yn_value [OF tab])
next
  case (3 e1 e2)
  let ?v = "expr_calc_value tab"
  have same: "?v e1 = ?v e2" if ss: "same_symbol (expr_eliminate_eq e1 e2)"
    and ih: "\<exists>f. ?v e1 = f (?v (fst (expr_eliminate_eq e1 e2))) \<and> ?v e2 = f (?v (snd (expr_eliminate_eq e1 e2)))"
  proof -
    have "fst (expr_eliminate_eq e1 e2) = snd (expr_eliminate_eq e1 e2)"
      using ss by (auto simp: same_symbol_def split: expr.splits)
    with ih show ?thesis by metis
  qed
  have ty: "etype e1 = etype e2" using "3.prems" by (simp add: expr_eq.simps [of e1 e2] split: if_splits)
  note eq = "3.prems" [unfolded expr_eq.simps [of e1 e2]]
  show ?case
  proof (cases e1)
    case (EAnd l r)
    with eq ty show ?thesis using "3.IH"(2) [OF _ EAnd] by (intro same) simp_all
  next
    case (EOr l r)
    with eq ty show ?thesis using "3.IH"(3) [OF _ EOr] by (intro same) simp_all
  next
    case (ENot x)
    with ty obtain y where y: "e2 = ENot y" by (cases e2) auto
    with eq ENot "3.IH"(1) [OF _ ENot y] show ?thesis by simp
  qed (use eq ty in auto)
qed

section \<open>Moving negations inwards\<close>

lemma transform_cmp_value:
  assumes "symtab_ok tab"
  shows "expr_calc_value tab (transform_cmp tab eq a b) =
    expr_calc_value tab (if eq then EEqual a b else EUnequal a b)"
proof (cases "sym_type (sym_of tab a) = S_BOOLEAN")
  case True
  then show ?thesis
    using string_value_tri [OF assms, of a] boolean_not_mod [OF assms True] assms
    by (cases "curr_tri (sym_of tab a)") (auto simp: transform_cmp_def)
qed (simp add: transform_cmp_def)

lemma transform_value:
  "symtab_ok tab \<Longrightarrow> expr_calc_value tab (expr_transform tab e) = expr_calc_value tab e"
proof (induction tab e rule: expr_transform.induct)
  case (6 tab e)
  show ?case
  proof (cases "expr_transform tab e")
    case (ESymbol a)
    then show ?thesis
      using 6 by (auto simp: expr_transform.simps(6) simp flip: "6.IH"(1))
  next
    case (ENot x)
    then show ?thesis
      using 6 by (simp add: expr_transform.simps(6) flip: "6.IH"(1))
  next
    case (EAnd x y)
    then show ?thesis
      using 6 by (simp add: expr_transform.simps(6) EXPR_de_morgan flip: "6.IH"(1))
  next
    case (EOr x y)
    then show ?thesis
      using 6 by (simp add: expr_transform.simps(6) EXPR_de_morgan flip: "6.IH"(1))
  next
    case (EEqual a b)
    then show ?thesis
      using 6 by (simp add: expr_transform.simps(6) flip: "6.IH"(1))
  next
    case (EUnequal a b)
    then show ?thesis
      using 6 by (simp add: expr_transform.simps(6) flip: "6.IH"(1))
  qed
qed (simp_all add: transform_cmp_value)

text \<open>Negations stand only in front of symbols that are not constants, and no boolean symbol is
  compared with a constant.\<close>

abbreviation is_const :: "sym \<Rightarrow> bool" where
  "is_const s \<equiv> s \<in> {symbol_yes, symbol_mod, symbol_no}"

fun nnf :: "symtab \<Rightarrow> expr \<Rightarrow> bool" where
  "nnf tab (ENot e) = (case e of ESymbol a \<Rightarrow> \<not> is_const a | _ \<Rightarrow> False)"
| "nnf tab (EAnd l r) = (nnf tab l \<and> nnf tab r)"
| "nnf tab (EOr l r) = (nnf tab l \<and> nnf tab r)"
| "nnf tab (EEqual a b) = (\<not> (sym_type (sym_of tab a) = S_BOOLEAN \<and> is_const b))"
| "nnf tab (EUnequal a b) = (\<not> (sym_type (sym_of tab a) = S_BOOLEAN \<and> is_const b))"
| "nnf tab (ESymbol a) = True"

text \<open>A boolean constant does not exist: the constants have no type.\<close>

lemma boolean_not_const:
  "symtab_ok tab \<Longrightarrow> sym_type (sym_of tab a) = S_BOOLEAN \<Longrightarrow> \<not> is_const a"
  by (auto simp: symtab_ok_def const_symbol_def)

lemma transform_cmp_nnf: "symtab_ok tab \<Longrightarrow> nnf tab (transform_cmp tab eq a b)"
  using boolean_not_const [of tab a] by (auto simp: transform_cmp_def)

lemma transform_nnf: "symtab_ok tab \<Longrightarrow> nnf tab (expr_transform tab e)"
proof (induction tab e rule: expr_transform.induct)
  case (6 tab e)
  then show ?case
    by (cases "expr_transform tab e") (auto simp: expr_transform.simps(6) split: expr.splits)
qed (simp_all add: transform_cmp_nnf)

lemma nnf_transform: "nnf tab e \<Longrightarrow> expr_transform tab e = e"
  by (induction tab e rule: nnf.induct)
     (auto simp: expr_transform.simps(6) transform_cmp_def split: expr.splits)

section \<open>Joining operands\<close>

text \<open>The string of a boolean or tristate symbol, by cases of its value.\<close>

lemma tri_cases:
  assumes "symtab_ok tab" and "sym_type (sym_of tab a) = S_BOOLEAN \<or> sym_type (sym_of tab a) = S_TRISTATE"
  obtains "curr_tri (sym_of tab a) = T_no" "sym_get_string_value tab a = ''n''"
  | "curr_tri (sym_of tab a) = T_mod" "sym_get_string_value tab a = ''m''" "sym_type (sym_of tab a) = S_TRISTATE"
  | "curr_tri (sym_of tab a) = T_yes" "sym_get_string_value tab a = ''y''"
  using string_value_tri [OF assms] boolean_not_mod [OF assms(1), of a] assms(2)
  by (cases "curr_tri (sym_of tab a)") auto

lemma join_or_value:
  assumes tab: "symtab_ok tab" and "expr_join_or tab e1 e2 = Some e"
  shows "expr_calc_value tab e = EXPR_OR (expr_calc_value tab e1) (expr_calc_value tab e2)"
proof (cases "expr_eq e1 e2")
  case True
  with assms(2) elim_eq_sound(3) [OF tab True] show ?thesis by (simp add: expr_join_or_def)
next
  case False
  with assms(2) obtain a where a: "join_sym1 e1 = Some a" "join_sym2 e2 = Some a"
      "sym_type (sym_of tab a) = S_BOOLEAN \<or> sym_type (sym_of tab a) = S_TRISTATE"
    by (auto simp: expr_join_or_def Let_def split: option.splits if_splits)
  show ?thesis
    using assms(2) False tab
    by (cases rule: tri_cases [OF tab a(3)])
       (auto simp: expr_join_or_def a(1,2) Let_def pair_cmp_def sym_with_def split: if_splits)
qed

lemma join_eq_uneq_value:
  assumes tab: "symtab_ok tab" and "join_eq_uneq tab e1 e2 = Some e"
    and "join_sym1 e1 = Some a" and "join_sym2 e2 = Some a"
  shows "expr_calc_value tab e = EXPR_AND (expr_calc_value tab e1) (expr_calc_value tab e2)"
  using assms(2-4) const_inject [OF tab]
  by (auto simp: join_eq_uneq_def join_sym1_def join_sym2_def tab split: expr.splits if_splits)

lemma join_and_value:
  assumes tab: "symtab_ok tab" and "expr_join_and tab e1 e2 = Some e"
  shows "expr_calc_value tab e = EXPR_AND (expr_calc_value tab e1) (expr_calc_value tab e2)"
proof (cases "expr_eq e1 e2")
  case True
  with assms(2) elim_eq_sound(3) [OF tab True] show ?thesis by (simp add: expr_join_and_def)
next
  case False
  with assms(2) obtain a where a: "join_sym1 e1 = Some a" "join_sym2 e2 = Some a"
      "sym_type (sym_of tab a) = S_BOOLEAN \<or> sym_type (sym_of tab a) = S_TRISTATE"
    by (auto simp: expr_join_and_def Let_def split: option.splits if_splits)
  show ?thesis
  proof (cases "join_eq_uneq tab e1 e2 = Some e")
    case True
    then show ?thesis by (rule join_eq_uneq_value [OF tab _ a(1,2)])
  next
    case no_eu: False
    have "sym_with e1 e2 a (EEqual a symbol_yes) \<and> e = EEqual a symbol_yes \<or>
        sym_with e1 e2 a (EUnequal a symbol_no) \<and> e = ESymbol a \<or>
        sym_with e1 e2 a (EUnequal a symbol_mod) \<and> e = EEqual a symbol_yes \<or>
        pair_cmp EUnequal e1 e2 a symbol_yes symbol_no \<and> e = EEqual a symbol_mod \<or>
        pair_cmp EUnequal e1 e2 a symbol_yes symbol_mod \<and> e = EEqual a symbol_no \<or>
        pair_cmp EUnequal e1 e2 a symbol_mod symbol_no \<and> e = EEqual a symbol_yes"
      using assms(2) no_eu
      by (simp add: expr_join_and_def False a(1,2) Let_def split: if_splits option.splits)
    then show ?thesis
      unfolding sym_with_def pair_cmp_def
      by (cases rule: tri_cases [OF tab a(3)]; elim disjE conjE; simp add: tab)
  qed
qed

section \<open>Common parts\<close>

definition part_value :: "symtab \<Rightarrow> expr_type \<Rightarrow> expr option \<Rightarrow> tristate" where
  "part_value tab ty p = expr_calc_value tab (case p of None \<Rightarrow> neutral ty | Some q \<Rightarrow> q)"

lemma extract_eq_value:
  assumes tab: "symtab_ok tab"
  shows "expr_extract_eq ty ep e1 e2 = (p, a, b) \<Longrightarrow> \<exists>x.
    part_value tab ty p = jop ty (part_value tab ty ep) x \<and>
    expr_calc_value tab e1 = jop ty (expr_calc_value tab a) x \<and>
    expr_calc_value tab e2 = jop ty (expr_calc_value tab b) x"
proof (induction ty ep e1 e2 arbitrary: p a b rule: expr_extract_eq.induct)
  case (1 ty ep e1 e2)
  let ?v = "expr_calc_value tab" and ?p = "part_value tab ty"
  note simp = expr_extract_eq.simps [of ty ep e1 e2]
  have ne: "jop ty (?v (neutral ty)) z = z" "jop ty z (?v (neutral ty)) = z" for z
    using jop_neutral [OF tab] jop_ac(1) by metis+
  show ?case
  proof (cases "operands ty e1")
    case (Some lr)
    then obtain l r where lr: "operands ty e1 = Some (l, r)" by (cases lr) auto
    obtain p1 l' c where l': "expr_extract_eq ty ep l e2 = (p1, l', c)"
      by (cases "expr_extract_eq ty ep l e2")
    obtain p2 r' d where r': "expr_extract_eq ty p1 r c = (p2, r', d)"
      by (cases "expr_extract_eq ty p1 r c")
    obtain x where x: "?p p1 = jop ty (?p ep) x" "?v l = jop ty (?v l') x" "?v e2 = jop ty (?v c) x"
      using "1.IH"(3) [OF lr refl l'] by blast
    obtain y where y: "?p p2 = jop ty (?p p1) y" "?v r = jop ty (?v r') y" "?v c = jop ty (?v d) y"
      using "1.IH"(4) [OF lr refl l' [symmetric] refl refl r'] by blast
    have e1: "?v e1 = jop ty (?v l) (?v r)" using operands_Some [OF lr] by simp
    have "p = p2" "a = expr_alloc_two ty l' r'" "b = d"
      using "1.prems" by (simp_all add: simp lr l' r')
    then show ?thesis
      using e1 x y by (intro exI [of _ "jop ty x y"]) (simp add: jop_ac)
  next
    case None
    show ?thesis
    proof (cases "operands ty e2")
      case (Some lr)
      then obtain l r where lr: "operands ty e2 = Some (l, r)" by (cases lr) auto
      obtain p1 c l' where l': "expr_extract_eq ty ep e1 l = (p1, c, l')"
        by (cases "expr_extract_eq ty ep e1 l")
      obtain p2 d r' where r': "expr_extract_eq ty p1 c r = (p2, d, r')"
        by (cases "expr_extract_eq ty p1 c r")
      obtain x where x: "?p p1 = jop ty (?p ep) x" "?v e1 = jop ty (?v c) x" "?v l = jop ty (?v l') x"
        using "1.IH"(1) [OF None lr refl l'] by blast
      obtain y where y: "?p p2 = jop ty (?p p1) y" "?v c = jop ty (?v d) y" "?v r = jop ty (?v r') y"
        using "1.IH"(2) [OF None lr refl l' [symmetric] refl refl r'] by blast
      have e2: "?v e2 = jop ty (?v l) (?v r)" using operands_Some [OF lr] by simp
      have "p = p2" "a = d" "b = expr_alloc_two ty l' r'"
        using "1.prems" by (simp_all add: simp None lr l' r')
      then show ?thesis
        using e2 x y by (intro exI [of _ "jop ty x y"]) (simp add: jop_ac)
    next
      case None2: None
      show ?thesis
      proof (cases "expr_eq e1 e2")
        case True
        with elim_eq_sound(3) [OF tab True] "1.prems" None None2 show ?thesis
          by (intro exI [of _ "?v e1"]) (auto simp: simp part_value_def ne split: option.splits)
      next
        case False
        with "1.prems" None None2 show ?thesis
          by (intro exI [of _ "?v (neutral ty)"]) (auto simp: simp ne)
      qed
    qed
  qed
qed

section \<open>Comparisons with a constant\<close>

primrec neg_free :: "expr \<Rightarrow> bool" where
  "neg_free (ESymbol a) = True"
| "neg_free (ENot e) = False"
| "neg_free (EAnd l r) = (neg_free l \<and> neg_free r)"
| "neg_free (EOr l r) = (neg_free l \<and> neg_free r)"
| "neg_free (EEqual a b) = True"
| "neg_free (EUnequal a b) = True"

text \<open>A symbol that may stand alone in a dependency: a boolean, a tristate or a constant.\<close>

definition logic_symbol :: "symtab \<Rightarrow> sym \<Rightarrow> bool" where
  "logic_symbol tab a \<longleftrightarrow>
     sym_type (sym_of tab a) = S_BOOLEAN \<or> sym_type (sym_of tab a) = S_TRISTATE \<or> is_const a"

primrec logic_expr :: "symtab \<Rightarrow> expr \<Rightarrow> bool" where
  "logic_expr tab (ESymbol a) = logic_symbol tab a"
| "logic_expr tab (ENot e) = logic_expr tab e"
| "logic_expr tab (EAnd l r) = (logic_expr tab l \<and> logic_expr tab r)"
| "logic_expr tab (EOr l r) = (logic_expr tab l \<and> logic_expr tab r)"
| "logic_expr tab (EEqual a b) = True"
| "logic_expr tab (EUnequal a b) = True"

lemma logic_symbol_string:
  assumes "symtab_ok tab" and "logic_symbol tab a" and "s \<in> {symbol_yes, symbol_no}"
  shows "sym_get_string_value tab a = sym_get_string_value tab s \<longleftrightarrow>
    curr_tri (sym_of tab a) = curr_tri (sym_of tab s)"
proof (cases "is_const a")
  case True
  with assms show ?thesis by auto
next
  case False
  then have "sym_type (sym_of tab a) = S_BOOLEAN \<or> sym_type (sym_of tab a) = S_TRISTATE"
    using assms(2) by (auto simp: logic_symbol_def)
  from string_value_tri [OF assms(1) this] have "sym_get_string_value tab a =
      (case curr_tri (sym_of tab a) of T_no \<Rightarrow> ''n'' | T_mod \<Rightarrow> ''m'' | T_yes \<Rightarrow> ''y'')" .
  then show ?thesis
    using assms(1,3) by (elim insertE emptyE; cases "curr_tri (sym_of tab a)"; simp)
qed

lemma EXPR_eq_yes_no:
  "EXPR_AND a b = T_yes \<longleftrightarrow> a = T_yes \<and> b = T_yes" "EXPR_AND a b = T_no \<longleftrightarrow> a = T_no \<or> b = T_no"
  "EXPR_OR a b = T_yes \<longleftrightarrow> a = T_yes \<or> b = T_yes" "EXPR_OR a b = T_no \<longleftrightarrow> a = T_no \<and> b = T_no"
  by (cases a; cases b; simp add: tri_simps)+

lemma EXPR_mono:
  "a \<le> a' \<Longrightarrow> b \<le> b' \<Longrightarrow> EXPR_AND a b \<le> EXPR_AND a' b'"
  "a \<le> a' \<Longrightarrow> b \<le> b' \<Longrightarrow> EXPR_OR a b \<le> EXPR_OR a' b'"
  unfolding EXPR_AND_min EXPR_OR_max by (rule min.mono max.mono; assumption)+

lemma trans_compare_value:
  assumes "symtab_ok tab" and "s \<in> {symbol_yes, symbol_no}"
  shows "neg_free e \<Longrightarrow> logic_expr tab e \<Longrightarrow>
    \<exists>e'. expr_trans_compare e eq s = Some e' \<and>
      expr_calc_value tab e' =
        (if (expr_calc_value tab e = curr_tri (sym_of tab s)) = eq then T_yes else T_no)"
proof (induction e arbitrary: eq)
  case (ESymbol a)
  then show ?case
    using logic_symbol_string [OF assms(1) _ assms(2), of a] by auto
next
  case (EAnd l r)
  from EAnd.IH(1) [of True] EAnd.IH(2) [of True] EAnd.prems obtain l' r' where
    "expr_trans_compare l True s = Some l'" "expr_trans_compare r True s = Some r'"
    "expr_calc_value tab l' = (if expr_calc_value tab l = curr_tri (sym_of tab s) then T_yes else T_no)"
    "expr_calc_value tab r' = (if expr_calc_value tab r = curr_tri (sym_of tab s) then T_yes else T_no)"
    by auto
  with assms show ?case by (auto simp: Let_def EXPR_eq_yes_no)
next
  case (EOr l r)
  from EOr.IH(1) [of True] EOr.IH(2) [of True] EOr.prems obtain l' r' where
    "expr_trans_compare l True s = Some l'" "expr_trans_compare r True s = Some r'"
    "expr_calc_value tab l' = (if expr_calc_value tab l = curr_tri (sym_of tab s) then T_yes else T_no)"
    "expr_calc_value tab r' = (if expr_calc_value tab r = curr_tri (sym_of tab s) then T_yes else T_no)"
    by auto
  with assms show ?case by (auto simp: Let_def EXPR_eq_yes_no)
qed (use assms in auto)

lemma trans_bool_value:
  assumes "symtab_ok tab"
  shows "neg_free e \<Longrightarrow> expr_calc_value tab (expr_trans_bool tab e) \<le> expr_calc_value tab e \<and>
    (expr_calc_value tab (expr_trans_bool tab e) = T_no \<longleftrightarrow> expr_calc_value tab e = T_no)"
proof (induction e)
  case (EUnequal a b)
  then show ?case
    using string_value_tri [OF assms, of a] assms
    by (cases "curr_tri (sym_of tab a)") (auto simp: less_eq_tristate_def)
qed (auto simp: EXPR_eq_yes_no intro: EXPR_mono)

section \<open>A table for the witnesses\<close>

text \<open>\<^verbatim>\<open>Sym 0\<close> is a tristate with the value \<^verbatim>\<open>m\<close>, \<^verbatim>\<open>Sym 1\<close> a boolean with the value \<^verbatim>\<open>y\<close>, all others are
  tristates that are \<^verbatim>\<open>n\<close>.\<close>

definition demo_tab :: symtab where
  "demo_tab = \<lparr>sym_of = (\<lambda>s. case s of
       symbol_yes \<Rightarrow> const_symbol ''y'' T_yes
     | symbol_mod \<Rightarrow> const_symbol ''m'' T_mod
     | symbol_no \<Rightarrow> const_symbol ''n'' T_no
     | Sym n \<Rightarrow> \<lparr>sym_name = Some ''FOO'', sym_type = (if n = 1 then S_BOOLEAN else S_TRISTATE), sym_const = False,
         curr_val = [], curr_tri = (if n = 0 then T_mod else if n = 1 then T_yes else T_no)\<rparr>),
     modules_tri = T_yes\<rparr>"

lemma symtab_ok_demo [simp]: "symtab_ok demo_tab"
  unfolding symtab_ok_def
  by (simp add: demo_tab_def) (auto simp: const_symbol_def sym_get_string_value_def split: sym.splits if_splits)

section \<open>Properties\<close>

text \<open>
  C18. \<^verbatim>\<open>expr_eliminate_yn\<close> keeps the value of an expression, leaves no constant \<^verbatim>\<open>y\<close> or \<^verbatim>\<open>n\<close> as an
  operand of a junction, never enlarges the expression, and has nothing left to do on its own
  result.
\<close>

theorem expr_eliminate_yn_correct:
  assumes "symtab_ok tab"
  shows "expr_calc_value tab (expr_eliminate_yn e) = expr_calc_value tab e \<and>
    yn_free (expr_eliminate_yn e) \<and> size (expr_eliminate_yn e) \<le> size e \<and>
    expr_eliminate_yn (expr_eliminate_yn e) = expr_eliminate_yn e"
  using eliminate_yn_value [OF assms] eliminate_yn_free eliminate_yn_size yn_free_id by blast

theorem expr_eliminate_yn_correct_witness:
  "expr_calc_value demo_tab (expr_eliminate_yn (EAnd (ESymbol symbol_yes) (EOr (ESymbol (Sym 0)) (ESymbol symbol_no)))) = T_mod"
  using expr_eliminate_yn_correct [OF symtab_ok_demo, of "EAnd (ESymbol symbol_yes) (EOr (ESymbol (Sym 0)) (ESymbol symbol_no))"]
  by (simp add: demo_tab_def const_symbol_def tri_simps)

text \<open>
  C19. \<^verbatim>\<open>expr_eq\<close> is sound: expressions it calls equal have the same value in every state of the
  symbols. For the expressions that \<^verbatim>\<open>expr_eliminate_eq\<close> leaves of two expressions, one function
  maps both values back to the values of the originals, so whatever makes the rests equal
  makes the originals equal.
\<close>

theorem expr_eq_sound:
  assumes "symtab_ok tab"
  shows "(expr_eq e1 e2 \<longrightarrow> expr_calc_value tab e1 = expr_calc_value tab e2) \<and>
    (\<exists>f. expr_calc_value tab e1 = f (expr_calc_value tab (fst (expr_eliminate_eq e1 e2))) \<and>
         expr_calc_value tab e2 = f (expr_calc_value tab (snd (expr_eliminate_eq e1 e2))))"
  using elim_eq_sound(2,3) [OF assms] by blast

theorem expr_eq_sound_witness:
  "expr_calc_value demo_tab (EAnd (ESymbol (Sym 0)) (ESymbol (Sym 1))) =
   expr_calc_value demo_tab (EAnd (ESymbol (Sym 1)) (ESymbol (Sym 0)))"
proof -
  have "expr_eq (EAnd (ESymbol (Sym 0)) (ESymbol (Sym 1))) (EAnd (ESymbol (Sym 1)) (ESymbol (Sym 0)))"
    by (simp add: elim_eq_simps neutral_def expr_alloc_two_def same_symbol_def)
  then show ?thesis
    using expr_eq_sound [OF symtab_ok_demo] by blast
qed

text \<open>
  C20. \<^verbatim>\<open>expr_transform\<close> keeps the value of an expression and brings it into a normal form:
  negations only in front of symbols that are not constants, no comparison of a boolean with a
  constant. Expressions in that form are left alone.
\<close>

theorem expr_transform_correct:
  assumes "symtab_ok tab"
  shows "expr_calc_value tab (expr_transform tab e) = expr_calc_value tab e \<and>
    nnf tab (expr_transform tab e) \<and> (nnf tab e \<longrightarrow> expr_transform tab e = e)"
  using transform_value [OF assms] transform_nnf [OF assms] nnf_transform by blast

theorem expr_transform_correct_witness:
  "expr_calc_value demo_tab (expr_transform demo_tab (ENot (EAnd (ESymbol (Sym 0)) (EEqual (Sym 1) symbol_no)))) = T_yes"
  using expr_transform_correct [OF symtab_ok_demo, of "ENot (EAnd (ESymbol (Sym 0)) (EEqual (Sym 1) symbol_no))"]
  by (simp add: demo_tab_def const_symbol_def tri_simps sym_get_string_value_def)

text \<open>
  When \<^verbatim>\<open>expr_join_or\<close> or \<^verbatim>\<open>expr_join_and\<close> replaces two operands by one expression, that
  expression has the value of the disjunction or conjunction of the two.
\<close>

theorem expr_join_correct:
  assumes "symtab_ok tab"
  shows "(\<forall>e. expr_join_or tab e1 e2 = Some e \<longrightarrow>
      expr_calc_value tab e = EXPR_OR (expr_calc_value tab e1) (expr_calc_value tab e2)) \<and>
    (\<forall>e. expr_join_and tab e1 e2 = Some e \<longrightarrow>
      expr_calc_value tab e = EXPR_AND (expr_calc_value tab e1) (expr_calc_value tab e2))"
  using join_or_value [OF assms] join_and_value [OF assms] by blast

theorem expr_join_correct_witness:
  "expr_calc_value demo_tab (EEqual (Sym 0) symbol_yes) =
   EXPR_AND (expr_calc_value demo_tab (EUnequal (Sym 0) symbol_mod)) (expr_calc_value demo_tab (EUnequal (Sym 0) symbol_no))"
proof -
  have "expr_join_and demo_tab (EUnequal (Sym 0) symbol_mod) (EUnequal (Sym 0) symbol_no) = Some (EEqual (Sym 0) symbol_yes)"
    by (simp add: expr_join_and_def elim_eq_simps join_sym1_def join_sym2_def join_eq_uneq_def pair_cmp_def sym_with_def demo_tab_def)
  then show ?thesis
    using expr_join_correct [OF symtab_ok_demo] by blast
qed

text \<open>
  \<^verbatim>\<open>expr_extract_eq_and\<close> splits two expressions into a common part and two rests: each
  expression has the value of the conjunction of its rest and the common part (\<^verbatim>\<open>y\<close> when there
  is none). \<^verbatim>\<open>expr_extract_eq_or\<close> does the same for disjunctions.
\<close>

theorem expr_extract_eq_correct:
  assumes "symtab_ok tab" and "expr_extract_eq_and e1 e2 = (p, a, b)" and "expr_extract_eq_or e1 e2 = (q, c, d)"
  shows "expr_calc_value tab e1 = EXPR_AND (expr_calc_value tab a) (part_value tab E_AND p) \<and>
    expr_calc_value tab e2 = EXPR_AND (expr_calc_value tab b) (part_value tab E_AND p) \<and>
    expr_calc_value tab e1 = EXPR_OR (expr_calc_value tab c) (part_value tab E_OR q) \<and>
    expr_calc_value tab e2 = EXPR_OR (expr_calc_value tab d) (part_value tab E_OR q)"
proof -
  let ?v = "expr_calc_value tab"
  have core: "?v e1 = jop ty (?v x) (part_value tab ty z) \<and> ?v e2 = jop ty (?v y) (part_value tab ty z)"
    if eq: "expr_extract_eq ty None e1 e2 = (z, x, y)" for ty z x y
    using extract_eq_value [OF assms(1) eq] jop_neutral [OF assms(1)] by (auto simp: part_value_def)
  obtain p' a' b' where e: "expr_extract_eq E_AND None e1 e2 = (p', a', b')"
    by (cases "expr_extract_eq E_AND None e1 e2")
  obtain q' c' d' where f: "expr_extract_eq E_OR None e1 e2 = (q', c', d')"
    by (cases "expr_extract_eq E_OR None e1 e2")
  have "p = p' \<and> ?v a = ?v a' \<and> ?v b = ?v b'" "q = q' \<and> ?v c = ?v c' \<and> ?v d = ?v d'"
    using assms(2,3) by (auto simp: expr_extract_eq_and_def expr_extract_eq_or_def e f
        eliminate_yn_value [OF assms(1)] split: option.splits)
  then show ?thesis
    using core [OF e] core [OF f] by (simp add: jop_def)
qed

theorem expr_extract_eq_correct_witness:
  "\<exists>p a b. expr_extract_eq_and (EAnd (ESymbol (Sym 0)) (ESymbol (Sym 1))) (ESymbol (Sym 0)) = (p, a, b) \<and>
    expr_calc_value demo_tab (EAnd (ESymbol (Sym 0)) (ESymbol (Sym 1))) =
      EXPR_AND (expr_calc_value demo_tab a) (part_value demo_tab E_AND p)"
proof -
  let ?e1 = "EAnd (ESymbol (Sym 0)) (ESymbol (Sym 1))" and ?e2 = "ESymbol (Sym 0)"
  obtain p a b q c d where "expr_extract_eq_and ?e1 ?e2 = (p, a, b)" "expr_extract_eq_or ?e1 ?e2 = (q, c, d)"
    by (metis prod_cases3)
  with expr_extract_eq_correct [OF symtab_ok_demo this] show ?thesis by blast
qed

text \<open>
  \<^verbatim>\<open>expr_trans_compare\<close> with \<^verbatim>\<open>y\<close> or \<^verbatim>\<open>n\<close> turns the comparison of a whole expression into
  comparisons of its symbols: without negations the result is \<^verbatim>\<open>y\<close> exactly when the comparison
  holds, and \<^verbatim>\<open>n\<close> otherwise. A negation is handled by flipping the comparison, which is wrong for
  a symbol with the value \<^verbatim>\<open>m\<close>: \<^verbatim>\<open>!FOO != n\<close> holds then, but the result is \<^verbatim>\<open>n\<close>.
\<close>

theorem expr_trans_compare_correct:
  assumes "symtab_ok tab" and "s \<in> {symbol_yes, symbol_no}" and "neg_free e" and "logic_expr tab e"
  shows "(\<exists>e'. expr_trans_compare e eq s = Some e' \<and> expr_calc_value tab e' =
        (if (expr_calc_value tab e = curr_tri (sym_of tab s)) = eq then T_yes else T_no)) \<and>
    (\<forall>a. sym_type (sym_of tab a) = S_TRISTATE \<and> curr_tri (sym_of tab a) = T_mod \<longrightarrow>
       expr_calc_value tab (ENot (ESymbol a)) \<noteq> T_no \<and>
       (\<exists>e'. expr_trans_compare (ENot (ESymbol a)) False symbol_no = Some e' \<and> expr_calc_value tab e' = T_no))"
proof -
  have "expr_calc_value tab (EEqual a symbol_no) = T_no"
    if "sym_type (sym_of tab a) = S_TRISTATE" "curr_tri (sym_of tab a) = T_mod" for a
    using string_value_tri [OF assms(1), of a] that assms(1) by simp
  then show ?thesis
    using trans_compare_value [OF assms(1,2,3,4), of eq] by simp
qed

theorem expr_trans_compare_correct_witness:
  "\<exists>e'. expr_trans_compare (EOr (ESymbol (Sym 0)) (ESymbol (Sym 1))) False symbol_no = Some e' \<and>
    expr_calc_value demo_tab e' = T_yes"
proof -
  let ?e = "EOr (ESymbol (Sym 0)) (ESymbol (Sym 1))"
  have "logic_expr demo_tab ?e" "expr_calc_value demo_tab ?e = T_yes" "curr_tri (sym_of demo_tab symbol_no) = T_no"
    by (simp_all add: logic_symbol_def demo_tab_def const_symbol_def tri_simps)
  with expr_trans_compare_correct [OF symtab_ok_demo, of symbol_no ?e False, THEN conjunct1] show ?thesis by simp
qed

text \<open>
  \<^verbatim>\<open>expr_trans_bool\<close>, which replaces \<^verbatim>\<open>FOO!=n\<close> by \<^verbatim>\<open>FOO\<close> for tristate symbols, does not keep the
  value (\<^verbatim>\<open>y\<close> becomes \<^verbatim>\<open>m\<close> when \<^verbatim>\<open>FOO\<close> is \<^verbatim>\<open>m\<close>), but on expressions without negations the value
  can only drop, and never to \<^verbatim>\<open>n\<close>: whether a dependency is met at all is unchanged.
\<close>

theorem expr_trans_bool_correct:
  assumes "symtab_ok tab" and "neg_free e"
  shows "expr_calc_value tab (expr_trans_bool tab e) \<le> expr_calc_value tab e \<and>
    (expr_calc_value tab (expr_trans_bool tab e) = T_no \<longleftrightarrow> expr_calc_value tab e = T_no)"
  using trans_bool_value [OF assms] .

theorem expr_trans_bool_correct_witness:
  "expr_calc_value demo_tab (expr_trans_bool demo_tab (EUnequal (Sym 0) symbol_no)) < expr_calc_value demo_tab (EUnequal (Sym 0) symbol_no)"
proof -
  have "expr_calc_value demo_tab (expr_trans_bool demo_tab (EUnequal (Sym 0) symbol_no)) \<noteq>
      expr_calc_value demo_tab (EUnequal (Sym 0) symbol_no)"
    by (simp add: demo_tab_def const_symbol_def sym_get_string_value_def)
  moreover have "neg_free (EUnequal (Sym 0) symbol_no)" by simp
  ultimately show ?thesis
    using expr_trans_bool_correct [OF symtab_ok_demo] by (metis order_le_imp_less_or_eq)
qed

text \<open>
  An expression that does not contain a symbol (\<^verbatim>\<open>expr_contains_symbol\<close>) has the same value
  whatever that symbol is; an expression that depends on a boolean or tristate symbol
  (\<^verbatim>\<open>expr_depends_symbol\<close>) is \<^verbatim>\<open>n\<close> whenever the symbol is.
\<close>

theorem expr_symbol_tests_correct:
  assumes "symtab_ok tab"
  shows "(\<not> expr_contains_symbol e s \<longrightarrow>
      expr_calc_value (tab\<lparr>sym_of := (sym_of tab)(s := y)\<rparr>) e = expr_calc_value tab e) \<and>
    (expr_depends_symbol e s \<and> logic_symbol tab s \<and> curr_tri (sym_of tab s) = T_no \<longrightarrow>
      expr_calc_value tab e = T_no)"
proof -
  have str: "sym_get_string_value (tab\<lparr>sym_of := (sym_of tab)(s := y)\<rparr>) a = sym_get_string_value tab a"
    if "a \<noteq> s" for a
    using that by (simp add: sym_get_string_value_def Let_def)
  have "\<not> expr_contains_symbol e s \<Longrightarrow>
      expr_calc_value (tab\<lparr>sym_of := (sym_of tab)(s := y)\<rparr>) e = expr_calc_value tab e"
    by (induction e) (auto simp: str)
  moreover have "logic_symbol tab s \<Longrightarrow> curr_tri (sym_of tab s) = T_no \<Longrightarrow> sym_get_string_value tab s = ''n''"
    using logic_symbol_string [OF assms, of s symbol_no] assms by simp
  then have "expr_depends_symbol e s \<Longrightarrow> logic_symbol tab s \<Longrightarrow> curr_tri (sym_of tab s) = T_no \<Longrightarrow>
      expr_calc_value tab e = T_no"
    using assms by (induction e) auto
  ultimately show ?thesis by blast
qed

theorem expr_symbol_tests_correct_witness:
  "expr_calc_value demo_tab (EAnd (ESymbol (Sym 0)) (EUnequal (Sym 7) symbol_no)) = T_no"
  using expr_symbol_tests_correct [OF symtab_ok_demo, of "EAnd (ESymbol (Sym 0)) (EUnequal (Sym 7) symbol_no)" "Sym 7"]
  by (simp add: logic_symbol_def demo_tab_def)

end
