(* ===== verification/Kconfig_Print.thy ===== *)
theory Kconfig_Print
  imports Kconfig_Expr
begin

text \<open>
  The printer of dependency expressions (\<^verbatim>\<open>expr_print\<close> and its callers in \<^verbatim>\<open>scripts/config/expr.c\<close>) and the growable
  string it prints to (\<^verbatim>\<open>scripts/config/util.c\<close>). The printer calls a function with a symbol, or NULL, and a
  text for each piece; the calls are a list here. The text is NULL (\<open>None\<close>) when a symbol without
  name stands on the right of a comparison.
\<close>

section \<open>Model\<close>

text \<open>\<^verbatim>\<open>expr_compare_type\<close>: the cases of the switch fall through from the type \<open>t1\<close> on.\<close>

definition compare_list :: "expr_type \<Rightarrow> int" where
  "compare_list t2 = (if t2 = E_NONE then 1 else - 1)"

definition compare_or :: "expr_type \<Rightarrow> int" where
  "compare_or t2 = (if t2 = E_LIST then 1 else compare_list t2)"

definition compare_and :: "expr_type \<Rightarrow> int" where
  "compare_and t2 = (if t2 = E_OR then 1 else compare_or t2)"

definition compare_not :: "expr_type \<Rightarrow> int" where
  "compare_not t2 = (if t2 = E_AND then 1 else compare_and t2)"

definition compare_equal :: "expr_type \<Rightarrow> int" where
  "compare_equal t2 = (if t2 = E_NOT then 1 else compare_not t2)"

definition expr_compare_type :: "expr_type \<Rightarrow> expr_type \<Rightarrow> int" where
  "expr_compare_type t1 t2 =
     (if t1 = t2 then 0
      else if t1 = E_EQUAL \<or> t1 = E_UNEQUAL then compare_equal t2
      else if t1 = E_NOT then compare_not t2
      else if t1 = E_AND then compare_and t2
      else if t1 = E_OR then compare_or t2
      else if t1 = E_LIST then compare_list t2
      else - 1)"

type_synonym piece = "sym option \<times> string option"

definition print_text :: "string \<Rightarrow> piece" where
  "print_text s = (None, Some s)"

definition print_left :: "symtab \<Rightarrow> sym \<Rightarrow> piece" where
  "print_left tab s =
     (case sym_name (sym_of tab s) of Some n \<Rightarrow> (Some s, Some n) | None \<Rightarrow> print_text ''<choice>'')"

definition print_right :: "symtab \<Rightarrow> sym \<Rightarrow> piece" where
  "print_right tab s = (Some s, sym_name (sym_of tab s))"

fun expr_print :: "symtab \<Rightarrow> expr \<Rightarrow> expr_type \<Rightarrow> piece list" where
  "expr_print tab e prevtoken =
     (if expr_compare_type prevtoken (etype e) > 0 then [print_text ''(''] else []) @
     (case e of
        ESymbol s \<Rightarrow> [print_left tab s]
      | ENot x \<Rightarrow> print_text ''!'' # expr_print tab x E_NOT
      | EEqual s t \<Rightarrow> [print_left tab s, print_text ''='', print_right tab t]
      | EUnequal s t \<Rightarrow> [print_left tab s, print_text ''!='', print_right tab t]
      | EOr l r \<Rightarrow> expr_print tab l E_OR @ print_text '' || '' # expr_print tab r E_OR
      | EAnd l r \<Rightarrow> expr_print tab l E_AND @ print_text '' && '' # expr_print tab r E_AND) @
     (if expr_compare_type prevtoken (etype e) > 0 then [print_text '')''] else [])"

definition expr_print_ptr :: "symtab \<Rightarrow> expr option \<Rightarrow> expr_type \<Rightarrow> piece list" where
  "expr_print_ptr tab e prevtoken = (case e of None \<Rightarrow> [print_text ''y''] | Some x \<Rightarrow> expr_print tab x prevtoken)"

text \<open>\<^verbatim>\<open>expr_fprint\<close>: \<^verbatim>\<open>expr_print_file_helper\<close> writes the text of each piece to the file; \<^verbatim>\<open>strlen\<close> of NULL is undefined.\<close>

fun print_file :: "piece list \<Rightarrow> string \<Rightarrow> string outcome" where
  "print_file [] file = Ret file"
| "print_file ((_, None) # ps) file = Undef"
| "print_file ((_, Some s) # ps) file = print_file ps (file @ s)"

definition expr_fprint :: "symtab \<Rightarrow> expr option \<Rightarrow> string \<Rightarrow> string outcome" where
  "expr_fprint tab e file = print_file (expr_print_ptr tab e E_NONE) file"

text \<open>The growable string: \<open>gs_len\<close> is the size of the allocated memory, which includes the NUL.\<close>

record gstr =
  gs_len :: nat
  gs_s :: string
  gs_max_width :: int

definition str_new :: gstr where
  "str_new = \<lparr>gs_len = 64, gs_s = '''', gs_max_width = 0\<rparr>"

definition str_assign :: "string \<Rightarrow> gstr" where
  "str_assign s = \<lparr>gs_len = length s + 1, gs_s = s, gs_max_width = 0\<rparr>"

definition str_append :: "gstr \<Rightarrow> string option \<Rightarrow> gstr outcome" where
  "str_append gs so =
     (case so of
        None \<Rightarrow> Ret gs
      | Some s \<Rightarrow>
          let l = length (gs_s gs) + length s + 1;
              gs' = (if l > gs_len gs then gs\<lparr>gs_len := l\<rparr> else gs)
          in if length (gs_s gs @ s) < gs_len gs' then Ret (gs'\<lparr>gs_s := gs_s gs @ s\<rparr>) else Undef)"

text \<open>\<^verbatim>\<open>str_printf\<close> of a formatted text: its buffer has 10000 bytes.\<close>

definition str_printf :: "gstr \<Rightarrow> string \<Rightarrow> gstr outcome" where
  "str_printf gs formatted = str_append gs (Some (take 9999 formatted))"

text \<open>The distance of the end of the string to its last newline, or to its start.\<close>

definition last_line_length :: "string \<Rightarrow> nat" where
  "last_line_length s =
     (if CHR 0x0A \<in> set s then length (takeWhile (\<lambda>c. c \<noteq> CHR 0x0A) (rev s)) + 1 else length s)"

text \<open>The comparison with \<^verbatim>\<open>max_width\<close> is unsigned; the length of a NULL text is asked for only when there is a width.\<close>

definition expr_print_gstr_helper :: "symtab \<Rightarrow> gstr \<Rightarrow> piece \<Rightarrow> gstr outcome" where
  "expr_print_gstr_helper tab gs p =
     (let (so, str) = p;
          sym_str = map_option (sym_get_string_value tab) so
      in obind
           (if gs_max_width gs \<noteq> 0 then
              (case str of
                 None \<Rightarrow> Undef
               | Some txt' \<Rightarrow>
                   let extra_length = length txt' + (case sym_str of Some v \<Rightarrow> 4 + length v | None \<Rightarrow> 0)
                   in if int (last_line_length (gs_s gs) + extra_length) > gs_max_width gs mod 2 ^ 32
                      then str_append gs (Some [CHR 0x5C, CHR 0x0A]) else Ret gs)
            else Ret gs) (\<lambda>gs.
         obind (str_append gs str) (\<lambda>gs.
         case so of
           Some s \<Rightarrow> if sym_type (sym_of tab s) \<noteq> S_UNKNOWN
             then str_printf gs ('' [='' @ sym_get_string_value tab s @ '']'') else Ret gs
         | None \<Rightarrow> Ret gs)))"

fun print_gstr :: "symtab \<Rightarrow> piece list \<Rightarrow> gstr \<Rightarrow> gstr outcome" where
  "print_gstr tab [] gs = Ret gs"
| "print_gstr tab (p # ps) gs = obind (expr_print_gstr_helper tab gs p) (print_gstr tab ps)"

definition expr_gstr_print :: "symtab \<Rightarrow> expr option \<Rightarrow> gstr \<Rightarrow> gstr outcome" where
  "expr_gstr_print tab e gs = print_gstr tab (expr_print_ptr tab e E_NONE) gs"

section \<open>The grammar of expressions\<close>

text \<open>
  Expressions in the grammar of \<^verbatim>\<open>scripts/config/zconf.y\<close>: \<^verbatim>\<open>||\<close> binds weaker than \<^verbatim>\<open>&&\<close>, both group to the left, \<^verbatim>\<open>!\<close> binds
  strongest, and a comparison has symbols on both sides. The parser keeps, as the generated one does, a stack of
  what waits for an operand to its right.
\<close>

datatype token = TSym sym | TEq | TUneq | TOpen | TClose | TNot | TOr | TAnd

datatype item = I_open | I_not | I_and expr | I_or expr

text \<open>The strength of a waiting operator; \<open>reduce n\<close> applies those of strength at least \<open>n\<close>.\<close>

fun strength :: "item \<Rightarrow> nat" where
  "strength I_open = 0"
| "strength (I_or _) = 1"
| "strength (I_and _) = 2"
| "strength I_not = 3"

fun apply_item :: "item \<Rightarrow> expr \<Rightarrow> expr" where
  "apply_item I_open e = e"
| "apply_item (I_or l) e = EOr l e"
| "apply_item (I_and l) e = EAnd l e"
| "apply_item I_not e = ENot e"

fun reduce :: "nat \<Rightarrow> item list \<Rightarrow> expr \<Rightarrow> item list \<times> expr" where
  "reduce n [] e = ([], e)"
| "reduce n (it # st) e = (if n \<le> strength it then reduce n st (apply_item it e) else (it # st, e))"

fun comparison :: "token list \<Rightarrow> (sym \<Rightarrow> expr) \<times> token list" where
  "comparison (TEq # TSym t # ts) = ((\<lambda>s. EEqual s t), ts)"
| "comparison (TUneq # TSym t # ts) = ((\<lambda>s. EUnequal s t), ts)"
| "comparison ts = (ESymbol, ts)"

lemma comparison_length: "length (snd (comparison ts)) \<le> length ts"
  by (cases ts rule: comparison.cases) auto

function parse :: "item list \<Rightarrow> expr option \<Rightarrow> token list \<Rightarrow> expr option" where
  "parse st None (t # ts) =
     (case t of
        TSym s \<Rightarrow> parse st (Some (fst (comparison ts) s)) (snd (comparison ts))
      | TNot \<Rightarrow> parse (I_not # st) None ts
      | TOpen \<Rightarrow> parse (I_open # st) None ts
      | _ \<Rightarrow> None)"
| "parse st None [] = None"
| "parse st (Some e) (t # ts) =
     (case t of
        TOr \<Rightarrow> parse (I_or (snd (reduce 1 st e)) # fst (reduce 1 st e)) None ts
      | TAnd \<Rightarrow> parse (I_and (snd (reduce 2 st e)) # fst (reduce 2 st e)) None ts
      | TClose \<Rightarrow> (case fst (reduce 1 st e) of I_open # st' \<Rightarrow> parse st' (Some (snd (reduce 1 st e))) ts | _ \<Rightarrow> None)
      | _ \<Rightarrow> None)"
| "parse st (Some e) [] = (case reduce 1 st e of ([], e') \<Rightarrow> Some e' | _ \<Rightarrow> None)"
  by pat_completeness auto
termination parse
  by (relation "measure (\<lambda>(_, _, ts). length ts)") (auto simp: le_imp_less_Suc comparison_length)

fun tok_of :: "piece \<Rightarrow> token option" where
  "tok_of (Some s, _) = Some (TSym s)"
| "tok_of (None, t) =
     (if t = Some ''='' then Some TEq else if t = Some ''!='' then Some TUneq
      else if t = Some ''('' then Some TOpen else if t = Some '')'' then Some TClose
      else if t = Some ''!'' then Some TNot else if t = Some '' || '' then Some TOr
      else if t = Some '' && '' then Some TAnd else None)"

definition tokens :: "piece list \<Rightarrow> token list" where
  "tokens ps = List.map_filter tok_of ps"

definition eqv :: "expr \<Rightarrow> expr \<Rightarrow> bool" where
  "eqv e e' \<longleftrightarrow> (\<forall>tab. expr_calc_value tab e = expr_calc_value tab e')"

text \<open>Every symbol has a name.\<close>

primrec named :: "symtab \<Rightarrow> expr \<Rightarrow> bool" where
  "named tab (ESymbol s) \<longleftrightarrow> sym_name (sym_of tab s) \<noteq> None"
| "named tab (ENot e) \<longleftrightarrow> named tab e"
| "named tab (EAnd l r) \<longleftrightarrow> named tab l \<and> named tab r"
| "named tab (EOr l r) \<longleftrightarrow> named tab l \<and> named tab r"
| "named tab (EEqual s t) \<longleftrightarrow> sym_name (sym_of tab s) \<noteq> None \<and> sym_name (sym_of tab t) \<noteq> None"
| "named tab (EUnequal s t) \<longleftrightarrow> sym_name (sym_of tab s) \<noteq> None \<and> sym_name (sym_of tab t) \<noteq> None"

text \<open>The strength of the operator an operand is printed for, and the tokens of an expression.\<close>

fun prev_level :: "expr_type \<Rightarrow> nat" where
  "prev_level E_NOT = 3"
| "prev_level E_AND = 2"
| "prev_level _ = 1"

fun etoks :: "expr \<Rightarrow> nat \<Rightarrow> token list" where
  "etoks (ESymbol s) n = [TSym s]"
| "etoks (EEqual s t) n = [TSym s, TEq, TSym t]"
| "etoks (EUnequal s t) n = [TSym s, TUneq, TSym t]"
| "etoks (ENot x) n = TNot # etoks x 3"
| "etoks (EAnd l r) n = (if n > 2 then [TOpen] else []) @ etoks l 2 @ TAnd # etoks r 2 @ (if n > 2 then [TClose] else [])"
| "etoks (EOr l r) n = (if n > 1 then [TOpen] else []) @ etoks l 1 @ TOr # etoks r 1 @ (if n > 1 then [TClose] else [])"

lemma tokens_simps [simp]:
  "tokens [] = []" "tokens (p # ps) = (case tok_of p of None \<Rightarrow> [] | Some t \<Rightarrow> [t]) @ tokens ps"
  "tokens (ps @ qs) = tokens ps @ tokens qs"
  by (simp_all add: tokens_def List.map_filter_def split: option.splits)

declare expr_print.simps [simp del]

lemma compare_prev:
  assumes "prev \<in> {E_NONE, E_OR, E_AND, E_NOT}"
  shows "expr_compare_type prev E_SYMBOL \<le> 0" "expr_compare_type prev E_EQUAL \<le> 0" "expr_compare_type prev E_UNEQUAL \<le> 0"
    "expr_compare_type prev E_NOT \<le> 0" "0 < expr_compare_type prev E_AND \<longleftrightarrow> 2 < prev_level prev"
    "0 < expr_compare_type prev E_OR \<longleftrightarrow> 1 < prev_level prev"
  using assms by (auto simp: expr_compare_type_def compare_not_def compare_and_def compare_or_def compare_list_def)

lemma print_left_tok: "sym_name (sym_of tab s) \<noteq> None \<Longrightarrow> tok_of (print_left tab s) = Some (TSym s)"
  by (auto simp: print_left_def)

lemma print_text_tok [simp]:
  "tok_of (print_text ''='') = Some TEq" "tok_of (print_text ''!='') = Some TUneq" "tok_of (print_text ''('') = Some TOpen"
  "tok_of (print_text '')'') = Some TClose" "tok_of (print_text ''!'') = Some TNot" "tok_of (print_text '' || '') = Some TOr"
  "tok_of (print_text '' && '') = Some TAnd" "tok_of (print_right tab s) = Some (TSym s)"
  by (simp_all add: print_text_def print_right_def)

lemma tokens_print:
  "named tab e \<Longrightarrow> prev \<in> {E_NONE, E_OR, E_AND, E_NOT} \<Longrightarrow> tokens (expr_print tab e prev) = etoks e (prev_level prev)"
proof (induction e arbitrary: prev)
  case (EAnd l r)
  then show ?case using compare_prev [OF EAnd.prems(2)] by (subst expr_print.simps) simp
next
  case (EOr l r)
  then show ?case using compare_prev [OF EOr.prems(2)] by (subst expr_print.simps) simp
next
  case (ENot e)
  then show ?case using compare_prev [OF ENot.prems(2)] by (subst expr_print.simps) simp
next
  case (ESymbol s)
  then show ?case using compare_prev [OF ESymbol.prems(2)] by (subst expr_print.simps) (simp add: print_left_tok)
next
  case (EEqual s t)
  then show ?case using compare_prev [OF EEqual.prems(2)] by (subst expr_print.simps) (simp add: print_left_tok)
next
  case (EUnequal s t)
  then show ?case using compare_prev [OF EUnequal.prems(2)] by (subst expr_print.simps) (simp add: print_left_tok)
qed

section \<open>Parsing what was printed\<close>

lemma eqv_refl [simp]: "eqv e e"
  by (simp add: eqv_def)

lemma eqv_trans: "eqv a b \<Longrightarrow> eqv b c \<Longrightarrow> eqv a c"
  by (simp add: eqv_def)

lemma eqv_sym: "eqv a b \<Longrightarrow> eqv b a"
  by (simp add: eqv_def)

lemma eqv_apply: "eqv e e' \<Longrightarrow> eqv (apply_item it e) (apply_item it e')"
  by (cases it) (simp_all add: eqv_def)

lemma reduce_eqv: "eqv e e' \<Longrightarrow> fst (reduce n st e) = fst (reduce n st e') \<and> eqv (snd (reduce n st e)) (snd (reduce n st e'))"
  by (induction st arbitrary: e e') (auto simp: eqv_apply)

lemma reduce_reduce: "n \<le> m \<Longrightarrow> reduce n (fst (reduce m st e)) (snd (reduce m st e)) = reduce n st e"
  by (induction st arbitrary: e) auto

lemma reduce_done: "reduce n (fst (reduce n st e)) x = (fst (reduce n st e), x)"
  by (induction st arbitrary: e) auto

lemma reduce_top: "fst (reduce n st e) = it # st' \<Longrightarrow> strength it < n"
  by (induction st arbitrary: e) (auto split: if_splits)

text \<open>Two parser states that agree once the operators of strength \<open>n\<close> are applied.\<close>

definition sim :: "nat \<Rightarrow> item list \<Rightarrow> expr \<Rightarrow> item list \<Rightarrow> expr \<Rightarrow> bool" where
  "sim n st e st' e' \<longleftrightarrow> fst (reduce n st' e') = fst (reduce n st e) \<and> eqv (snd (reduce n st' e')) (snd (reduce n st e))"

lemma sim_weaken: "sim m st e st' e' \<Longrightarrow> n \<le> m \<Longrightarrow> sim n st e st' e'"
  unfolding sim_def by (metis reduce_eqv reduce_reduce)

lemma sim_eqv: "eqv e' e \<Longrightarrow> sim n st e st e'"
  by (simp add: sim_def reduce_eqv)

text \<open>The waiting operators that an operand of strength \<open>n\<close> meets have this strength.\<close>

definition fits :: "nat \<Rightarrow> item list \<Rightarrow> bool" where
  "fits n st \<longleftrightarrow> (\<forall>it \<in> set (takeWhile (\<lambda>it. n \<le> strength it) st). strength it \<le> n)"

lemma fits_mono:
  assumes "fits n st" and "n \<le> m"
  shows "fits m st"
proof (cases "n = m")
  case False
  then have "takeWhile (\<lambda>it. m \<le> strength it) st = []"
    using assms by (cases st) (auto simp: fits_def)
  then show ?thesis by (simp add: fits_def)
qed (use assms in simp)

lemma fits_simps [simp]: "0 < n \<Longrightarrow> fits n (I_open # st)" "fits n []" "fits 3 st"
proof -
  have "strength it \<le> 3" for it by (cases it) auto
  then show "fits 3 st" by (simp add: fits_def)
qed (auto simp: fits_def)

text \<open>The two binary operators.\<close>

definition bin :: "nat \<Rightarrow> expr \<Rightarrow> expr \<Rightarrow> expr" where
  "bin n l r = (if n = 1 then EOr l r else EAnd l r)"

definition bin_tok :: "nat \<Rightarrow> token" where
  "bin_tok n = (if n = 1 then TOr else TAnd)"

definition bin_item :: "nat \<Rightarrow> expr \<Rightarrow> item" where
  "bin_item n l = (if n = 1 then I_or l else I_and l)"

lemma bin_assoc: "eqv (bin n x (bin n l r)) (bin n (bin n x l) r)"
  by (auto simp: eqv_def bin_def EXPR_OR_def EXPR_AND_def)

lemma bin_cong: "eqv l l' \<Longrightarrow> eqv (bin n l r) (bin n l' r)"
  by (auto simp: eqv_def bin_def)

lemma bin_item_strength: "n \<in> {1, 2} \<Longrightarrow> strength it = n \<Longrightarrow> \<exists>x. it = bin_item n x"
  by (cases it) (auto simp: bin_item_def)

lemma reduce_bin:
  assumes "fits n st" and "n \<in> {1, 2}"
  shows "fst (reduce n st (bin n l r)) = fst (reduce n st l) \<and> eqv (snd (reduce n st (bin n l r))) (bin n (snd (reduce n st l)) r)"
  using assms(1)
proof (induction st arbitrary: l)
  case (Cons it st)
  show ?case
  proof (cases "n \<le> strength it")
    case True
    then have "strength it \<le> n" and f: "fits n st" using Cons.prems by (auto simp: fits_def)
    then have "strength it = n" using True by simp
    with bin_item_strength [OF assms(2)] obtain x where it: "it = bin_item n x" by blast
    have a: "apply_item it e = bin n x e" for e by (simp add: it bin_item_def bin_def)
    show ?thesis
      using Cons.IH [OF f, of "bin n x l"] reduce_eqv [OF bin_assoc, of n st n x l r] True by (auto simp: a intro: eqv_trans)
  qed simp
qed simp

lemma parse_bin_tok:
  "n \<in> {1, 2} \<Longrightarrow> parse st (Some e) (bin_tok n # ts) = parse (bin_item n (snd (reduce n st e)) # fst (reduce n st e)) None ts"
  by (auto simp: bin_tok_def bin_item_def)

text \<open>What the parser does with the tokens of an expression in front of \<open>rest\<close>.\<close>

definition reads :: "nat \<Rightarrow> expr \<Rightarrow> token list \<Rightarrow> bool" where
  "reads n e ts \<longleftrightarrow> (\<forall>st rest. fits n st \<and> comparison rest = (ESymbol, rest) \<longrightarrow>
     (\<exists>st' e'. parse st None (ts @ rest) = parse st' (Some e') rest \<and> sim n st e st' e'))"

lemma reads_bin:
  assumes "n \<in> {1, 2}" and "reads n l ts" and "reads n r us"
  shows "reads n (bin n l r) (ts @ bin_tok n # us)"
  unfolding reads_def
proof (intro allI impI)
  fix st rest assume p: "fits n st \<and> comparison rest = (ESymbol, rest)"
  have "comparison (bin_tok n # us @ rest) = (ESymbol, bin_tok n # us @ rest)" by (simp add: bin_tok_def)
  with assms(2) p obtain st1 e1 where
    1: "parse st None (ts @ bin_tok n # us @ rest) = parse st1 (Some e1) (bin_tok n # us @ rest)" "sim n st l st1 e1"
    unfolding reads_def by blast
  let ?y = "snd (reduce n st1 e1)" and ?b = "fst (reduce n st1 e1)"
  have "fits n (bin_item n ?y # ?b)"
    using reduce_top [of n st1 e1] assms(1) by (cases ?b) (auto simp: fits_def bin_item_def)
  with assms(3) p obtain st2 e2 where
    2: "parse (bin_item n ?y # ?b) None (us @ rest) = parse st2 (Some e2) rest" "sim n (bin_item n ?y # ?b) r st2 e2"
    unfolding reads_def by blast
  have "reduce n (bin_item n ?y # ?b) r = (?b, bin n ?y r)"
    using reduce_done [of n st1 e1 "bin n ?y r"] assms(1) by (auto simp: bin_item_def bin_def)
  moreover have "eqv (bin n ?y r) (bin n (snd (reduce n st l)) r)" using 1(2) by (auto simp: sim_def intro: bin_cong)
  ultimately have "sim n st (bin n l r) st2 e2"
    using 1(2) 2(2) reduce_bin [OF _ assms(1), of st l r] p unfolding sim_def by (metis eqv_sym eqv_trans fst_conv snd_conv)
  then show "\<exists>st' e'. parse st None ((ts @ bin_tok n # us) @ rest) = parse st' (Some e') rest \<and> sim n st (bin n l r) st' e'"
    using 1(1) 2(1) parse_bin_tok [OF assms(1)] by auto
qed

lemma reads_paren: "reads 1 e ts \<Longrightarrow> 0 < n \<Longrightarrow> reads n e (TOpen # ts @ [TClose])"
  unfolding reads_def
proof (intro allI impI)
  fix st rest
  assume r: "\<forall>st rest. fits 1 st \<and> comparison rest = (ESymbol, rest) \<longrightarrow>
    (\<exists>st' e'. parse st None (ts @ rest) = parse st' (Some e') rest \<and> sim 1 st e st' e')"
  have "fits 1 (I_open # st) \<and> comparison (TClose # rest) = (ESymbol, TClose # rest)" by simp
  with r obtain st1 e1 where 1: "parse (I_open # st) None (ts @ TClose # rest) = parse st1 (Some e1) (TClose # rest)"
    "sim 1 (I_open # st) e st1 e1" by blast
  then have "fst (reduce 1 st1 e1) = I_open # st" "eqv (snd (reduce 1 st1 e1)) e" by (simp_all add: sim_def)
  then have "parse st None ((TOpen # ts @ [TClose]) @ rest) = parse st (Some (snd (reduce 1 st1 e1))) rest \<and>
      sim n st e st (snd (reduce 1 st1 e1))"
    using 1(1) by (simp add: sim_eqv)
  then show "\<exists>st' e'. parse st None ((TOpen # ts @ [TClose]) @ rest) = parse st' (Some e') rest \<and> sim n st e st' e'"
    by blast
qed

lemma reads_weaken: "reads m e ts \<Longrightarrow> n \<le> m \<Longrightarrow> reads n e ts"
  unfolding reads_def by (meson fits_mono sim_weaken)

lemma reads_etoks: "n \<in> {1, 2, 3} \<Longrightarrow> reads n e (etoks e n)"
proof (induction e arbitrary: n)
  case (EAnd l r)
  have b: "reads 2 (EAnd l r) (etoks l 2 @ TAnd # etoks r 2)"
    using reads_bin [of 2, OF _ EAnd.IH(1) EAnd.IH(2)] by (simp add: bin_def bin_tok_def)
  then show ?case using EAnd.prems reads_weaken [OF b, of n] reads_paren [OF reads_weaken [OF b, of 1], of n] by auto
next
  case (EOr l r)
  have b: "reads 1 (EOr l r) (etoks l 1 @ TOr # etoks r 1)"
    using reads_bin [of 1, OF _ EOr.IH(1) EOr.IH(2)] by (simp add: bin_def bin_tok_def)
  then show ?case using EOr.prems reads_paren [OF b, of n] by auto
next
  case (ENot e)
  have "reads 3 (ENot e) (TNot # etoks e 3)"
    unfolding reads_def
  proof (intro allI impI)
    fix st rest assume "fits 3 st \<and> comparison rest = (ESymbol, rest)"
    then have "fits 3 (I_not # st) \<and> comparison rest = (ESymbol, rest)" by simp
    moreover have "reads 3 e (etoks e 3)" by (rule ENot.IH) simp
    ultimately obtain st' e' where "parse (I_not # st) None (etoks e 3 @ rest) = parse st' (Some e') rest" "sim 3 (I_not # st) e st' e'"
      unfolding reads_def by blast
    then show "\<exists>st' e'. parse st None ((TNot # etoks e 3) @ rest) = parse st' (Some e') rest \<and> sim 3 st (ENot e) st' e'"
      by (auto simp: sim_def)
  qed
  then show ?case using ENot.prems reads_weaken [of 3 "ENot e" "TNot # etoks e 3" n] by auto
qed (force simp: reads_def sim_def)+

section \<open>Wrapped lines\<close>

text \<open>The lengths of the lines of a text whose first line has \<open>k\<close> characters in front of it.\<close>

fun line_lens :: "nat \<Rightarrow> string \<Rightarrow> nat list" where
  "line_lens k [] = [k]"
| "line_lens k (c # s) = (if c = CHR 0x0A then k # line_lens 0 s else line_lens (Suc k) s)"

lemma line_lens_not_empty [simp]: "line_lens k s \<noteq> []"
  by (induction s arbitrary: k) auto

lemma line_lens_append: "line_lens k (s @ t) = butlast (line_lens k s) @ line_lens (last (line_lens k s)) t"
  by (induction s arbitrary: k) auto

lemma line_lens_no_newline: "CHR 0x0A \<notin> set s \<Longrightarrow> line_lens k s = [k + length s]"
  by (induction s arbitrary: k) auto

lemma last_line_lens: "last (line_lens 0 s) \<le> last_line_length s"
proof (cases "CHR 0x0A \<in> set s")
  case True
  then obtain a b where s: "s = a @ CHR 0x0A # b" "CHR 0x0A \<notin> set b" by (metis split_list_last)
  then have "takeWhile (\<lambda>c. c \<noteq> CHR 0x0A) (rev s) = rev b" by (simp, subst takeWhile_append2) auto
  then show ?thesis using True s by (simp add: last_line_length_def line_lens_append line_lens_no_newline)
qed (simp add: last_line_length_def line_lens_no_newline)

text \<open>A text whose lines respect the width up to the continuation mark, and whose last line respects it.\<close>

definition wrapped :: "nat \<Rightarrow> string \<Rightarrow> bool" where
  "wrapped w s \<longleftrightarrow> (\<forall>n \<in> set (line_lens 0 s). n \<le> w + 1) \<and> last (line_lens 0 s) \<le> w"

lemma wrapped_append:
  assumes "wrapped w s" and "CHR 0x0A \<notin> set t" and "last (line_lens 0 s) + length t \<le> w"
  shows "wrapped w (s @ t)"
  using assms by (auto simp: wrapped_def line_lens_append line_lens_no_newline dest: in_set_butlastD)

lemma wrapped_break: "wrapped w s \<Longrightarrow> wrapped w (s @ [CHR 0x5C, CHR 0x0A]) \<and> last (line_lens 0 (s @ [CHR 0x5C, CHR 0x0A])) = 0"
  by (auto simp: wrapped_def line_lens_append dest: in_set_butlastD)

text \<open>The text of a piece with the value of its symbol, and the width it is given.\<close>

definition symbol_text :: "symtab \<Rightarrow> sym option \<Rightarrow> string" where
  "symbol_text tab so = (case so of
      Some s \<Rightarrow> if sym_type (sym_of tab s) \<noteq> S_UNKNOWN then take 9999 ('' [='' @ sym_get_string_value tab s @ '']'') else ''''
    | None \<Rightarrow> '''')"

definition piece_text :: "symtab \<Rightarrow> piece \<Rightarrow> string" where
  "piece_text tab p = the (snd p) @ symbol_text tab (fst p)"

definition piece_width :: "symtab \<Rightarrow> piece \<Rightarrow> nat" where
  "piece_width tab p = length (the (snd p)) + (case fst p of Some s \<Rightarrow> 4 + length (sym_get_string_value tab s) | None \<Rightarrow> 0)"

lemma piece_text_width: "length (piece_text tab p) \<le> piece_width tab p"
  by (auto simp: piece_text_def piece_width_def symbol_text_def split: option.splits)

definition gs_ok :: "gstr \<Rightarrow> bool" where
  "gs_ok gs \<longleftrightarrow> length (gs_s gs) < gs_len gs"

lemma str_append_ok:
  "gs_ok gs \<Longrightarrow> \<exists>gs'. str_append gs (Some s) = Ret gs' \<and> gs_ok gs' \<and> gs_s gs' = gs_s gs @ s \<and> gs_max_width gs' = gs_max_width gs"
  by (auto simp: str_append_def gs_ok_def Let_def)

definition wraps :: "symtab \<Rightarrow> string \<Rightarrow> piece \<Rightarrow> int \<Rightarrow> bool" where
  "wraps tab s p w \<longleftrightarrow> w \<noteq> 0 \<and> int (last_line_length s + piece_width tab p) > w mod 2 ^ 32"

lemma helper_ok:
  assumes "gs_ok gs" and "snd p \<noteq> None"
  shows "\<exists>gs'. expr_print_gstr_helper tab gs p = Ret gs' \<and> gs_ok gs' \<and> gs_max_width gs' = gs_max_width gs \<and>
    gs_s gs' = gs_s gs @ (if wraps tab (gs_s gs) p (gs_max_width gs) then [CHR 0x5C, CHR 0x0A] else []) @ piece_text tab p"
proof -
  obtain so str where p: "p = (so, Some str)" using assms(2) by (cases p) auto
  let ?w = "wraps tab (gs_s gs) p (gs_max_width gs)"
  obtain g1 where g1: "(if ?w then str_append gs (Some [CHR 0x5C, CHR 0x0A]) else Ret gs) = Ret g1" "gs_ok g1"
      "gs_max_width g1 = gs_max_width gs" "gs_s g1 = gs_s gs @ (if ?w then [CHR 0x5C, CHR 0x0A] else [])"
    using str_append_ok [OF assms(1), of "[CHR 0x5C, CHR 0x0A]"] assms(1) by (cases ?w) auto
  obtain g2 where g2: "str_append g1 (Some str) = Ret g2" "gs_ok g2" "gs_s g2 = gs_s g1 @ str" "gs_max_width g2 = gs_max_width g1"
    using str_append_ok [OF g1(2), of str] by blast
  have h: "expr_print_gstr_helper tab gs p = (case so of
      Some s \<Rightarrow> if sym_type (sym_of tab s) \<noteq> S_UNKNOWN then str_printf g2 ('' [='' @ sym_get_string_value tab s @ '']'') else Ret g2
    | None \<Rightarrow> Ret g2)"
    using g1(1) g2(1) by (cases so) (auto simp: expr_print_gstr_helper_def p wraps_def piece_width_def Let_def split: if_splits)
  show ?thesis
  proof (cases so)
    case None
    then show ?thesis using h g1 g2 by (auto simp: p piece_text_def symbol_text_def)
  next
    case (Some s)
    show ?thesis
      using h Some g1 g2 str_append_ok [OF g2(2), of "take 9999 ('' [='' @ sym_get_string_value tab s @ '']'')"]
      by (auto simp: p piece_text_def symbol_text_def str_printf_def)
  qed
qed

lemma wrapped_step:
  assumes "wrapped w s" and "0 < w" and "w < 2 ^ 32" and "piece_width tab p \<le> w" and "CHR 0x0A \<notin> set (piece_text tab p)"
  shows "wrapped w (s @ (if wraps tab s p (int w) then [CHR 0x5C, CHR 0x0A] else []) @ piece_text tab p)"
proof (cases "wraps tab s p (int w)")
  case True
  note b = wrapped_break [OF assms(1)]
  have "last (line_lens 0 (s @ [CHR 0x5C, CHR 0x0A])) + length (piece_text tab p) \<le> w"
    using b piece_text_width [of tab p] assms(4) by simp
  from wrapped_append [OF conjunct1 [OF b] assms(5) this] True show ?thesis by simp
next
  case False
  then have "last_line_length s + piece_width tab p \<le> w" using assms(2,3) by (auto simp: wraps_def)
  then have "last (line_lens 0 s) + length (piece_text tab p) \<le> w"
    using last_line_lens [of s] piece_text_width [of tab p] by linarith
  from wrapped_append [OF assms(1,5) this] False show ?thesis by simp
qed

lemma print_gstr_ok:
  assumes "gs_ok gs" and "\<forall>p \<in> set ps. snd p \<noteq> None"
  shows "\<exists>gs' bs. print_gstr tab ps gs = Ret gs' \<and> gs_ok gs' \<and> length bs = length ps \<and>
    gs_s gs' = gs_s gs @ concat (map2 (\<lambda>b p. (if b then [CHR 0x5C, CHR 0x0A] else []) @ piece_text tab p) bs ps) \<and>
    (0 < gs_max_width gs \<and> gs_max_width gs < 2 ^ 32 \<and> wrapped (nat (gs_max_width gs)) (gs_s gs) \<and>
     (\<forall>p \<in> set ps. piece_width tab p \<le> nat (gs_max_width gs) \<and> CHR 0x0A \<notin> set (piece_text tab p)) \<longrightarrow>
     wrapped (nat (gs_max_width gs)) (gs_s gs'))"
  using assms
proof (induction ps arbitrary: gs)
  case (Cons p ps)
  have "snd p \<noteq> None" using Cons.prems(2) by simp
  from helper_ok [OF Cons.prems(1) this, of tab] obtain g1 where g1: "expr_print_gstr_helper tab gs p = Ret g1" "gs_ok g1"
    "gs_max_width g1 = gs_max_width gs"
    "gs_s g1 = gs_s gs @ (if wraps tab (gs_s gs) p (gs_max_width gs) then [CHR 0x5C, CHR 0x0A] else []) @ piece_text tab p" by blast
  have "\<forall>p \<in> set ps. snd p \<noteq> None" using Cons.prems(2) by simp
  from Cons.IH [OF g1(2) this] obtain gs' bs where ih: "print_gstr tab ps g1 = Ret gs'" "gs_ok gs'" "length bs = length ps"
    "gs_s gs' = gs_s g1 @ concat (map2 (\<lambda>b p. (if b then [CHR 0x5C, CHR 0x0A] else []) @ piece_text tab p) bs ps)"
    "0 < gs_max_width g1 \<and> gs_max_width g1 < 2 ^ 32 \<and> wrapped (nat (gs_max_width g1)) (gs_s g1) \<and>
     (\<forall>p \<in> set ps. piece_width tab p \<le> nat (gs_max_width g1) \<and> CHR 0x0A \<notin> set (piece_text tab p)) \<longrightarrow>
     wrapped (nat (gs_max_width g1)) (gs_s gs')" by blast
  have w: "wrapped (nat (gs_max_width gs)) (gs_s g1)"
    if "0 < gs_max_width gs" "gs_max_width gs < 2 ^ 32" "wrapped (nat (gs_max_width gs)) (gs_s gs)"
      "piece_width tab p \<le> nat (gs_max_width gs)" "CHR 0x0A \<notin> set (piece_text tab p)"
    using wrapped_step [OF that(3) _ _ that(4,5)] that(1,2) by (simp add: g1(4))
  show ?case
  proof (intro exI conjI)
    let ?b = "wraps tab (gs_s gs) p (gs_max_width gs)"
    show "print_gstr tab (p # ps) gs = Ret gs'" using g1(1) ih(1) by simp
    show "gs_s gs' = gs_s gs @ concat (map2 (\<lambda>b p. (if b then [CHR 0x5C, CHR 0x0A] else []) @ piece_text tab p) (?b # bs) (p # ps))"
      using ih(4) g1(4) by simp
  qed (use ih w g1(3) in auto)
qed (auto intro: exI [of _ "[]"])

section \<open>Properties\<close>

lemma print_pieces: "named tab e \<Longrightarrow> \<forall>p \<in> set (expr_print tab e prev). snd p \<noteq> None"
  by (induction e arbitrary: prev) (subst expr_print.simps, force simp: print_left_def print_right_def print_text_def)+

lemma print_file_ok: "\<forall>p \<in> set ps. snd p \<noteq> None \<Longrightarrow> print_file ps f = Ret (f @ concat (map (the \<circ> snd) ps))"
  by (induction ps f rule: print_file.induct) auto

text \<open>
  C28: the printed text of an expression whose symbols have names means the expression: the calls of the printer,
  read with the precedences of the grammar, give an expression that has the same value in every symbol
  table. Only the grouping of equal operators may differ. \<^verbatim>\<open>expr_fprint\<close> writes the texts of these calls.
\<close>

theorem expr_print_parses:
  assumes "named tab e"
  shows "(\<exists>e'. parse [] None (tokens (expr_print tab e E_NONE)) = Some e' \<and>
      (\<forall>tab'. expr_calc_value tab' e' = expr_calc_value tab' e)) \<and>
    expr_fprint tab (Some e) file = Ret (file @ concat (map (the \<circ> snd) (expr_print tab e E_NONE)))"
proof
  have "reads 1 e (etoks e 1)" by (rule reads_etoks) simp
  moreover have "fits 1 [] \<and> comparison [] = (ESymbol, [])" by simp
  ultimately obtain st' e' where r: "parse [] None (etoks e 1 @ []) = parse st' (Some e') []" "sim 1 [] e st' e'"
    unfolding reads_def by blast
  then have "reduce 1 st' e' = ([], snd (reduce 1 st' e'))" "eqv (snd (reduce 1 st' e')) e" by (auto simp: sim_def prod_eq_iff)
  then have "parse [] None (etoks e 1) = Some (snd (reduce 1 st' e')) \<and> eqv (snd (reduce 1 st' e')) e"
    using r(1) by (cases "reduce 1 st' e'") simp
  then show "\<exists>e'. parse [] None (tokens (expr_print tab e E_NONE)) = Some e' \<and>
      (\<forall>tab'. expr_calc_value tab' e' = expr_calc_value tab' e)"
    using tokens_print [OF assms, of E_NONE] by (auto simp: eqv_def)
  show "expr_fprint tab (Some e) file = Ret (file @ concat (map (the \<circ> snd) (expr_print tab e E_NONE)))"
    using print_file_ok [OF print_pieces [OF assms]] by (simp add: expr_fprint_def expr_print_ptr_def)
qed

definition print_demo_tab :: symtab where
  "print_demo_tab = \<lparr>sym_of = (\<lambda>s. case s of
      Sym n \<Rightarrow> \<lparr>sym_name = Some (if n = 0 then ''A'' else if n = 1 then ''B'' else ''C''), sym_type = S_TRISTATE, sym_const = False,
        curr_val = '''', curr_tri = T_mod\<rparr>
    | _ \<Rightarrow> \<lparr>sym_name = Some ''y'', sym_type = S_TRISTATE, sym_const = True, curr_val = ''y'', curr_tri = T_yes\<rparr>), modules_tri = T_yes\<rparr>"

theorem expr_print_parses_witness:
  "let e = EAnd (EOr (ESymbol (Sym 0)) (ENot (ESymbol (Sym 1)))) (EEqual (Sym 2) symbol_yes)
   in named print_demo_tab e \<and> expr_fprint print_demo_tab (Some e) '''' = Ret ''(A || !B) && C=y'' \<and>
     (\<exists>e'. parse [] None (tokens (expr_print print_demo_tab e E_NONE)) = Some e' \<and>
       (\<forall>tab'. expr_calc_value tab' e' = expr_calc_value tab' e))"
proof -
  let ?e = "EAnd (EOr (ESymbol (Sym 0)) (ENot (ESymbol (Sym 1)))) (EEqual (Sym 2) symbol_yes)"
  have n: "named print_demo_tab ?e" by (simp add: print_demo_tab_def)
  have "concat (map (the \<circ> snd) (expr_print print_demo_tab ?e E_NONE)) = ''(A || !B) && C=y''"
    by (simp add: expr_print.simps expr_compare_type_def compare_not_def compare_and_def compare_or_def compare_list_def
        print_left_def print_right_def print_text_def print_demo_tab_def)
  with n expr_print_parses [OF n, of "''''"] show ?thesis by (simp add: Let_def)
qed

text \<open>
  C11: printing to a growable string with a width returns, stays inside the memory of the string, and
  writes the pieces in order with a backslash and a newline in front of some of them; if every piece fits into
  the width, no line is longer than the width and the backslash.
\<close>

theorem expr_gstr_print_wraps:
  assumes "named tab e" and "gs_ok gs" and "gs_s gs = ''''"
  shows "\<exists>gs' bs. expr_gstr_print tab (Some e) gs = Ret gs' \<and> gs_ok gs' \<and> length bs = length (expr_print tab e E_NONE) \<and>
    gs_s gs' = concat (map2 (\<lambda>b p. (if b then [CHR 0x5C, CHR 0x0A] else []) @ piece_text tab p) bs (expr_print tab e E_NONE)) \<and>
    (0 < gs_max_width gs \<and> gs_max_width gs < 2 ^ 31 \<and>
     (\<forall>p \<in> set (expr_print tab e E_NONE). piece_width tab p \<le> nat (gs_max_width gs) \<and> CHR 0x0A \<notin> set (piece_text tab p)) \<longrightarrow>
     (\<forall>n \<in> set (line_lens 0 (gs_s gs')). int n \<le> gs_max_width gs + 1))"
proof -
  from print_gstr_ok [OF assms(2) print_pieces [OF assms(1), of E_NONE], of tab] obtain gs' bs where
    g: "print_gstr tab (expr_print tab e E_NONE) gs = Ret gs'" "gs_ok gs'" "length bs = length (expr_print tab e E_NONE)"
      "gs_s gs' = gs_s gs @ concat (map2 (\<lambda>b p. (if b then [CHR 0x5C, CHR 0x0A] else []) @ piece_text tab p) bs (expr_print tab e E_NONE))"
    and w: "0 < gs_max_width gs \<and> gs_max_width gs < 2 ^ 32 \<and> wrapped (nat (gs_max_width gs)) (gs_s gs) \<and>
     (\<forall>p \<in> set (expr_print tab e E_NONE). piece_width tab p \<le> nat (gs_max_width gs) \<and> CHR 0x0A \<notin> set (piece_text tab p)) \<longrightarrow>
     wrapped (nat (gs_max_width gs)) (gs_s gs')" by blast
  have "wrapped (nat (gs_max_width gs)) ''''" by (simp add: wrapped_def)
  then have "0 < gs_max_width gs \<and> gs_max_width gs < 2 ^ 31 \<and>
     (\<forall>p \<in> set (expr_print tab e E_NONE). piece_width tab p \<le> nat (gs_max_width gs) \<and> CHR 0x0A \<notin> set (piece_text tab p)) \<longrightarrow>
     (\<forall>n \<in> set (line_lens 0 (gs_s gs')). int n \<le> gs_max_width gs + 1)"
    using w assms(3) by (fastforce simp: wrapped_def)
  then show ?thesis using g assms(3) by (auto simp: expr_gstr_print_def expr_print_ptr_def)
qed

theorem expr_gstr_print_wraps_witness:
  "let e = EAnd (ESymbol (Sym 0)) (ESymbol (Sym 1)); gs = str_new\<lparr>gs_max_width := 12\<rparr>
   in named print_demo_tab e \<and> gs_ok gs \<and> gs_s gs = '''' \<and>
     (\<exists>gs'. expr_gstr_print print_demo_tab (Some e) gs = Ret gs' \<and> (\<forall>n \<in> set (line_lens 0 (gs_s gs')). int n \<le> 13))"
proof -
  let ?e = "EAnd (ESymbol (Sym 0)) (ESymbol (Sym 1))" and ?gs = "str_new\<lparr>gs_max_width := 12\<rparr>"
  have h: "named print_demo_tab ?e" "gs_ok ?gs" "gs_s ?gs = ''''" by (simp_all add: print_demo_tab_def str_new_def gs_ok_def)
  have p: "expr_print print_demo_tab ?e E_NONE = [(Some (Sym 0), Some ''A''), (None, Some '' && ''), (Some (Sym 1), Some ''B'')]"
    by (simp add: expr_print.simps expr_compare_type_def compare_and_def compare_or_def compare_list_def print_left_def
        print_text_def print_demo_tab_def)
  have v: "sym_get_string_value print_demo_tab (Sym n) = ''m''" "sym_type (sym_of print_demo_tab (Sym n)) = S_TRISTATE" for n
    by (simp_all add: sym_get_string_value_def print_demo_tab_def)
  have "\<forall>p \<in> set (expr_print print_demo_tab ?e E_NONE). piece_width print_demo_tab p \<le> nat (gs_max_width ?gs) \<and>
      CHR 0x0A \<notin> set (piece_text print_demo_tab p)"
    unfolding p by (simp add: piece_width_def piece_text_def symbol_text_def v)
  with expr_gstr_print_wraps [OF h] h show ?thesis by (auto simp: Let_def)
qed

end
