(* ===== verification/Maccalc.thy ===== *)
theory Maccalc
  imports C_Stdlib
begin

text \<open>
  The MAC address calculator (\<^verbatim>\<open>package/network/utils/maccalc/src/main.c\<close>): addition to the
  device part of an address, bitwise operations on two addresses, and conversion between the
  text and the six bytes of an address.

  What the process sees of the operating system is the record \<open>mac_io\<close>: the events that the calls
  of \<^verbatim>\<open>read\<close> on the standard input meet, and the result of the only \<^verbatim>\<open>write\<close>. A run gives the
  exit status, the bytes on the standard output and the messages on \<^verbatim>\<open>stderr\<close>.
\<close>

section \<open>Model\<close>

datatype read_event = Avail "byte list" | Interrupted | Read_error

record mac_io =
  stdin_events :: "read_event list"
  write_result :: int

datatype mac_msg = Usage | Unknown_command string | Write_failed | Read_failed

record mac_res =
  ret :: nat
  stdout :: "byte list"
  stderr :: "mac_msg list"

definition MAC_ADDRESS_LEN :: nat where "MAC_ADDRESS_LEN = 6"

definition ERR_INVALID :: nat where "ERR_INVALID = 1"

definition ERR_IO :: nat where "ERR_IO = 2"

definition mac_usage :: "nat \<Rightarrow> mac_res" where
  "mac_usage r = \<lparr>ret = r, stdout = [], stderr = [Usage]\<rparr>"

text \<open>\<^verbatim>\<open>%02hhx\<close>: at most two characters, stored in an \<^verbatim>\<open>unsigned char\<close>.\<close>

definition scan_hhx :: "string \<Rightarrow> (byte \<times> string) option" where
  "scan_hhx s =
     (case scan_num 16 2 s of
        None \<Rightarrow> None
      | Some (neg, v, r) \<Rightarrow> Some (if neg then - of_nat v else of_nat v, r))"

text \<open>The format \<^verbatim>\<open>%02hhx:%02hhx: ...\<close> with \<open>n\<close> conversions: the bytes that were converted before
  the first failure.\<close>

fun scan_mac :: "nat \<Rightarrow> string \<Rightarrow> byte list" where
  "scan_mac 0 s = []"
| "scan_mac (Suc n) s =
     (case scan_hhx s of
        None \<Rightarrow> []
      | Some (b, r) \<Rightarrow> b # (case scan_lit '':'' r of None \<Rightarrow> [] | Some r' \<Rightarrow> scan_mac n r'))"

definition parse_mac :: "string \<Rightarrow> byte list option" where
  "parse_mac s = (let bs = scan_mac MAC_ADDRESS_LEN s in
     if length bs \<noteq> MAC_ADDRESS_LEN then None else Some bs)"

text \<open>The text of \<^verbatim>\<open>print_mac\<close> without its newline, and the call.\<close>

fun mac_text :: "byte list \<Rightarrow> string" where
  "mac_text [] = []"
| "mac_text [b] = hex_fixed False 2 (unat b)"
| "mac_text (b # bs) = hex_fixed False 2 (unat b) @ '':'' @ mac_text bs"

definition print_mac :: "byte list \<Rightarrow> mac_res" where
  "print_mac bs = \<lparr>ret = 0, stdout = cstr (mac_text bs @ [char_of (10 :: nat)]), stderr = []\<rparr>"

definition maccalc_do_add :: "string list \<Rightarrow> mac_res" where
  "maccalc_do_add argv =
     (if length argv \<noteq> 2 then mac_usage ERR_INVALID
      else case parse_mac (argv ! 0) of
        None \<Rightarrow> \<lparr>ret = ERR_INVALID, stdout = [], stderr = []\<rparr>
      | Some mac \<Rightarrow>
          (let i = atoi (argv ! 1);
               t = push_bit 16 (ucast (mac ! 3)) OR push_bit 8 (ucast (mac ! 4)) OR ucast (mac ! 5) :: u32;
               t = t + of_int i
           in print_mac (mac[3 := ucast (drop_bit 16 t AND 0xFF), 4 := ucast (drop_bit 8 t AND 0xFF),
                             5 := ucast (t AND 0xFF)])))"

definition maccalc_do_logical :: "(byte \<Rightarrow> byte \<Rightarrow> byte) \<Rightarrow> string list \<Rightarrow> mac_res" where
  "maccalc_do_logical op argv =
     (if length argv \<noteq> 2 then mac_usage ERR_INVALID
      else case parse_mac (argv ! 0) of
        None \<Rightarrow> \<lparr>ret = ERR_INVALID, stdout = [], stderr = []\<rparr>
      | Some mac1 \<Rightarrow>
          (case parse_mac (argv ! 1) of
             None \<Rightarrow> \<lparr>ret = ERR_INVALID, stdout = [], stderr = []\<rparr>
           | Some mac2 \<Rightarrow> print_mac (map2 op mac1 mac2)))"

definition maccalc_do_mac2bin :: "mac_io \<Rightarrow> string list \<Rightarrow> mac_res" where
  "maccalc_do_mac2bin io argv =
     (if length argv \<noteq> 1 then mac_usage ERR_INVALID
      else case parse_mac (argv ! 0) of
        None \<Rightarrow> \<lparr>ret = ERR_INVALID, stdout = [], stderr = []\<rparr>
      | Some mac \<Rightarrow>
          (let c = write_result io; w = take (nat c) mac
           in if c \<noteq> int MAC_ADDRESS_LEN then \<lparr>ret = ERR_IO, stdout = w, stderr = [Write_failed]\<rparr>
              else \<lparr>ret = 0, stdout = w, stderr = []\<rparr>))"

text \<open>
  \<^verbatim>\<open>read_safe\<close>: the bytes that were stored, whose number is the result, or \<open>None\<close> for \<open>-1\<close>. When
  more bytes are available than the call asks for, it takes the first ones and the loop ends.
\<close>

fun read_safe :: "nat \<Rightarrow> read_event list \<Rightarrow> byte list option" where
  "read_safe count [] = Some []"
| "read_safe count (ev # evs) =
     (if count = 0 then Some []
      else case ev of
        Read_error \<Rightarrow> None
      | Interrupted \<Rightarrow> read_safe count evs
      | Avail bs \<Rightarrow>
          if bs = [] then Some []
          else map_option ((@) (take count bs)) (read_safe (count - length bs) evs))"

definition maccalc_do_bin2mac :: "mac_io \<Rightarrow> string list \<Rightarrow> mac_res" where
  "maccalc_do_bin2mac io argv =
     (if argv \<noteq> [] then mac_usage ERR_INVALID
      else case read_safe MAC_ADDRESS_LEN (stdin_events io) of
        None \<Rightarrow> \<lparr>ret = ERR_IO, stdout = [], stderr = [Read_failed]\<rparr>
      | Some mac \<Rightarrow>
          if length mac \<noteq> MAC_ADDRESS_LEN then \<lparr>ret = ERR_IO, stdout = [], stderr = [Read_failed]\<rparr>
          else print_mac mac)"

definition op_or :: "byte \<Rightarrow> byte \<Rightarrow> byte" where "op_or a b = a OR b"

definition op_and :: "byte \<Rightarrow> byte \<Rightarrow> byte" where "op_and a b = a AND b"

definition op_xor :: "byte \<Rightarrow> byte \<Rightarrow> byte" where "op_xor a b = a XOR b"

definition maccalc_do_or :: "string list \<Rightarrow> mac_res" where
  "maccalc_do_or = maccalc_do_logical op_or"

definition maccalc_do_and :: "string list \<Rightarrow> mac_res" where
  "maccalc_do_and = maccalc_do_logical op_and"

definition maccalc_do_xor :: "string list \<Rightarrow> mac_res" where
  "maccalc_do_xor = maccalc_do_logical op_xor"

text \<open>\<^verbatim>\<open>main\<close> on the arguments after the program name.\<close>

definition maccalc_main :: "mac_io \<Rightarrow> string list \<Rightarrow> mac_res" where
  "maccalc_main io args =
     (case args of
        [] \<Rightarrow> mac_usage 1
      | c # argv \<Rightarrow>
          (let run = (\<lambda>r. r\<lparr>ret := if ret r \<noteq> 0 then 1 else 0\<rparr>) in
           if c = ''add'' then run (maccalc_do_add argv)
           else if c = ''and'' then run (maccalc_do_and argv)
           else if c = ''or'' then run (maccalc_do_or argv)
           else if c = ''xor'' then run (maccalc_do_xor argv)
           else if c = ''mac2bin'' then run (maccalc_do_mac2bin io argv)
           else if c = ''bin2mac'' then run (maccalc_do_bin2mac io argv)
           else \<lparr>ret = 1, stdout = [], stderr = [Unknown_command c, Usage]\<rparr>))"

section \<open>Text and bytes of an address\<close>

lemma hex_digit_char:
  assumes "is_digit_in 16 c"
  shows "\<not> c_isspace c" "c \<noteq> CHR ''-''" "c \<noteq> CHR ''+''" "c \<noteq> CHR ''x''" "c \<noteq> CHR ''X''" "c \<noteq> CHR '':''"
  using assms by (auto simp: is_digit_in_def digit_val_def c_isspace_def Let_def split: if_splits)

lemma scan_num_two_digits:
  assumes "is_digit_in 16 c" and "is_digit_in 16 d"
  shows "scan_num 16 2 (c # d # r) = Some (False, the (digit_val c) * 16 + the (digit_val d), r)"
  using assms hex_digit_char [OF assms(1)] hex_digit_char [OF assms(2)]
  by (auto simp: scan_num_def strto_sign_def strto_base_def is_digit_in_def digits_value_def Let_def
      split: option.splits)

lemma scan_hhx_text [simp]: "scan_hhx (hex_fixed False 2 (unat (b :: byte)) @ r) = Some (b, r)"
proof -
  have "unat b div 16 < 16" using unat_less_256 [of b] by linarith
  then have "scan_num 16 2 (hex_fixed False 2 (unat b) @ r) = Some (False, unat b div 16 * 16 + unat b mod 16, r)"
    by (simp add: numeral_2_eq_2 scan_num_two_digits [unfolded numeral_2_eq_2] is_digit_hex_char)
  then show ?thesis by (simp add: scan_hhx_def)
qed

lemma scan_mac_text:
  "scan_mac (length bs) (mac_text bs @ r) = bs"
proof (induction bs arbitrary: r rule: mac_text.induct)
  case (2 b)
  then show ?case by (simp split: option.splits)
next
  case (3 b v va)
  from "3.IH" [of r] show ?case by simp
qed simp

lemma length_scan_mac: "length (scan_mac n s) \<le> n"
  by (induction n s rule: scan_mac.induct) (auto split: option.splits)

lemma parse_mac_length: "parse_mac s = Some bs \<Longrightarrow> length bs = 6"
  by (auto simp: parse_mac_def Let_def MAC_ADDRESS_LEN_def split: if_splits)

lemma parse_mac_text [simp]: "length bs = 6 \<Longrightarrow> parse_mac (mac_text bs @ r) = Some bs"
  using scan_mac_text [of bs r] by (simp add: parse_mac_def MAC_ADDRESS_LEN_def Let_def)

text \<open>The 24 bits of the device part.\<close>

lemma unat_byte_of_u32: "unat (ucast (drop_bit k (t :: u32)) :: byte) = unat t div 2 ^ k mod 256"
proof -
  have "unat (ucast (drop_bit k t) :: byte) = take_bit 8 (drop_bit k (unat t))"
    by (simp only: unsigned_ucast_eq unat_drop_bit_eq) simp
  then show ?thesis by (simp add: take_bit_eq_mod drop_bit_eq_div)
qed

lemma be_nat_3: "be_nat [a, b, c] = (unat a * 256 + unat b) * 256 + unat c"
  by (simp add: be_nat_def)

lemma be_nat_low24:
  "be_nat [ucast (drop_bit 16 (t :: u32)), ucast (drop_bit 8 t), ucast t] = unat t mod 2 ^ 24"
proof -
  have "unat (ucast t :: byte) = unat t mod 256"
    using unat_byte_of_u32 [of 0 t] by simp
  moreover have "x mod 16777216 = (x div 65536 mod 256 * 256 + x div 256 mod 256) * 256 + x mod 256" for x :: nat
    using mod_mult2_eq [of x 256 65536] mod_mult2_eq [of "x div 256" 256 256] div_mult2_eq [of x 256 256] by simp
  ultimately show ?thesis
    by (simp add: be_nat_3 unat_byte_of_u32)
qed

lemma three_bytes:
  fixes a b c :: byte
  defines "t \<equiv> push_bit 16 (ucast a) OR push_bit 8 (ucast b) OR ucast c :: u32"
  shows "be_nat [a, b, c] = unat t mod 2 ^ 24"
proof -
  have "ucast (drop_bit 16 t) = a" "ucast (drop_bit 8 t) = b" "ucast t = c"
    unfolding t_def by (rule bit_word_eqI; auto simp: bit_simps dest: bit_imp_le_length)+
  then show ?thesis using be_nat_low24 [of t] by simp
qed

lemma unat_add_mod24: "int (unat ((t :: u32) + of_int i) mod 2 ^ 24) = (int (unat t mod 2 ^ 24) + i) mod 2 ^ 24"
proof -
  have "uint (t + of_int i) = (uint t + i) mod 2 ^ 32"
    by (simp add: uint_word_ariths unsigned_of_int take_bit_eq_mod mod_simps)
  then have "uint (t + of_int i) mod 2 ^ 24 = (uint t + i) mod 2 ^ 24"
    by (simp add: mod_mod_cancel)
  then show ?thesis
    by (simp add: zmod_int mod_simps)
qed

section \<open>Reading\<close>

definition event_bytes :: "read_event \<Rightarrow> byte list" where
  "event_bytes ev = (case ev of Avail bs \<Rightarrow> bs | _ \<Rightarrow> [])"

text \<open>Without errors and before the end of the input, the bytes that are read do not depend on
  how the input is cut into pieces or on interruptions.\<close>

lemma read_safe_concat:
  "Read_error \<notin> set evs \<Longrightarrow> Avail [] \<notin> set evs \<Longrightarrow>
     read_safe n evs = Some (take n (concat (map event_bytes evs)))"
  by (induction n evs rule: read_safe.induct) (auto simp: event_bytes_def split: read_event.splits)

lemmas maccalc_defs = maccalc_main_def mac_usage_def ERR_INVALID_def ERR_IO_def MAC_ADDRESS_LEN_def print_mac_def

text \<open>The bitwise operations through \<^verbatim>\<open>main\<close>.\<close>

definition logical_result :: "(byte \<Rightarrow> byte \<Rightarrow> byte) \<Rightarrow> string \<Rightarrow> string \<Rightarrow> mac_res" where
  "logical_result op s1 s2 =
     (case (parse_mac s1, parse_mac s2) of
        (Some a, Some b) \<Rightarrow> print_mac (map2 op a b)
      | _ \<Rightarrow> \<lparr>ret = 1, stdout = [], stderr = []\<rparr>)"

lemma maccalc_main_logical:
  "maccalc_main io [''and'', s1, s2] = logical_result op_and s1 s2"
  "maccalc_main io [''or'', s1, s2] = logical_result op_or s1 s2"
  "maccalc_main io [''xor'', s1, s2] = logical_result op_xor s1 s2"
  by (cases "parse_mac s1"; cases "parse_mac s2";
      simp add: logical_result_def maccalc_defs maccalc_do_and_def maccalc_do_or_def maccalc_do_xor_def
        maccalc_do_logical_def)+

lemma logical_result_parsed:
  "parse_mac s1 = Some a \<Longrightarrow> parse_mac s2 = Some b \<Longrightarrow> logical_result op s1 s2 = print_mac (map2 op a b)"
  by (simp add: logical_result_def)

lemma logical_result_error:
  "parse_mac s1 = None \<or> parse_mac s2 = None \<Longrightarrow> logical_result op s1 s2 = \<lparr>ret = 1, stdout = [], stderr = []\<rparr>"
  by (auto simp: logical_result_def split: option.splits)

section \<open>Properties\<close>

text \<open>
  \<^verbatim>\<open>maccalc add\<close> on an address it can parse succeeds and prints an address with the same first
  three bytes; the number in the last three is the old one plus the argument modulo \<open>2 ^ 24\<close>, for
  positive and negative arguments.
\<close>

theorem maccalc_add_correct:
  assumes "parse_mac s = Some m"
  shows "\<exists>m'. maccalc_main io [''add'', s, n] = print_mac m' \<and> length m' = 6 \<and> take 3 m' = take 3 m \<and>
    int (be_nat (drop 3 m')) = (int (be_nat (drop 3 m)) + atoi n) mod 2 ^ 24"
proof -
  obtain a b c d e f where m: "m = [a, b, c, d, e, f]"
    using parse_mac_length [OF assms] by (auto simp: numeral_eq_Suc length_Suc_conv)
  let ?t = "push_bit 16 (ucast d) OR push_bit 8 (ucast e) OR ucast f :: u32"
  let ?u = "?t + of_int (atoi n)"
  let ?m' = "[a, b, c, ucast (drop_bit 16 ?u), ucast (drop_bit 8 ?u), ucast ?u]"
  have "maccalc_main io [''add'', s, n] = print_mac ?m'"
    using assms by (simp add: maccalc_defs maccalc_do_add_def m Let_def ucast_and_ff)
  moreover have "int (be_nat (drop 3 ?m')) = (int (be_nat (drop 3 m)) + atoi n) mod 2 ^ 24"
    using be_nat_low24 [of ?u] unat_add_mod24 [of ?t "atoi n"] three_bytes [of d e f] by (simp add: m)
  ultimately show ?thesis by (intro exI [of _ ?m']) (simp add: m)
qed

theorem maccalc_add_correct_witness:
  "\<exists>m'. maccalc_main \<lparr>stdin_events = [], write_result = 6\<rparr> [''add'', ''00:1e:42:ff:ff:ff'', ''2''] = print_mac m' \<and>
     length m' = 6 \<and> take 3 m' = [0x00, 0x1E, 0x42] \<and> be_nat (drop 3 m') = 1"
proof -
  have "parse_mac ''00:1e:42:ff:ff:ff'' = Some [0x00, 0x1E, 0x42, 0xFF, 0xFF, 0xFF]" by code_simp
  moreover have "atoi ''2'' = 2" by code_simp
  moreover have "be_nat [0xFF, 0xFF, 0xFF] = 16777215" by (simp add: be_nat_3)
  ultimately show ?thesis
    using maccalc_add_correct [of "''00:1e:42:ff:ff:ff''" _ "\<lparr>stdin_events = [], write_result = 6\<rparr>" "''2''"] by simp
qed

text \<open>
  Text and binary form of an address convert into each other: \<^verbatim>\<open>mac2bin\<close> on the text of six
  bytes writes these bytes; \<^verbatim>\<open>bin2mac\<close> prints the text of the first six bytes of the input, however
  the input arrives in pieces and between interrupted calls, and fails when there are fewer.
\<close>

theorem maccalc_binary_roundtrip:
  assumes "length m = 6" and "write_result io = 6"
    and "Read_error \<notin> set (stdin_events io)" and "Avail [] \<notin> set (stdin_events io)"
    and "data = concat (map event_bytes (stdin_events io))"
  shows "maccalc_main io [''mac2bin'', mac_text m] = \<lparr>ret = 0, stdout = m, stderr = []\<rparr> \<and>
    (6 \<le> length data \<longrightarrow> maccalc_main io [''bin2mac''] = print_mac (take 6 data) \<and>
       parse_mac (mac_text (take 6 data)) = Some (take 6 data)) \<and>
    (length data < 6 \<longrightarrow> maccalc_main io [''bin2mac''] = \<lparr>ret = 1, stdout = [], stderr = [Read_failed]\<rparr>)"
  using assms parse_mac_text [of m "[]"] parse_mac_text [of "take 6 data" "[]"]
    read_safe_concat [OF assms(3,4), of 6]
  by (auto simp: maccalc_defs maccalc_do_mac2bin_def maccalc_do_bin2mac_def Let_def)

theorem maccalc_binary_roundtrip_witness:
  "maccalc_main \<lparr>stdin_events = [Avail [0, 30], Interrupted, Avail [66, 1, 2], Avail [3, 10]], write_result = 6\<rparr>
     [''bin2mac''] = print_mac [0, 30, 66, 1, 2, 3]"
  using maccalc_binary_roundtrip [of "[0, 30, 66, 1, 2, 3]"
      "\<lparr>stdin_events = [Avail [0, 30], Interrupted, Avail [66, 1, 2], Avail [3, 10]], write_result = 6\<rparr>"]
  by (simp add: event_bytes_def)

text \<open>
  \<^verbatim>\<open>and\<close>, \<^verbatim>\<open>or\<close> and \<^verbatim>\<open>xor\<close> succeed exactly when both addresses can be parsed, and then print the
  address whose bits are the conjunction, disjunction or difference of the bits of the two;
  \<^verbatim>\<open>xor\<close> with the second address again gives the first one back.
\<close>

theorem maccalc_logical_correct:
  shows "(c \<in> {''and'', ''or'', ''xor''} \<longrightarrow> parse_mac s1 = None \<or> parse_mac s2 = None \<longrightarrow>
      maccalc_main io [c, s1, s2] = \<lparr>ret = 1, stdout = [], stderr = []\<rparr>) \<and>
    (parse_mac s1 = Some m1 \<longrightarrow> parse_mac s2 = Some m2 \<longrightarrow>
      (\<exists>x y z. maccalc_main io [''and'', s1, s2] = print_mac x \<and> maccalc_main io [''or'', s1, s2] = print_mac y \<and> maccalc_main io [''xor'', s1, s2] = print_mac z \<and>
        (\<forall>i n. i < 6 \<longrightarrow> (bit (x ! i) n \<longleftrightarrow> bit (m1 ! i) n \<and> bit (m2 ! i) n) \<and>
           (bit (y ! i) n \<longleftrightarrow> bit (m1 ! i) n \<or> bit (m2 ! i) n) \<and>
           (bit (z ! i) n \<longleftrightarrow> bit (m1 ! i) n \<noteq> bit (m2 ! i) n)) \<and>
        maccalc_main io [''xor'', mac_text z, s2] = print_mac m1))"
proof (intro conjI impI)
  assume "c \<in> {''and'', ''or'', ''xor''}" and err: "parse_mac s1 = None \<or> parse_mac s2 = None"
  then consider "c = ''and''" | "c = ''or''" | "c = ''xor''" by blast
  then show "maccalc_main io [c, s1, s2] = \<lparr>ret = 1, stdout = [], stderr = []\<rparr>"
    by cases (simp_all only: maccalc_main_logical logical_result_error [OF err])
next
  assume p: "parse_mac s1 = Some m1" "parse_mac s2 = Some m2"
  let ?x = "map2 op_and m1 m2" and ?y = "map2 op_or m1 m2" and ?z = "map2 op_xor m1 m2"
  have len: "length m1 = 6" "length m2 = 6" using p parse_mac_length by auto
  have "map2 op_xor ?z m2 = m1"
    using len by (intro nth_equalityI) (simp_all add: op_xor_def xor.assoc)
  moreover have "parse_mac (mac_text ?z) = Some ?z"
    using parse_mac_text [of ?z "[]"] len by simp
  ultimately have "maccalc_main io [''xor'', mac_text ?z, s2] = print_mac m1"
    using p(2) by (simp only: maccalc_main_logical logical_result_parsed)
  moreover have "maccalc_main io [''and'', s1, s2] = print_mac ?x"
    "maccalc_main io [''or'', s1, s2] = print_mac ?y" "maccalc_main io [''xor'', s1, s2] = print_mac ?z"
    by (simp_all only: maccalc_main_logical logical_result_parsed [OF p])
  moreover have "\<forall>i n. i < 6 \<longrightarrow> (bit (?x ! i) n \<longleftrightarrow> bit (m1 ! i) n \<and> bit (m2 ! i) n) \<and>
      (bit (?y ! i) n \<longleftrightarrow> bit (m1 ! i) n \<or> bit (m2 ! i) n) \<and>
      (bit (?z ! i) n \<longleftrightarrow> bit (m1 ! i) n \<noteq> bit (m2 ! i) n)"
    using len by (simp add: op_and_def op_or_def op_xor_def bit_and_iff bit_or_iff bit_xor_iff)
  ultimately show "\<exists>x y z. maccalc_main io [''and'', s1, s2] = print_mac x \<and>
      maccalc_main io [''or'', s1, s2] = print_mac y \<and> maccalc_main io [''xor'', s1, s2] = print_mac z \<and>
        (\<forall>i n. i < 6 \<longrightarrow> (bit (x ! i) n \<longleftrightarrow> bit (m1 ! i) n \<and> bit (m2 ! i) n) \<and>
           (bit (y ! i) n \<longleftrightarrow> bit (m1 ! i) n \<or> bit (m2 ! i) n) \<and>
           (bit (z ! i) n \<longleftrightarrow> bit (m1 ! i) n \<noteq> bit (m2 ! i) n)) \<and>
        maccalc_main io [''xor'', mac_text z, s2] = print_mac m1"
    by (intro exI conjI) assumption+
qed

theorem maccalc_logical_correct_witness:
  "\<exists>z. maccalc_main \<lparr>stdin_events = [], write_result = 6\<rparr> [''xor'', ''00:1e:42:0:0:1'', ''02:0:0:0:0:0''] = print_mac z \<and>
     maccalc_main \<lparr>stdin_events = [], write_result = 6\<rparr> [''xor'', mac_text z, ''02:0:0:0:0:0''] =
       print_mac [0x00, 0x1E, 0x42, 0, 0, 1]"
proof -
  have "parse_mac ''00:1e:42:0:0:1'' = Some [0x00, 0x1E, 0x42, 0, 0, 1]" by code_simp
  moreover have "parse_mac ''02:0:0:0:0:0'' = Some [2, 0, 0, 0, 0, 0]" by code_simp
  ultimately show ?thesis
    using maccalc_logical_correct [of "''xor''" "''00:1e:42:0:0:1''" "''02:0:0:0:0:0''"
        "\<lparr>stdin_events = [], write_result = 6\<rparr>"] by metis
qed

end
