(* ===== verification/Sixrdcalc.thy ===== *)
theory Sixrdcalc
  imports C_Stdlib
begin

text \<open>
  The 6rd prefix calculator (\<^verbatim>\<open>package/network/ipv6/6rd/src/6rdcalc.c\<close>): the IPv6 prefix of a
  customer is the provider's prefix followed by the bits of the customer's IPv4 address that
  are not common to all customers.

  A character array that \<^verbatim>\<open>strncpy\<close> filled is the text in it and whether a NUL follows in the array.
\<close>

section \<open>Model\<close>

type_synonym cbuf = "string \<times> bool"

definition INET_PREFIXSTRLEN :: nat where "INET_PREFIXSTRLEN = 16 + 3"

definition INET6_PREFIXSTRLEN :: nat where "INET6_PREFIXSTRLEN = 46 + 4"

definition strncpy_buf :: "nat \<Rightarrow> string \<Rightarrow> cbuf" where
  "strncpy_buf n s = (take n s, length s < n)"

text \<open>\<^verbatim>\<open>buf[n] = '\0'\<close>.\<close>

definition terminate_at :: "nat \<Rightarrow> cbuf \<Rightarrow> cbuf" where
  "terminate_at n b = (if n \<le> length (fst b) then (take n (fst b), True) else b)"

text \<open>Whether \<^verbatim>\<open>strtoul\<close> in base 10 meets a character that ends the number before the end of the text.\<close>

definition strtoul_stops :: "string \<Rightarrow> bool" where
  "strtoul_stops s = (snd (scan_digits 10 (snd (strto_sign (dropWhile c_isspace s)))) \<noteq> [])"

text \<open>\<open>pton\<close> is \<^verbatim>\<open>inet_pton\<close> for the address family whose longest mask is \<open>maxmask\<close>.\<close>

definition parse_str :: "(string \<Rightarrow> byte list option) \<Rightarrow> u32 \<Rightarrow> cbuf \<Rightarrow> (byte list \<times> u32) outcome" where
  "parse_str pton maxmask b =
     (let (str, terminated) = b in
      if CHR ''/'' \<notin> set str then (if terminated then Exit 1 else Undef)
      else let a = takeWhile (\<lambda>c. c \<noteq> CHR ''/'') str; m = drop (Suc (length a)) str in
      case pton a of
        None \<Rightarrow> Exit 1
      | Some ad \<Rightarrow>
          if \<not> terminated \<and> \<not> strtoul_stops m then Undef
          else let mask = fst (strtoul 10 m) in
            if mask > maxmask then Exit 1 else Ret (ad, mask))"

text \<open>The two loops of \<^verbatim>\<open>main\<close>. A bit of an address is selected by \<^verbatim>\<open>128 >> (i & 7)\<close> in the byte
  \<^verbatim>\<open>i >> 3\<close>.\<close>

definition bit_sel :: "nat \<Rightarrow> byte" where
  "bit_sel i = drop_bit (i mod 8) 128"

function combine_loop :: "byte list \<Rightarrow> byte list \<Rightarrow> nat \<Rightarrow> nat \<Rightarrow> (byte list \<times> nat) outcome" where
  "combine_loop v6 v4 v6it v4it =
     (if v4it < 32 then
        (if length v6 \<le> v6it div 8 \<or> length v4 \<le> v4it div 8 then Undef
         else
           let byte6 = v6 ! (v6it div 8);
               byte6' = (if v4 ! (v4it div 8) AND bit_sel v4it \<noteq> 0
                         then byte6 OR bit_sel v6it else byte6 AND NOT (bit_sel v6it))
           in combine_loop (v6[v6it div 8 := byte6']) v4 (Suc v6it) (Suc v4it))
      else Ret (v6, v6it))"
  by pat_completeness auto
termination combine_loop
  by (relation "measure (\<lambda>(_, _, _, v4it). 32 - v4it)") auto

function clear_loop :: "byte list \<Rightarrow> nat \<Rightarrow> byte list outcome" where
  "clear_loop v6 v6it =
     (if v6it < 128 then
        (if length v6 \<le> v6it div 8 then Undef
         else clear_loop (v6[v6it div 8 := v6 ! (v6it div 8) AND NOT (bit_sel v6it)]) (Suc v6it))
      else Ret v6)"
  by pat_completeness auto
termination clear_loop
  by (relation "measure (\<lambda>(_, v6it). 128 - v6it)") auto

declare combine_loop.simps [simp del] clear_loop.simps [simp del]

text \<open>\<^verbatim>\<open>main\<close> on the arguments after the program name: the text on the standard output. The
  statement that should end \<^verbatim>\<open>v4str\<close> writes into \<^verbatim>\<open>v6str\<close>, which is not read again.\<close>

definition sixrd_main :: "inet \<Rightarrow> string list \<Rightarrow> string outcome" where
  "sixrd_main net args =
     (if length args \<noteq> 2 then Exit 1
      else
        let v6str = terminate_at (INET6_PREFIXSTRLEN - 1) (strncpy_buf INET6_PREFIXSTRLEN (args ! 0)) in
        obind (parse_str (pton6 net) 128 v6str) (\<lambda>(v6, v6it).
        let v4str = strncpy_buf INET_PREFIXSTRLEN (args ! 1) in
        obind (parse_str (pton4 net) 32 v4str) (\<lambda>(v4, v4it).
        let mask = (32 - v4it) + v6it in
        if mask > 128 then Exit 1
        else
          obind (combine_loop v6 v4 (unat v6it) (unat v4it)) (\<lambda>(v6, it).
          obind (clear_loop v6 it) (\<lambda>v6.
          Ret (ntop6 net v6 @ ''/'' @ dec_of_nat (unat mask) @ [char_of (10 :: nat)]))))))"

section \<open>The bits of an address\<close>

definition bit_at :: "byte list \<Rightarrow> nat \<Rightarrow> bool" where
  "bit_at bs i = bit (bs ! (i div 8)) (7 - i mod 8)"

lemma bit_128: "bit (128 :: byte) k \<longleftrightarrow> k = 7"
proof -
  have "(128 :: byte) = 2 ^ 7" by simp
  then show ?thesis by (simp only: bit_exp_iff) auto
qed

lemma bit_sel_iff: "bit (bit_sel i) n \<longleftrightarrow> n = 7 - i mod 8"
proof -
  have "i mod 8 < 8" by simp
  then have "i mod 8 + n = 7 \<longleftrightarrow> n = 7 - i mod 8" by linarith
  then show ?thesis by (simp only: bit_sel_def bit_drop_bit_eq bit_128 comp_def)
qed

lemma and_bit_sel: "b AND bit_sel i \<noteq> 0 \<longleftrightarrow> bit b (7 - i mod 8)"
proof -
  have "b AND bit_sel i = 0 \<longleftrightarrow> (\<forall>n < 8. \<not> bit (b AND bit_sel i) n)"
    using bit_word_eqI [of "b AND bit_sel i" 0] by auto
  then show ?thesis by (auto simp: bit_and_iff bit_sel_iff)
qed

lemma bit_index_eq: "i div 8 = j div 8 \<Longrightarrow> 7 - i mod 8 = 7 - j mod 8 \<Longrightarrow> i = (j :: nat)"
proof -
  assume "i div 8 = j div 8" "7 - i mod 8 = 7 - j mod 8"
  moreover have "i mod 8 \<le> 7" "j mod 8 \<le> 7" by simp_all
  ultimately have "i mod 8 = j mod 8" by linarith
  with \<open>i div 8 = j div 8\<close> show "i = j" by (metis div_mult_mod_eq)
qed

lemma bit_at_set:
  assumes "i div 8 < length bs"
  shows "bit_at (bs[i div 8 := bs ! (i div 8) OR bit_sel i]) j = (if j = i then True else bit_at bs j)"
    and "bit_at (bs[i div 8 := bs ! (i div 8) AND NOT (bit_sel i)]) j = (if j = i then False else bit_at bs j)"
  using assms bit_index_eq [of j i]
  by (auto simp: bit_at_def nth_list_update bit_or_iff bit_and_iff bit_not_iff bit_sel_iff)

text \<open>The loops set or clear one bit after the other.\<close>

lemma combine_loop_bits:
  "length v6 = 16 \<Longrightarrow> length v4 = 4 \<Longrightarrow> v4it \<le> 32 \<Longrightarrow> v6it + (32 - v4it) \<le> 128 \<Longrightarrow>
     \<exists>r. combine_loop v6 v4 v6it v4it = Ret (r, v6it + (32 - v4it)) \<and> length r = 16 \<and>
       (\<forall>j. bit_at r j = (if v6it \<le> j \<and> j < v6it + (32 - v4it) then bit_at v4 (v4it + (j - v6it)) else bit_at v6 j))"
proof (induction v6 v4 v6it v4it rule: combine_loop.induct)
  case (1 v6 v4 v6it v4it)
  show ?case
  proof (cases "v4it < 32")
    case True
    define b where "b = (if v4 ! (v4it div 8) AND bit_sel v4it \<noteq> 0
      then v6 ! (v6it div 8) OR bit_sel v6it else v6 ! (v6it div 8) AND NOT (bit_sel v6it))"
    have idx: "v6it div 8 < 16" "v4it div 8 < 4" using True "1.prems" by auto
    then have step: "combine_loop v6 v4 v6it v4it = combine_loop (v6[v6it div 8 := b]) v4 (Suc v6it) (Suc v4it)"
      using True "1.prems" by (simp add: combine_loop.simps [of v6] b_def Let_def)
    have bit: "bit_at (v6[v6it div 8 := b]) j = (if j = v6it then bit_at v4 v4it else bit_at v6 j)" for j
      using idx "1.prems" and_bit_sel [of "v4 ! (v4it div 8)" v4it]
      by (auto simp: b_def bit_at_set bit_at_def [of v4])
    obtain r where r: "combine_loop (v6[v6it div 8 := b]) v4 (Suc v6it) (Suc v4it) = Ret (r, Suc v6it + (32 - Suc v4it))"
      "length r = 16"
      "\<forall>j. bit_at r j = (if Suc v6it \<le> j \<and> j < Suc v6it + (32 - Suc v4it)
         then bit_at v4 (Suc v4it + (j - Suc v6it)) else bit_at (v6[v6it div 8 := b]) j)"
      using "1.IH" [OF True _ refl b_def] True idx "1.prems" by fastforce
    have "bit_at r j = (if v6it \<le> j \<and> j < v6it + (32 - v4it) then bit_at v4 (v4it + (j - v6it)) else bit_at v6 j)" for j
      using r(3) [rule_format, of j] bit [of j] True
      by (cases "j = v6it") (auto simp: Suc_diff_Suc)
    with r step True show ?thesis by (auto simp: Suc_diff_Suc)
  qed (use "1.prems" in \<open>auto simp: combine_loop.simps [of v6]\<close>)
qed

lemma clear_loop_bits:
  "length v6 = 16 \<Longrightarrow>
     \<exists>r. clear_loop v6 it = Ret r \<and> length r = 16 \<and> (\<forall>j < 128. bit_at r j = (j < it \<and> bit_at v6 j))"
proof (induction v6 it rule: clear_loop.induct)
  case (1 v6 it)
  show ?case
  proof (cases "it < 128")
    case True
    define v where "v = v6[it div 8 := v6 ! (it div 8) AND NOT (bit_sel it)]"
    have bit: "bit_at v j = (if j = it then False else bit_at v6 j)" for j
      using True "1.prems" unfolding v_def by (intro bit_at_set(2)) auto
    have "it div 8 < 16" using True by auto
    then have step: "clear_loop v6 it = clear_loop v (Suc it)"
      using True "1.prems" by (simp add: clear_loop.simps [of v6] v_def)
    obtain r where r: "clear_loop v (Suc it) = Ret r" "length r = 16"
      "\<forall>j < 128. bit_at r j = (j < Suc it \<and> bit_at v j)"
      using "1.IH" [OF True] True "1.prems" unfolding v_def by fastforce
    have "bit_at r j = (j < it \<and> bit_at v6 j)" if "j < 128" for j
      using r(3) that bit [of j] by (auto simp: less_Suc_eq)
    with r step show ?thesis by auto
  qed (use "1.prems" in \<open>auto simp: clear_loop.simps [of v6]\<close>)
qed

lemma parse_str_terminated:
  assumes "CHR ''/'' \<notin> set a" and "pton a = Some ad"
  shows "parse_str pton maxmask (a @ ''/'' @ m, True) =
    (if fst (strtoul 10 m) > maxmask then Exit 1 else Ret (ad, fst (strtoul 10 m)))"
proof -
  have "takeWhile (\<lambda>c. c \<noteq> CHR ''/'') (a @ ''/'' @ m) = a"
    using assms(1) by (simp add: takeWhile_append)
  with assms show ?thesis by (simp add: parse_str_def Let_def)
qed

lemma parse_str_no_slash:
  "CHR ''/'' \<notin> set s \<Longrightarrow> parse_str pton maxmask (s, t) = (if t then Exit 1 else Undef)"
  by (simp add: parse_str_def)

lemma sixrd_bufs:
  "length s < 50 \<Longrightarrow> terminate_at (INET6_PREFIXSTRLEN - 1) (strncpy_buf INET6_PREFIXSTRLEN s) = (s, True)"
  "length s < 19 \<Longrightarrow> strncpy_buf INET_PREFIXSTRLEN s = (s, True)"
  "19 \<le> length s \<Longrightarrow> strncpy_buf INET_PREFIXSTRLEN s = (take 19 s, False)"
  by (auto simp: terminate_at_def strncpy_buf_def INET6_PREFIXSTRLEN_def INET_PREFIXSTRLEN_def)

lemma unat_mask: "(p4 :: u32) \<le> 32 \<Longrightarrow> (p6 :: u32) \<le> 128 \<Longrightarrow> unat (32 - p4 + p6) = 32 - unat p4 + unat p6"
  by (simp add: word_le_nat_alt unat_sub unat_word_ariths)

lemma sixrd_run:
  assumes "parse_str (pton6 net) 128 (terminate_at (INET6_PREFIXSTRLEN - 1) (strncpy_buf INET6_PREFIXSTRLEN s6)) = P6"
    and "parse_str (pton4 net) 32 (strncpy_buf INET_PREFIXSTRLEN s4) = P4"
  shows "sixrd_main net [s6, s4] = obind P6 (\<lambda>(v6, v6it). obind P4 (\<lambda>(v4, v4it).
    if 32 - v4it + v6it > 128 then Exit 1
    else obind (combine_loop v6 v4 (unat v6it) (unat v4it)) (\<lambda>(v6, it). obind (clear_loop v6 it) (\<lambda>v6.
      Ret (ntop6 net v6 @ ''/'' @ dec_of_nat (unat (32 - v4it + v6it)) @ [char_of (10 :: nat)])))))"
  unfolding assms [symmetric] by (simp add: sixrd_main_def Let_def)

section \<open>Properties\<close>

text \<open>
  C29. For an IPv6 prefix and an IPv4 address in their buffers' size, \<open>p6\<close> and \<open>p4\<close> the mask lengths
  that \<^verbatim>\<open>strtoul\<close> reads: the program exits with status 1 when a mask is too long or the combined mask
  has more than 128 bits. Otherwise it prints the address whose bits are the first \<open>p6\<close> bits of
  the IPv6 address, the bits of the IPv4 address from \<open>p4\<close> on, and zeros, and the combined mask. An
  IPv4 argument that fills the 19 bytes of its buffer without a slash is read beyond the end of
  the buffer, because the statement that should terminate it writes into the other buffer.
\<close>

theorem sixrd_prefix_correct:
  fixes p6 p4 :: u32
  assumes "CHR ''/'' \<notin> set a6" and "length (a6 @ ''/'' @ m6) < 50" and "pton6 net a6 = Some v6" and "length v6 = 16"
    and "CHR ''/'' \<notin> set a4" and "length (a4 @ ''/'' @ m4) < 19" and "pton4 net a4 = Some v4" and "length v4 = 4"
    and "p6 = fst (strtoul 10 m6)" and "p4 = fst (strtoul 10 m4)"
    and "len = 32 - unat p4 + unat p6"
  shows "(p6 > 128 \<or> p4 > 32 \<or> len > 128 \<longrightarrow>
      sixrd_main net [a6 @ ''/'' @ m6, a4 @ ''/'' @ m4] = Exit 1) \<and>
    (p6 \<le> 128 \<and> p4 \<le> 32 \<and> len \<le> 128 \<longrightarrow>
      (\<exists>r. sixrd_main net [a6 @ ''/'' @ m6, a4 @ ''/'' @ m4] =
           Ret (ntop6 net r @ ''/'' @ dec_of_nat len @ [char_of (10 :: nat)]) \<and> length r = 16 \<and>
         (\<forall>j < 128. bit_at r j = (if j < unat p6 then bit_at v6 j
            else j < len \<and> bit_at v4 (unat p4 + (j - unat p6)))))) \<and>
    (p6 \<le> 128 \<and> 19 \<le> length s \<and> CHR ''/'' \<notin> set (take 19 s) \<longrightarrow>
      sixrd_main net [a6 @ ''/'' @ m6, s] = Undef)"
proof (intro conjI impI)
  note parse6 = parse_str_terminated [where pton = "pton6 net", OF assms(1,3), of 128 m6,
      folded assms(9) sixrd_bufs(1) [OF assms(2)]]
  note parse4 = parse_str_terminated [where pton = "pton4 net", OF assms(5,7), of 32 m4,
      folded assms(10) sixrd_bufs(2) [OF assms(6)]]
  note main = sixrd_run [OF parse6 parse4]
  { assume "p6 > 128 \<or> p4 > 32 \<or> len > 128"
    then show "sixrd_main net [a6 @ ''/'' @ m6, a4 @ ''/'' @ m4] = Exit 1"
      using unat_mask [of p4 p6] unfolding main by (auto simp: assms(11) word_less_nat_alt word_le_nat_alt) }
  { assume le: "p6 \<le> 128 \<and> p4 \<le> 32 \<and> len \<le> 128"
    then have len_eq: "unat (32 - p4 + p6) = len" by (simp add: unat_mask assms(11))
    have p4: "unat p4 \<le> 32" using le by (simp add: word_le_nat_alt)
    have sum: "unat p6 + (32 - unat p4) = len" using assms(11) by simp
    obtain x where x: "combine_loop v6 v4 (unat p6) (unat p4) = Ret (x, len)" "length x = 16"
      "\<forall>j. bit_at x j = (if unat p6 \<le> j \<and> j < len then bit_at v4 (unat p4 + (j - unat p6)) else bit_at v6 j)"
      using combine_loop_bits [of v6 v4 "unat p4" "unat p6"] assms(4,8) le p4 sum by auto
    obtain r where r: "clear_loop x len = Ret r" "length r = 16" "\<forall>j < 128. bit_at r j = (j < len \<and> bit_at x j)"
      using clear_loop_bits [OF x(2)] by blast
    have "\<not> 32 - p4 + p6 > 128" using len_eq le by (simp add: word_less_nat_alt)
    then have "sixrd_main net [a6 @ ''/'' @ m6, a4 @ ''/'' @ m4] =
        Ret (ntop6 net r @ ''/'' @ dec_of_nat len @ [char_of (10 :: nat)])"
      using le unfolding main by (simp add: x r len_eq not_less)
    moreover have "bit_at r j = (if j < unat p6 then bit_at v6 j
        else j < len \<and> bit_at v4 (unat p4 + (j - unat p6)))" if "j < 128" for j
      using r(3) x(3) that assms(11) by auto
    ultimately show "\<exists>r. sixrd_main net [a6 @ ''/'' @ m6, a4 @ ''/'' @ m4] =
           Ret (ntop6 net r @ ''/'' @ dec_of_nat len @ [char_of (10 :: nat)]) \<and> length r = 16 \<and>
         (\<forall>j < 128. bit_at r j = (if j < unat p6 then bit_at v6 j
            else j < len \<and> bit_at v4 (unat p4 + (j - unat p6))))"
      using r(2) by blast }
  { assume "p6 \<le> 128 \<and> 19 \<le> length s \<and> CHR ''/'' \<notin> set (take 19 s)"
    then show "sixrd_main net [a6 @ ''/'' @ m6, s] = Undef"
      unfolding sixrd_run [OF parse6 refl] by (simp add: sixrd_bufs(3) parse_str_no_slash not_less) }
qed

text \<open>The prefix \<^verbatim>\<open>2001:db8::/32\<close> and the customer address \<^verbatim>\<open>10.20.30.40/8\<close>.\<close>

definition demo_inet :: inet where
  "demo_inet = \<lparr>pton4 = (\<lambda>s. if s = ''10.20.30.40'' then Some [10, 20, 30, 40] else None),
     pton6 = (\<lambda>s. if s = ''2001:db8::'' then Some ([0x20, 0x01, 0x0D, 0xB8] @ replicate 12 0) else None),
     ntop4 = str_of_bytes, ntop6 = str_of_bytes\<rparr>"

lemma unat_numeral_demo: "unat (32 :: u32) = 32" "unat (8 :: u32) = 8"
  by simp_all

theorem sixrd_prefix_correct_witness:
  "\<exists>r. sixrd_main demo_inet [''2001:db8::/32'', ''10.20.30.40/8''] =
       Ret (ntop6 demo_inet r @ ''/56'' @ [char_of (10 :: nat)]) \<and> length r = 16 \<and>
     (\<forall>j < 128. bit_at r j = (if j < 32 then bit_at ([0x20, 0x01, 0x0D, 0xB8] @ replicate 12 0) j
        else j < 56 \<and> bit_at [10, 20, 30, 40] (8 + (j - 32))))"
proof -
  let ?v6 = "[0x20, 0x01, 0x0D, 0xB8] @ replicate 12 0"
  have num: "32 = fst (strtoul 10 ''32'')" "8 = fst (strtoul 10 ''8'')" "dec_of_nat 56 = ''56''"
    by (simp_all add: strtoul_def strto_scan_def strto_sign_def strto_base_def digit_val_def digits_value_def
        c_isspace_def dec_of_nat.simps char_of_def bit_0)
  have net: "pton6 demo_inet ''2001:db8::'' = Some ?v6" "pton4 demo_inet ''10.20.30.40'' = Some [10, 20, 30, 40]"
    by (simp_all add: demo_inet_def)
  have le: "(32 :: u32) \<le> 128 \<and> (8 :: u32) \<le> 32 \<and> (56 :: nat) \<le> 128" by simp
  have arg: "CHR ''/'' \<notin> set ''2001:db8::''" "CHR ''/'' \<notin> set ''10.20.30.40''"
    "length (''2001:db8::'' @ ''/'' @ ''32'') < 50" "length (''10.20.30.40'' @ ''/'' @ ''8'') < 19"
    "length ?v6 = 16" "length [10, 20, 30, 40 :: byte] = 4" "56 = 32 - unat (8 :: u32) + unat (32 :: u32)"
    by simp_all
  have "\<exists>r. sixrd_main demo_inet [''2001:db8::'' @ ''/'' @ ''32'', ''10.20.30.40'' @ ''/'' @ ''8''] =
       Ret (ntop6 demo_inet r @ ''/'' @ dec_of_nat 56 @ [char_of (10 :: nat)]) \<and> length r = 16 \<and>
     (\<forall>j < 128. bit_at r j = (if j < unat (32 :: u32) then bit_at ?v6 j
        else j < 56 \<and> bit_at [10, 20, 30, 40] (unat (8 :: u32) + (j - unat (32 :: u32)))))"
    by (rule sixrd_prefix_correct [OF arg(1,3) net(1) arg(5,2,4) net(2) arg(6) num(1,2) arg(7),
        THEN conjunct2, THEN conjunct1, THEN mp, OF le])
  then show ?thesis by (simp only: num(3) append.simps unat_numeral_demo)
qed

end
