(* ===== verification/Host_Env.thy ===== *)
theory Host_Env
  imports C_Stdlib
begin

text \<open>
  What the firmware tools of the build host use of their environment: options, files and a
  \<^verbatim>\<open>long\<close> of 64 bits.
\<close>

section \<open>Options\<close>

text \<open>
  \<^verbatim>\<open>getopt\<close> of the C library as the host tools use it: the successive results of the calls with
  their \<^verbatim>\<open>optarg\<close>, and the arguments that are left when it returns \<open>-1\<close>. As in the GNU library,
  arguments that are not options may stand between options and are moved behind them, and \<^verbatim>\<open>--\<close>
  ends the options. An unknown option and an option without its argument give \<^verbatim>\<open>?\<close>.
\<close>

datatype opt_kind = Opt_unknown | Opt_flag | Opt_arg

fun opt_kind_of :: "string \<Rightarrow> char \<Rightarrow> opt_kind" where
  "opt_kind_of [] c = Opt_unknown"
| "opt_kind_of (o' # os) c =
     (if o' = c \<and> c \<noteq> CHR '':''
      then (case os of x # _ \<Rightarrow> if x = CHR '':'' then Opt_arg else Opt_flag | [] \<Rightarrow> Opt_flag)
      else opt_kind_of os c)"

type_synonym opt_result = "char \<times> string option"

text \<open>One argument that starts with a dash, given the next argument if there is one: the results
  and whether the next argument was used.\<close>

fun opt_cluster :: "string \<Rightarrow> string \<Rightarrow> string option \<Rightarrow> opt_result list \<times> bool" where
  "opt_cluster ostr [] nxt = ([], False)"
| "opt_cluster ostr (c # cs) nxt =
     (case opt_kind_of ostr c of
        Opt_unknown \<Rightarrow> (let (r, u) = opt_cluster ostr cs nxt in ((CHR ''?'', None) # r, u))
      | Opt_flag \<Rightarrow> (let (r, u) = opt_cluster ostr cs nxt in ((c, None) # r, u))
      | Opt_arg \<Rightarrow>
          if cs \<noteq> [] then ([(c, Some cs)], False)
          else (case nxt of None \<Rightarrow> ([(CHR ''?'', None)], False) | Some a \<Rightarrow> ([(c, Some a)], True)))"

definition is_option :: "string \<Rightarrow> bool" where
  "is_option a = (case a of d # _ # _ \<Rightarrow> d = CHR ''-'' | _ \<Rightarrow> False)"

fun getopt_all :: "string \<Rightarrow> string list \<Rightarrow> opt_result list \<times> string list" where
  "getopt_all ostr [] = ([], [])"
| "getopt_all ostr [a] =
     (if a = ''--'' then ([], [])
      else if is_option a then (fst (opt_cluster ostr (tl a) None), [])
      else ([], [a]))"
| "getopt_all ostr (a # b # args) =
     (if a = ''--'' then ([], b # args)
      else if is_option a then
        (let (r, used) = opt_cluster ostr (tl a) (Some b);
             (rs, rest) = (if used then getopt_all ostr args else getopt_all ostr (b # args))
         in (r @ rs, rest))
      else (let (rs, rest) = getopt_all ostr (b # args) in (rs, a # rest)))"

text \<open>An option letter and its argument as two arguments.\<close>

lemma getopt_all_pair:
  assumes "opt_kind_of ostr c = Opt_arg" and "c \<noteq> CHR ''-''"
  shows "getopt_all ostr ([CHR ''-'', c] # v # args) =
    (let (rs, rest) = getopt_all ostr args in ((c, Some v) # rs, rest))"
  using assms by (simp add: is_option_def split: prod.splits)

lemma getopt_all_flag:
  assumes "opt_kind_of ostr c = Opt_flag" and "c \<noteq> CHR ''-''"
  shows "getopt_all ostr ([CHR ''-'', c] # args) =
    (let (rs, rest) = getopt_all ostr args in ((c, None) # rs, rest))"
  using assms by (cases args) (simp_all add: is_option_def split: prod.splits)

lemma is_option_dashes [simp]: "is_option ''--''"
  by (simp add: is_option_def)

lemma getopt_all_args: "\<forall>a \<in> set args. \<not> is_option a \<Longrightarrow> getopt_all ostr args = ([], args)"
proof (induction ostr args rule: getopt_all.induct)
  case (2 ostr a)
  then show ?case by (cases "a = ''--''") auto
next
  case (3 ostr a b args)
  then have a: "a \<noteq> ''--''" "\<not> is_option a" by (auto simp del: is_option_dashes intro: is_option_dashes)
  with 3 show ?case by simp
qed simp

declare getopt_all.simps(2,3) [simp del]

section \<open>Numbers\<close>

definition strtoul64 :: "nat \<Rightarrow> string \<Rightarrow> 64 word \<times> string" where
  "strtoul64 base s =
     (case strto_scan base s of
        None \<Rightarrow> (0, s)
      | Some (neg, v, r) \<Rightarrow>
          (if v \<ge> 2 ^ 64 then - 1 else if neg then - of_nat v else of_nat v, r))"

section \<open>Files\<close>

text \<open>
  The files with their contents, the names that can be opened for reading and for writing, and
  the lengths that can be written (the others fail because the disk is full).
\<close>

record host_fs =
  files :: "string \<Rightarrow> byte list option"
  readable :: "string \<Rightarrow> bool"
  creatable :: "string \<Rightarrow> bool"
  has_space :: "nat \<Rightarrow> bool"

section \<open>Buffers\<close>

text \<open>
  A buffer is a byte list and a pointer into it an offset. \<open>malloc n\<close> is the memory that a call of
  \<^verbatim>\<open>malloc(n)\<close> gives, with whatever it contains, or \<open>None\<close>.
\<close>

type_synonym malloc = "nat \<Rightarrow> byte list option"

text \<open>\<^verbatim>\<open>memcpy\<close> to the offset \<open>off\<close> of a buffer, and \<open>n\<close> bytes at an offset.\<close>

definition mem_write :: "nat \<Rightarrow> byte list \<Rightarrow> byte list \<Rightarrow> byte list outcome" where
  "mem_write off bs mem =
     (if off + length bs \<le> length mem then Ret (take off mem @ bs @ drop (off + length bs) mem) else Undef)"

definition mem_read :: "nat \<Rightarrow> nat \<Rightarrow> byte list \<Rightarrow> byte list outcome" where
  "mem_read off n mem = (if off + n \<le> length mem then Ret (take n (drop off mem)) else Undef)"

lemma mem_write_append:
  "length a = off \<Longrightarrow> length b = length bs \<Longrightarrow> mem_write off bs (a @ b @ c) = Ret (a @ bs @ c)"
  by (auto simp: mem_write_def)

lemma mem_read_append: "length a = off \<Longrightarrow> length b = n \<Longrightarrow> mem_read off n (a @ b @ c) = Ret b"
  by (auto simp: mem_read_def)

text \<open>\<^verbatim>\<open>memset\<close>, and the buffer after bytes were put into it.\<close>

definition mem_set :: "nat \<Rightarrow> byte \<Rightarrow> nat \<Rightarrow> byte list \<Rightarrow> byte list outcome" where
  "mem_set off v n mem = (if off + n \<le> length mem then Ret (take off mem @ replicate n v @ drop (off + n) mem) else Undef)"

definition put_at :: "nat \<Rightarrow> byte list \<Rightarrow> byte list \<Rightarrow> byte list" where
  "put_at off bs c = take off c @ bs @ drop (off + length bs) c"

lemma put_at_erased: "length bs = length ff \<Longrightarrow> off + length bs \<le> length c \<Longrightarrow> put_at off bs (put_at off ff c) = put_at off bs c"
  by (simp add: put_at_def)

lemma put_at_there: "off + length bs \<le> length c \<Longrightarrow> take (length bs) (drop off (put_at off bs c)) = bs"
  by (simp add: put_at_def)

lemma mem_write_put: "mem_write off bs mem = (if off + length bs \<le> length mem then Ret (put_at off bs mem) else Undef)"
  by (simp add: mem_write_def put_at_def)

lemma length_put_at [simp]: "off + length bs \<le> length c \<Longrightarrow> length (put_at off bs c) = length c"
  by (simp add: put_at_def)

end
