(* ===== verification/Buffalo_Lib.thy ===== *)
theory Buffalo_Lib
  imports Host_Env
begin

text \<open>
  The library of the Buffalo firmware tools (\<^verbatim>\<open>tools/firmware-utils/src/buffalo-lib.c\<close>): the stream
  cipher, the two checksums, and the encryption and decryption of an image in a buffer.

  A buffer is a byte list and a pointer into it an offset, so that a call whose source and
  destination overlap reads what it has already written. An access outside the buffer is
  \<open>Undef\<close>. The functions that report an error by \<open>-1\<close> give \<open>Ret None\<close>; their callers read no
  other result then. A \<^verbatim>\<open>char\<close> is signed or not depending on the machine (\<open>sc\<close>).
\<close>

section \<open>Data\<close>

record bcrypt_ctx =
  ctx_i :: byte
  ctx_j :: byte
  ctx_state :: "byte list"

definition ENC_PRODUCT_LEN :: nat where "ENC_PRODUCT_LEN = 32"

definition ENC_VERSION_LEN :: nat where "ENC_VERSION_LEN = 8"

definition ENC_MAGIC_LEN :: nat where "ENC_MAGIC_LEN = 6"

definition BCRYPT_DEFAULT_STATE_LEN :: nat where "BCRYPT_DEFAULT_STATE_LEN = 256"

definition BCRYPT_MAX_KEYLEN :: nat where "BCRYPT_MAX_KEYLEN = 254"

text \<open>The arrays of \<^verbatim>\<open>struct enc_param\<close> are lists of their full length.\<close>

record enc_param =
  ep_key :: "byte list"
  ep_magic :: "byte list"
  ep_product :: "byte list"
  ep_version :: "byte list"
  ep_seed :: byte
  ep_longstate :: bool
  ep_datalen :: u32
  ep_csum :: u32

section \<open>The cipher\<close>

text \<open>One round of the key schedule: the state, the position \<open>j\<close> in the key and \<open>k\<close>.\<close>

definition init_step :: "byte list \<Rightarrow> nat \<Rightarrow> byte list \<times> nat \<times> nat \<Rightarrow> byte list \<times> nat \<times> nat" where
  "init_step key i s =
     (let (state, j, k) = s;
          t = state ! i;
          k' = (k + unat (key ! j) + unat t) mod length state
      in (state[i := state ! k', k' := t], (j + 1) mod length key, k'))"

definition bcrypt_init :: "malloc \<Rightarrow> byte list \<Rightarrow> nat \<Rightarrow> bcrypt_ctx option" where
  "bcrypt_init malloc key state_len =
     (case malloc state_len of
        None \<Rightarrow> None
      | Some _ \<Rightarrow>
          (let state = map of_nat [0..<state_len];
               (state', _, _) = fold (init_step key) [0..<state_len] (state, 0, 0)
           in Some \<lparr>ctx_i = 0, ctx_j = 0, ctx_state = state'\<rparr>))"

text \<open>One step of \<^verbatim>\<open>bcrypt_process\<close>: the new context and the byte that is added to the text. The
  indices are \<^verbatim>\<open>unsigned char\<close>.\<close>

definition bcrypt_step :: "bcrypt_ctx \<Rightarrow> bcrypt_ctx \<times> byte" where
  "bcrypt_step ctx =
     (let state = ctx_state ctx; n = length state;
          i = of_nat ((unat (ctx_i ctx) + 1) mod n) :: byte;
          j = of_nat ((unat (ctx_j ctx) + unat (state ! unat i)) mod n) :: byte;
          t = state ! unat j;
          state' = state[unat j := state ! unat i, unat i := t]
      in (\<lparr>ctx_i = i, ctx_j = j, ctx_state = state'\<rparr>,
          state' ! ((unat (state' ! unat i) + unat (state' ! unat j)) mod n)))"

fun bcrypt_process :: "bcrypt_ctx \<Rightarrow> byte list \<Rightarrow> nat \<Rightarrow> nat \<Rightarrow> nat \<Rightarrow> (bcrypt_ctx \<times> byte list) outcome" where
  "bcrypt_process ctx mem src dst 0 = Ret (ctx, mem)"
| "bcrypt_process ctx mem src dst (Suc len) =
     (if length mem \<le> src \<or> length mem \<le> dst then Undef
      else let (ctx', x) = bcrypt_step ctx
           in bcrypt_process ctx' (mem[dst := mem ! src XOR x]) (Suc src) (Suc dst) len)"

text \<open>The key is a C string; \<^verbatim>\<open>bckey\<close> has room for 254 bytes of it.\<close>

definition bcrypt_buf ::
  "malloc \<Rightarrow> byte \<Rightarrow> byte list \<Rightarrow> byte list \<Rightarrow> nat \<Rightarrow> nat \<Rightarrow> nat \<Rightarrow> bool \<Rightarrow> byte list option outcome" where
  "bcrypt_buf malloc seed key mem src dst len longstate =
     (if length key > BCRYPT_MAX_KEYLEN then Undef
      else case bcrypt_init malloc (seed # key) (if longstate then len else BCRYPT_DEFAULT_STATE_LEN) of
        None \<Rightarrow> Ret None
      | Some ctx \<Rightarrow> obind (bcrypt_process ctx mem src dst len) (\<lambda>(_, mem'). Ret (Some mem')))"

section \<open>Checksums\<close>

definition csum_shift :: "u32 \<Rightarrow> u32" where
  "csum_shift c = drop_bit 1 c XOR (if c AND 1 \<noteq> 0 then 0xedb88320 else 0)"

definition char_to_u32 :: "bool \<Rightarrow> byte \<Rightarrow> u32" where
  "char_to_u32 sc b = (if sc then scast b else ucast b)"

definition buffalo_csum :: "bool \<Rightarrow> u32 \<Rightarrow> byte list \<Rightarrow> u32" where
  "buffalo_csum sc csum buf = fold (\<lambda>b c. (csum_shift ^^ 8) (c XOR char_to_u32 sc b)) buf csum"

section \<open>Reading and writing a buffer\<close>

definition put_be32 :: "nat \<Rightarrow> u32 \<Rightarrow> byte list \<Rightarrow> byte list outcome" where
  "put_be32 off val mem =
     mem_write off [ucast (drop_bit 24 val AND 0xff), ucast (drop_bit 16 val AND 0xff),
                    ucast (drop_bit 8 val AND 0xff), ucast (val AND 0xff)] mem"

definition get_be32 :: "nat \<Rightarrow> byte list \<Rightarrow> u32 outcome" where
  "get_be32 off mem =
     obind (mem_read off 4 mem) (\<lambda>p.
       Ret (push_bit 24 (ucast (p ! 0)) OR push_bit 16 (ucast (p ! 1)) OR
            push_bit 8 (ucast (p ! 2)) OR ucast (p ! 3)))"

definition check_magic :: "byte list \<Rightarrow> bool" where
  "check_magic m \<longleftrightarrow> m = cstr ''start'' @ [0] \<or> m = cstr ''asar1'' @ [0]"

section \<open>Images\<close>

definition enc_compute_header_len :: "byte list \<Rightarrow> byte list \<Rightarrow> nat" where
  "enc_compute_header_len product version =
     ENC_MAGIC_LEN + 1 + length product + 1 + length version + 1 + 3 * 4"

definition enc_compute_buf_len :: "byte list \<Rightarrow> byte list \<Rightarrow> nat \<Rightarrow> nat" where
  "enc_compute_buf_len product version datalen =
     (let ret = enc_compute_header_len product version + datalen + 4
      in ret + (4 - ret mod 4))"

text \<open>The string in an array with its NUL, as \<^verbatim>\<open>strlen(a) + 1\<close> bytes at \<^verbatim>\<open>a\<close>.\<close>

definition c_string_nul :: "byte list \<Rightarrow> byte list outcome" where
  "c_string_nul a = (case c_string_at a of None \<Rightarrow> Undef | Some s \<Rightarrow> Ret (s @ [0]))"

text \<open>An error of the called function ends the caller with the same error.\<close>

definition try_bind :: "'a option outcome \<Rightarrow> ('a \<Rightarrow> 'b option outcome) \<Rightarrow> 'b option outcome" where
  "try_bind m f = obind m (\<lambda>r. case r of None \<Rightarrow> Ret None | Some x \<Rightarrow> f x)"

text \<open>\<open>put_field\<close> writes the length of a name at \<open>p\<close>, the name behind it and encrypts it there.\<close>

definition put_field ::
  "malloc \<Rightarrow> enc_param \<Rightarrow> byte \<Rightarrow> byte list \<Rightarrow> nat \<Rightarrow> byte list \<Rightarrow> byte list option outcome" where
  "put_field malloc ep s name p mem =
     obind (put_be32 p (of_nat (length name)) mem) (\<lambda>mem.
     obind (mem_write (p + 4) name mem) (\<lambda>mem.
     bcrypt_buf malloc s (ep_key ep) mem (p + 4) (p + 4) (length name) (ep_longstate ep)))"

definition encrypt_buf :: "malloc \<Rightarrow> enc_param \<Rightarrow> byte list \<Rightarrow> nat \<Rightarrow> nat \<Rightarrow> byte list option outcome" where
  "encrypt_buf malloc ep mem hdr data =
     obind (c_string_nul (ep_magic ep)) (\<lambda>magic.
     obind (mem_write hdr magic mem) (\<lambda>mem.
     let p = hdr + length magic in
     obind (mem_write p [ep_seed ep] mem) (\<lambda>mem.
     let p = p + 1 in
     obind (c_string_nul (ep_product ep)) (\<lambda>product.
     try_bind (put_field malloc ep (ep_seed ep) product p mem) (\<lambda>mem.
     let s = mem ! (p + 4); p = p + 4 + length product in
     obind (c_string_nul (ep_version ep)) (\<lambda>version.
     try_bind (put_field malloc ep s version p mem) (\<lambda>mem.
     let s = mem ! (p + 4); p = p + 4 + length version in
     obind (put_be32 p (ep_datalen ep) mem) (\<lambda>mem.
     try_bind (bcrypt_buf malloc s (ep_key ep) mem data data (unat (ep_datalen ep)) (ep_longstate ep)) (\<lambda>mem.
     obind (put_be32 (data + unat (ep_datalen ep)) (ep_csum ep) mem) (\<lambda>mem.
     Ret (Some mem)))))))))))"

text \<open>
  \<^verbatim>\<open>decrypt_buf\<close> works on the first \<open>datalen\<close> bytes of the buffer \<open>mem\<close>; \<open>p\<close> is the offset of \<^verbatim>\<open>p\<close> and
  \<^verbatim>\<open>remain\<close> is \<^term>\<open>datalen - p\<close>. \<open>CHECKLEN\<close> gives up when fewer than \<open>len\<close> bytes remain.
\<close>

definition CHECKLEN :: "nat \<Rightarrow> nat \<Rightarrow> 'a option outcome \<Rightarrow> 'a option outcome" where
  "CHECKLEN remain len f = (if remain < len then Ret None else f)"

text \<open>\<^verbatim>\<open>memcpy\<close> to the start of an array.\<close>

definition array_set :: "byte list \<Rightarrow> byte list \<Rightarrow> byte list outcome" where
  "array_set bs a = mem_write 0 bs a"

text \<open>A length field of at most \<open>maxlen\<close> and that many bytes behind it, copied into the array \<open>a\<close>: the
  length, the array and the offset behind the field.\<close>

definition get_field ::
  "nat \<Rightarrow> byte list \<Rightarrow> nat \<Rightarrow> nat \<Rightarrow> byte list \<Rightarrow> (nat \<times> byte list \<times> nat) option outcome" where
  "get_field maxlen mem datalen p a =
     CHECKLEN (datalen - p) 4 (
     obind (get_be32 p mem) (\<lambda>n.
     if unat n > maxlen then Ret None
     else let p = p + 4 in
     CHECKLEN (datalen - p) (unat n) (
     obind (mem_read p (unat n) mem) (\<lambda>bs.
     obind (array_set bs a) (\<lambda>a.
     Ret (Some (unat n, a, p + unat n)))))))"

definition decrypt_buf ::
  "bool \<Rightarrow> malloc \<Rightarrow> enc_param \<Rightarrow> byte list \<Rightarrow> nat \<Rightarrow> (enc_param \<times> byte list) option outcome" where
  "decrypt_buf sc malloc ep mem datalen =
     CHECKLEN datalen ENC_MAGIC_LEN (
     obind (mem_read 0 ENC_MAGIC_LEN mem) (\<lambda>magic.
     if \<not> check_magic magic then Ret None
     else
     obind (array_set magic (ep_magic ep)) (\<lambda>magic.
     let ep = ep\<lparr>ep_magic := magic\<rparr>; p = ENC_MAGIC_LEN in
     CHECKLEN (datalen - p) 1 (
     obind (mem_read p 1 mem) (\<lambda>s.
     let ep = ep\<lparr>ep_seed := s ! 0\<rparr>; p = p + 1 in
     try_bind (get_field ENC_PRODUCT_LEN mem datalen p (ep_product ep)) (\<lambda>(prod_len, product, p).
     let ep = ep\<lparr>ep_product := product\<rparr> in
     try_bind (get_field ENC_VERSION_LEN mem datalen p (ep_version ep)) (\<lambda>(ver_len, version, p).
     let ep = ep\<lparr>ep_version := version\<rparr> in
     CHECKLEN (datalen - p) 4 (
     obind (get_be32 p mem) (\<lambda>n.
     let ep = ep\<lparr>ep_datalen := n\<rparr>; p = p + 4; len = unat n in
     CHECKLEN (datalen - p) len (
     try_bind (bcrypt_buf malloc (ep_version ep ! 0) (ep_key ep) mem p 0 len (ep_longstate ep)) (\<lambda>mem.
     let p = p + len in
     CHECKLEN (datalen - p) 4 (
     obind (get_be32 p mem) (\<lambda>csum.
     let ep = ep\<lparr>ep_csum := csum\<rparr> in
     if buffalo_csum sc (ep_datalen ep) (take len mem) \<noteq> ep_csum ep then Ret None
     else
     try_bind (bcrypt_buf malloc (ep_product ep ! 0) (ep_key ep) (ep_version ep) 0 0 ver_len (ep_longstate ep)) (\<lambda>version.
     let ep = ep\<lparr>ep_version := version\<rparr> in
     try_bind (bcrypt_buf malloc (ep_seed ep) (ep_key ep) (ep_product ep) 0 0 prod_len (ep_longstate ep)) (\<lambda>product.
     let ep = ep\<lparr>ep_product := product\<rparr> in
     Ret (Some (ep, mem)))))))))))))))))"

section \<open>Files\<close>

definition get_file_size :: "host_fs \<Rightarrow> string \<Rightarrow> nat option" where
  "get_file_size fs name = map_option length (files fs name)"

text \<open>\<^verbatim>\<open>fread\<close> of one item of \<open>buflen\<close> bytes: it is not read when \<open>buflen\<close> is 0.\<close>

definition read_file_to_buf :: "host_fs \<Rightarrow> string \<Rightarrow> nat \<Rightarrow> byte list option" where
  "read_file_to_buf fs name buflen =
     (if \<not> readable fs name then None
      else case files fs name of
        None \<Rightarrow> None
      | Some bs \<Rightarrow> if buflen = 0 \<or> length bs < buflen then None else Some (take buflen bs))"

text \<open>The file is removed when it cannot be written as a whole.\<close>

definition write_buf_to_file :: "host_fs \<Rightarrow> string \<Rightarrow> byte list \<Rightarrow> bool \<times> host_fs" where
  "write_buf_to_file fs name buf =
     (if \<not> creatable fs name then (False, fs)
      else if buf = [] \<or> \<not> has_space fs (length buf) then (False, fs\<lparr>files := (files fs)(name := None)\<rparr>)
      else (True, fs\<lparr>files := (files fs)(name \<mapsto> buf)\<rparr>))"

end
