(* ===== verification/Buffalo_Crypt.thy ===== *)
theory Buffalo_Crypt
  imports Buffalo_Lib "HOL-Library.Multiset"
begin

text \<open>
  What the functions of \<^verbatim>\<open>buffalo-lib.c\<close> do on a buffer: the cipher adds a key stream that does not
  depend on the text, also when source and destination overlap; its state stays a
  permutation; images that were encrypted can be decrypted; decryption of any input stays
  inside its buffers.
\<close>

section \<open>Outcomes that are safe\<close>

text \<open>The routine returns, and when it reports no error the result satisfies \<open>P\<close>.\<close>

definition ret_sat :: "('a \<Rightarrow> bool) \<Rightarrow> 'a option outcome \<Rightarrow> bool" where
  "ret_sat P m = (case m of Ret None \<Rightarrow> True | Ret (Some x) \<Rightarrow> P x | _ \<Rightarrow> False)"

named_theorems sat_rules "rules for the routines that are safe"

lemma ret_sat_None [sat_rules]: "ret_sat P (Ret None)"
  by (simp add: ret_sat_def)

lemma ret_sat_Some [sat_rules]: "P x \<Longrightarrow> ret_sat P (Ret (Some x))"
  by (simp add: ret_sat_def)

lemma ret_sat_try_bind:
  "ret_sat Q m \<Longrightarrow> (\<And>x. Q x \<Longrightarrow> ret_sat P (f x)) \<Longrightarrow> ret_sat P (try_bind m f)"
  by (cases m) (auto simp: ret_sat_def try_bind_def split: option.splits)

lemma ret_sat_case [sat_rules]: "ret_sat P (f a b) \<Longrightarrow> ret_sat P (case (a, b) of (x, y) \<Rightarrow> f x y)"
  by simp

lemma ret_sat_CHECKLEN [sat_rules]: "(len \<le> remain \<Longrightarrow> ret_sat P f) \<Longrightarrow> ret_sat P (CHECKLEN remain len f)"
  by (simp add: CHECKLEN_def ret_sat_None)

lemma ret_sat_if [sat_rules]: "(\<not> c \<Longrightarrow> ret_sat P f) \<Longrightarrow> ret_sat P (if c then Ret None else f)"
  by (simp add: ret_sat_None)

lemma ret_sat_mono: "ret_sat P m \<Longrightarrow> (\<And>x. P x \<Longrightarrow> Q x) \<Longrightarrow> ret_sat Q m"
  by (auto simp: ret_sat_def split: outcome.splits option.splits)

lemma try_bind_Some [simp]: "try_bind (Ret (Some x)) f = f x"
  by (simp add: try_bind_def)

lemma CHECKLEN_le [simp]: "len \<le> remain \<Longrightarrow> CHECKLEN remain len f = f"
  by (simp add: CHECKLEN_def)

section \<open>Buffers\<close>

lemma put_be32_append:
  "length a = off \<Longrightarrow> length b = 4 \<Longrightarrow> put_be32 off v (a @ b @ c) = Ret (a @ bytes_be v @ c)"
  by (simp add: put_be32_def ucast_and_ff mem_write_append bytes_be_def)

lemma get_be32_read: "mem_read off 4 mem = Ret bs \<Longrightarrow> get_be32 off mem = Ret (word_be bs)"
proof -
  assume r: "mem_read off 4 mem = Ret bs"
  then have "length bs = 4" by (auto simp: mem_read_def split: if_splits)
  then obtain a b c d where "bs = [a, b, c, d]" by (rule list_4E)
  with r show ?thesis by (simp add: get_be32_def word_be_4)
qed

lemma get_be32_append:
  "length a = off \<Longrightarrow> get_be32 off (a @ bytes_be v @ c) = Ret v"
  using get_be32_read [OF mem_read_append, of a off "bytes_be v" c] by simp

lemma mem_read_ok: "off + n \<le> length mem \<Longrightarrow> mem_read off n mem = Ret (take n (drop off mem))"
  by (simp add: mem_read_def)

lemma get_be32_ok: "off + 4 \<le> length mem \<Longrightarrow> get_be32 off mem = Ret (word_be (take 4 (drop off mem)))"
  by (simp add: get_be32_read mem_read_ok)

lemma array_set_ok: "length bs \<le> length a \<Longrightarrow> array_set bs a = Ret (bs @ drop (length bs) a)"
  by (simp add: array_set_def mem_write_def)

lemma sat_mem_read [sat_rules]:
  "off + n \<le> length mem \<Longrightarrow> ret_sat P (f (take n (drop off mem))) \<Longrightarrow> ret_sat P (obind (mem_read off n mem) f)"
  by (simp add: mem_read_ok)

lemma sat_get_be32 [sat_rules]:
  "off + 4 \<le> length mem \<Longrightarrow> ret_sat P (f (word_be (take 4 (drop off mem)))) \<Longrightarrow> ret_sat P (obind (get_be32 off mem) f)"
  by (simp add: get_be32_ok)

lemma sat_array_set [sat_rules]:
  "length bs \<le> length a \<Longrightarrow> ret_sat P (f (bs @ drop (length bs) a)) \<Longrightarrow> ret_sat P (obind (array_set bs a) f)"
  by (simp add: array_set_ok)

lemma mem_read_behind:
  assumes "length d \<le> off" and "length d \<le> length mem"
  shows "mem_read off n (d @ drop (length d) mem) = mem_read off n mem"
  using assms by (auto simp: mem_read_def)

section \<open>The key stream\<close>

primrec keystream :: "bcrypt_ctx \<Rightarrow> nat \<Rightarrow> byte list" where
  "keystream ctx 0 = []"
| "keystream ctx (Suc n) = snd (bcrypt_step ctx) # keystream (fst (bcrypt_step ctx)) n"

lemma length_keystream [simp]: "length (keystream ctx n) = n"
  by (induction n arbitrary: ctx) simp_all

definition xor_bytes :: "byte list \<Rightarrow> byte list \<Rightarrow> byte list" where
  "xor_bytes = map2 (XOR)"

lemma length_xor_bytes [simp]: "length (xor_bytes xs ks) = min (length xs) (length ks)"
  by (simp add: xor_bytes_def)

lemma xor_bytes_Cons [simp]: "xor_bytes (x # xs) (k # ks) = (x XOR k) # xor_bytes xs ks"
  by (simp add: xor_bytes_def)

lemma xor_bytes_twice [simp]: "length xs = length ks \<Longrightarrow> xor_bytes (xor_bytes xs ks) ks = xs"
  by (induction xs ks rule: list_induct2) (simp_all add: xor_bytes_def xor.assoc)

text \<open>The bytes from \<open>src\<close> on, with the key stream added, replace the bytes from \<open>dst\<close> on, when the
  destination does not start behind the source.\<close>

lemma bcrypt_process_mem:
  "dst \<le> src \<Longrightarrow> src + len \<le> length mem \<Longrightarrow>
     \<exists>ctx'. bcrypt_process ctx mem src dst len =
       Ret (ctx', take dst mem @ xor_bytes (take len (drop src mem)) (keystream ctx len) @ drop (dst + len) mem)"
proof (induction len arbitrary: ctx mem src dst)
  case 0
  then show ?case by (simp add: xor_bytes_def)
next
  case (Suc len)
  obtain c x where cx: "bcrypt_step ctx = (c, x)" by (cases "bcrypt_step ctx")
  let ?mem = "mem[dst := mem ! src XOR x]"
  obtain ctx' where IH: "bcrypt_process c ?mem (Suc src) (Suc dst) len = Ret (ctx', take (Suc dst) ?mem @
      xor_bytes (take len (drop (Suc src) ?mem)) (keystream c len) @ drop (Suc dst + len) ?mem)"
    using Suc.IH [of "Suc dst" "Suc src" ?mem c] Suc.prems by auto
  have "take (Suc dst) ?mem = take dst mem @ [mem ! src XOR x]"
    using Suc.prems by (simp add: take_Suc_conv_app_nth)
  moreover have "drop (Suc src) ?mem = drop (Suc src) mem" "drop (Suc dst + len) ?mem = drop (Suc dst + len) mem"
    using Suc.prems by simp_all
  moreover have "take (Suc len) (drop src mem) = mem ! src # take len (drop (Suc src) mem)"
    using Suc.prems by (simp add: Cons_nth_drop_Suc [symmetric])
  ultimately show ?case
    using IH Suc.prems by (auto simp: cx)
qed

lemma bcrypt_process_safe:
  "src + len \<le> length mem \<Longrightarrow> dst + len \<le> length mem \<Longrightarrow>
     \<exists>ctx' mem'. bcrypt_process ctx mem src dst len = Ret (ctx', mem') \<and> length mem' = length mem"
proof (induction len arbitrary: ctx mem src dst)
  case (Suc len)
  obtain c x where cx: "bcrypt_step ctx = (c, x)" by (cases "bcrypt_step ctx")
  from Suc.IH [of "Suc src" "mem[dst := mem ! src XOR x]" "Suc dst" c] Suc.prems show ?case
    by (simp add: cx)
qed simp

text \<open>The cipher as a function of seed, key and text.\<close>

definition key_ctx :: "byte list \<Rightarrow> nat \<Rightarrow> bcrypt_ctx" where
  "key_ctx key n = \<lparr>ctx_i = 0, ctx_j = 0,
     ctx_state = fst (fold (init_step key) [0..<n] (map of_nat [0..<n], 0, 0))\<rparr>"

definition crypt :: "byte \<Rightarrow> byte list \<Rightarrow> bool \<Rightarrow> byte list \<Rightarrow> byte list" where
  "crypt seed key longstate xs =
     xor_bytes xs (keystream (key_ctx (seed # key) (if longstate then length xs else 256)) (length xs))"

lemma length_crypt [simp]: "length (crypt s k l xs) = length xs"
  by (simp add: crypt_def)

lemma crypt_crypt [simp]: "crypt s k l (crypt s k l xs) = xs"
  by (simp add: crypt_def)

lemma bcrypt_init_ctx: "bcrypt_init malloc key n = (if malloc n = None then None else Some (key_ctx key n))"
  by (auto simp: bcrypt_init_def key_ctx_def split: option.splits prod.splits)

lemma bcrypt_buf_crypt:
  assumes "length key \<le> 254" and "malloc (if l then len else 256) \<noteq> None"
    and "dst \<le> src" and "src + len \<le> length mem"
  shows "bcrypt_buf malloc s key mem src dst len l =
    Ret (Some (take dst mem @ crypt s key l (take len (drop src mem)) @ drop (dst + len) mem))"
  using assms bcrypt_process_mem [OF assms(3,4), of "key_ctx (s # key) (if l then len else 256)"]
  by (auto simp: bcrypt_buf_def BCRYPT_MAX_KEYLEN_def BCRYPT_DEFAULT_STATE_LEN_def bcrypt_init_ctx crypt_def)

lemma bcrypt_buf_in_place:
  assumes "length key \<le> 254" and "malloc (if l then length b else 256) \<noteq> None" and "length a = p"
  shows "bcrypt_buf malloc s key (a @ b @ c) p p (length b) l = Ret (Some (a @ crypt s key l b @ c))"
  using assms bcrypt_buf_crypt [of key malloc l "length b" p p "a @ b @ c" s] by auto

lemma bcrypt_buf_safe:
  assumes "length key \<le> 254" and "src + len \<le> length mem" and "dst + len \<le> length mem"
  shows "ret_sat (\<lambda>mem'. length mem' = length mem) (bcrypt_buf malloc s key mem src dst len l)"
proof (cases "malloc (if l then len else 256)")
  case (Some a)
  obtain ctx' mem' where
    "bcrypt_process (key_ctx (s # key) (if l then len else 256)) mem src dst len = Ret (ctx', mem')"
    "length mem' = length mem"
    using bcrypt_process_safe [OF assms(2,3)] by blast
  with Some assms(1) show ?thesis
    by (auto simp: bcrypt_buf_def BCRYPT_MAX_KEYLEN_def BCRYPT_DEFAULT_STATE_LEN_def bcrypt_init_ctx ret_sat_def)
qed (use assms(1) in \<open>auto simp: bcrypt_buf_def BCRYPT_MAX_KEYLEN_def BCRYPT_DEFAULT_STATE_LEN_def
       bcrypt_init_ctx ret_sat_def\<close>)

section \<open>The state of the cipher\<close>

lemma init_step_perm:
  assumes "i < length (fst s)"
  shows "mset (fst (init_step key i s)) = mset (fst s)"
proof -
  obtain st j k where s: "s = (st, j, k)" by (cases s) auto
  have "(k + unat (key ! j) + unat (st ! i)) mod length st < length st"
    using assms by (intro mod_less_divisor) (auto simp: s)
  with assms show ?thesis by (simp add: init_step_def s Let_def mset_swap)
qed

lemma init_fold_perm:
  "(\<forall>i \<in> set is. i < length (fst s)) \<Longrightarrow> mset (fst (fold (init_step key) is s)) = mset (fst s)"
proof (induction "is" arbitrary: s)
  case (Cons i "is")
  then have m: "mset (fst (init_step key i s)) = mset (fst s)" by (simp add: init_step_perm)
  then have "length (fst (init_step key i s)) = length (fst s)" by (rule mset_eq_length)
  with Cons m show ?case by simp
qed simp

definition ctx_ok :: "nat \<Rightarrow> bcrypt_ctx \<Rightarrow> bool" where
  "ctx_ok n ctx \<longleftrightarrow> mset (ctx_state ctx) = mset (map of_nat [0..<n]) \<and>
     (0 < n \<longrightarrow> unat (ctx_i ctx) < n \<and> unat (ctx_j ctx) < n)"

lemma ctx_ok_length: "ctx_ok n ctx \<Longrightarrow> length (ctx_state ctx) = n"
  unfolding ctx_ok_def by (metis mset_eq_length length_map length_upt diff_zero)

lemma key_ctx_ok: "ctx_ok n (key_ctx key n)"
  using init_fold_perm [of "[0..<n]" "(map of_nat [0..<n], 0, 0)" key]
  by (simp add: ctx_ok_def key_ctx_def)

lemma unat_of_nat_mod: "0 < n \<Longrightarrow> unat (of_nat (x mod n) :: byte) < n"
  by (metis mod_less_divisor mod_less_eq_dividend order_le_less_trans unat_of_nat)

lemma bcrypt_step_ok:
  assumes "ctx_ok n ctx" and "0 < n"
  shows "ctx_ok n (fst (bcrypt_step ctx))"
  using assms ctx_ok_length [OF assms(1)] unat_of_nat_mod [OF assms(2)]
  by (simp add: ctx_ok_def bcrypt_step_def Let_def mset_swap)

lemma bcrypt_process_ok:
  "ctx_ok n ctx \<Longrightarrow> 0 < n \<Longrightarrow> bcrypt_process ctx mem src dst len = Ret (ctx', mem') \<Longrightarrow> ctx_ok n ctx'"
proof (induction ctx mem src dst len rule: bcrypt_process.induct)
  case (2 ctx mem src dst len)
  have "ctx_ok n (fst (bcrypt_step ctx))" using 2(2,3) by (rule bcrypt_step_ok)
  with 2 show ?case by (auto split: if_splits prod.splits)
qed simp

section \<open>Images\<close>

text \<open>The bytes of an encrypted image: the seed of each part is the first encrypted byte of the part
  before it.\<close>

definition enc_image :: "byte list \<Rightarrow> bool \<Rightarrow> byte list \<Rightarrow> byte \<Rightarrow> byte list \<Rightarrow> byte list \<Rightarrow> byte list \<Rightarrow> u32 \<Rightarrow> byte list" where
  "enc_image key l magic seed product version data csum =
     (let cp = crypt seed key l (product @ [0]);
          cv = crypt (cp ! 0) key l (version @ [0]);
          cd = crypt (cv ! 0) key l data
      in (magic @ [0]) @ [seed] @ bytes_be (of_nat (length product + 1)) @ cp @
         bytes_be (of_nat (length version + 1)) @ cv @ bytes_be (of_nat (length data)) @ cd @ bytes_be csum)"

text \<open>An array that holds a C string.\<close>

definition holds :: "byte list \<Rightarrow> byte list \<Rightarrow> bool" where
  "holds a s \<longleftrightarrow> 0 \<notin> set s \<and> (\<exists>r. a = s @ 0 # r)"

lemma holds_c_string [simp]: "holds a s \<Longrightarrow> c_string_nul a = Ret (s @ [0])"
  by (auto simp: holds_def c_string_nul_def c_string_at_append)

lemma put_field_append:
  assumes "length (ep_key ep) \<le> 254" and "malloc (if ep_longstate ep then length name else 256) \<noteq> None"
    and "length a = p" and "length b = 4" and "length c = length name"
  shows "put_field malloc ep s name p (a @ b @ c @ d) =
    Ret (Some (a @ bytes_be (of_nat (length name)) @ crypt s (ep_key ep) (ep_longstate ep) name @ d))"
  using assms mem_write_append [of "a @ bytes_be (of_nat (length name))" "p + 4" c name d]
    bcrypt_buf_in_place [of "ep_key ep" malloc "ep_longstate ep" name "a @ bytes_be (of_nat (length name))" "p + 4" s d]
  by (simp add: put_field_def put_be32_append)

lemma assoc3: "a @ b @ c @ d = (a @ b @ c) @ d"
  by simp

lemma split_at: "n \<le> length xs \<Longrightarrow> \<exists>a b. xs = a @ b \<and> length a = n"
  by (metis append_take_drop_id length_take min.absorb2)

text \<open>The allocations of the cipher state succeed.\<close>

definition state_alloc :: "malloc \<Rightarrow> bool \<Rightarrow> nat set \<Rightarrow> bool" where
  "state_alloc malloc l lens \<longleftrightarrow> (\<forall>n \<in> lens. malloc (if l then n else 256) \<noteq> None)"

lemma encrypt_buf_image:
  assumes key: "length (ep_key ep) \<le> 254"
    and ep: "holds (ep_magic ep) magic" "holds (ep_product ep) product" "holds (ep_version ep) version"
    and magic: "length magic = 5"
    and data: "length data = unat (ep_datalen ep)"
    and hdr: "length hdr = enc_compute_header_len product version"
    and alloc: "state_alloc malloc (ep_longstate ep) {length product + 1, length version + 1, length data}"
    and tail: "length tl0 = 4"
  shows "encrypt_buf malloc ep (hdr @ data @ tl0 @ rest) 0 (length hdr) =
    Ret (Some (enc_image (ep_key ep) (ep_longstate ep) magic (ep_seed ep) product version data (ep_csum ep) @ rest))"
proof -
  let ?k = "ep_key ep" and ?l = "ep_longstate ep"
  let ?cp = "crypt (ep_seed ep) ?k ?l (product @ [0])"
  let ?cv = "crypt (?cp ! 0) ?k ?l (version @ [0])"
  let ?cd = "crypt (?cv ! 0) ?k ?l data"
  let ?lp = "bytes_be (of_nat (length (product @ [0])))" and ?lv = "bytes_be (of_nat (length (version @ [0])))"
  obtain h1 r1 where "hdr = h1 @ r1" "length h1 = 6"
    using split_at [of 6 hdr] hdr by (auto simp: enc_compute_header_len_def ENC_MAGIC_LEN_def)
  moreover obtain h2 r2 where "r1 = h2 @ r2" "length h2 = 1"
    using split_at [of 1 r1] calculation hdr by (auto simp: enc_compute_header_len_def ENC_MAGIC_LEN_def)
  moreover obtain h3 r3 where "r2 = h3 @ r3" "length h3 = 4"
    using split_at [of 4 r2] calculation hdr by (auto simp: enc_compute_header_len_def ENC_MAGIC_LEN_def)
  moreover obtain h4 r4 where "r3 = h4 @ r4" "length h4 = length product + 1"
    using split_at [of "length product + 1" r3] calculation hdr
    by (auto simp: enc_compute_header_len_def ENC_MAGIC_LEN_def)
  moreover obtain h5 r5 where "r4 = h5 @ r5" "length h5 = 4"
    using split_at [of 4 r4] calculation hdr by (auto simp: enc_compute_header_len_def ENC_MAGIC_LEN_def)
  moreover obtain h6 h7 where "r5 = h6 @ h7" "length h6 = length version + 1"
    using split_at [of "length version + 1" r5] calculation hdr
    by (auto simp: enc_compute_header_len_def ENC_MAGIC_LEN_def)
  ultimately have h: "hdr = h1 @ h2 @ h3 @ h4 @ h5 @ h6 @ h7"
    and len: "length h1 = 6" "length h2 = 1" "length h3 = 4" "length h4 = length product + 1" "length h5 = 4"
      "length h6 = length version + 1" "length h7 = 4"
    using hdr by (auto simp: enc_compute_header_len_def ENC_MAGIC_LEN_def)
  have w1: "mem_write 0 (magic @ [0]) (hdr @ data @ tl0 @ rest) =
      Ret ((magic @ [0]) @ h2 @ h3 @ h4 @ h5 @ h6 @ h7 @ data @ tl0 @ rest)"
    using mem_write_append [of "[]" 0 h1 "magic @ [0]"] len magic by (simp add: h)
  have w2: "mem_write 6 [ep_seed ep] ((magic @ [0]) @ h2 @ h3 @ h4 @ h5 @ h6 @ h7 @ data @ tl0 @ rest) =
      Ret (((magic @ [0]) @ [ep_seed ep]) @ h3 @ h4 @ h5 @ h6 @ h7 @ data @ tl0 @ rest)"
    using mem_write_append [of "magic @ [0]" 6 h2 "[ep_seed ep]"] len magic by simp
  let ?a = "(magic @ [0]) @ [ep_seed ep]"
  have w3: "put_field malloc ep (ep_seed ep) (product @ [0]) 7 (?a @ h3 @ h4 @ h5 @ h6 @ h7 @ data @ tl0 @ rest) =
      Ret (Some (?a @ ?lp @ ?cp @ h5 @ h6 @ h7 @ data @ tl0 @ rest))"
    using key alloc len magic by (intro put_field_append) (auto simp: state_alloc_def)
  let ?b = "?a @ ?lp @ ?cp"
  have w4: "put_field malloc ep (?cp ! 0) (version @ [0]) (12 + length product)
        (?b @ h5 @ h6 @ h7 @ data @ tl0 @ rest) = Ret (Some (?b @ ?lv @ ?cv @ h7 @ data @ tl0 @ rest))"
    using key alloc len magic by (intro put_field_append) (auto simp: state_alloc_def)
  let ?c = "?b @ ?lv @ ?cv"
  have w5: "put_be32 (17 + length product + length version) (ep_datalen ep) (?c @ h7 @ data @ tl0 @ rest) =
      Ret (?c @ bytes_be (ep_datalen ep) @ data @ tl0 @ rest)"
    using len magic by (intro put_be32_append) auto
  let ?d = "?c @ bytes_be (ep_datalen ep)"
  have w6: "bcrypt_buf malloc (?cv ! 0) ?k (?d @ data @ tl0 @ rest) (length hdr) (length hdr) (length data) ?l =
      Ret (Some (?d @ ?cd @ tl0 @ rest))"
    using key alloc magic hdr by (intro bcrypt_buf_in_place)
      (auto simp: state_alloc_def enc_compute_header_len_def ENC_MAGIC_LEN_def)
  have w7: "put_be32 (length hdr + length data) (ep_csum ep) ((?d @ ?cd) @ tl0 @ rest) =
      Ret ((?d @ ?cd) @ bytes_be (ep_csum ep) @ rest)"
    using tail magic hdr by (intro put_be32_append)
      (auto simp: enc_compute_header_len_def ENC_MAGIC_LEN_def)
  have n1: "(?b @ r) ! 11 = ?cp ! 0" for r
    using magic by (simp add: nth_append)
  have n2: "(?c @ r) ! (16 + length product) = ?cv ! 0" for r
    using magic by (simp add: nth_append)
  have idx: "0 + length (magic @ [0]) = 6" "(6 :: nat) + 1 = 7" "(7 :: nat) + 4 = 11"
    "11 + length (product @ [0]) = 12 + length product" "12 + length product + 4 = 16 + length product"
    "16 + length product + length (version @ [0]) = 17 + length product + length version"
    using magic by simp_all
  have fin: "(?d @ ?cd) @ bytes_be (ep_csum ep) @ rest =
      enc_image ?k ?l magic (ep_seed ep) product version data (ep_csum ep) @ rest"
    using data by (simp add: enc_image_def Let_def)
  show ?thesis
    unfolding encrypt_buf_def Let_def ep [THEN holds_c_string] obind.simps idx w1 w2 try_bind_Some w3
      assoc3 [of ?a ?lp ?cp] n1 w4 assoc3 [of ?b ?lv ?cv] n2 w5
      append_assoc [of ?c "bytes_be (ep_datalen ep)", symmetric] data [symmetric] w6
      append_assoc [of ?d ?cd, symmetric] w7 fin
    by (rule refl)
qed

lemma get_field_append:
  assumes "length a = p" and "length bs \<le> maxlen" and "length bs < 2 ^ 32" and "length bs \<le> length arr"
    and "p + 4 + length bs \<le> datalen"
  shows "get_field maxlen (a @ bytes_be (of_nat (length bs)) @ bs @ c) datalen p arr =
    Ret (Some (length bs, bs @ drop (length bs) arr, p + 4 + length bs))"
proof -
  let ?n = "of_nat (length bs) :: u32"
  have n: "unat ?n = length bs" using assms(3) by (simp add: unat_of_nat take_bit_nat_eq_self)
  have r: "mem_read (p + 4) (length bs) (a @ bytes_be ?n @ bs @ c) = Ret bs"
    using mem_read_append [of "a @ bytes_be ?n" "p + 4" bs "length bs" c] assms(1) by simp
  show ?thesis
    using assms(1,2,4,5)
    by (simp add: get_field_def get_be32_append n Let_def r array_set_ok)
qed

lemma get_field_safe:
  assumes "datalen = length mem" and "p \<le> datalen" and "maxlen \<le> length arr"
  shows "ret_sat (\<lambda>(n, arr', p'). n \<le> maxlen \<and> length arr' = length arr \<and> p' \<le> datalen)
    (get_field maxlen mem datalen p arr)"
  unfolding get_field_def Let_def
  using assms by (intro sat_rules) auto

lemma sat_get_field [sat_rules]:
  "datalen = length mem \<Longrightarrow> p \<le> datalen \<Longrightarrow> maxlen \<le> length arr \<Longrightarrow>
     (\<And>n arr' p'. n \<le> maxlen \<Longrightarrow> length arr' = length arr \<Longrightarrow> p' \<le> datalen \<Longrightarrow> ret_sat P (f (n, arr', p'))) \<Longrightarrow>
     ret_sat P (try_bind (get_field maxlen mem datalen p arr) f)"
  by (rule ret_sat_try_bind [OF get_field_safe]) auto

lemma sat_bcrypt_buf [sat_rules]:
  "length key \<le> 254 \<Longrightarrow> src + len \<le> length mem \<Longrightarrow> dst + len \<le> length mem \<Longrightarrow>
     (\<And>mem'. length mem' = length mem \<Longrightarrow> ret_sat P (f mem')) \<Longrightarrow>
     ret_sat P (try_bind (bcrypt_buf malloc s key mem src dst len l) f)"
  by (rule ret_sat_try_bind [OF bcrypt_buf_safe])

text \<open>The decrypted parameters of an image.\<close>

definition dec_param :: "enc_param \<Rightarrow> byte list \<Rightarrow> byte \<Rightarrow> byte list \<Rightarrow> byte list \<Rightarrow> byte list \<Rightarrow> u32 \<Rightarrow> enc_param" where
  "dec_param ep magic seed product version data csum =
     ep\<lparr>ep_magic := magic @ [0], ep_seed := seed,
        ep_product := product @ [0] @ drop (length product + 1) (ep_product ep),
        ep_version := version @ [0] @ drop (length version + 1) (ep_version ep),
        ep_datalen := of_nat (length data), ep_csum := csum\<rparr>"

lemma decrypt_buf_image:
  assumes key: "length (ep_key ep) \<le> 254" and magic: "check_magic (magic @ [0])"
    and len: "length (ep_magic ep) = 6" "length (ep_product ep) = 32" "length (ep_version ep) = 8"
      "length product \<le> 31" "length version \<le> 7" "length data < 2 ^ 32"
    and alloc: "state_alloc malloc (ep_longstate ep) {length product + 1, length version + 1, length data}"
    and csum: "csum = buffalo_csum sc (of_nat (length data)) data"
    and mem: "mem = enc_image (ep_key ep) (ep_longstate ep) magic seed product version data csum @ rest"
  shows "\<exists>mem'. decrypt_buf sc malloc ep mem (length mem) =
      Ret (Some (dec_param ep magic seed product version data csum, mem')) \<and> take (length data) mem' = data"
proof -
  let ?k = "ep_key ep" and ?l = "ep_longstate ep" and ?n = "of_nat (length data) :: u32"
  define cp where "cp = crypt seed ?k ?l (product @ [0])"
  define cv where "cv = crypt (cp ! 0) ?k ?l (version @ [0])"
  define cd where "cd = crypt (cv ! 0) ?k ?l data"
  have lens: "length cp = length product + 1" "length cv = length version + 1" "length cd = length data"
    by (simp_all add: cp_def cv_def cd_def)
  have m6: "length magic = 5" using magic by (auto simp: check_magic_def cstr_def)
  define a where "a = (magic @ [0]) @ [seed]"
  define b where "b = a @ bytes_be (of_nat (length cp)) @ cp"
  define c where "c = b @ bytes_be (of_nat (length cv)) @ cv"
  define d where "d = c @ bytes_be ?n"
  have la: "length a = 7" "length b = 12 + length product" "length c = 17 + length product + length version"
    "length d = 21 + length product + length version"
    using m6 lens by (simp_all add: a_def b_def c_def d_def)
  have me: "mem = d @ cd @ bytes_be csum @ rest"
    by (simp add: mem enc_image_def Let_def a_def b_def c_def d_def cd_def cv_def cp_def)
  have lm: "length mem = length d + length data + 4 + length rest" by (simp add: me lens)
  have r1: "mem_read 0 6 mem = Ret (magic @ [0])"
    using mem_read_append [of "[]" 0 "magic @ [0]" 6] m6 by (simp add: me d_def c_def b_def a_def)
  have r2: "mem_read 6 1 mem = Ret [seed]"
    using mem_read_append [of "magic @ [0]" 6 "[seed]" 1] m6 by (simp add: me d_def c_def b_def a_def)
  have r3: "get_field 32 mem (length mem) 7 arr =
      Ret (Some (length product + 1, cp @ drop (length cp) arr, 12 + length product))" if "length arr = 32" for arr
    using get_field_append [of a 7 cp 32 arr "length mem"] la len lens that lm
    by (simp add: me d_def c_def b_def)
  have r4: "get_field 8 mem (length mem) (12 + length product) arr =
      Ret (Some (length version + 1, cv @ drop (length cv) arr, length c))" if "length arr = 8" for arr
    using get_field_append [of b "12 + length product" cv 8 arr "length mem"] la len lens that lm
    by (simp add: me d_def c_def)
  have r5: "get_be32 (length c) mem = Ret ?n"
    by (simp add: me d_def get_be32_append)
  have n: "unat ?n = length data" using len(6) by (simp add: unat_of_nat take_bit_nat_eq_self)
  define mem' where "mem' = data @ drop (length data) mem"
  have r6: "bcrypt_buf malloc (cv ! 0) ?k mem (length d) 0 (length data) ?l = Ret (Some mem')"
  proof -
    have "take (length data) (drop (length d) mem) = cd" by (simp add: me lens)
    then show ?thesis
      using bcrypt_buf_crypt [of ?k malloc ?l "length data" 0 "length d" mem "cv ! 0"] key alloc lm
      by (simp add: mem'_def state_alloc_def cd_def)
  qed
  have "mem_read (length d + length data) 4 mem' = mem_read (length d + length data) 4 mem"
    unfolding mem'_def using lm by (intro mem_read_behind) auto
  then have r7: "get_be32 (length d + length data) mem' = Ret csum"
    using get_be32_append [of "d @ cd" "length d + length data" csum rest] lens by (simp add: get_be32_def me)
  have al: "malloc (if ?l then length cv else 256) \<noteq> None" "malloc (if ?l then length cp else 256) \<noteq> None"
    using alloc lens by (auto simp: state_alloc_def)
  have r8: "bcrypt_buf malloc (cp ! 0) ?k (cv @ r) 0 0 (length version + 1) ?l = Ret (Some (version @ [0] @ r))" for r
    using bcrypt_buf_in_place [where malloc = malloc and b = cv and l = ?l and a = "[]" and p = 0 and s = "cp ! 0" and c = r, OF key al(1)] lens
    by (simp add: cv_def)
  have r9: "bcrypt_buf malloc seed ?k (cp @ r) 0 0 (length product + 1) ?l = Ret (Some (product @ [0] @ r))" for r
    using bcrypt_buf_in_place [where malloc = malloc and b = cp and l = ?l and a = "[]" and p = 0 and s = seed and c = r, OF key al(2)] lens
    by (simp add: cp_def)
  have ld: "length d = length c + 4" by (simp add: la)
  have le: "length c + 4 + length data + 4 \<le> length mem" "12 \<le> length mem" using lm la by simp_all
  have nth0: "(cv @ r) ! 0 = cv ! 0" "(cp @ r) ! 0 = cp ! 0" for r
    using lens by (simp_all add: nth_append)
  have arr: "array_set (magic @ [0]) (ep_magic ep) = Ret (magic @ [0])"
    using m6 len(1) by (simp add: array_set_ok)
  have tk: "take (length data) mem' = data" by (simp add: mem'_def)
  show ?thesis
    using len(2,3) magic le
    by (intro exI [of _ mem'])
       (simp add: decrypt_buf_def ENC_MAGIC_LEN_def ENC_PRODUCT_LEN_def ENC_VERSION_LEN_def r1 arr r2 r3 r4 r5 n
         Let_def nth0 r6 [unfolded ld] r7 [unfolded ld] tk csum [symmetric] r8 r9 dec_param_def lens del: One_nat_def)
qed

text \<open>Decryption of an arbitrary buffer.\<close>

lemma decrypt_buf_safe:
  assumes "length (ep_key ep) \<le> 254" and "datalen = length mem"
    and "length (ep_magic ep) = 6" and "length (ep_product ep) = 32" and "length (ep_version ep) = 8"
  shows "ret_sat (\<lambda>(ep', mem'). length mem' = length mem \<and> unat (ep_datalen ep') + 4 \<le> length mem \<and>
      buffalo_csum sc (ep_datalen ep') (take (unat (ep_datalen ep')) mem') = ep_csum ep' \<and>
      length (ep_product ep') = 32 \<and> length (ep_version ep') = 8)
    (decrypt_buf sc malloc ep mem datalen)"
  unfolding decrypt_buf_def Let_def ENC_MAGIC_LEN_def ENC_PRODUCT_LEN_def ENC_VERSION_LEN_def
  by (intro sat_rules) (use assms in auto)

end
