(* ===== verification/Buffalo_Enc.thy ===== *)
theory Buffalo_Enc
  imports Buffalo_Crypt
begin

text \<open>
  The encryption tool \<^verbatim>\<open>tools/firmware-utils/src/buffalo-enc.c\<close>: options, checks, and the encryption
  and decryption of a file. The messages on \<^verbatim>\<open>stderr\<close> are left out; the lines that a successful
  decryption prints are represented by the parameters they show; a string of them that fills its array, without
  a NUL byte, is read behind its end.
\<close>

section \<open>Model\<close>

record enc_opts =
  opt_ifname :: "string option"
  opt_ofname :: "string option"
  opt_key :: string
  opt_magic :: string
  opt_longstate :: bool
  opt_seed :: byte
  opt_product :: "string option"
  opt_version :: "string option"
  opt_decrypt :: bool

definition default_opts :: enc_opts where
  "default_opts = \<lparr>opt_ifname = None, opt_ofname = None, opt_key = ''Buffalo'', opt_magic = ''start'',
     opt_longstate = False, opt_seed = byte_of_char (CHR ''O''), opt_product = None, opt_version = None,
     opt_decrypt = False\<rparr>"

text \<open>\<^verbatim>\<open>memset(&ep, 0, sizeof(ep))\<close> and the key.\<close>

definition zero_param :: "byte list \<Rightarrow> enc_param" where
  "zero_param key = \<lparr>ep_key = key, ep_magic = replicate ENC_MAGIC_LEN 0, ep_product = replicate ENC_PRODUCT_LEN 0,
     ep_version = replicate ENC_VERSION_LEN 0, ep_seed = 0, ep_longstate = False, ep_datalen = 0, ep_csum = 0\<rparr>"

text \<open>\<^verbatim>\<open>strcpy\<close> into an array.\<close>

definition strcpy_array :: "byte list \<Rightarrow> byte list \<Rightarrow> byte list outcome" where
  "strcpy_array s a = array_set (s @ [0]) a"

text \<open>The strings that are printed: an array without a NUL byte is read behind its end.\<close>

definition print_param :: "enc_param \<Rightarrow> (byte list \<times> byte list \<times> byte list) outcome" where
  "print_param ep =
     obind (c_string_nul (ep_magic ep)) (\<lambda>magic.
     obind (c_string_nul (ep_product ep)) (\<lambda>product.
     obind (c_string_nul (ep_version ep)) (\<lambda>version. Ret (magic, product, version))))"

definition decrypt_file ::
  "bool \<Rightarrow> malloc \<Rightarrow> string \<Rightarrow> string \<Rightarrow> string \<Rightarrow> host_fs \<Rightarrow> (bool \<times> host_fs \<times> enc_param option) outcome" where
  "decrypt_file sc malloc ifname ofname key fs =
     (case get_file_size fs ifname of
        None \<Rightarrow> Ret (False, fs, None)
      | Some src_len \<Rightarrow>
      (case malloc src_len of
        None \<Rightarrow> Ret (False, fs, None)
      | Some _ \<Rightarrow>
      (case read_file_to_buf fs ifname src_len of
        None \<Rightarrow> Ret (False, fs, None)
      | Some buf \<Rightarrow>
        obind (decrypt_buf sc malloc (zero_param (cstr key)) buf src_len) (\<lambda>r.
        case r of
          None \<Rightarrow> Ret (False, fs, None)
        | Some (ep, buf) \<Rightarrow>
            obind (print_param ep) (\<lambda>_.
            let (ok, fs') = write_buf_to_file fs ofname (take (unat (ep_datalen ep)) buf)
            in Ret (ok, fs', Some ep))))))"

definition encrypt_file ::
  "bool \<Rightarrow> malloc \<Rightarrow> enc_opts \<Rightarrow> string \<Rightarrow> string \<Rightarrow> string \<Rightarrow> string \<Rightarrow> host_fs \<Rightarrow> (bool \<times> host_fs) outcome" where
  "encrypt_file sc malloc op ifname ofname product version fs =
     (case get_file_size fs ifname of
        None \<Rightarrow> Ret (False, fs)
      | Some src_len \<Rightarrow>
        let totlen = enc_compute_buf_len (cstr product) (cstr version) src_len;
            hdrlen = enc_compute_header_len (cstr product) (cstr version) in
      (case malloc totlen of
        None \<Rightarrow> Ret (False, fs)
      | Some buf \<Rightarrow>
      (case read_file_to_buf fs ifname src_len of
        None \<Rightarrow> Ret (False, fs)
      | Some data \<Rightarrow>
        obind (mem_write hdrlen data buf) (\<lambda>buf.
        let ep = zero_param (cstr (opt_key op)) in
        obind (strcpy_array (cstr (opt_magic op)) (ep_magic ep)) (\<lambda>m.
        obind (strcpy_array (cstr product) (ep_product ep)) (\<lambda>p.
        obind (strcpy_array (cstr version) (ep_version ep)) (\<lambda>v.
        let ep = ep\<lparr>ep_magic := m, ep_product := p, ep_version := v, ep_seed := opt_seed op,
              ep_longstate := opt_longstate op, ep_csum := buffalo_csum sc (of_nat src_len) data,
              ep_datalen := of_nat src_len\<rparr> in
        obind (encrypt_buf malloc ep buf 0 hdrlen) (\<lambda>r.
        case r of
          None \<Rightarrow> Ret (False, fs)
        | Some buf \<Rightarrow> Ret (write_buf_to_file fs ofname buf)))))))))"

definition check_params :: "enc_opts \<Rightarrow> bool" where
  "check_params op \<longleftrightarrow>
     opt_ifname op \<noteq> None \<and> opt_ofname op \<noteq> None \<and>
     \<not> length (opt_key op) > BCRYPT_MAX_KEYLEN \<and>
     length (opt_magic op) = ENC_MAGIC_LEN - 1 \<and>
     (\<not> opt_decrypt op \<longrightarrow>
        (case (opt_product op, opt_version op) of
           (Some p, Some v) \<Rightarrow> \<not> length p > ENC_PRODUCT_LEN - 1 \<and> \<not> length v > ENC_VERSION_LEN - 1
         | _ \<Rightarrow> False))"

definition enc_optstring :: string where
  "enc_optstring = ''adi:m:o:hp:v:k:r:s:''"

text \<open>The cases of the loop over the options; an option letter that takes an argument has one.\<close>

fun enc_set_opts :: "opt_result list \<Rightarrow> enc_opts \<Rightarrow> enc_opts outcome" where
  "enc_set_opts [] op = Ret op"
| "enc_set_opts ((c, arg) # rs) op =
     (if c = CHR ''d'' then enc_set_opts rs (op\<lparr>opt_decrypt := True\<rparr>)
      else if c = CHR ''i'' then enc_set_opts rs (op\<lparr>opt_ifname := arg\<rparr>)
      else if c = CHR ''l'' then enc_set_opts rs (op\<lparr>opt_longstate := True\<rparr>)
      else if c = CHR ''m'' then enc_set_opts rs (op\<lparr>opt_magic := the arg\<rparr>)
      else if c = CHR ''o'' then enc_set_opts rs (op\<lparr>opt_ofname := arg\<rparr>)
      else if c = CHR ''p'' then enc_set_opts rs (op\<lparr>opt_product := arg\<rparr>)
      else if c = CHR ''v'' then enc_set_opts rs (op\<lparr>opt_version := arg\<rparr>)
      else if c = CHR ''k'' then enc_set_opts rs (op\<lparr>opt_key := the arg\<rparr>)
      else if c = CHR ''s'' then enc_set_opts rs (op\<lparr>opt_seed := ucast (fst (strtoul64 16 (the arg)))\<rparr>)
      else if c = CHR ''h'' then Exit 0
      else Exit 1)"

definition enc_main ::
  "bool \<Rightarrow> malloc \<Rightarrow> string list \<Rightarrow> host_fs \<Rightarrow> (nat \<times> host_fs \<times> enc_param option) outcome" where
  "enc_main sc malloc args fs =
     obind (enc_set_opts (fst (getopt_all enc_optstring args)) default_opts) (\<lambda>op.
     if \<not> check_params op then Ret (1, fs, None)
     else if opt_decrypt op then
       obind (decrypt_file sc malloc (the (opt_ifname op)) (the (opt_ofname op)) (opt_key op) fs)
         (\<lambda>(ok, fs', ep). Ret (if ok then 0 else 1, fs', ep))
     else
       obind (encrypt_file sc malloc op (the (opt_ifname op)) (the (opt_ofname op))
                (the (opt_product op)) (the (opt_version op)) fs)
         (\<lambda>(ok, fs'). Ret (if ok then 0 else 1, fs', None)))"

section \<open>Files\<close>

text \<open>An environment in which nothing fails: memory and disk suffice and every name can be used.\<close>

definition env_ok :: "malloc \<Rightarrow> host_fs \<Rightarrow> bool" where
  "env_ok malloc fs \<longleftrightarrow> (\<forall>n. \<exists>m. malloc n = Some m \<and> length m = n) \<and>
     (\<forall>n. readable fs n \<and> creatable fs n) \<and> (\<forall>n. has_space fs n)"

lemma env_ok_alloc: "env_ok malloc fs \<Longrightarrow> state_alloc malloc l lens"
  unfolding env_ok_def state_alloc_def by (metis option.distinct(1))

lemma read_whole_file:
  "readable fs a \<Longrightarrow> files fs a = Some d \<Longrightarrow> d \<noteq> [] \<Longrightarrow> read_file_to_buf fs a (length d) = Some d"
  by (simp add: read_file_to_buf_def)

lemma write_whole_file:
  "env_ok malloc fs \<Longrightarrow> buf \<noteq> [] \<Longrightarrow> write_buf_to_file fs b buf = (True, fs\<lparr>files := (files fs)(b \<mapsto> buf)\<rparr>)"
  by (simp add: write_buf_to_file_def env_ok_def)

lemma strcpy_zeros:
  "0 \<notin> set s \<Longrightarrow> length s < n \<Longrightarrow>
     \<exists>a. strcpy_array s (replicate n 0) = Ret a \<and> holds a s \<and> length a = n"
  by (auto simp: strcpy_array_def array_set_ok holds_def)

lemma nul_free_cstr: "CHR 0x00 \<notin> set s \<Longrightarrow> 0 \<notin> set (cstr s)"
  by (metis byte_of_char_neq_0 cstr_def imageE list.set_map)

lemma length_enc_image:
  "length (enc_image key l magic seed product version data csum) =
     length magic + length product + length version + length data + 20"
  by (simp add: enc_image_def Let_def)

lemma encrypt_file_image:
  assumes "env_ok malloc fs" and "files fs a = Some d" and "d \<noteq> []" and "length d < 2 ^ 32"
    and "length (opt_key op) \<le> 254" and "length (opt_magic op) = 5" and "length product \<le> 31" and "length version \<le> 7"
    and "CHR 0x00 \<notin> set (opt_magic op)" and "CHR 0x00 \<notin> set product" and "CHR 0x00 \<notin> set version"
  shows "\<exists>pad. encrypt_file sc malloc op a b product version fs =
      Ret (True, fs\<lparr>files := (files fs)(b \<mapsto>
        enc_image (cstr (opt_key op)) (opt_longstate op) (cstr (opt_magic op)) (opt_seed op) (cstr product)
          (cstr version) d (buffalo_csum sc (of_nat (length d)) d) @ pad)\<rparr>)"
proof -
  let ?hl = "enc_compute_header_len (cstr product) (cstr version)"
  let ?tl = "enc_compute_buf_len (cstr product) (cstr version) (length d)"
  let ?cs = "buffalo_csum sc (of_nat (length d)) d"
  have tl: "?hl + length d + 4 \<le> ?tl" by (simp add: enc_compute_buf_len_def Let_def)
  obtain buf where buf: "malloc ?tl = Some buf" "length buf = ?tl"
    using assms(1) unfolding env_ok_def by blast
  obtain h r1 where "buf = h @ r1" "length h = ?hl"
    using split_at [of ?hl buf] buf tl by auto
  moreover obtain x r2 where "r1 = x @ r2" "length x = length d"
    using split_at [of "length d" r1] calculation buf tl by auto
  moreover obtain t rest where "r2 = t @ rest" "length t = 4"
    using split_at [of 4 r2] calculation buf tl by auto
  ultimately have sp: "buf = h @ x @ t @ rest" "length h = ?hl" "length x = length d" "length t = 4" by simp_all
  have w: "mem_write ?hl d buf = Ret (h @ d @ t @ rest)"
    using mem_write_append [of h ?hl x d] sp by simp
  obtain m p v where s: "strcpy_array (cstr (opt_magic op)) (replicate 6 0) = Ret m" "holds m (cstr (opt_magic op))"
    "strcpy_array (cstr product) (replicate 32 0) = Ret p" "holds p (cstr product)"
    "strcpy_array (cstr version) (replicate 8 0) = Ret v" "holds v (cstr version)"
    using strcpy_zeros [of "cstr (opt_magic op)" 6] strcpy_zeros [of "cstr product" 32]
      strcpy_zeros [of "cstr version" 8] assms(6-11) nul_free_cstr by (fastforce simp: cstr_def)
  define ep where "ep = (zero_param (cstr (opt_key op)))\<lparr>ep_magic := m, ep_product := p, ep_version := v,
    ep_seed := opt_seed op, ep_longstate := opt_longstate op, ep_csum := ?cs, ep_datalen := of_nat (length d)\<rparr>"
  have f: "ep_key ep = cstr (opt_key op)" "ep_magic ep = m" "ep_product ep = p" "ep_version ep = v"
    "ep_seed ep = opt_seed op" "ep_longstate ep = opt_longstate op" "ep_csum ep = ?cs" "ep_datalen ep = of_nat (length d)"
    by (simp_all add: ep_def zero_param_def)
  have "length d = unat (ep_datalen ep)"
    using assms(4) by (simp add: f unat_of_nat take_bit_nat_eq_self)
  then have "encrypt_buf malloc ep (h @ d @ t @ rest) 0 (length h) = Ret (Some (enc_image (ep_key ep)
      (ep_longstate ep) (cstr (opt_magic op)) (ep_seed ep) (cstr product) (cstr version) d (ep_csum ep) @ rest))"
    using s(2,4,6) sp(2,4) assms(5,6) env_ok_alloc [OF assms(1)]
    by (intro encrypt_buf_image) (simp_all add: f cstr_def)
  then have e: "encrypt_buf malloc ep (h @ d @ t @ rest) 0 ?hl = Ret (Some (enc_image (cstr (opt_key op))
      (opt_longstate op) (cstr (opt_magic op)) (opt_seed op) (cstr product) (cstr version) d ?cs @ rest))"
    by (simp only: f sp(2))
  have ne: "enc_image k l mg sd pr ve d cs @ rest \<noteq> []" for k l mg sd pr ve cs
    using assms(3) length_enc_image [of k l mg sd pr ve d cs] by auto
  have "encrypt_file sc malloc op a b product version fs = Ret (write_buf_to_file fs b (enc_image (cstr (opt_key op))
      (opt_longstate op) (cstr (opt_magic op)) (opt_seed op) (cstr product) (cstr version) d ?cs @ rest))"
    using assms(1-3) e [unfolded ep_def]
    by (simp add: encrypt_file_def get_file_size_def buf read_whole_file env_ok_def w s Let_def
        zero_param_def ENC_MAGIC_LEN_def ENC_PRODUCT_LEN_def ENC_VERSION_LEN_def)
  then show ?thesis
    using write_whole_file [OF assms(1) ne] by auto
qed

lemma decrypt_file_image:
  assumes "env_ok malloc fs" and "files fs b = Some (enc_image (cstr key) False magic seed product version d
      (buffalo_csum sc (of_nat (length d)) d) @ pad)" (is "_ = Some ?img")
    and "d \<noteq> []" and "length d < 2 ^ 32"
    and "length key \<le> 254" and "check_magic (magic @ [0])" and "length product \<le> 31" and "length version \<le> 7"
    and "0 \<notin> set magic" and "0 \<notin> set product" and "0 \<notin> set version"
  shows "decrypt_file sc malloc b c key fs = Ret (True, fs\<lparr>files := (files fs)(c \<mapsto> d)\<rparr>,
    Some (dec_param (zero_param (cstr key)) magic seed product version d (buffalo_csum sc (of_nat (length d)) d)))"
proof -
  let ?cs = "buffalo_csum sc (of_nat (length d)) d"
  have ne: "?img \<noteq> []"
    using assms(3) length_enc_image [of "cstr key" False magic seed product version d ?cs] by auto
  have al: "malloc (length ?img) \<noteq> None" using assms(1) unfolding env_ok_def by (metis option.distinct(1))
  obtain mem' where m: "decrypt_buf sc malloc (zero_param (cstr key)) ?img (length ?img) =
      Ret (Some (dec_param (zero_param (cstr key)) magic seed product version d ?cs, mem'))"
    "take (length d) mem' = d"
    using decrypt_buf_image [of "zero_param (cstr key)" magic product version d malloc ?cs sc ?img seed pad]
      assms(4-8) env_ok_alloc [OF assms(1)]
    by (auto simp: zero_param_def ENC_MAGIC_LEN_def ENC_PRODUCT_LEN_def ENC_VERSION_LEN_def cstr_def)
  have n: "unat (of_nat (length d) :: u32) = length d"
    using assms(4) by (simp add: unat_of_nat take_bit_nat_eq_self)
  have rd: "read_file_to_buf fs b (length ?img) = Some ?img"
    using read_whole_file [OF _ assms(2) ne] assms(1) by (simp add: env_ok_def)
  have "ep_datalen (dec_param (zero_param (cstr key)) magic seed product version d ?cs) = of_nat (length d)"
    by (simp add: dec_param_def)
  moreover have "print_param (dec_param (zero_param (cstr key)) magic seed product version d ?cs) = Ret (magic @ [0], product @ [0], version @ [0])"
  proof -
    have "c_string_nul (s @ 0 # r) = Ret (s @ [0])" if "0 \<notin> set s" for s r
      using that by (intro holds_c_string) (simp add: holds_def)
    then show ?thesis using assms(9-11) by (simp add: print_param_def dec_param_def)
  qed
  ultimately show ?thesis
    using al assms(2) write_whole_file [OF assms(1,3)]
    by (auto simp: decrypt_file_def get_file_size_def rd m n simp del: length_append)
qed

section \<open>Options\<close>

lemma enc_option_kinds:
  "opt_kind_of enc_optstring (CHR ''i'') = Opt_arg" "opt_kind_of enc_optstring (CHR ''o'') = Opt_arg"
  "opt_kind_of enc_optstring (CHR ''p'') = Opt_arg" "opt_kind_of enc_optstring (CHR ''v'') = Opt_arg"
  "opt_kind_of enc_optstring (CHR ''k'') = Opt_arg" "opt_kind_of enc_optstring (CHR ''m'') = Opt_arg"
  "opt_kind_of enc_optstring (CHR ''s'') = Opt_arg" "opt_kind_of enc_optstring (CHR ''d'') = Opt_flag"
  "opt_kind_of enc_optstring (CHR ''l'') = Opt_unknown"
  by (simp_all add: enc_optstring_def)

lemma enc_opts_encrypt:
  "enc_set_opts (fst (getopt_all enc_optstring
      [''-i'', a, ''-o'', b, ''-p'', p, ''-v'', v, ''-k'', k, ''-m'', m, ''-s'', s])) default_opts =
   Ret \<lparr>opt_ifname = Some a, opt_ofname = Some b, opt_key = k, opt_magic = m, opt_longstate = False,
     opt_seed = ucast (fst (strtoul64 16 s)), opt_product = Some p, opt_version = Some v, opt_decrypt = False\<rparr>"
  by (simp add: getopt_all_pair enc_option_kinds default_opts_def)

lemma enc_opts_decrypt:
  "enc_set_opts (fst (getopt_all enc_optstring [''-d'', ''-i'', b, ''-o'', c, ''-k'', k])) default_opts =
   Ret (default_opts\<lparr>opt_ifname := Some b, opt_ofname := Some c, opt_key := k, opt_decrypt := True\<rparr>)"
  by (simp add: getopt_all_pair getopt_all_flag enc_option_kinds default_opts_def)

lemma env_ok_files [simp]: "env_ok malloc (fs\<lparr>files := f\<rparr>) = env_ok malloc fs"
  by (simp add: env_ok_def)

section \<open>Properties\<close>

text \<open>
  C30. A file that \<^verbatim>\<open>buffalo-enc\<close> encrypts with a product, a version, a key, a seed and one of the two
  known magics is restored by \<^verbatim>\<open>buffalo-enc -d\<close> with the same key: both runs exit with 0, the output
  of the second is the input of the first, and the parameters it prints are those of the first.
\<close>

theorem buffalo_enc_roundtrip:
  assumes "env_ok malloc fs" and "files fs a = Some d" and "d \<noteq> []" and "length d < 2 ^ 32"
    and "length key \<le> 254" and "magic \<in> {''start'', ''asar1''}" and "length product \<le> 31" and "length version \<le> 7"
    and "CHR 0x00 \<notin> set product" and "CHR 0x00 \<notin> set version"
  shows "\<exists>fs1 fs2 ep.
    enc_main sc malloc [''-i'', a, ''-o'', b, ''-p'', product, ''-v'', version, ''-k'', key, ''-m'', magic, ''-s'', seed] fs =
      Ret (0, fs1, None) \<and>
    enc_main sc malloc [''-d'', ''-i'', b, ''-o'', c, ''-k'', key] fs1 = Ret (0, fs2, Some ep) \<and>
    files fs2 c = Some d \<and> holds (ep_magic ep) (cstr magic) \<and> holds (ep_product ep) (cstr product) \<and>
    holds (ep_version ep) (cstr version) \<and> ep_seed ep = ucast (fst (strtoul64 16 seed)) \<and>
    unat (ep_datalen ep) = length d"
proof -
  let ?sd = "ucast (fst (strtoul64 16 seed)) :: byte"
  let ?cs = "buffalo_csum sc (of_nat (length d)) d"
  define op where "op = \<lparr>opt_ifname = Some a, opt_ofname = Some b, opt_key = key, opt_magic = magic, opt_longstate = False,
     opt_seed = ?sd, opt_product = Some product, opt_version = Some version, opt_decrypt = False\<rparr>"
  have mg: "length magic = 5" "CHR 0x00 \<notin> set magic" "check_magic (cstr magic @ [0])" "0 \<notin> set (cstr magic)"
    using assms(6) by (auto simp: check_magic_def cstr_def byte_of_char_def)
  obtain pad where e: "encrypt_file sc malloc op a b product version fs = Ret (True, fs\<lparr>files := (files fs)(b \<mapsto>
      enc_image (cstr key) False (cstr magic) ?sd (cstr product) (cstr version) d ?cs @ pad)\<rparr>)"
    using encrypt_file_image [of malloc fs a d op product version sc b] assms mg by (auto simp: op_def)
  let ?fs1 = "fs\<lparr>files := (files fs)(b \<mapsto>
      enc_image (cstr key) False (cstr magic) ?sd (cstr product) (cstr version) d ?cs @ pad)\<rparr>"
  let ?ep = "dec_param (zero_param (cstr key)) (cstr magic) ?sd (cstr product) (cstr version) d ?cs"
  have "check_params op"
    using assms(5,7,8) mg by (simp add: check_params_def op_def BCRYPT_MAX_KEYLEN_def ENC_MAGIC_LEN_def
        ENC_PRODUCT_LEN_def ENC_VERSION_LEN_def)
  then have "enc_main sc malloc [''-i'', a, ''-o'', b, ''-p'', product, ''-v'', version, ''-k'', key, ''-m'', magic,
      ''-s'', seed] fs = Ret (0, ?fs1, None)"
    unfolding enc_main_def enc_opts_encrypt op_def [symmetric] using e by (simp add: op_def)
  moreover have "decrypt_file sc malloc b c key ?fs1 = Ret (True, ?fs1\<lparr>files := (files ?fs1)(c \<mapsto> d)\<rparr>, Some ?ep)"
    using assms mg nul_free_cstr [OF assms(9)] nul_free_cstr [OF assms(10)] by (intro decrypt_file_image) (auto simp: cstr_def)
  then have "enc_main sc malloc [''-d'', ''-i'', b, ''-o'', c, ''-k'', key] ?fs1 =
      Ret (0, ?fs1\<lparr>files := (files ?fs1)(c \<mapsto> d)\<rparr>, Some ?ep)"
    using assms(5) unfolding enc_main_def enc_opts_decrypt
    by (simp add: check_params_def default_opts_def BCRYPT_MAX_KEYLEN_def ENC_MAGIC_LEN_def)
  moreover have "holds (ep_magic ?ep) (cstr magic) \<and> holds (ep_product ?ep) (cstr product) \<and>
      holds (ep_version ?ep) (cstr version)"
    using nul_free_cstr [OF assms(9)] nul_free_cstr [OF assms(10)] mg(4) by (simp add: holds_def dec_param_def)
  moreover have "ep_seed ?ep = ?sd" "unat (ep_datalen ?ep) = length d"
    using assms(4) by (simp_all add: dec_param_def unat_of_nat take_bit_nat_eq_self)
  ultimately show ?thesis
    by (intro exI [of _ ?fs1] exI [of _ "?fs1\<lparr>files := (files ?fs1)(c \<mapsto> d)\<rparr>"] exI [of _ ?ep]) simp
qed

definition demo_malloc :: malloc where
  "demo_malloc n = Some (replicate n 0xAA)"

definition demo_fs :: host_fs where
  "demo_fs = \<lparr>files = (\<lambda>n. if n = ''fw.bin'' then Some [1, 2, 3, 4, 5] else None),
     readable = (\<lambda>_. True), creatable = (\<lambda>_. True), has_space = (\<lambda>_. True)\<rparr>"

theorem buffalo_enc_roundtrip_witness:
  "\<exists>fs1 fs2 ep.
    enc_main True demo_malloc [''-i'', ''fw.bin'', ''-o'', ''fw.enc'', ''-p'', ''WZR-HP-G300NH'', ''-v'', ''1.99'',
      ''-k'', ''Buffalo'', ''-m'', ''start'', ''-s'', ''4f''] demo_fs = Ret (0, fs1, None) \<and>
    enc_main True demo_malloc [''-d'', ''-i'', ''fw.enc'', ''-o'', ''fw.dec'', ''-k'', ''Buffalo''] fs1 = Ret (0, fs2, Some ep) \<and>
    files fs2 ''fw.dec'' = Some [1, 2, 3, 4, 5]"
proof -
  have "env_ok demo_malloc demo_fs" "files demo_fs ''fw.bin'' = Some [1, 2, 3, 4, 5]"
    by (simp_all add: env_ok_def demo_malloc_def demo_fs_def)
  from buffalo_enc_roundtrip [OF this, of "''Buffalo''" "''start''" "''WZR-HP-G300NH''" "''1.99''" True "''fw.enc''" "''4f''" "''fw.dec''"]
  show ?thesis by auto
qed

text \<open>
  C31. Decryption of an arbitrary file never leaves its buffers, for every key that the option check
  admits: \<^verbatim>\<open>decrypt_buf\<close> fails or returns, and then the payload with its checksum lies within the
  file and the checksum of the decrypted payload is the stored one.
\<close>

theorem buffalo_decrypt_safe:
  assumes "length key \<le> 254"
  shows "\<exists>r. decrypt_buf sc malloc (zero_param key) mem (length mem) = Ret r \<and>
    (\<forall>ep mem'. r = Some (ep, mem') \<longrightarrow> length mem' = length mem \<and> unat (ep_datalen ep) + 4 \<le> length mem \<and>
       buffalo_csum sc (ep_datalen ep) (take (unat (ep_datalen ep)) mem') = ep_csum ep)"
  using decrypt_buf_safe [of "zero_param key" "length mem" mem sc malloc] assms
  by (auto simp: zero_param_def ENC_MAGIC_LEN_def ENC_PRODUCT_LEN_def ENC_VERSION_LEN_def ret_sat_def
      split: outcome.splits option.splits)

theorem buffalo_decrypt_safe_witness:
  "\<exists>r. decrypt_buf True demo_malloc (zero_param (cstr ''Buffalo'')) (cstr ''start'') (length (cstr ''start'')) = Ret r"
  using buffalo_decrypt_safe [of "cstr ''Buffalo''" True demo_malloc "cstr ''start''"] by (auto simp: cstr_def)

text \<open>
  C32. The state of the cipher is a permutation of its initial contents after the key schedule and
  after any number of processed bytes, so that for the default length it holds every byte value
  once, and its indices stay inside the state. What is added to the text depends on seed, key
  and length only: processing the result again restores the text, also in the overlapping
  case that decryption uses.
\<close>

theorem bcrypt_state_and_involution:
  assumes "bcrypt_init malloc key n = Some ctx" and "0 < n" and "dst \<le> src" and "src + len \<le> length mem"
  shows "\<exists>ctx' mem' ks. bcrypt_process ctx mem src dst len = Ret (ctx', mem') \<and>
    mset (ctx_state ctx') = mset (map of_nat [0..<n]) \<and> unat (ctx_i ctx') < n \<and> unat (ctx_j ctx') < n \<and>
    length ks = len \<and>
    mem' = take dst mem @ map2 (XOR) (take len (drop src mem)) ks @ drop (dst + len) mem \<and>
    (\<exists>ctx''. bcrypt_process ctx mem' dst dst len =
       Ret (ctx'', take dst mem @ take len (drop src mem) @ drop (dst + len) mem))"
proof -
  let ?ks = "keystream ctx len" and ?x = "take len (drop src mem)"
  have ok: "ctx_ok n ctx"
    using assms(1) key_ctx_ok by (auto simp: bcrypt_init_ctx split: if_splits)
  obtain ctx' where r: "bcrypt_process ctx mem src dst len = Ret (ctx', take dst mem @ xor_bytes ?x ?ks @ drop (dst + len) mem)"
    using bcrypt_process_mem [OF assms(3,4)] by blast
  let ?m = "take dst mem @ xor_bytes ?x ?ks @ drop (dst + len) mem"
  have l: "length ?m = length mem" "take len (drop dst ?m) = xor_bytes ?x ?ks" "take dst ?m = take dst mem"
    "drop (dst + len) ?m = drop (dst + len) mem"
    using assms(3,4) by auto
  obtain ctx'' where "bcrypt_process ctx ?m dst dst len = Ret (ctx'', take dst ?m @ xor_bytes (take len (drop dst ?m)) ?ks @ drop (dst + len) ?m)"
    using bcrypt_process_mem [of dst dst len ?m ctx] l(1) assms(3,4) by auto
  moreover have "xor_bytes (xor_bytes ?x ?ks) ?ks = ?x"
    using assms(4) by simp
  ultimately have "bcrypt_process ctx ?m dst dst len = Ret (ctx'', take dst mem @ ?x @ drop (dst + len) mem)"
    by (simp only: l)
  moreover have "ctx_ok n ctx'" using bcrypt_process_ok [OF ok assms(2) r] .
  ultimately show ?thesis
    using r assms(2) unfolding ctx_ok_def xor_bytes_def by (metis length_keystream)
qed

theorem bcrypt_state_and_involution_witness:
  "\<exists>ctx ctx' mem'. bcrypt_init demo_malloc [0x4F, 66] 256 = Some ctx \<and>
     bcrypt_process ctx [9, 9, 9, 1, 2, 3] 3 0 3 = Ret (ctx', mem') \<and>
     mset (ctx_state ctx') = mset (map of_nat [0..<256])"
proof -
  have i: "bcrypt_init demo_malloc [0x4F, 66] 256 = Some (key_ctx [0x4F, 66] 256)"
    by (simp add: bcrypt_init_ctx demo_malloc_def)
  from bcrypt_state_and_involution [OF i, of 0 3 3 "[9, 9, 9, 1, 2, 3]"] i show ?thesis by auto
qed

end
