(* ===== verification/Buffalo_Crc.thy ===== *)
theory Buffalo_Crc
  imports Buffalo_Lib Checksum_Spec
begin

text \<open>
  The checksum of a firmware image in its tag (\<^verbatim>\<open>buffalo_crc\<close> of \<^verbatim>\<open>tools/firmware-utils/src/buffalo-lib.c\<close>):
  the lookup table as the source has it, and the bit-serial division that it abbreviates.
\<close>

section \<open>The table-driven routine\<close>

definition crc32_table :: "u32 list" where
  "crc32_table = [
    0x00000000, 0x04c11db7, 0x09823b6e, 0x0d4326d9,
    0x130476dc, 0x17c56b6b, 0x1a864db2, 0x1e475005,
    0x2608edb8, 0x22c9f00f, 0x2f8ad6d6, 0x2b4bcb61,
    0x350c9b64, 0x31cd86d3, 0x3c8ea00a, 0x384fbdbd,
    0x4c11db70, 0x48d0c6c7, 0x4593e01e, 0x4152fda9,
    0x5f15adac, 0x5bd4b01b, 0x569796c2, 0x52568b75,
    0x6a1936c8, 0x6ed82b7f, 0x639b0da6, 0x675a1011,
    0x791d4014, 0x7ddc5da3, 0x709f7b7a, 0x745e66cd,
    0x9823b6e0, 0x9ce2ab57, 0x91a18d8e, 0x95609039,
    0x8b27c03c, 0x8fe6dd8b, 0x82a5fb52, 0x8664e6e5,
    0xbe2b5b58, 0xbaea46ef, 0xb7a96036, 0xb3687d81,
    0xad2f2d84, 0xa9ee3033, 0xa4ad16ea, 0xa06c0b5d,
    0xd4326d90, 0xd0f37027, 0xddb056fe, 0xd9714b49,
    0xc7361b4c, 0xc3f706fb, 0xceb42022, 0xca753d95,
    0xf23a8028, 0xf6fb9d9f, 0xfbb8bb46, 0xff79a6f1,
    0xe13ef6f4, 0xe5ffeb43, 0xe8bccd9a, 0xec7dd02d,
    0x34867077, 0x30476dc0, 0x3d044b19, 0x39c556ae,
    0x278206ab, 0x23431b1c, 0x2e003dc5, 0x2ac12072,
    0x128e9dcf, 0x164f8078, 0x1b0ca6a1, 0x1fcdbb16,
    0x018aeb13, 0x054bf6a4, 0x0808d07d, 0x0cc9cdca,
    0x7897ab07, 0x7c56b6b0, 0x71159069, 0x75d48dde,
    0x6b93dddb, 0x6f52c06c, 0x6211e6b5, 0x66d0fb02,
    0x5e9f46bf, 0x5a5e5b08, 0x571d7dd1, 0x53dc6066,
    0x4d9b3063, 0x495a2dd4, 0x44190b0d, 0x40d816ba,
    0xaca5c697, 0xa864db20, 0xa527fdf9, 0xa1e6e04e,
    0xbfa1b04b, 0xbb60adfc, 0xb6238b25, 0xb2e29692,
    0x8aad2b2f, 0x8e6c3698, 0x832f1041, 0x87ee0df6,
    0x99a95df3, 0x9d684044, 0x902b669d, 0x94ea7b2a,
    0xe0b41de7, 0xe4750050, 0xe9362689, 0xedf73b3e,
    0xf3b06b3b, 0xf771768c, 0xfa325055, 0xfef34de2,
    0xc6bcf05f, 0xc27dede8, 0xcf3ecb31, 0xcbffd686,
    0xd5b88683, 0xd1799b34, 0xdc3abded, 0xd8fba05a,
    0x690ce0ee, 0x6dcdfd59, 0x608edb80, 0x644fc637,
    0x7a089632, 0x7ec98b85, 0x738aad5c, 0x774bb0eb,
    0x4f040d56, 0x4bc510e1, 0x46863638, 0x42472b8f,
    0x5c007b8a, 0x58c1663d, 0x558240e4, 0x51435d53,
    0x251d3b9e, 0x21dc2629, 0x2c9f00f0, 0x285e1d47,
    0x36194d42, 0x32d850f5, 0x3f9b762c, 0x3b5a6b9b,
    0x0315d626, 0x07d4cb91, 0x0a97ed48, 0x0e56f0ff,
    0x1011a0fa, 0x14d0bd4d, 0x19939b94, 0x1d528623,
    0xf12f560e, 0xf5ee4bb9, 0xf8ad6d60, 0xfc6c70d7,
    0xe22b20d2, 0xe6ea3d65, 0xeba91bbc, 0xef68060b,
    0xd727bbb6, 0xd3e6a601, 0xdea580d8, 0xda649d6f,
    0xc423cd6a, 0xc0e2d0dd, 0xcda1f604, 0xc960ebb3,
    0xbd3e8d7e, 0xb9ff90c9, 0xb4bcb610, 0xb07daba7,
    0xae3afba2, 0xaafbe615, 0xa7b8c0cc, 0xa379dd7b,
    0x9b3660c6, 0x9ff77d71, 0x92b45ba8, 0x9675461f,
    0x8832161a, 0x8cf30bad, 0x81b02d74, 0x857130c3,
    0x5d8a9099, 0x594b8d2e, 0x5408abf7, 0x50c9b640,
    0x4e8ee645, 0x4a4ffbf2, 0x470cdd2b, 0x43cdc09c,
    0x7b827d21, 0x7f436096, 0x7200464f, 0x76c15bf8,
    0x68860bfd, 0x6c47164a, 0x61043093, 0x65c52d24,
    0x119b4be9, 0x155a565e, 0x18197087, 0x1cd86d30,
    0x029f3d35, 0x065e2082, 0x0b1d065b, 0x0fdc1bec,
    0x3793a651, 0x3352bbe6, 0x3e119d3f, 0x3ad08088,
    0x2497d08d, 0x2056cd3a, 0x2d15ebe3, 0x29d4f654,
    0xc5a92679, 0xc1683bce, 0xcc2b1d17, 0xc8ea00a0,
    0xd6ad50a5, 0xd26c4d12, 0xdf2f6bcb, 0xdbee767c,
    0xe3a1cbc1, 0xe760d676, 0xea23f0af, 0xeee2ed18,
    0xf0a5bd1d, 0xf464a0aa, 0xf9278673, 0xfde69bc4,
    0x89b8fd09, 0x8d79e0be, 0x803ac667, 0x84fbdbd0,
    0x9abc8bd5, 0x9e7d9662, 0x933eb0bb, 0x97ffad0c,
    0xafb010b1, 0xab710d06, 0xa6322bdf, 0xa2f33668,
    0xbcb4666d, 0xb8757bda, 0xb5365d03, 0xb1f740b4]"

definition crc_update :: "u32 \<Rightarrow> byte \<Rightarrow> u32" where
  "crc_update crc b = push_bit 8 crc XOR crc32_table ! unat ((drop_bit 24 crc XOR ucast b) AND 0xFF)"

text \<open>\<^verbatim>\<open>while (t) { ...; t >>= 8; }\<close>\<close>

function crc_len_loop :: "nat \<Rightarrow> u32 \<Rightarrow> u32" where
  "crc_len_loop t crc = (if t = 0 then crc else crc_len_loop (t div 256) (crc_update crc (of_nat t)))"
  by pat_completeness auto
termination crc_len_loop
  by (relation "measure fst") auto

declare crc_len_loop.simps [simp del]

definition buffalo_crc :: "byte list \<Rightarrow> u32" where
  "buffalo_crc buf = NOT (crc_len_loop (length buf) (foldl crc_update 0 buf))"

section \<open>The polynomial division it implements\<close>

definition crc32_shift :: "u32 \<Rightarrow> u32" where
  "crc32_shift c = (if bit c 31 then push_bit 1 c XOR 0x04c11db7 else push_bit 1 c)"

definition crc32_byte :: "u32 \<Rightarrow> byte \<Rightarrow> u32" where
  "crc32_byte c b = (crc32_shift ^^ 8) (c XOR push_bit 24 (ucast b))"

text \<open>The length of the message, low byte first, without leading zeros.\<close>

function len_bytes :: "nat \<Rightarrow> byte list" where
  "len_bytes t = (if t = 0 then [] else of_nat t # len_bytes (t div 256))"
  by pat_completeness auto
termination len_bytes
  by (relation "measure id") auto

declare len_bytes.simps [simp del]

lemma crc32_shift_xor: "crc32_shift (a XOR b) = crc32_shift a XOR crc32_shift b"
  by (rule bit_word_eqI) (auto simp: crc32_shift_def bit_simps)

lemma crc32_shifts_xor: "(crc32_shift ^^ n) (a XOR b) = (crc32_shift ^^ n) a XOR (crc32_shift ^^ n) b"
  by (induction n) (auto simp: crc32_shift_xor)

lemma length_crc32_table [simp]: "length crc32_table = 256"
  by (simp add: crc32_table_def)

lemma crc32_table_evens: "evens crc32_table = map crc32_shift (take 128 crc32_table)"
  by (simp add: crc32_table_def crc32_shift_def)

lemma crc32_table_odds: "odds crc32_table = map (\<lambda>c. c XOR 0x04c11db7) (evens crc32_table)"
  by (simp add: crc32_table_def)

lemma crc32_table_double: "k < 128 \<Longrightarrow> crc32_table ! (2 * k) = crc32_shift (crc32_table ! k)"
  using arg_cong [OF crc32_table_evens, of "\<lambda>xs. xs ! k"]
  by (simp add: nth_evens)

lemma crc32_table_double_Suc: "k < 128 \<Longrightarrow> crc32_table ! Suc (2 * k) = crc32_table ! (2 * k) XOR 0x04c11db7"
  using arg_cong [OF crc32_table_odds, of "\<lambda>xs. xs ! k"]
  by (simp add: length_evens nth_evens nth_odds)

lemma crc32_shifts_small:
  "n \<le> 8 \<Longrightarrow> (crc32_shift ^^ n) (take_bit 24 c) = push_bit n (take_bit 24 c)"
proof (induction n)
  case (Suc n)
  then have "\<not> bit (push_bit n (take_bit 24 c)) 31" by (auto simp: bit_simps)
  with Suc show ?case by (simp add: crc32_shift_def)
qed simp

definition crc32_entry :: "u32 \<Rightarrow> u32" where
  "crc32_entry i = (crc32_shift ^^ 8) (push_bit 24 i)"

lemma crc32_entry_xor: "crc32_entry (a XOR b) = crc32_entry a XOR crc32_entry b"
  by (simp add: crc32_entry_def push_bit_xor crc32_shifts_xor)

lemma crc32_entry_0: "crc32_entry 0 = 0"
  using crc32_entry_xor [of 0 0] by simp

lemma crc32_entry_1: "crc32_entry 1 = 0x04c11db7"
proof -
  have *: "(crc32_shift ^^ n) (push_bit 24 1) = push_bit (24 + n) 1" if "n \<le> 7" for n
    using that
  proof (induction n)
    case (Suc n)
    then have "\<not> bit (push_bit (24 + n) 1 :: u32) 31" by (auto simp: bit_simps)
    with Suc show ?case by (simp add: crc32_shift_def del: push_bit_of_1)
  qed simp
  have "crc32_entry 1 = crc32_shift ((crc32_shift ^^ 7) (push_bit 24 1))"
    by (simp add: crc32_entry_def funpow_8 eval_nat_numeral)
  also have "\<dots> = crc32_shift (push_bit 31 1)" using * [of 7] by simp
  also have "\<dots> = 0x04c11db7" by (simp add: crc32_shift_def)
  finally show ?thesis .
qed

lemma crc32_entry_double:
  assumes "k < 128"
  shows "crc32_entry (of_nat (2 * k)) = crc32_shift (crc32_entry (of_nat k))"
proof -
  have "unat (of_nat k :: u32) = k" using assms by (simp add: unat_of_nat take_bit_nat_eq_self)
  moreover have "bit (unat (of_nat k :: u32)) 7 \<longleftrightarrow> bit (of_nat k :: u32) 7"
    by (simp add: bit_unsigned_iff)
  ultimately have "bit (of_nat k :: u32) 7 \<longleftrightarrow> bit k 7" by simp
  moreover have "\<not> bit k 7" using assms by (simp add: bit_iff_odd)
  ultimately have "\<not> bit (of_nat k :: u32) 7" by blast
  then have "\<not> bit (push_bit 24 (of_nat k) :: u32) 31"
    by (simp only: bit_push_bit_iff) simp
  then have "crc32_shift (push_bit 24 (of_nat k)) = push_bit 1 (push_bit 24 (of_nat k))"
    by (simp only: crc32_shift_def if_False)
  also have "\<dots> = push_bit 24 (of_nat (2 * k))" by (simp add: push_bit_eq_mult)
  finally have "crc32_shift (push_bit 24 (of_nat k)) = push_bit 24 (of_nat (2 * k))" .
  then show ?thesis by (metis crc32_entry_def funpow_swap1)
qed

lemma crc32_entry_double_Suc: "crc32_entry (of_nat (Suc (2 * k))) = crc32_entry (of_nat (2 * k)) XOR 0x04c11db7"
proof -
  have "(of_nat (Suc (2 * k)) :: u32) = of_nat (2 * k) XOR 1" by (simp add: xor_one_eq)
  then show ?thesis by (simp only: crc32_entry_xor crc32_entry_1)
qed

interpretation crc32_tab: doubling_table crc32_table "\<lambda>k. crc32_entry (of_nat k)"
proof
  show "crc32_table ! 0 = crc32_entry (of_nat 0)" by (simp add: crc32_entry_0 crc32_table_def)
qed (simp_all only: crc32_table_double crc32_entry_double crc32_table_double_Suc crc32_entry_double_Suc)

lemma and_ff_take_bit: "(w :: u32) AND 0xFF = take_bit 8 w"
  by (simp add: take_bit_eq_mask mask_eq_exp_minus_1)

lemma crc_update_byte: "crc_update c b = crc32_byte c b"
proof -
  let ?i = "drop_bit 24 c XOR ucast b :: u32"
  have i: "?i AND 0xFF = ?i"
    unfolding and_ff_take_bit by (rule bit_word_eqI) (auto simp: bit_simps dest: bit_imp_le_length)
  have "unat (take_bit 8 ?i) < 2 ^ 8"
    by (simp only: unsigned_take_bit_eq take_bit_nat_less_exp)
  then have "unat ?i < 256" using i by (simp add: and_ff_take_bit)
  then have t: "crc32_table ! unat ?i = crc32_entry ?i" by (simp add: crc32_tab.table_val)
  have "c XOR push_bit 24 (ucast b) = push_bit 24 ?i XOR take_bit 24 c"
    by (rule bit_word_eqI) (auto simp: bit_simps)
  then have "crc32_byte c b = crc32_entry ?i XOR push_bit 8 (take_bit 24 c)"
    by (simp only: crc32_byte_def crc32_shifts_xor crc32_entry_def crc32_shifts_small [of 8] order_refl)
  moreover have "push_bit 8 (take_bit 24 c) = push_bit 8 c"
    by (rule bit_word_eqI) (auto simp: bit_simps)
  ultimately show ?thesis
    unfolding crc_update_def i t by (simp only: xor.commute)
qed

lemma foldl_crc_update: "foldl crc_update c bs = foldl crc32_byte c bs"
  by (induction bs arbitrary: c) (simp_all add: crc_update_byte)

lemma crc_len_loop_bytes: "crc_len_loop t c = foldl crc32_byte c (len_bytes t)"
  by (induction t c rule: crc_len_loop.induct)
     (subst crc_len_loop.simps, subst len_bytes.simps, simp add: crc_update_byte)

section \<open>Errors that the checksums detect\<close>

lemma crc32_shift_inj: "inj crc32_shift"
proof (rule injI)
  fix a b :: u32
  assume eq: "crc32_shift a = crc32_shift b"
  have low: "bit (crc32_shift c) 0 = bit c 31" for c
    by (cases "bit c 31") (simp_all only: crc32_shift_def if_True if_False bit_xor_iff bit_push_bit_iff, simp_all)
  have top: "bit a 31 = bit b 31" using eq low by metis
  with eq have sh: "push_bit 1 a = push_bit 1 b"
    by (auto simp: crc32_shift_def split: if_splits)
  show "a = b"
  proof (rule bit_word_eqI)
    fix n assume "n < LENGTH(32)"
    show "bit a n = bit b n"
    proof (cases "n = 31")
      case False
      have "bit (push_bit 1 a) (Suc n) = bit (push_bit 1 b) (Suc n)" by (simp only: sh)
      with False \<open>n < LENGTH(32)\<close> show ?thesis by (simp only: bit_push_bit_iff) simp
    qed (simp add: top)
  qed
qed

lemma csum_shift_inj: "inj csum_shift"
proof (rule injI)
  fix a b :: u32
  assume eq: "csum_shift a = csum_shift b"
  have top: "bit (csum_shift c) 31 = bit c 0" for c
    by (auto simp: csum_shift_def bit_simps and_one_eq bit_0 odd_iff_mod_2_eq_one dest: bit_imp_le_length)
  have low: "bit a 0 = bit b 0" using eq top by metis
  then have "odd a \<longleftrightarrow> odd b" by (simp add: bit_0)
  with eq have sh: "drop_bit 1 a = drop_bit 1 b"
    by (auto simp: csum_shift_def and_one_eq odd_iff_mod_2_eq_one split: if_splits)
  show "a = b"
  proof (rule bit_word_eqI)
    fix n
    show "bit a n = bit b n"
    proof (cases n)
      case (Suc m)
      have "bit (drop_bit 1 a) m = bit (drop_bit 1 b) m" by (simp only: sh)
      with Suc show ?thesis by (simp add: bit_drop_bit_eq)
    qed (simp add: low)
  qed
qed

lemma push_24_inject: "push_bit 24 (ucast (a :: byte) :: u32) = push_bit 24 (ucast b) \<longleftrightarrow> a = b"
proof
  assume "push_bit 24 (ucast a :: u32) = push_bit 24 (ucast b)"
  then have e: "bit (push_bit 24 (ucast a :: u32)) (24 + n) = bit (push_bit 24 (ucast b :: u32)) (24 + n)" for n by simp
  have "bit a n = bit b n" if "n < 8" for n
    using e [of n] that by (simp only: bit_push_bit_iff bit_unsigned_iff) simp
  then show "a = b" by (intro bit_word_eqI) simp
qed simp

lemma char_to_u32_inject: "char_to_u32 sc a = char_to_u32 sc b \<longleftrightarrow> a = b"
proof -
  have "ucast (char_to_u32 sc x) = x" for x
    by (cases sc) (rule bit_word_eqI, simp add: char_to_u32_def bit_simps)+
  then show ?thesis by metis
qed

interpretation crc32: division crc32_shift "\<lambda>b. push_bit 24 (ucast b)"
  by unfold_locales (rule crc32_shift_inj, simp only: inj_def push_24_inject, simp)

interpretation csum: division csum_shift "char_to_u32 sc" for sc
  by unfold_locales (rule csum_shift_inj, simp only: inj_def char_to_u32_inject, simp)

lemma crc32_division: "foldl crc32_byte = foldl (\<lambda>c b. (crc32_shift ^^ 8) (c XOR push_bit 24 (ucast b)))"
  by (rule arg_cong [of _ _ foldl]) (simp add: fun_eq_iff crc32_byte_def)

lemma csum_division: "buffalo_csum sc c bs = foldl (\<lambda>c b. (csum_shift ^^ 8) (c XOR char_to_u32 sc b)) c bs"
  by (simp add: buffalo_csum_def foldl_conv_fold)

lemma buffalo_crc_division: "buffalo_crc bs = NOT (foldl crc32_byte 0 (bs @ len_bytes (length bs)))"
  by (simp add: buffalo_crc_def foldl_crc_update crc_len_loop_bytes)

lemma buffalo_crc_single_byte: "x \<noteq> y \<Longrightarrow> buffalo_crc (pre @ x # post) \<noteq> buffalo_crc (pre @ y # post)"
  using crc32.single_byte_error [of x y 0 pre "post @ len_bytes (length (pre @ x # post))"]
  by (simp add: buffalo_crc_division crc32_division del: foldl_append foldl_Cons)

section \<open>Properties\<close>

text \<open>
  C33. \<^verbatim>\<open>buffalo_crc\<close> is the complement of the remainder of the message, followed by its length low
  byte first, in the division by the polynomial \<open>0x04c11db7\<close> (the checksum of the POSIX command
  \<^verbatim>\<open>cksum\<close>). It and \<^verbatim>\<open>buffalo_csum\<close> detect every change of a single byte.
\<close>

theorem buffalo_checksums:
  "buffalo_crc buf = NOT (foldl crc32_byte 0 (buf @ len_bytes (length buf))) \<and>
   (x \<noteq> y \<longrightarrow> buffalo_crc (pre @ x # post) \<noteq> buffalo_crc (pre @ y # post) \<and>
      buffalo_csum sc c (pre @ x # post) \<noteq> buffalo_csum sc c (pre @ y # post))"
proof (intro conjI impI)
  show "buffalo_crc buf = NOT (foldl crc32_byte 0 (buf @ len_bytes (length buf)))" by (rule buffalo_crc_division)
  assume "x \<noteq> y"
  then show "buffalo_crc (pre @ x # post) \<noteq> buffalo_crc (pre @ y # post)" by (rule buffalo_crc_single_byte)
  show "buffalo_csum sc c (pre @ x # post) \<noteq> buffalo_csum sc c (pre @ y # post)"
    unfolding csum_division using \<open>x \<noteq> y\<close> by (rule csum.single_byte_error)
qed

theorem buffalo_checksums_witness:
  "buffalo_crc [1, 2, 3] \<noteq> buffalo_crc [1, 7, 3] \<and> buffalo_csum True 3 [1, 2, 3] \<noteq> buffalo_csum True 3 [1, 7, 3]"
  using buffalo_checksums [of "[]" 2 7 "[1]" "[3]" True 3] by simp

end
