(* ===== verification/Buffalo_Tag.thy ===== *)
theory Buffalo_Tag
  imports Buffalo_Enc Buffalo_Crc
begin

text \<open>
  The tagging tool \<^verbatim>\<open>tools/firmware-utils/src/buffalo-tag.c\<close>: a header with names, regions, lengths and a checksum
  before one or two files. The messages are left out; \<^verbatim>\<open>usage\<close> is its exit status.
\<close>

section \<open>Model\<close>

definition TAG_BRAND_LEN :: nat where "TAG_BRAND_LEN = 32"
definition TAG_PRODUCT_LEN :: nat where "TAG_PRODUCT_LEN = 32"
definition TAG_VERSION_LEN :: nat where "TAG_VERSION_LEN = 8"
definition TAG_LANGUAGE_LEN :: nat where "TAG_LANGUAGE_LEN = 8"
definition TAG_PLATFORM_LEN :: nat where "TAG_PLATFORM_LEN = 8"

text \<open>The fields of \<^verbatim>\<open>struct buffalo_tag\<close> and \<^verbatim>\<open>struct buffalo_tag2\<close> by their offsets: the common ones, and those of
  each. The structures are packed.\<close>

definition tag_product :: nat where "tag_product = 0"
definition tag_brand :: nat where "tag_brand = 32"
definition tag_ver_major :: nat where "tag_ver_major = 64"
definition tag_ver_minor :: nat where "tag_ver_minor = 72"
definition tag_region_code :: nat where "tag_region_code = 80"
definition tag_region_mask :: nat where "tag_region_mask = 82"
definition tag_language :: nat where "tag_language = 88"
definition tag_platform :: nat where "tag_platform = 96"
definition tag_hwv :: nat where "tag_hwv = 104"
definition tag_hwv_val :: nat where "tag_hwv_val = 108"
definition tag_len :: nat where "tag_len = 136"
definition tag_crc :: nat where "tag_crc = 140"

definition tag_base1 :: nat where "tag_base1 = 144"
definition tag_base2 :: nat where "tag_base2 = 148"
definition tag_data_len :: nat where "tag_data_len = 152"
definition tag_flag :: nat where "tag_flag = 156"
definition sizeof_tag :: nat where "sizeof_tag = 160"

definition tag2_len1 :: nat where "tag2_len1 = 144"
definition tag2_len2 :: nat where "tag2_len2 = 148"
definition tag2_flag :: nat where "tag2_flag = 152"
definition sizeof_tag2 :: nat where "sizeof_tag2 = 156"

text \<open>The variables of the file.\<close>

record tag_opts =
  tg_ifname :: "string list"
  tg_ofname :: "string option"
  tg_product :: "string option"
  tg_brand :: "string option"
  tg_language :: "string option"
  tg_hwver :: "string option"
  tg_platform :: "string option"
  tg_flag :: byte
  tg_major :: "string option"
  tg_minor :: "string option"
  tg_skipcrc :: bool
  tg_base1 :: u32
  tg_base2 :: u32
  tg_region_code :: string
  tg_region_mask :: u32
  tg_num_regions :: nat

definition tag_default :: tag_opts where
  "tag_default = \<lparr>tg_ifname = [], tg_ofname = None, tg_product = None, tg_brand = None, tg_language = None, tg_hwver = None,
     tg_platform = None, tg_flag = 0, tg_major = None, tg_minor = Some ''1.01'', tg_skipcrc = False, tg_base1 = 0, tg_base2 = 0,
     tg_region_code = [], tg_region_mask = 0, tg_num_regions = 0\<rparr>"

definition region_table :: "string list" where
  "region_table = [''JP'', ''US'', ''EU'', ''AP'', ''TW'', ''KR'']"

fun region_index :: "string \<Rightarrow> string list \<Rightarrow> nat option" where
  "region_index reg [] = None"
| "region_index reg (r # rs) = (if reg = r then Some 0 else map_option Suc (region_index reg rs))"

definition process_region :: "string \<Rightarrow> tag_opts \<Rightarrow> tag_opts option" where
  "process_region reg op =
     (if length reg \<noteq> 2 then None
      else if reg = ''M_'' then Some (op\<lparr>tg_region_code := reg, tg_region_mask := tg_region_mask op OR NOT 0, tg_num_regions := 32\<rparr>)
      else case region_index reg region_table of
             None \<Rightarrow> None
           | Some i \<Rightarrow> Some (op\<lparr>tg_region_code := reg, tg_region_mask := tg_region_mask op OR push_bit i 1,
               tg_num_regions := tg_num_regions op + 1\<rparr>))"

definition MAX_INPUT_FILES :: nat where "MAX_INPUT_FILES = 2"

definition process_ifname :: "string \<Rightarrow> tag_opts \<Rightarrow> tag_opts option" where
  "process_ifname name op =
     (if length (tg_ifname op) \<ge> MAX_INPUT_FILES then None else Some (op\<lparr>tg_ifname := tg_ifname op @ [name]\<rparr>))"

text \<open>\<^verbatim>\<open>check_params\<close>: a missing input file is reported, but it is not an error.\<close>

definition CHECKSTR :: "string option \<Rightarrow> nat \<Rightarrow> bool" where
  "CHECKSTR var len = (case var of None \<Rightarrow> False | Some s \<Rightarrow> \<not> (len > 0 \<and> length s > len - 1))"

definition tag_check_params :: "tag_opts \<Rightarrow> bool" where
  "tag_check_params op \<longleftrightarrow>
     CHECKSTR (tg_ofname op) 0 \<and> CHECKSTR (tg_brand op) TAG_BRAND_LEN \<and> CHECKSTR (tg_product op) TAG_PRODUCT_LEN \<and>
     CHECKSTR (tg_platform op) TAG_PLATFORM_LEN \<and> CHECKSTR (tg_major op) TAG_VERSION_LEN \<and> CHECKSTR (tg_minor op) TAG_VERSION_LEN \<and>
     CHECKSTR (tg_language op) TAG_LANGUAGE_LEN \<and> (tg_hwver op \<noteq> None \<longrightarrow> CHECKSTR (tg_hwver op) 2) \<and> tg_num_regions op \<noteq> 0"

text \<open>Copies to offsets of a buffer one after the other.\<close>

fun mem_writes :: "(nat \<times> byte list) list \<Rightarrow> byte list \<Rightarrow> byte list outcome" where
  "mem_writes [] buf = Ret buf"
| "mem_writes ((off, bs) # ws) buf = obind (mem_write off bs buf) (mem_writes ws)"

text \<open>What the two kinds of tags have in common: the names and the region, and the hardware version.\<close>

definition opt_cstr :: "string option \<Rightarrow> byte list" where
  "opt_cstr s = (case s of None \<Rightarrow> [] | Some s \<Rightarrow> cstr s)"

definition tag_names :: "tag_opts \<Rightarrow> (nat \<times> byte list) list" where
  "tag_names op =
     [(tag_brand, opt_cstr (tg_brand op)), (tag_product, opt_cstr (tg_product op)), (tag_platform, opt_cstr (tg_platform op)),
      (tag_ver_major, opt_cstr (tg_major op)), (tag_ver_minor, opt_cstr (tg_minor op)), (tag_language, opt_cstr (tg_language op))] @
     (if tg_num_regions op > 1 then [(tag_region_code, cstr ''M_''), (tag_region_mask, bytes_be (tg_region_mask op))]
      else [(tag_region_code, take 2 (cstr (tg_region_code op)))])"

definition tag_hwver :: "tag_opts \<Rightarrow> (nat \<times> byte list) list" where
  "tag_hwver op = (case tg_hwver op of None \<Rightarrow> [] | Some v \<Rightarrow> [(tag_hwv, cstr ''hwv''), (tag_hwv_val, cstr v)])"

definition tag_checksum :: "tag_opts \<Rightarrow> byte list \<Rightarrow> byte list outcome" where
  "tag_checksum op buf = (if tg_skipcrc op then Ret buf else mem_write tag_crc (bytes_be (buffalo_crc buf)) buf)"

definition fixup_tag :: "tag_opts \<Rightarrow> nat list \<Rightarrow> byte list \<Rightarrow> byte list outcome" where
  "fixup_tag op fsize buf =
     obind (mem_set 0 0 sizeof_tag buf) (\<lambda>buf'.
     obind (mem_writes (tag_names op @
       [(tag_len, bytes_be (of_nat (length buf))), (tag_data_len, bytes_be (of_nat (fsize ! 0))), (tag_base1, bytes_be (tg_base1 op)),
        (tag_base2, bytes_be (tg_base2 op)), (tag_flag, [tg_flag op])] @ tag_hwver op) buf') (tag_checksum op))"

definition fixup_tag2 :: "tag_opts \<Rightarrow> nat list \<Rightarrow> byte list \<Rightarrow> byte list outcome" where
  "fixup_tag2 op fsize buf =
     obind (mem_set 0 0 sizeof_tag2 buf) (\<lambda>buf'.
     obind (mem_writes (tag_names op @
       [(tag_len, bytes_be (of_nat (length buf))), (tag2_len1, bytes_be (of_nat (fsize ! 0))), (tag2_len2, bytes_be (of_nat (fsize ! 1))),
        (tag2_flag, [tg_flag op])] @ tag_hwver op) buf') (tag_checksum op))"

text \<open>The files: their sizes, then their contents behind the header. \<^verbatim>\<open>fsize\<close> is 0 for files that are not given.\<close>

fun file_sizes :: "host_fs \<Rightarrow> string list \<Rightarrow> nat list option" where
  "file_sizes fs [] = Some []"
| "file_sizes fs (n # ns) =
     (case get_file_size fs n of None \<Rightarrow> None | Some sz \<Rightarrow> map_option ((#) sz) (file_sizes fs ns))"

fun read_files :: "host_fs \<Rightarrow> (string \<times> nat) list \<Rightarrow> nat \<Rightarrow> byte list \<Rightarrow> byte list option outcome" where
  "read_files fs [] offset buf = Ret (Some buf)"
| "read_files fs ((n, sz) # ns) offset buf =
     (case read_file_to_buf fs n sz of
        None \<Rightarrow> Ret None
      | Some d \<Rightarrow> obind (mem_write offset d buf) (read_files fs ns (offset + sz)))"

definition tag_file :: "malloc \<Rightarrow> tag_opts \<Rightarrow> host_fs \<Rightarrow> (bool \<times> host_fs) outcome" where
  "tag_file malloc op fs =
     (let hdrlen = if length (tg_ifname op) = 1 then sizeof_tag else sizeof_tag2 in
      case file_sizes fs (tg_ifname op) of
        None \<Rightarrow> Ret (False, fs)
      | Some sizes \<Rightarrow>
      (case malloc (hdrlen + sum_list sizes) of
        None \<Rightarrow> Ret (False, fs)
      | Some buf \<Rightarrow>
        obind (read_files fs (zip (tg_ifname op) sizes) hdrlen buf) (\<lambda>r.
        case r of
          None \<Rightarrow> Ret (False, fs)
        | Some buf \<Rightarrow>
            let fsize = sizes @ replicate (MAX_INPUT_FILES - length sizes) 0 in
            obind (if length (tg_ifname op) = 1 then fixup_tag op fsize buf else fixup_tag2 op fsize buf) (\<lambda>buf.
            Ret (write_buf_to_file fs (the (tg_ofname op)) buf)))))"

definition tag_optstring :: string where
  "tag_optstring = ''a:b:c:d:f:hi:l:m:o:p:r:sv:w:''"

text \<open>The cases of the loop over the options; an option letter that takes an argument has one.\<close>

fun tag_set_opts :: "opt_result list \<Rightarrow> tag_opts \<Rightarrow> tag_opts outcome" where
  "tag_set_opts [] op = Ret op"
| "tag_set_opts ((c, arg) # rs) op =
     (if c = CHR ''a'' then tag_set_opts rs (op\<lparr>tg_platform := arg\<rparr>)
      else if c = CHR ''b'' then tag_set_opts rs (op\<lparr>tg_brand := arg\<rparr>)
      else if c = CHR ''c'' then tag_set_opts rs (op\<lparr>tg_base1 := ucast (fst (strtoul64 16 (the arg)))\<rparr>)
      else if c = CHR ''d'' then tag_set_opts rs (op\<lparr>tg_base2 := ucast (fst (strtoul64 16 (the arg)))\<rparr>)
      else if c = CHR ''f'' then tag_set_opts rs (op\<lparr>tg_flag := ucast (fst (strtoul64 2 (the arg)))\<rparr>)
      else if c = CHR ''i'' then (case process_ifname (the arg) op of None \<Rightarrow> Exit 1 | Some op' \<Rightarrow> tag_set_opts rs op')
      else if c = CHR ''l'' then tag_set_opts rs (op\<lparr>tg_language := arg\<rparr>)
      else if c = CHR ''m'' then tag_set_opts rs (op\<lparr>tg_minor := arg\<rparr>)
      else if c = CHR ''o'' then tag_set_opts rs (op\<lparr>tg_ofname := arg\<rparr>)
      else if c = CHR ''p'' then tag_set_opts rs (op\<lparr>tg_product := arg\<rparr>)
      else if c = CHR ''r'' then (case process_region (the arg) op of None \<Rightarrow> Exit 1 | Some op' \<Rightarrow> tag_set_opts rs op')
      else if c = CHR ''s'' then tag_set_opts rs (op\<lparr>tg_skipcrc := True\<rparr>)
      else if c = CHR ''v'' then tag_set_opts rs (op\<lparr>tg_major := arg\<rparr>)
      else if c = CHR ''w'' then tag_set_opts rs (op\<lparr>tg_hwver := arg\<rparr>)
      else if c = CHR ''h'' then Exit 0
      else Exit 1)"

definition tag_main :: "malloc \<Rightarrow> string list \<Rightarrow> host_fs \<Rightarrow> (nat \<times> host_fs) outcome" where
  "tag_main malloc args fs =
     obind (tag_set_opts (fst (getopt_all tag_optstring args)) tag_default) (\<lambda>op.
     if \<not> tag_check_params op then Ret (1, fs)
     else obind (tag_file malloc op fs) (\<lambda>(ok, fs'). Ret (if ok then 0 else 1, fs')))"

section \<open>Fields of a buffer\<close>

definition tag_field :: "nat \<Rightarrow> nat \<Rightarrow> byte list \<Rightarrow> byte list" where
  "tag_field off n im = take n (drop off im)"

definition padded :: "nat \<Rightarrow> byte list \<Rightarrow> byte list" where
  "padded n bs = bs @ replicate (n - length bs) 0"

abbreviation put_all :: "(nat \<times> byte list) list \<Rightarrow> byte list \<Rightarrow> byte list" where
  "put_all ws \<equiv> fold (\<lambda>(off, bs). put_at off bs) ws"

lemma mem_writes_put_all:
  "\<forall>(off, bs) \<in> set ws. off + length bs \<le> length buf \<Longrightarrow> mem_writes ws buf = Ret (put_all ws buf) \<and> length (put_all ws buf) = length buf"
  by (induction ws buf rule: mem_writes.induct) (auto simp: mem_write_put)

lemma tag_field_put_other:
  "off + length bs \<le> length buf \<Longrightarrow> off + length bs \<le> o' \<or> o' + n \<le> off \<Longrightarrow> tag_field o' n (put_at off bs buf) = tag_field o' n buf"
  by (auto simp: tag_field_def put_at_def drop_take min_def take_drop[symmetric] simp del: take_drop)

lemma tag_field_put_same:
  "off + n \<le> length buf \<Longrightarrow> length bs \<le> n \<Longrightarrow> tag_field off n (put_at off bs buf) = bs @ drop (length bs) (tag_field off n buf)"
  by (simp add: tag_field_def put_at_def drop_take add.commute)

text \<open>A field into which one of the copies goes and that no other copy touches.\<close>

lemma put_all_field:
  "\<lbrakk>\<forall>(o', b') \<in> set ws. o' + length b' \<le> length buf \<and> ((o', b') = (off, bs) \<or> o' + length b' \<le> off \<or> off + n \<le> o');
    off + n \<le> length buf; length bs \<le> n;
    tag_field off n buf = padded n bs \<or> (off, bs) \<in> set ws \<and> tag_field off n buf = replicate n 0\<rbrakk> \<Longrightarrow>
   tag_field off n (put_all ws buf) = padded n bs"
proof (induction ws arbitrary: buf)
  case (Cons w ws)
  obtain o' b' where w: "w = (o', b')" by (cases w)
  have in': "o' + length b' \<le> length buf" and dis: "(o', b') = (off, bs) \<or> o' + length b' \<le> off \<or> off + n \<le> o'"
    using Cons.prems(1) by (auto simp: w)
  have "tag_field off n (put_at o' b' buf) = padded n bs \<or>
      (off, bs) \<in> set ws \<and> tag_field off n (put_at o' b' buf) = replicate n 0"
  proof (cases "(o', b') = (off, bs)")
    case True
    then show ?thesis using Cons.prems(2-4) tag_field_put_same [of off n buf bs] by (auto simp: padded_def)
  next
    case False
    then show ?thesis using Cons.prems(4) dis in' tag_field_put_other [of o' b' buf off n] by (auto simp: w)
  qed
  moreover have "length (put_at o' b' buf) = length buf" using in' by simp
  ultimately show ?case using Cons.IH [of "put_at o' b' buf"] Cons.prems(1-3) by (auto simp: w)
qed auto

lemma put_all_field_zero:
  "\<lbrakk>\<forall>(o', b') \<in> set ws. o' + length b' \<le> length buf \<and> (o' + length b' \<le> off \<or> off + n \<le> o'); off + n \<le> length buf\<rbrakk> \<Longrightarrow>
   tag_field off n (put_all ws buf) = tag_field off n buf"
proof (induction ws arbitrary: buf)
  case (Cons w ws)
  then show ?case using tag_field_put_other [of "fst w" "snd w" buf off n] by (cases w) auto
qed simp

lemma put_all_drop:
  "\<forall>(o', b') \<in> set ws. o' + length b' \<le> off \<Longrightarrow> off \<le> length buf \<Longrightarrow> drop off (put_all ws buf) = drop off buf"
proof (induction ws arbitrary: buf)
  case (Cons w ws)
  obtain o' b' where w: "w = (o', b')" by (cases w)
  then have "o' + length b' \<le> off" using Cons.prems(1) by simp
  then have "drop off (put_at o' b' buf) = drop off buf" "length (put_at o' b' buf) = length buf" using Cons.prems(2) by (simp_all add: put_at_def)
  then show ?case using Cons by (simp add: w)
qed simp

text \<open>A layout of a header: fields that do not overlap. Copies into distinct fields of a cleared header determine all fields.\<close>

definition layout_ok :: "(nat \<times> nat) list \<Rightarrow> nat \<Rightarrow> bool" where
  "layout_ok lay sz \<longleftrightarrow>
     (\<forall>(o1, n1) \<in> set lay. o1 + n1 \<le> sz \<and> (\<forall>(o2, n2) \<in> set lay. (o2, n2) = (o1, n1) \<or> o2 + n2 \<le> o1 \<or> o1 + n1 \<le> o2))"

definition fits_layout :: "(nat \<times> nat) list \<Rightarrow> (nat \<times> byte list) list \<Rightarrow> bool" where
  "fits_layout lay ws \<longleftrightarrow> distinct (map fst ws) \<and> (\<forall>(off, bs) \<in> set ws. \<exists>n. (off, n) \<in> set lay \<and> length bs \<le> n)"

lemma put_all_layout:
  assumes lay: "layout_ok lay (length buf)" and ws: "fits_layout lay ws" and f: "(off, n) \<in> set lay" "0 < n"
    and zero: "tag_field off n buf = replicate n 0"
  shows "tag_field off n (put_all ws buf) = padded n (case map_of ws off of None \<Rightarrow> [] | Some bs \<Rightarrow> bs)"
proof -
  have dist: "distinct (map fst ws)" using ws by (simp add: fits_layout_def)
  have w: "o' + length b' \<le> length buf \<and> (o' = off \<and> length b' \<le> n \<or> o' + length b' \<le> off \<or> off + n \<le> o')" if w: "(o', b') \<in> set ws" for o' b'
  proof -
    obtain n' where n': "(o', n') \<in> set lay" "length b' \<le> n'" using ws w unfolding fits_layout_def by fastforce
    then have "o' + n' \<le> length buf" "(o', n') = (off, n) \<or> o' + n' \<le> off \<or> off + n \<le> o'"
      using lay f(1) unfolding layout_ok_def by fastforce+
    then show ?thesis using n'(2) by auto
  qed
  have fit: "off + n \<le> length buf" using lay f(1) by (auto simp: layout_ok_def)
  show ?thesis
  proof (cases "map_of ws off")
    case None
    have "o' \<noteq> off" if "(o', b') \<in> set ws" for o' b' using None that by (auto simp: map_of_eq_None_iff image_iff)
    then have "\<forall>(o', b') \<in> set ws. o' + length b' \<le> length buf \<and> (o' + length b' \<le> off \<or> off + n \<le> o')" using w by fastforce
    then show ?thesis using put_all_field_zero [OF _ fit] zero None by (simp add: padded_def)
  next
    case (Some bs)
    then have mem: "(off, bs) \<in> set ws" by (rule map_of_SomeD)
    have same: "b' = bs" if "(off, b') \<in> set ws" for b' using that mem dist by (metis eq_key_imp_eq_value)
    have "length bs \<le> n" using w [OF mem] f(2) by linarith
    moreover have "\<forall>(o', b') \<in> set ws. o' + length b' \<le> length buf \<and> ((o', b') = (off, bs) \<or> o' + length b' \<le> off \<or> off + n \<le> o')"
      using w same by fastforce
    ultimately show ?thesis using put_all_field [of ws buf off bs n] fit mem zero Some by simp
  qed
qed

section \<open>The layouts of the tags\<close>

definition head_layout :: "(nat \<times> nat) list" where
  "head_layout = [(tag_product, 32), (tag_brand, 32), (tag_ver_major, 8), (tag_ver_minor, 8), (tag_region_code, 2), (tag_region_mask, 4),
     (tag_language, 8), (tag_platform, 8), (tag_hwv, 4), (tag_hwv_val, 4), (tag_len, 4), (tag_crc, 4)]"

definition tag_layout :: "(nat \<times> nat) list" where
  "tag_layout = head_layout @ [(tag_base1, 4), (tag_base2, 4), (tag_data_len, 4), (tag_flag, 1)]"

definition tag2_layout :: "(nat \<times> nat) list" where
  "tag2_layout = head_layout @ [(tag2_len1, 4), (tag2_len2, 4), (tag2_flag, 1)]"

lemmas tag_offsets = tag_product_def tag_brand_def tag_ver_major_def tag_ver_minor_def tag_region_code_def tag_region_mask_def
  tag_language_def tag_platform_def tag_hwv_def tag_hwv_val_def tag_len_def tag_crc_def tag_base1_def tag_base2_def tag_data_len_def
  tag_flag_def tag2_len1_def tag2_len2_def tag2_flag_def

lemma layouts_ok: "layout_ok tag_layout sizeof_tag" "layout_ok tag2_layout sizeof_tag2"
  by (simp_all add: layout_ok_def tag_layout_def tag2_layout_def head_layout_def tag_offsets sizeof_tag_def sizeof_tag2_def)

lemma layout_ok_mono: "layout_ok lay m \<Longrightarrow> m \<le> n \<Longrightarrow> layout_ok lay n"
  by (fastforce simp: layout_ok_def)

lemma opt_cstr_bound: "CHECKSTR s len \<Longrightarrow> 0 < len \<Longrightarrow> length (opt_cstr s) < len"
  by (auto simp: CHECKSTR_def opt_cstr_def cstr_def split: option.splits)

lemma tag_string_bounds:
  assumes "tag_check_params op"
  shows "length (opt_cstr (tg_brand op)) < 32" "length (opt_cstr (tg_product op)) < 32" "length (opt_cstr (tg_platform op)) < 8"
    "length (opt_cstr (tg_major op)) < 8" "length (opt_cstr (tg_minor op)) < 8" "length (opt_cstr (tg_language op)) < 8"
    "length (opt_cstr (tg_hwver op)) < 2"
proof -
  have c: "CHECKSTR (tg_brand op) 32" "CHECKSTR (tg_product op) 32" "CHECKSTR (tg_platform op) 8" "CHECKSTR (tg_major op) 8"
    "CHECKSTR (tg_minor op) 8" "CHECKSTR (tg_language op) 8" "tg_hwver op \<noteq> None \<Longrightarrow> CHECKSTR (tg_hwver op) 2"
    using assms by (simp_all add: tag_check_params_def TAG_BRAND_LEN_def TAG_PRODUCT_LEN_def TAG_VERSION_LEN_def TAG_LANGUAGE_LEN_def TAG_PLATFORM_LEN_def)
  then show "length (opt_cstr (tg_brand op)) < 32" "length (opt_cstr (tg_product op)) < 32" "length (opt_cstr (tg_platform op)) < 8"
    "length (opt_cstr (tg_major op)) < 8" "length (opt_cstr (tg_minor op)) < 8" "length (opt_cstr (tg_language op)) < 8"
    by (simp_all add: opt_cstr_bound)
  show "length (opt_cstr (tg_hwver op)) < 2"
  proof (cases "tg_hwver op")
    case (Some v)
    then show ?thesis using c(7) by (intro opt_cstr_bound) simp_all
  qed (simp add: opt_cstr_def)
qed

definition tag_writes :: "tag_opts \<Rightarrow> nat \<Rightarrow> nat list \<Rightarrow> (nat \<times> byte list) list" where
  "tag_writes op len fsize = tag_names op @
     [(tag_len, bytes_be (of_nat len)), (tag_data_len, bytes_be (of_nat (fsize ! 0))), (tag_base1, bytes_be (tg_base1 op)),
      (tag_base2, bytes_be (tg_base2 op)), (tag_flag, [tg_flag op])] @ tag_hwver op"

definition tag2_writes :: "tag_opts \<Rightarrow> nat \<Rightarrow> nat list \<Rightarrow> (nat \<times> byte list) list" where
  "tag2_writes op len fsize = tag_names op @
     [(tag_len, bytes_be (of_nat len)), (tag2_len1, bytes_be (of_nat (fsize ! 0))), (tag2_len2, bytes_be (of_nat (fsize ! 1))),
      (tag2_flag, [tg_flag op])] @ tag_hwver op"

lemma tag_writes_fit:
  assumes "tag_check_params op"
  shows "fits_layout tag_layout (tag_writes op len fsize)" "fits_layout tag2_layout (tag2_writes op len fsize)"
proof -
  note b = tag_string_bounds [OF assms]
  have "length (cstr v) < 2" if "tg_hwver op = Some v" for v using b(7) that by (simp add: opt_cstr_def)
  then show "fits_layout tag_layout (tag_writes op len fsize)" "fits_layout tag2_layout (tag2_writes op len fsize)"
    using b(1-6)
    by (auto simp: fits_layout_def tag_layout_def tag2_layout_def head_layout_def tag_offsets tag_writes_def tag2_writes_def tag_names_def tag_hwver_def
      cstr_def split: option.split if_splits dest: less_imp_le)
qed

section \<open>The image\<close>

text \<open>What the boot loader checks: the checksum of the image with zeros in the place of the checksum.\<close>

definition tag_crc_valid :: "byte list \<Rightarrow> bool" where
  "tag_crc_valid im \<longleftrightarrow> tag_field tag_crc 4 im = bytes_be (buffalo_crc (put_at tag_crc (replicate 4 0) im))"

definition tag_value :: "(nat \<times> byte list) list \<Rightarrow> nat \<Rightarrow> byte list" where
  "tag_value ws off = (case map_of ws off of None \<Rightarrow> [] | Some bs \<Rightarrow> bs)"

lemma put_at_id: "tag_field off (length bs) buf = bs \<Longrightarrow> put_at off bs buf = buf"
  by (metis append_take_drop_id put_at_def tag_field_def add.commute drop_drop)

lemma bytes_be_inject: "bytes_be a = bytes_be b \<longleftrightarrow> a = b"
  by (metis word_be_bytes_be)

lemma tag_crc_detects:
  assumes "tag_crc_valid im" and "144 \<le> length im" and i: "i < length im" "i < tag_crc \<or> tag_crc + 4 \<le> i" and "x \<noteq> im ! i"
  shows "\<not> tag_crc_valid (im[i := x])"
proof
  let ?z = "put_at tag_crc (replicate 4 0)"
  assume "tag_crc_valid (im[i := x])"
  moreover have "tag_field tag_crc 4 (im[i := x]) = tag_field tag_crc 4 im"
    using i(2) by (auto simp: tag_field_def drop_update_swap not_less)
  moreover have "?z (im[i := x]) = (?z im)[i := x]"
    by (rule nth_equalityI) (use assms(2) i in \<open>auto simp: put_at_def tag_crc_def nth_append nth_list_update\<close>)
  moreover have "?z im ! i = im ! i" "length (?z im) = length im"
    using assms(2) i by (auto simp: put_at_def tag_crc_def nth_append)
  ultimately have "buffalo_crc ((?z im)[i := x]) = buffalo_crc (?z im)" "?z im ! i = im ! i" "length (?z im) = length im"
    using assms(1) by (simp_all add: tag_crc_valid_def bytes_be_inject)
  moreover from this have "?z im = take i (?z im) @ im ! i # drop (Suc i) (?z im)" "(?z im)[i := x] = take i (?z im) @ x # drop (Suc i) (?z im)"
    using i(1) id_take_nth_drop [of i "?z im"] by (simp_all add: upd_conv_take_nth_drop)
  ultimately show False using buffalo_crc_single_byte [OF assms(5), of "take i (?z im)" "drop (Suc i) (?z im)"] by metis
qed

lemma fixup_image:
  assumes lay: "layout_ok lay hdr" "(tag_crc, 4) \<in> set lay" and ws: "fits_layout lay ws" "tag_crc \<notin> fst ` set ws"
    and buf: "length buf = hdr + length body" "drop hdr buf = body"
  shows "\<exists>im. obind (mem_set 0 0 hdr buf) (\<lambda>b. obind (mem_writes ws b) (tag_checksum op)) = Ret im \<and>
    length im = hdr + length body \<and> drop hdr im = body \<and>
    (\<forall>off n. (off, n) \<in> set lay \<longrightarrow> 0 < n \<longrightarrow> off \<noteq> tag_crc \<longrightarrow> tag_field off n im = padded n (tag_value ws off)) \<and>
    (if tg_skipcrc op then tag_field tag_crc 4 im = replicate 4 0 else tag_crc_valid im)"
proof -
  let ?b0 = "replicate hdr 0 @ body"
  let ?b1 = "put_all ws ?b0"
  have set0: "mem_set 0 0 hdr buf = Ret ?b0" using buf by (simp add: mem_set_def)
  have inh: "off + n \<le> hdr" if "(off, n) \<in> set lay" for off n using lay(1) that by (auto simp: layout_ok_def)
  have wh: "off + length bs \<le> hdr" if "(off, bs) \<in> set ws" for off bs using ws(1) that inh unfolding fits_layout_def by fastforce
  then have "\<forall>(off, bs) \<in> set ws. off + length bs \<le> length ?b0" by fastforce
  from mem_writes_put_all [OF this] have w: "mem_writes ws ?b0 = Ret ?b1" "length ?b1 = hdr + length body" by simp_all
  have "\<forall>(off, bs) \<in> set ws. off + length bs \<le> hdr" using wh by blast
  then have d1: "drop hdr ?b1 = body" by (subst put_all_drop) simp_all
  have zero: "tag_field off n ?b0 = replicate n 0" if "(off, n) \<in> set lay" for off n
    using inh [OF that] by (simp add: tag_field_def min_def)
  have lay': "layout_ok lay (length ?b0)" using layout_ok_mono [OF lay(1)] by simp
  have f1: "tag_field off n ?b1 = padded n (tag_value ws off)" if "(off, n) \<in> set lay" "0 < n" for off n
    unfolding tag_value_def by (rule put_all_layout [OF lay' ws(1) that zero [OF that(1)]])
  have "map_of ws tag_crc = None" using ws(2) by (simp add: map_of_eq_None_iff)
  then have c1: "tag_field tag_crc 4 ?b1 = replicate 4 0" using f1 [OF lay(2)] by (simp add: tag_value_def padded_def)
  let ?c = "bytes_be (buffalo_crc ?b1)"
  let ?b2 = "put_at tag_crc ?c ?b1"
  have fit: "tag_crc + 4 \<le> hdr" by (rule inh [OF lay(2)])
  show ?thesis
  proof (cases "tg_skipcrc op")
    case True
    then show ?thesis using set0 w d1 f1 c1 by (simp add: tag_checksum_def)
  next
    case False
    have "mem_write tag_crc ?c ?b1 = Ret ?b2" using fit w(2) by (simp add: mem_write_put)
    moreover have "length ?b2 = hdr + length body" using fit w(2) by simp
    moreover have "drop hdr ?b2 = body" using d1 fit w(2) by (simp add: put_at_def)
    moreover have "tag_field off n ?b2 = padded n (tag_value ws off)" if o': "(off, n) \<in> set lay" "0 < n" "off \<noteq> tag_crc" for off n
    proof -
      have "off + n \<le> tag_crc \<or> tag_crc + 4 \<le> off" using lay o' unfolding layout_ok_def by fastforce
      then have "tag_field off n ?b2 = tag_field off n ?b1" using fit w(2) by (intro tag_field_put_other) auto
      then show ?thesis using f1 [OF o'(1,2)] by simp
    qed
    moreover have "put_at tag_crc (replicate 4 0) ?b2 = ?b1"
      using fit w(2) put_at_id [of tag_crc "replicate 4 0" ?b1] c1 by (simp add: put_at_erased)
    then have "tag_crc_valid ?b2" using fit w(2) tag_field_put_same [of tag_crc 4 ?b1 ?c] c1 by (simp add: tag_crc_valid_def)
    ultimately show ?thesis using set0 w(1) False by (simp add: tag_checksum_def)
  qed
qed

section \<open>Files and options\<close>

lemma file_sizes_ok: "map (files fs) ns = map Some ds \<Longrightarrow> file_sizes fs ns = Some (map length ds)"
proof (induction ns arbitrary: ds)
  case (Cons n ns)
  then show ?case by (cases ds) (simp_all add: get_file_size_def)
qed simp

lemma read_files_ok:
  "\<lbrakk>map (files fs) ns = map Some ds; \<forall>n. readable fs n; [] \<notin> set ds; length rest = length (concat ds)\<rbrakk> \<Longrightarrow>
    read_files fs (zip ns (map length ds)) (length pre) (pre @ rest) = Ret (Some (pre @ concat ds))"
proof (induction ns arbitrary: ds pre rest)
  case (Cons n ns)
  then obtain d ds' where ds: "ds = d # ds'" "files fs n = Some d" "map (files fs) ns = map Some ds'" by (cases ds) auto
  have "read_file_to_buf fs n (length d) = Some d" using Cons.prems ds by (intro read_whole_file) auto
  moreover have "mem_write (length pre) d (pre @ rest) = Ret ((pre @ d) @ drop (length d) rest)"
    using Cons.prems(4) by (simp add: mem_write_def ds(1))
  moreover have "read_files fs (zip ns (map length ds')) (length (pre @ d)) ((pre @ d) @ drop (length d) rest) = Ret (Some ((pre @ d) @ concat ds'))"
    by (rule Cons.IH) (use Cons.prems ds in auto)
  ultimately show ?case by (simp add: ds(1))
qed simp

lemma region_index_mem: "region_index reg rs = Some i \<Longrightarrow> i < length rs \<and> rs ! i = reg"
  by (induction reg rs arbitrary: i rule: region_index.induct) (auto split: if_splits)

definition tag_opts_ok :: "tag_opts \<Rightarrow> bool" where
  "tag_opts_ok op \<longleftrightarrow> length (tg_ifname op) \<le> 2 \<and> (tg_num_regions op \<noteq> 0 \<longrightarrow> length (tg_region_code op) = 2)"

lemma tag_set_opts_ok: "tag_set_opts rs op = Ret op' \<Longrightarrow> tag_opts_ok op \<Longrightarrow> tag_opts_ok op'"
proof (induction rs op rule: tag_set_opts.induct)
  case (2 c arg rs op)
  have "tag_opts_ok op1" if "process_region reg op = Some op1 \<or> process_ifname reg op = Some op1" for reg op1
    using that "2.prems"(2) by (auto simp: process_region_def process_ifname_def MAX_INPUT_FILES_def tag_opts_ok_def split: if_splits option.splits)
  then show ?case using "2.prems" "2.IH" by (auto simp: tag_opts_ok_def split: if_splits option.splits)
qed simp

section \<open>The written file\<close>

definition tag_header_len :: "byte list list \<Rightarrow> nat" where
  "tag_header_len ds = (if length ds = 1 then sizeof_tag else sizeof_tag2)"

text \<open>The names, padded with zeros; the region, several of them as a mask; the hardware version; the lengths, with the low 32 bits if a file
  is longer; the numbers of the options; the checksum.\<close>

definition tag_image_names :: "tag_opts \<Rightarrow> byte list \<Rightarrow> bool" where
  "tag_image_names op im \<longleftrightarrow>
     tag_field tag_product 32 im = padded 32 (opt_cstr (tg_product op)) \<and> tag_field tag_brand 32 im = padded 32 (opt_cstr (tg_brand op)) \<and>
     tag_field tag_ver_major 8 im = padded 8 (opt_cstr (tg_major op)) \<and> tag_field tag_ver_minor 8 im = padded 8 (opt_cstr (tg_minor op)) \<and>
     tag_field tag_language 8 im = padded 8 (opt_cstr (tg_language op)) \<and> tag_field tag_platform 8 im = padded 8 (opt_cstr (tg_platform op)) \<and>
     tag_field tag_hwv 4 im = padded 4 (if tg_hwver op = None then [] else cstr ''hwv'') \<and> tag_field tag_hwv_val 4 im = padded 4 (opt_cstr (tg_hwver op)) \<and>
     (if tg_num_regions op > 1 then tag_field tag_region_code 2 im = cstr ''M_'' \<and> tag_field tag_region_mask 4 im = bytes_be (tg_region_mask op)
      else tag_field tag_region_code 2 im = cstr (tg_region_code op) \<and> tag_field tag_region_mask 4 im = replicate 4 0)"

definition tag_image_lengths :: "tag_opts \<Rightarrow> byte list list \<Rightarrow> byte list \<Rightarrow> bool" where
  "tag_image_lengths op ds im \<longleftrightarrow>
     tag_field tag_len 4 im = bytes_be (of_nat (length im)) \<and>
     (case ds of
        [d] \<Rightarrow> tag_field tag_base1 4 im = bytes_be (tg_base1 op) \<and> tag_field tag_base2 4 im = bytes_be (tg_base2 op) \<and>
          tag_field tag_data_len 4 im = bytes_be (of_nat (length d)) \<and> tag_field tag_flag 1 im = [tg_flag op]
      | [d1, d2] \<Rightarrow> tag_field tag2_len1 4 im = bytes_be (of_nat (length d1)) \<and> tag_field tag2_len2 4 im = bytes_be (of_nat (length d2)) \<and>
          tag_field tag2_flag 1 im = [tg_flag op]
      | _ \<Rightarrow> tag_field tag2_len1 4 im = replicate 4 0 \<and> tag_field tag2_len2 4 im = replicate 4 0 \<and> tag_field tag2_flag 1 im = [tg_flag op])"

lemma padded_full: "length bs = n \<Longrightarrow> padded n bs = bs"
  by (simp add: padded_def)

lemma tag_crc_unset: "tag_crc \<notin> fst ` set (tag_writes op len fsize)" "tag_crc \<notin> fst ` set (tag2_writes op len fsize)"
  by (auto simp: tag_writes_def tag2_writes_def tag_names_def tag_hwver_def tag_offsets split: option.splits)

lemma bytes_be_0: "bytes_be 0 = replicate 4 0"
  by (simp add: bytes_be_def eval_nat_numeral)

lemma tag_values_names:
  assumes ok: "tag_opts_ok op" "tg_num_regions op \<noteq> 0" and ws: "ws = tag_writes op len fsize \<or> ws = tag2_writes op len fsize"
    and f: "\<And>off n. (off, n) \<in> set head_layout \<Longrightarrow> off \<noteq> tag_crc \<Longrightarrow> tag_field off n im = padded n (tag_value ws off)"
  shows "tag_image_names op im" and "tag_field tag_len 4 im = bytes_be (of_nat len)"
proof -
  have l: "length (cstr (tg_region_code op)) = 2" using ok by (simp add: tag_opts_ok_def cstr_def)
  have fs: "tag_field tag_product 32 im = padded 32 (tag_value ws tag_product)"
    "tag_field tag_brand 32 im = padded 32 (tag_value ws tag_brand)"
    "tag_field tag_ver_major 8 im = padded 8 (tag_value ws tag_ver_major)"
    "tag_field tag_ver_minor 8 im = padded 8 (tag_value ws tag_ver_minor)"
    "tag_field tag_language 8 im = padded 8 (tag_value ws tag_language)"
    "tag_field tag_platform 8 im = padded 8 (tag_value ws tag_platform)"
    "tag_field tag_hwv 4 im = padded 4 (tag_value ws tag_hwv)"
    "tag_field tag_hwv_val 4 im = padded 4 (tag_value ws tag_hwv_val)"
    "tag_field tag_region_code 2 im = padded 2 (tag_value ws tag_region_code)"
    "tag_field tag_region_mask 4 im = padded 4 (tag_value ws tag_region_mask)"
    "tag_field tag_len 4 im = padded 4 (tag_value ws tag_len)"
    by (rule f; simp add: head_layout_def tag_offsets)+
  have v: "tag_value ws tag_product = opt_cstr (tg_product op)" "tag_value ws tag_brand = opt_cstr (tg_brand op)"
    "tag_value ws tag_ver_major = opt_cstr (tg_major op)" "tag_value ws tag_ver_minor = opt_cstr (tg_minor op)"
    "tag_value ws tag_language = opt_cstr (tg_language op)" "tag_value ws tag_platform = opt_cstr (tg_platform op)"
    "tag_value ws tag_hwv = (if tg_hwver op = None then [] else cstr ''hwv'')" "tag_value ws tag_hwv_val = opt_cstr (tg_hwver op)"
    "tag_value ws tag_region_code = (if tg_num_regions op > 1 then cstr ''M_'' else cstr (tg_region_code op))"
    "tag_value ws tag_region_mask = (if tg_num_regions op > 1 then bytes_be (tg_region_mask op) else [])"
    "tag_value ws tag_len = bytes_be (of_nat len)"
    by (rule disjE [OF ws]; cases "tg_hwver op"; simp add: l tag_value_def tag_writes_def tag2_writes_def tag_names_def tag_hwver_def tag_offsets opt_cstr_def)+
  have "length (cstr ''M_'') = 2" by (simp add: cstr_def)
  then show "tag_image_names op im" unfolding tag_image_names_def fs v using l by (simp add: padded_full) (simp add: padded_def)
  show "tag_field tag_len 4 im = bytes_be (of_nat len)" unfolding fs v by (simp add: padded_full)
qed

lemma head_in_layouts:
  "(off, n) \<in> set head_layout \<Longrightarrow> (off, n) \<in> set tag_layout" "(off, n) \<in> set head_layout \<Longrightarrow> (off, n) \<in> set tag2_layout"
  "(off, n) \<in> set head_layout \<Longrightarrow> 0 < n"
  by (auto simp: tag_layout_def tag2_layout_def head_layout_def)

lemma fixup_tag_image:
  assumes op: "tag_check_params op" "tag_opts_ok op" and ds: "length ds = 1"
    and buf: "length buf = sizeof_tag + length (concat ds)" "drop sizeof_tag buf = concat ds"
  shows "\<exists>im. fixup_tag op (map length ds @ [0]) buf = Ret im \<and> length im = length buf \<and> drop sizeof_tag im = concat ds \<and>
    tag_image_names op im \<and> tag_image_lengths op ds im \<and> (if tg_skipcrc op then tag_field tag_crc 4 im = replicate 4 0 else tag_crc_valid im)"
proof -
  let ?ws = "tag_writes op (length buf) (map length ds @ [0])"
  have mem: "(tag_crc, 4) \<in> set tag_layout" by (simp add: tag_layout_def head_layout_def)
  have fx: "fixup_tag op (map length ds @ [0]) buf = obind (mem_set 0 0 sizeof_tag buf) (\<lambda>b. obind (mem_writes ?ws b) (tag_checksum op))"
    by (simp add: fixup_tag_def tag_writes_def)
  obtain im where im: "fixup_tag op (map length ds @ [0]) buf = Ret im" "length im = length buf" "drop sizeof_tag im = concat ds"
    "\<forall>off n. (off, n) \<in> set tag_layout \<longrightarrow> 0 < n \<longrightarrow> off \<noteq> tag_crc \<longrightarrow> tag_field off n im = padded n (tag_value ?ws off)"
    "if tg_skipcrc op then tag_field tag_crc 4 im = replicate 4 0 else tag_crc_valid im"
    using fixup_image [OF layouts_ok(1) mem tag_writes_fit(1) [OF op(1), of "length buf" "map length ds @ [0]"] tag_crc_unset(1) buf, where op = op, folded fx buf(1)]
    by (elim exE conjE) (rule that)
  have nr: "tg_num_regions op \<noteq> 0" using op(1) by (simp add: tag_check_params_def)
  have hf: "tag_field off n im = padded n (tag_value ?ws off)" if "(off, n) \<in> set head_layout" "off \<noteq> tag_crc" for off n
    by (rule im(4) [rule_format]) (use that head_in_layouts(1,3) in blast)+
  note names = tag_values_names [OF op(2) nr disjI1 [OF refl] hf]
  have "tag_field tag_base1 4 im = padded 4 (tag_value ?ws tag_base1)" "tag_field tag_base2 4 im = padded 4 (tag_value ?ws tag_base2)"
    "tag_field tag_data_len 4 im = padded 4 (tag_value ?ws tag_data_len)" "tag_field tag_flag 1 im = padded 1 (tag_value ?ws tag_flag)"
    by (rule im(4) [rule_format]; simp add: tag_layout_def head_layout_def tag_offsets)+
  moreover have "tag_value ?ws tag_base1 = bytes_be (tg_base1 op)" "tag_value ?ws tag_base2 = bytes_be (tg_base2 op)"
    "tag_value ?ws tag_data_len = bytes_be (of_nat (length (ds ! 0)))" "tag_value ?ws tag_flag = [tg_flag op]"
    by (insert ds; cases "tg_hwver op"; simp add: tag_value_def tag_writes_def tag_names_def tag_hwver_def tag_offsets nth_append)+
  moreover obtain d where "ds = [d]" using ds by (auto simp: length_Suc_conv)
  ultimately have "tag_image_lengths op ds im" using names(2) im(2) by (simp add: tag_image_lengths_def padded_full)
  then show ?thesis using im names(1) by blast
qed

lemma fixup_tag2_image:
  assumes op: "tag_check_params op" "tag_opts_ok op" and ds: "length ds \<noteq> 1" "length ds \<le> 2"
    and buf: "length buf = sizeof_tag2 + length (concat ds)" "drop sizeof_tag2 buf = concat ds"
  shows "\<exists>im. fixup_tag2 op (map length ds @ replicate (2 - length ds) 0) buf = Ret im \<and> length im = length buf \<and> drop sizeof_tag2 im = concat ds \<and>
    tag_image_names op im \<and> tag_image_lengths op ds im \<and> (if tg_skipcrc op then tag_field tag_crc 4 im = replicate 4 0 else tag_crc_valid im)"
proof -
  let ?sz = "map length ds @ replicate (2 - length ds) 0"
  let ?ws = "tag2_writes op (length buf) ?sz"
  have mem: "(tag_crc, 4) \<in> set tag2_layout" by (simp add: tag2_layout_def head_layout_def)
  have fx: "fixup_tag2 op ?sz buf = obind (mem_set 0 0 sizeof_tag2 buf) (\<lambda>b. obind (mem_writes ?ws b) (tag_checksum op))"
    by (simp add: fixup_tag2_def tag2_writes_def)
  obtain im where im: "fixup_tag2 op ?sz buf = Ret im" "length im = length buf" "drop sizeof_tag2 im = concat ds"
    "\<forall>off n. (off, n) \<in> set tag2_layout \<longrightarrow> 0 < n \<longrightarrow> off \<noteq> tag_crc \<longrightarrow> tag_field off n im = padded n (tag_value ?ws off)"
    "if tg_skipcrc op then tag_field tag_crc 4 im = replicate 4 0 else tag_crc_valid im"
    using fixup_image [OF layouts_ok(2) mem tag_writes_fit(2) [OF op(1), of "length buf" "?sz"] tag_crc_unset(2) buf, where op = op, folded fx buf(1)]
    by (elim exE conjE) (rule that)
  have nr: "tg_num_regions op \<noteq> 0" using op(1) by (simp add: tag_check_params_def)
  have hf: "tag_field off n im = padded n (tag_value ?ws off)" if "(off, n) \<in> set head_layout" "off \<noteq> tag_crc" for off n
    by (rule im(4) [rule_format]) (use that head_in_layouts(2,3) in blast)+
  note names = tag_values_names [OF op(2) nr disjI2 [OF refl] hf]
  have fl: "tag_field tag2_len1 4 im = padded 4 (tag_value ?ws tag2_len1)" "tag_field tag2_len2 4 im = padded 4 (tag_value ?ws tag2_len2)"
    "tag_field tag2_flag 1 im = padded 1 (tag_value ?ws tag2_flag)"
    by (rule im(4) [rule_format]; simp add: tag2_layout_def head_layout_def tag_offsets)+
  have vl: "tag_value ?ws tag2_len1 = bytes_be (of_nat (?sz ! 0))" "tag_value ?ws tag2_len2 = bytes_be (of_nat (?sz ! 1))"
    "tag_value ?ws tag2_flag = [tg_flag op]"
    by (cases "tg_hwver op"; simp add: tag_value_def tag2_writes_def tag_names_def tag_hwver_def tag_offsets)+
  have f: "tag_field tag2_len1 4 im = bytes_be (of_nat (?sz ! 0))" "tag_field tag2_len2 4 im = bytes_be (of_nat (?sz ! 1))"
    "tag_field tag2_flag 1 im = [tg_flag op]"
    unfolding fl vl by (simp_all add: padded_full)
  consider "ds = []" | d1 d2 where "ds = [d1, d2]" using ds by (cases ds rule: remdups_adj.cases) auto
  then have "tag_image_lengths op ds im"
    using f names(2) im(2) by cases (simp_all add: tag_image_lengths_def bytes_be_0 eval_nat_numeral)
  then show ?thesis using im names(1) by blast
qed

text \<open>
  A tagged image. For all options that are accepted \<^verbatim>\<open>buffalo-tag\<close> writes the files, unchanged, behind a header that has the names, the regions,
  the hardware version and the lengths in their fields and a checksum that is right and that the change of any byte outside of it breaks. Without an
  input file, which is reported as an error, the tool nevertheless succeeds and writes a header alone.
\<close>

theorem buffalo_tag_image:
  assumes env: "env_ok malloc fs" and opts: "tag_set_opts (fst (getopt_all tag_optstring args)) tag_default = Ret op" and check: "tag_check_params op"
    and ds: "map (files fs) (tg_ifname op) = map Some ds" "[] \<notin> set ds"
  shows "\<exists>im. tag_main malloc args fs = Ret (0, fs\<lparr>files := (files fs)(the (tg_ofname op) \<mapsto> im)\<rparr>) \<and>
    length im = tag_header_len ds + length (concat ds) \<and> drop (tag_header_len ds) im = concat ds \<and>
    tag_image_names op im \<and> tag_image_lengths op ds im \<and>
    (if tg_skipcrc op then tag_field tag_crc 4 im = replicate 4 0
     else tag_crc_valid im \<and> (\<forall>i x. i < length im \<and> (i < tag_crc \<or> tag_crc + 4 \<le> i) \<and> x \<noteq> im ! i \<longrightarrow> \<not> tag_crc_valid (im[i := x])))"
proof -
  let ?h = "tag_header_len ds"
  have ok: "tag_opts_ok op" by (rule tag_set_opts_ok [OF opts]) (simp add: tag_opts_ok_def tag_default_def)
  have n: "length (tg_ifname op) = length ds" using ds(1) by (metis length_map)
  then have two: "length ds \<le> 2" using ok by (simp add: tag_opts_ok_def)
  obtain mem where mem: "malloc (?h + sum_list (map length ds)) = Some mem" "length mem = ?h + length (concat ds)"
    using env unfolding env_ok_def length_concat by metis
  define pre rest where "pre = take ?h mem" and "rest = drop ?h mem"
  then have pr: "mem = pre @ rest" "length pre = ?h" "length rest = length (concat ds)" using mem(2) by simp_all
  have "read_files fs (zip (tg_ifname op) (map length ds)) (length pre) (pre @ rest) = Ret (Some (pre @ concat ds))"
    by (rule read_files_ok [OF ds(1) _ ds(2) pr(3)]) (use env in \<open>simp add: env_ok_def\<close>)
  then have rd: "read_files fs (zip (tg_ifname op) (map length ds)) ?h mem = Ret (Some (pre @ concat ds))" using pr by simp
  define buf where "buf = pre @ concat ds"
  have buf: "length buf = ?h + length (concat ds)" "drop ?h buf = concat ds" using pr(2) by (simp_all add: buf_def)
  let ?fix = "if length ds = 1 then fixup_tag op (map length ds @ replicate (2 - length ds) 0) buf
      else fixup_tag2 op (map length ds @ replicate (2 - length ds) 0) buf"
  obtain im where im: "?fix = Ret im" "length im = length buf" "drop ?h im = concat ds" "tag_image_names op im" "tag_image_lengths op ds im"
      "if tg_skipcrc op then tag_field tag_crc 4 im = replicate 4 0 else tag_crc_valid im"
    using fixup_tag_image [OF check ok, of ds buf] fixup_tag2_image [OF check ok _ two, of buf] buf
    by (cases "length ds = 1") (auto simp: tag_header_len_def eval_nat_numeral)
  have large: "144 \<le> length im" "im \<noteq> []" using im(2) buf(1) by (auto simp: tag_header_len_def sizeof_tag_def sizeof_tag2_def split: if_splits)
  have "tag_file malloc op fs = Ret (True, fs\<lparr>files := (files fs)(the (tg_ofname op) \<mapsto> im)\<rparr>)"
    using file_sizes_ok [OF ds(1)] mem(1) rd im(1) n write_whole_file [OF env large(2)]
    unfolding tag_file_def buf_def tag_header_len_def MAX_INPUT_FILES_def by (cases "length ds = 1") simp_all
  then have "tag_main malloc args fs = Ret (0, fs\<lparr>files := (files fs)(the (tg_ofname op) \<mapsto> im)\<rparr>)" using opts check by (simp add: tag_main_def)
  then show ?thesis using im(2-6) buf(1) tag_crc_detects [OF _ large(1)] by (intro exI [of _ im]) (auto split: if_splits)
qed

theorem buffalo_tag_image_witness:
  "\<exists>im. tag_main demo_malloc [''-i'', ''fw.bin'', ''-o'', ''fw.tag'', ''-b'', ''BUFFALO'', ''-p'', ''WZR-HP'', ''-a'', ''bcm'', ''-v'', ''1.99'',
      ''-l'', ''mlang8'', ''-r'', ''JP'', ''-r'', ''US''] demo_fs = Ret (0, demo_fs\<lparr>files := (files demo_fs)(''fw.tag'' \<mapsto> im)\<rparr>) \<and>
    drop sizeof_tag im = [1, 2, 3, 4, 5] \<and> tag_crc_valid im"
proof -
  let ?args = "[''-i'', ''fw.bin'', ''-o'', ''fw.tag'', ''-b'', ''BUFFALO'', ''-p'', ''WZR-HP'', ''-a'', ''bcm'', ''-v'', ''1.99'',
      ''-l'', ''mlang8'', ''-r'', ''JP'', ''-r'', ''US'']"
  let ?op = "tag_default\<lparr>tg_ifname := [''fw.bin''], tg_ofname := Some ''fw.tag'', tg_brand := Some ''BUFFALO'', tg_product := Some ''WZR-HP'',
      tg_platform := Some ''bcm'', tg_major := Some ''1.99'', tg_language := Some ''mlang8'', tg_region_code := ''US'',
      tg_region_mask := (0 OR push_bit 0 1) OR push_bit 1 1, tg_num_regions := 2\<rparr>"
  have "tag_set_opts (fst (getopt_all tag_optstring ?args)) tag_default = Ret ?op" by code_simp
  moreover have "tag_check_params ?op" by code_simp
  moreover have "env_ok demo_malloc demo_fs" "map (files demo_fs) (tg_ifname ?op) = map Some [[1, 2, 3, 4, 5]]"
    by (simp_all add: env_ok_def demo_malloc_def demo_fs_def tag_default_def)
  ultimately show ?thesis
    using buffalo_tag_image [of demo_malloc demo_fs ?args ?op "[[1, 2, 3, 4, 5]]"] by (auto simp: tag_header_len_def tag_default_def)
qed

end
