(* ===== verification/Nand_Ecc.thy ===== *)
theory Nand_Ecc
  imports Host_Env
begin

text \<open>
  The NAND image tool (\<^verbatim>\<open>tools/firmware-utils/src/nand_ecc.c\<close>): the error correction code of a block of
  256 bytes, and the loop that writes every page of a file followed by its spare area.
\<close>

section \<open>The code of a block\<close>

definition nand_ecc_precalc_table :: "byte list" where
  "nand_ecc_precalc_table = [
    0x00, 0x55, 0x56, 0x03, 0x59, 0x0c, 0x0f, 0x5a, 0x5a, 0x0f, 0x0c, 0x59, 0x03, 0x56, 0x55, 0x00,
    0x65, 0x30, 0x33, 0x66, 0x3c, 0x69, 0x6a, 0x3f, 0x3f, 0x6a, 0x69, 0x3c, 0x66, 0x33, 0x30, 0x65,
    0x66, 0x33, 0x30, 0x65, 0x3f, 0x6a, 0x69, 0x3c, 0x3c, 0x69, 0x6a, 0x3f, 0x65, 0x30, 0x33, 0x66,
    0x03, 0x56, 0x55, 0x00, 0x5a, 0x0f, 0x0c, 0x59, 0x59, 0x0c, 0x0f, 0x5a, 0x00, 0x55, 0x56, 0x03,
    0x69, 0x3c, 0x3f, 0x6a, 0x30, 0x65, 0x66, 0x33, 0x33, 0x66, 0x65, 0x30, 0x6a, 0x3f, 0x3c, 0x69,
    0x0c, 0x59, 0x5a, 0x0f, 0x55, 0x00, 0x03, 0x56, 0x56, 0x03, 0x00, 0x55, 0x0f, 0x5a, 0x59, 0x0c,
    0x0f, 0x5a, 0x59, 0x0c, 0x56, 0x03, 0x00, 0x55, 0x55, 0x00, 0x03, 0x56, 0x0c, 0x59, 0x5a, 0x0f,
    0x6a, 0x3f, 0x3c, 0x69, 0x33, 0x66, 0x65, 0x30, 0x30, 0x65, 0x66, 0x33, 0x69, 0x3c, 0x3f, 0x6a,
    0x6a, 0x3f, 0x3c, 0x69, 0x33, 0x66, 0x65, 0x30, 0x30, 0x65, 0x66, 0x33, 0x69, 0x3c, 0x3f, 0x6a,
    0x0f, 0x5a, 0x59, 0x0c, 0x56, 0x03, 0x00, 0x55, 0x55, 0x00, 0x03, 0x56, 0x0c, 0x59, 0x5a, 0x0f,
    0x0c, 0x59, 0x5a, 0x0f, 0x55, 0x00, 0x03, 0x56, 0x56, 0x03, 0x00, 0x55, 0x0f, 0x5a, 0x59, 0x0c,
    0x69, 0x3c, 0x3f, 0x6a, 0x30, 0x65, 0x66, 0x33, 0x33, 0x66, 0x65, 0x30, 0x6a, 0x3f, 0x3c, 0x69,
    0x03, 0x56, 0x55, 0x00, 0x5a, 0x0f, 0x0c, 0x59, 0x59, 0x0c, 0x0f, 0x5a, 0x00, 0x55, 0x56, 0x03,
    0x66, 0x33, 0x30, 0x65, 0x3f, 0x6a, 0x69, 0x3c, 0x3c, 0x69, 0x6a, 0x3f, 0x65, 0x30, 0x33, 0x66,
    0x65, 0x30, 0x33, 0x66, 0x3c, 0x69, 0x6a, 0x3f, 0x3f, 0x6a, 0x69, 0x3c, 0x66, 0x33, 0x30, 0x65,
    0x00, 0x55, 0x56, 0x03, 0x59, 0x0c, 0x0f, 0x5a, 0x5a, 0x0f, 0x0c, 0x59, 0x03, 0x56, 0x55, 0x00]"

text \<open>One round of the loop on \<^verbatim>\<open>(reg1, reg2, reg3)\<close>.\<close>

type_synonym ecc_regs = "byte \<times> byte \<times> byte"

definition ecc_step :: "byte list \<Rightarrow> nat \<Rightarrow> ecc_regs \<Rightarrow> ecc_regs" where
  "ecc_step dat i regs =
     (let (reg1, reg2, reg3) = regs;
          idx = nand_ecc_precalc_table ! unat (dat ! i);
          reg1 = reg1 XOR (idx AND 0x3f)
      in if idx AND 0x40 \<noteq> 0 then (reg1, reg2 XOR NOT (of_nat i), reg3 XOR of_nat i)
         else (reg1, reg2, reg3))"

definition ecc_tmp1 :: "byte \<Rightarrow> byte \<Rightarrow> byte" where
  "ecc_tmp1 reg2 reg3 =
     (reg3 AND 0x80) OR drop_bit 1 (reg2 AND 0x80) OR drop_bit 1 (reg3 AND 0x40) OR drop_bit 2 (reg2 AND 0x40) OR
     drop_bit 2 (reg3 AND 0x20) OR drop_bit 3 (reg2 AND 0x20) OR drop_bit 3 (reg3 AND 0x10) OR drop_bit 4 (reg2 AND 0x10)"

definition ecc_tmp2 :: "byte \<Rightarrow> byte \<Rightarrow> byte" where
  "ecc_tmp2 reg2 reg3 =
     push_bit 4 (reg3 AND 0x08) OR push_bit 3 (reg2 AND 0x08) OR push_bit 3 (reg3 AND 0x04) OR push_bit 2 (reg2 AND 0x04) OR
     push_bit 2 (reg3 AND 0x02) OR push_bit 1 (reg2 AND 0x02) OR push_bit 1 (reg3 AND 0x01) OR (reg2 AND 0x01)"

text \<open>The three code bytes of the 256 bytes at \<open>dat\<close>.\<close>

definition nand_calculate_ecc :: "byte list \<Rightarrow> byte list outcome" where
  "nand_calculate_ecc dat =
     (if length dat < 256 then Undef
      else let (reg1, reg2, reg3) = fold (ecc_step dat) [0..<256] (0, 0, 0)
           in Ret [NOT (ecc_tmp1 reg2 reg3), NOT (ecc_tmp2 reg2 reg3), push_bit 2 (NOT reg1) OR 0x03])"

section \<open>The table is linear\<close>

definition col_unit :: "nat \<Rightarrow> byte" where
  "col_unit k = nand_ecc_precalc_table ! (2 ^ k)"

lemma length_precalc [simp]: "length nand_ecc_precalc_table = 256"
  by (simp add: nand_ecc_precalc_table_def)

lemma col_units:
  "col_unit 0 = 0x55" "col_unit 1 = 0x56" "col_unit 2 = 0x59" "col_unit 3 = 0x5a"
  "col_unit 4 = 0x65" "col_unit 5 = 0x66" "col_unit 6 = 0x69" "col_unit 7 = 0x6a"
  by (simp_all add: col_unit_def nand_ecc_precalc_table_def)

text \<open>The second half of every initial part of length \<open>2 ^ Suc k\<close> is the first half with one value added.\<close>

lemma precalc_halves:
  "k < 8 \<Longrightarrow> take (2 ^ k) (drop (2 ^ k) nand_ecc_precalc_table) =
     map (\<lambda>c. c XOR col_unit k) (take (2 ^ k) nand_ecc_precalc_table)"
proof -
  assume "k < 8"
  then consider "k = 0" | "k = 1" | "k = 2" | "k = 3" | "k = 4" | "k = 5" | "k = 6" | "k = 7" by fastforce
  then show ?thesis
    by cases (simp_all only: col_units, simp_all add: nand_ecc_precalc_table_def)
qed

lemma precalc_add:
  assumes "k < 8" and "i < 2 ^ k"
  shows "nand_ecc_precalc_table ! (2 ^ k + i) = nand_ecc_precalc_table ! i XOR col_unit k"
proof -
  have "(2 :: nat) ^ Suc k \<le> 2 ^ 8" using assms(1) by (intro power_increasing) auto
  then have "2 ^ k + i < 256" using assms(2) by simp
  with arg_cong [OF precalc_halves [OF assms(1)], of "\<lambda>xs. xs ! i"] assms(2) show ?thesis by simp
qed

primrec colsum :: "nat \<Rightarrow> nat \<Rightarrow> byte" where
  "colsum 0 n = 0"
| "colsum (Suc m) n = colsum m n XOR (if bit n m then col_unit m else 0)"

lemma colsum_cong: "(\<And>k. k < m \<Longrightarrow> bit a k = bit b k) \<Longrightarrow> colsum m a = colsum m b"
  by (induction m) auto

lemma precalc_colsum: "m \<le> 8 \<Longrightarrow> n < 2 ^ m \<Longrightarrow> nand_ecc_precalc_table ! n = colsum m n"
proof (induction m arbitrary: n)
  case 0
  then show ?case by (simp add: nand_ecc_precalc_table_def)
next
  case (Suc m)
  show ?case
  proof (cases "n < 2 ^ m")
    case True
    then have "\<not> bit n m" by (simp add: bit_iff_odd)
    with Suc True show ?thesis by simp
  next
    case False
    let ?i = "take_bit m n"
    have n: "n = 2 ^ m + ?i" and b: "bit n m"
    proof -
      have "n div 2 ^ m = 1"
        using False Suc.prems(2) by (intro div_nat_eqI) auto
      then show "n = 2 ^ m + ?i" "bit n m"
        using div_mult_mod_eq [of n "2 ^ m"] by (simp_all add: take_bit_eq_mod bit_iff_odd)
    qed
    have i: "?i < 2 ^ m" by simp
    have "colsum m ?i = colsum m n" by (rule colsum_cong) (simp add: bit_take_bit_iff)
    moreover have "nand_ecc_precalc_table ! n = nand_ecc_precalc_table ! ?i XOR col_unit m"
      using precalc_add [OF _ i] Suc.prems(1) by (subst n) simp
    ultimately show ?thesis using Suc.IH [OF _ i] Suc.prems(1) b by simp
  qed
qed

lemma bit_unat [simp]: "bit (unat (b :: byte)) k = bit b k"
  by (simp add: bit_unsigned_iff)

lemma colsum_xor: "colsum m (unat ((a :: byte) XOR b)) = colsum m (unat a) XOR colsum m (unat b)"
  by (induction m) (auto simp: bit_xor_iff ac_simps)

lemma precalc_byte: "nand_ecc_precalc_table ! unat (b :: byte) = colsum 8 (unat b)"
  using precalc_colsum [of 8 "unat b"] by simp

lemma precalc_xor:
  "nand_ecc_precalc_table ! unat ((a :: byte) XOR b) = nand_ecc_precalc_table ! unat a XOR nand_ecc_precalc_table ! unat b"
  by (simp only: precalc_byte colsum_xor)

section \<open>Changing one byte\<close>

definition xor3 :: "ecc_regs \<Rightarrow> ecc_regs \<Rightarrow> ecc_regs" where
  "xor3 r s = (case (r, s) of ((a, b, c), (a', b', c')) \<Rightarrow> (a XOR a', b XOR b', c XOR c'))"

lemma xor3_ac:
  "xor3 (xor3 a b) c = xor3 a (xor3 b c)" "xor3 a b = xor3 b a" "xor3 a (xor3 b c) = xor3 b (xor3 a c)"
  by (auto simp: xor3_def xor.assoc xor.commute xor.left_commute split: prod.splits)

lemma xor3_cancel [simp]: "xor3 a (xor3 a b) = b"
  by (auto simp: xor3_def xor.assoc [symmetric] split: prod.splits)

text \<open>What one byte contributes to the registers.\<close>

definition contrib :: "nat \<Rightarrow> byte \<Rightarrow> ecc_regs" where
  "contrib i b =
     (let idx = nand_ecc_precalc_table ! unat b
      in (idx AND 0x3f, if bit idx 6 then NOT (of_nat i) else 0, if bit idx 6 then of_nat i else 0))"

lemma and_40: "(w :: byte) AND 0x40 \<noteq> 0 \<longleftrightarrow> bit w 6"
proof -
  have e: "(0x40 :: byte) = 2 ^ 6" by simp
  have "bit (2 ^ 6 :: byte) n \<longleftrightarrow> n = 6" for n by (simp only: bit_exp_iff) auto
  then have "bit (w AND 0x40) n \<longleftrightarrow> n = 6 \<and> bit w 6" for n
    unfolding e bit_and_iff by auto
  then show ?thesis by (metis bit_0_eq bot_apply bot_bool_def bit_word_eqI)
qed

lemma ecc_step_contrib: "ecc_step dat i regs = xor3 regs (contrib i (dat ! i))"
  by (cases regs) (simp add: ecc_step_def contrib_def xor3_def Let_def and_40)

lemma xor_and_distrib: "((x :: byte) XOR y) AND m = (x AND m) XOR (y AND m)"
  by (rule bit_word_eqI) (auto simp: bit_and_iff bit_xor_iff)

lemma contrib_xor: "contrib i (a XOR b) = xor3 (contrib i a) (contrib i b)"
  by (cases "bit (nand_ecc_precalc_table ! unat a) 6"; cases "bit (nand_ecc_precalc_table ! unat b) 6")
     (simp_all add: contrib_def Let_def precalc_xor xor3_def bit_xor_iff xor_and_distrib)

text \<open>The registers after \<open>n\<close> bytes, and what a change of one byte does to them.\<close>

definition regs_of :: "byte list \<Rightarrow> nat \<Rightarrow> ecc_regs" where
  "regs_of dat n = fold (ecc_step dat) [0..<n] (0, 0, 0)"

lemma regs_of_Suc: "regs_of dat (Suc n) = xor3 (regs_of dat n) (contrib n (dat ! n))"
  by (simp add: regs_of_def ecc_step_contrib)

lemma regs_of_change:
  "j < length dat \<Longrightarrow>
     regs_of (dat[j := dat ! j XOR e]) n = (if j < n then xor3 (contrib j e) (regs_of dat n) else regs_of dat n)"
proof (induction n)
  case 0
  then show ?case by (simp add: regs_of_def)
next
  case (Suc n)
  then show ?case
    by (cases "j = n") (simp_all add: regs_of_Suc contrib_xor xor3_ac less_Suc_eq)
qed

text \<open>A single bit: \<open>flip dat i k\<close> changes bit \<open>k\<close> of byte \<open>i\<close>.\<close>

definition flip :: "byte list \<Rightarrow> nat \<Rightarrow> nat \<Rightarrow> byte list" where
  "flip dat i k = dat[i := dat ! i XOR push_bit k 1]"

lemma length_flip [simp]: "length (flip dat i k) = length dat"
  by (simp add: flip_def)

lemma less_8E:
  assumes "(k :: nat) < 8"
  obtains "k = 0" | "k = 1" | "k = 2" | "k = 3" | "k = 4" | "k = 5" | "k = 6" | "k = 7"
  using assms by fastforce

lemma table_unit: "k < 8 \<Longrightarrow> nand_ecc_precalc_table ! unat (push_bit k 1 :: byte) = col_unit k"
  by (erule less_8E) (simp_all add: col_unit_def)

text \<open>The code of a unit vector: the column number and its complement in alternating bits, and odd parity.\<close>

lemma col_unit_bits:
  assumes "k < 8" and "m < 3"
  shows "bit (col_unit k) (2 * m + 1) = bit k m" "bit (col_unit k) (2 * m) = (\<not> bit k m)" "bit (col_unit k) 6"
proof -
  have m: "m = 0 \<or> m = 1 \<or> m = 2" using assms(2) by fastforce
  show "bit (col_unit k) (2 * m + 1) = bit k m"
    by (rule less_8E [OF assms(1)]; insert m; auto simp: col_units [simplified] bit_0)
  show "bit (col_unit k) (2 * m) = (\<not> bit k m)"
    by (rule less_8E [OF assms(1)]; insert m; auto simp: col_units [simplified] bit_0)
  show "bit (col_unit k) 6"
    by (rule less_8E [OF assms(1)]) (auto simp: col_units [simplified])
qed

lemma mask_bits:
  "bit (0x80 :: byte) n \<longleftrightarrow> n = 7" "bit (0x40 :: byte) n \<longleftrightarrow> n = 6" "bit (0x20 :: byte) n \<longleftrightarrow> n = 5"
  "bit (0x10 :: byte) n \<longleftrightarrow> n = 4" "bit (0x08 :: byte) n \<longleftrightarrow> n = 3" "bit (0x04 :: byte) n \<longleftrightarrow> n = 2"
  "bit (0x02 :: byte) n \<longleftrightarrow> n = 1" "bit (0x01 :: byte) n \<longleftrightarrow> n = 0"
proof -
  have p: "bit (2 ^ k :: byte) n \<longleftrightarrow> n = k" if "k < 8" for k using that by (simp only: bit_exp_iff) auto
  show "bit (0x80 :: byte) n \<longleftrightarrow> n = 7" "bit (0x40 :: byte) n \<longleftrightarrow> n = 6" "bit (0x20 :: byte) n \<longleftrightarrow> n = 5"
    "bit (0x10 :: byte) n \<longleftrightarrow> n = 4" "bit (0x08 :: byte) n \<longleftrightarrow> n = 3" "bit (0x04 :: byte) n \<longleftrightarrow> n = 2"
    "bit (0x02 :: byte) n \<longleftrightarrow> n = 1" "bit (0x01 :: byte) n \<longleftrightarrow> n = 0"
    using p [of 7] p [of 6] p [of 5] p [of 4] p [of 3] p [of 2] p [of 1] p [of 0] by simp_all
qed

lemma less_4E:
  assumes "(k :: nat) < 4"
  obtains "k = 0" | "k = 1" | "k = 2" | "k = 3"
  using assms by fastforce

lemma tmp2_bits:
  assumes "j < 4"
  shows "bit (ecc_tmp2 r2 r3) (2 * j + 1) = bit r3 j" "bit (ecc_tmp2 r2 r3) (2 * j) = bit r2 j"
  by (rule less_4E [OF assms]; simp only: ecc_tmp2_def bit_or_iff bit_and_iff bit_push_bit_iff mask_bits; simp)+

lemma tmp1_bits:
  assumes "j < 4"
  shows "bit (ecc_tmp1 r2 r3) (2 * j + 1) = bit r3 (j + 4)" "bit (ecc_tmp1 r2 r3) (2 * j) = bit r2 (j + 4)"
  by (rule less_4E [OF assms]; simp only: ecc_tmp1_def bit_or_iff bit_and_iff bit_drop_bit_eq comp_def mask_bits; simp)+

section \<open>The pairs of code bits\<close>

text \<open>
  The 22 code bits are 11 pairs: pairs 0 to 2 in the third byte, 3 to 6 in the second and 7 to 10 in
  the first one. Pair \<open>n\<close> belongs to bit \<open>n\<close> of the address \<open>8 * i + k\<close> of bit \<open>k\<close> of byte \<open>i\<close>.
\<close>

definition ecc_pair :: "byte list \<Rightarrow> nat \<Rightarrow> bool \<times> bool" where
  "ecc_pair e n =
     (if n < 3 then (bit (e ! 2) (2 * n + 3), bit (e ! 2) (2 * n + 2))
      else if n < 7 then (bit (e ! 1) (2 * (n - 3) + 1), bit (e ! 1) (2 * (n - 3)))
      else (bit (e ! 0) (2 * (n - 7) + 1), bit (e ! 0) (2 * (n - 7))))"

definition pair_diff :: "bool \<times> bool \<Rightarrow> bool \<times> bool \<Rightarrow> bool \<times> bool" where
  "pair_diff p q = (fst p \<noteq> fst q, snd p \<noteq> snd q)"

definition reg_pair :: "ecc_regs \<Rightarrow> nat \<Rightarrow> bool \<times> bool" where
  "reg_pair r n = (case r of (r1, r2, r3) \<Rightarrow>
     if n < 3 then (bit r1 (2 * n + 1), bit r1 (2 * n)) else (bit r3 (n - 3), bit r2 (n - 3)))"

lemma calculate_ecc_regs:
  assumes "length dat = 256"
  shows "\<exists>e. nand_calculate_ecc dat = Ret e \<and>
    (\<forall>n < 11. ecc_pair e n = pair_diff (True, True) (reg_pair (regs_of dat 256) n))"
proof -
  obtain r1 r2 r3 where r: "regs_of dat 256 = (r1, r2, r3)" by (cases "regs_of dat 256")
  let ?e = "[NOT (ecc_tmp1 r2 r3), NOT (ecc_tmp2 r2 r3), push_bit 2 (NOT r1) OR 0x03]"
  have "nand_calculate_ecc dat = Ret ?e"
    using assms r by (simp add: nand_calculate_ecc_def regs_of_def)
  moreover have "ecc_pair ?e n = pair_diff (True, True) (reg_pair (r1, r2, r3) n)" if "n < 11" for n
  proof -
    have three: "\<not> bit (0x03 :: byte) (2 * n + 3)" "\<not> bit (0x03 :: byte) (2 * n + 2)"
    proof -
      have "(0x03 :: byte) = mask 2" by (simp add: mask_eq_exp_minus_1)
      then show "\<not> bit (0x03 :: byte) (2 * n + 3)" "\<not> bit (0x03 :: byte) (2 * n + 2)"
        by (simp_all only: bit_mask_iff) simp_all
    qed
    consider "n < 3" | "3 \<le> n" "n < 7" | "7 \<le> n" by linarith
    then show ?thesis
    proof cases
      case 1
      then show ?thesis
        using three by (simp add: ecc_pair_def reg_pair_def pair_diff_def bit_or_iff bit_push_bit_iff bit_not_iff
            del: push_bit_of_1 push_bit_numeral)
    next
      case 2
      then show ?thesis
        using tmp2_bits [of "n - 3" r2 r3] by (auto simp: ecc_pair_def reg_pair_def pair_diff_def bit_not_iff)
    next
      case 3
      then show ?thesis
        using tmp1_bits [of "n - 7" r2 r3] that by (auto simp: ecc_pair_def reg_pair_def pair_diff_def bit_not_iff)
    qed
  qed
  ultimately show ?thesis using r by auto
qed

lemma reg_pair_xor3:
  "reg_pair (xor3 r s) n = pair_diff (reg_pair r n) (reg_pair s n)"
  by (cases r; cases s) (auto simp: reg_pair_def xor3_def pair_diff_def bit_xor_iff)

lemma bit_address:
  assumes "(k :: nat) < 8"
  shows "bit (8 * i + k) n = (if n < 3 then bit k n else bit i (n - 3))"
proof (cases "n < 3")
  case True
  then have "n = 0 \<or> n = 1 \<or> n = 2" by fastforce
  then have "odd ((8 * i + k) div 2 ^ n) = odd (k div 2 ^ n)"
  proof (elim disjE)
    assume n: "n = 1"
    have "(8 * i + k) div 2 = 4 * i + k div 2" by simp
    with n show ?thesis by simp
  next
    assume n: "n = 2"
    have "(8 * i + k) div 4 = 2 * i + k div 4" by simp
    with n show ?thesis by simp
  qed simp
  with True show ?thesis by (simp add: bit_iff_odd)
next
  case False
  then obtain m where n: "n = m + 3" using le_Suc_ex [of 3 n] by (auto simp: add.commute)
  have "(8 * i + k) div 8 = i" using assms by simp
  then have "(8 * i + k) div 2 ^ n = i div 2 ^ m"
    using div_mult2_eq [of "8 * i + k" 8 "2 ^ m"] by (simp add: n power_add mult.commute)
  with False n show ?thesis by (simp add: bit_iff_odd)
qed

lemma unit_pair:
  assumes "i < 256" and "k < 8" and "n < 11"
  shows "reg_pair (contrib i (push_bit k 1)) n = (bit (8 * i + k) n, \<not> bit (8 * i + k) n)"
proof (cases "n < 3")
  case True
  have m: "bit (0x3f :: byte) x \<longleftrightarrow> x < 6" for x
  proof -
    have "(0x3f :: byte) = mask 6" by (simp add: mask_eq_exp_minus_1)
    then show ?thesis by (simp only: bit_mask_iff) auto
  qed
  show ?thesis
    using True col_unit_bits [OF assms(2) True]
    by (simp only: contrib_def Let_def table_unit [OF assms(2)] reg_pair_def prod.case if_True bit_and_iff m
        bit_address [OF assms(2)]) auto
next
  case False
  have "unat (of_nat i :: byte) = i" using assms(1) by (simp add: unat_of_nat take_bit_nat_eq_self)
  then have "bit (of_nat i :: byte) x = bit i x" for x using bit_unat [of "of_nat i" x] by simp
  moreover have "n - 3 < 8" using False assms(3) by simp
  ultimately show ?thesis
    using False col_unit_bits(3) [OF assms(2), of 0]
    by (simp add: contrib_def table_unit [OF assms(2)] reg_pair_def bit_address [OF assms(2)] bit_not_iff
        del: push_bit_of_1)
qed

lemma flip_pair:
  assumes "length dat = 256" and "i < 256" and "k < 8" and "n < 11"
  shows "reg_pair (regs_of (flip dat i k) 256) n =
    pair_diff (bit (8 * i + k) n, \<not> bit (8 * i + k) n) (reg_pair (regs_of dat 256) n)"
  using assms regs_of_change [of i dat "push_bit k 1" 256]
  by (simp add: flip_def reg_pair_xor3 unit_pair del: push_bit_of_1)

section \<open>Properties\<close>

text \<open>
  C34. The code corrects single and detects double bit errors. When bit \<open>k\<close> of byte \<open>i\<close> of a block is
  flipped, in each of the 11 pairs of code bits exactly one changes, and the first bits of the
  changes spell the address \<open>8 * i + k\<close> of the error. When two bits are flipped, in every pair both
  bits or none change, so that no double error looks like a single one; the code changes
  whenever the two are different bits.
\<close>

theorem nand_ecc_sec_ded:
  assumes "length dat = 256" and "i < 256" and "k < 8" and "j < 256" and "l < 8"
  shows "\<exists>e e1 e2. nand_calculate_ecc dat = Ret e \<and> nand_calculate_ecc (flip dat i k) = Ret e1 \<and>
    nand_calculate_ecc (flip (flip dat i k) j l) = Ret e2 \<and>
    (\<forall>n < 11. pair_diff (ecc_pair e n) (ecc_pair e1 n) = (bit (8 * i + k) n, \<not> bit (8 * i + k) n)) \<and>
    (\<forall>n < 11. pair_diff (ecc_pair e n) (ecc_pair e2 n) =
       (bit (8 * i + k) n \<noteq> bit (8 * j + l) n, bit (8 * i + k) n \<noteq> bit (8 * j + l) n)) \<and>
    ((i, k) \<noteq> (j, l) \<longrightarrow> e2 \<noteq> e)"
proof -
  let ?r = "\<lambda>d. reg_pair (regs_of d 256)"
  obtain e e1 e2 where e: "nand_calculate_ecc dat = Ret e" "\<forall>n < 11. ecc_pair e n = pair_diff (True, True) (?r dat n)"
    "nand_calculate_ecc (flip dat i k) = Ret e1" "\<forall>n < 11. ecc_pair e1 n = pair_diff (True, True) (?r (flip dat i k) n)"
    "nand_calculate_ecc (flip (flip dat i k) j l) = Ret e2"
    "\<forall>n < 11. ecc_pair e2 n = pair_diff (True, True) (?r (flip (flip dat i k) j l) n)"
    using calculate_ecc_regs [of dat] calculate_ecc_regs [of "flip dat i k"]
      calculate_ecc_regs [of "flip (flip dat i k) j l"] assms(1) by auto
  have single: "pair_diff (ecc_pair e n) (ecc_pair e1 n) = (bit (8 * i + k) n, \<not> bit (8 * i + k) n)" if "n < 11" for n
    using e flip_pair [OF assms(1-3) that] that by (auto simp: pair_diff_def)
  have double: "pair_diff (ecc_pair e n) (ecc_pair e2 n) =
      (bit (8 * i + k) n \<noteq> bit (8 * j + l) n, bit (8 * i + k) n \<noteq> bit (8 * j + l) n)" if "n < 11" for n
    using e flip_pair [OF assms(1-3) that] flip_pair [of "flip dat i k" j l n] assms that
    by (auto simp: pair_diff_def)
  have "e2 \<noteq> e" if "(i, k) \<noteq> (j, l)"
  proof
    assume "e2 = e"
    then have "bit (8 * i + k) n = bit (8 * j + l) n" if "n < 11" for n
      using double [OF that] by (simp add: pair_diff_def)
    moreover have "\<not> bit (8 * x + y) n" if "\<not> n < 11" "x < 256" "y < 8" for x y n :: nat
    proof -
      have "8 * x + y < 2 ^ 11" using that by simp
      also have "(2 :: nat) ^ 11 \<le> 2 ^ n" using that by (intro power_increasing) auto
      finally show ?thesis by (simp add: bit_iff_odd)
    qed
    ultimately have "8 * i + k = 8 * j + l"
      using assms(2-5) by (intro bit_eqI) metis
    then have "(8 * i + k) div 8 = (8 * j + l) div 8" "(8 * i + k) mod 8 = (8 * j + l) mod 8" by simp_all
    with \<open>(i, k) \<noteq> (j, l)\<close> assms(3,5) show False by simp
  qed
  with e single double show ?thesis by blast
qed

theorem nand_ecc_sec_ded_witness:
  "\<exists>e e1. nand_calculate_ecc (replicate 256 0xA5) = Ret e \<and>
     nand_calculate_ecc (flip (replicate 256 0xA5) 17 3) = Ret e1 \<and>
     (\<forall>n < 11. pair_diff (ecc_pair e n) (ecc_pair e1 n) = (bit (139 :: nat) n, \<not> bit (139 :: nat) n))"
proof -
  have "length (replicate 256 (0xA5 :: byte)) = 256" by (rule length_replicate)
  from nand_ecc_sec_ded [OF this, of 17 3 0 0] show ?thesis by auto
qed

end
