(* ===== verification/Nand_Image.thy ===== *)
theory Nand_Image
  imports Nand_Ecc
begin

text \<open>
  The program around the error correction code (\<^verbatim>\<open>tools/firmware-utils/src/nand_ecc.c\<close>, \<^verbatim>\<open>main\<close>): it
  copies a file page by page and puts behind every page a spare area that holds the codes of
  the blocks of the page.

  The program writes the whole buffer for each page, spare area included, so the output shows what
  \<^verbatim>\<open>malloc\<close> left there. The results of \<^verbatim>\<open>write\<close> are ignored by the code; in the model the writes
  succeed. A loop that never ends is the value \<open>None\<close>.
\<close>

section \<open>Model\<close>

record nand_opts =
  page_size :: int
  oob_size :: int
  ecc_offset :: int

definition nand_default :: nand_opts where
  "nand_default = \<lparr>page_size = 2048, oob_size = 64, ecc_offset = 0x28\<rparr>"

text \<open>The result of \<^verbatim>\<open>strtoul\<close> stored in an \<^verbatim>\<open>int\<close>.\<close>

definition int_of_ulong :: "64 word \<Rightarrow> int" where
  "int_of_ulong w = sint (ucast w :: u32)"

fun nand_set_opts :: "opt_result list \<Rightarrow> nand_opts \<Rightarrow> nand_opts outcome" where
  "nand_set_opts [] op = Ret op"
| "nand_set_opts ((c, arg) # rs) op =
     (let v = int_of_ulong (fst (strtoul64 0 (the arg))) in
      if c = CHR ''p'' then nand_set_opts rs (op\<lparr>page_size := v\<rparr>)
      else if c = CHR ''o'' then nand_set_opts rs (op\<lparr>oob_size := v\<rparr>)
      else if c = CHR ''e'' then nand_set_opts rs (op\<lparr>ecc_offset := v\<rparr>)
      else Exit 1)"

text \<open>The loop over the blocks of a page: the code of block \<open>j\<close> goes to \<open>pos\<close>, the next one behind it.\<close>

fun ecc_loop :: "nat \<Rightarrow> nat \<Rightarrow> int \<Rightarrow> byte list \<Rightarrow> byte list outcome" where
  "ecc_loop 0 j pos buf = Ret buf"
| "ecc_loop (Suc n) j pos buf =
     obind (nand_calculate_ecc (drop (j * 256) buf)) (\<lambda>e.
     obind (if pos < 0 then Undef else mem_write (nat pos) e buf) (\<lambda>buf.
     ecc_loop n (Suc j) (pos + 3) buf))"

definition ret_opt :: "'a outcome \<Rightarrow> 'a option" where
  "ret_opt m = (case m of Ret x \<Rightarrow> Some x | _ \<Rightarrow> None)"

text \<open>The loop over the pages for sizes that are not negative: what is left of the input, the
  buffer, and what has been written.\<close>

partial_function (option) page_loop ::
  "nat \<Rightarrow> int \<Rightarrow> byte list \<Rightarrow> byte list \<Rightarrow> byte list \<Rightarrow> byte list outcome option" where
  "page_loop psize eoff inp buf out =
     (if length inp < psize then Some (Ret out)
      else
        case ret_opt (ecc_loop (psize div 256) 0 (int psize + eoff) (take psize inp @ drop psize buf)) of
          None \<Rightarrow> Some Undef
        | Some buf \<Rightarrow> page_loop psize eoff (drop psize inp) buf (out @ buf))"

text \<open>
  \<^verbatim>\<open>main\<close> on the arguments after the program name. Opening the output file truncates it before the
  input is read. When the buffer cannot be allocated the first \<^verbatim>\<open>read\<close> of a page fails, which ends the
  loop; a \<^verbatim>\<open>read\<close> of 0 bytes does not. A negative size gives a buffer that is too small.
\<close>

definition nand_main :: "malloc \<Rightarrow> string list \<Rightarrow> host_fs \<Rightarrow> (nat \<times> host_fs) outcome option" where
  "nand_main malloc args fs =
     (case getopt_all ''e:o:p:'' args of
        (opts, rest) \<Rightarrow>
     (case nand_set_opts opts nand_default of
        Undef \<Rightarrow> Some Undef
      | Exit n \<Rightarrow> Some (Exit n)
      | Ret op \<Rightarrow>
     (case rest of
        infile # outfile # _ \<Rightarrow>
          if files fs infile = None \<or> \<not> readable fs infile then Some (Ret (1, fs))
          else if \<not> creatable fs outfile then Some (Ret (1, fs))
          else if page_size op < 0 \<or> oob_size op < 0 then Some Undef
          else
            (let fs1 = fs\<lparr>files := (files fs)(outfile \<mapsto> [])\<rparr>;
                 psize = nat (page_size op)
             in case malloc (psize + nat (oob_size op)) of
                  None \<Rightarrow> if psize = 0 then None else Some (Ret (0, fs1))
                | Some buf \<Rightarrow>
                    map_option (\<lambda>r. obind r (\<lambda>out. Ret (0, fs1\<lparr>files := (files fs1)(outfile \<mapsto> out)\<rparr>)))
                      (page_loop psize (ecc_offset op) (the (files fs1 infile)) buf []))
      | _ \<Rightarrow> Some (Exit 1))))"

section \<open>The loop over the blocks\<close>

text \<open>The code as a function of the first 256 bytes.\<close>

definition ecc_code :: "byte list \<Rightarrow> byte list" where
  "ecc_code dat = the (ret_opt (nand_calculate_ecc dat))"

lemma ecc_fold_take: "fold (ecc_step dat) [0..<256] r = fold (ecc_step (take 256 dat)) [0..<256] r"
  by (rule fold_cong) (auto simp: ecc_step_def)

lemma calculate_ecc_code:
  assumes "256 \<le> length dat"
  shows "nand_calculate_ecc dat = Ret (ecc_code (take 256 dat))" "length (ecc_code (take 256 dat)) = 3"
proof -
  have "nand_calculate_ecc (take 256 dat) = nand_calculate_ecc dat"
    using assms by (simp add: nand_calculate_ecc_def ecc_fold_take [of dat])
  moreover obtain r1 r2 r3 where "fold (ecc_step dat) [0..<256] (0, 0, 0) = (r1, r2, r3)"
    by (metis prod_cases3)
  then have "nand_calculate_ecc dat =
      Ret [NOT (ecc_tmp1 r2 r3), NOT (ecc_tmp2 r2 r3), push_bit 2 (NOT r1) OR 0x03]"
    using assms by (simp add: nand_calculate_ecc_def)
  ultimately show "nand_calculate_ecc dat = Ret (ecc_code (take 256 dat))" "length (ecc_code (take 256 dat)) = 3"
    by (simp_all add: ecc_code_def ret_opt_def)
qed

definition block_code :: "byte list \<Rightarrow> nat \<Rightarrow> byte list" where
  "block_code p j = ecc_code (take 256 (drop (j * 256) p))"

lemma ecc_loop_codes:
  "(j + n) * 256 \<le> length p \<Longrightarrow> length y = 3 * n \<Longrightarrow> pos = int (length (p @ x)) \<Longrightarrow>
     ecc_loop n j pos (p @ x @ y @ c) = Ret (p @ x @ concat (map (block_code p) [j..<j + n]) @ c)"
proof (induction n arbitrary: j pos x y)
  case (Suc n)
  obtain u v where y: "y = u @ v" "length u = 3" "length v = 3 * n"
    using Suc.prems(2) by (metis append_take_drop_id length_drop length_take diff_add_inverse min.absorb2
        le_add1 mult_Suc_right)
  have "take 256 (drop (j * 256) (p @ x @ y @ c)) = take 256 (drop (j * 256) p)"
    using Suc.prems(1) by simp
  then have e: "nand_calculate_ecc (drop (j * 256) (p @ x @ y @ c)) = Ret (block_code p j)" "length (block_code p j) = 3"
    using calculate_ecc_code [of "drop (j * 256) (p @ x @ y @ c)"] Suc.prems(1) by (simp_all add: block_code_def)
  have w: "mem_write (nat pos) (block_code p j) (p @ x @ y @ c) = Ret (p @ (x @ block_code p j) @ v @ c)"
    using mem_write_append [of "p @ x" "nat pos" u "block_code p j" "v @ c"] y e(2) Suc.prems(3) by simp
  have "ecc_loop n (Suc j) (pos + 3) (p @ (x @ block_code p j) @ v @ c) =
      Ret (p @ (x @ block_code p j) @ concat (map (block_code p) [Suc j..<Suc j + n]) @ c)"
    using Suc.IH [of "Suc j" v "pos + 3" "x @ block_code p j"] Suc.prems y(3) e(2) by simp
  moreover have "[j..<j + Suc n] = j # [Suc j..<Suc j + n]" by (simp add: upt_conv_Cons)
  ultimately show ?case using e(1) w Suc.prems(3) by simp
qed simp

section \<open>The loop over the pages\<close>

text \<open>The complete pages of a file, and a page with its spare area \<open>g\<close>.\<close>

function file_pages :: "nat \<Rightarrow> byte list \<Rightarrow> byte list list" where
  "file_pages n xs = (if n = 0 \<or> length xs < n then [] else take n xs # file_pages n (drop n xs))"
  by pat_completeness auto
termination file_pages
  by (relation "measure (\<lambda>(n, xs). length xs)") auto

declare file_pages.simps [simp del]

lemma file_pages_length: "q \<in> set (file_pages n xs) \<Longrightarrow> length q = n"
proof (induction n xs rule: file_pages.induct)
  case (1 n xs)
  then show ?case by (auto simp: file_pages.simps [of n xs] split: if_splits)
qed

definition page_image :: "nat \<Rightarrow> byte list \<Rightarrow> byte list \<Rightarrow> byte list" where
  "page_image eoff g p =
     p @ take eoff g @ concat (map (block_code p) [0..<length p div 256]) @ drop (eoff + 3 * (length p div 256)) g"

lemma length_block_codes:
  "(\<And>j. j \<in> set js \<Longrightarrow> (j + 1) * 256 \<le> length p) \<Longrightarrow> length (concat (map (block_code p) js)) = 3 * length js"
proof (induction js)
  case (Cons j js)
  have "length (block_code p j) = 3"
    using Cons.prems [of j] calculate_ecc_code(2) [of "drop (j * 256) p"] by (simp add: block_code_def)
  with Cons show ?case by simp
qed simp

lemma ecc_loop_page:
  assumes "length p = psize" and "eoff + 3 * (psize div 256) \<le> length g"
  shows "ecc_loop (psize div 256) 0 (int psize + int eoff) (p @ g) = Ret (page_image eoff g p)"
proof -
  let ?n = "psize div 256"
  have "g = take eoff g @ take (3 * ?n) (drop eoff g) @ drop (eoff + 3 * ?n) g"
    by (metis append_take_drop_id drop_drop add.commute)
  then have "p @ g = p @ take eoff g @ take (3 * ?n) (drop eoff g) @ drop (eoff + 3 * ?n) g" by simp
  then show ?thesis
    using ecc_loop_codes [of 0 ?n p "take (3 * ?n) (drop eoff g)" "int psize + int eoff" "take eoff g"
        "drop (eoff + 3 * ?n) g"] assms
    by (simp add: page_image_def)
qed

text \<open>The spare area of the buffer differs from the initial one only where the codes are.\<close>

lemma page_image_again:
  assumes "length p = length q" and "eoff + 3 * (length q div 256) \<le> length g"
  shows "page_image eoff (drop (length p) (page_image eoff g p)) q = page_image eoff g q"
proof -
  let ?n = "length q div 256"
  have "length (concat (map (block_code p) [0..<?n])) = 3 * ?n"
    using assms(1) by (subst length_block_codes) auto
  with assms show ?thesis by (simp add: page_image_def)
qed

lemma page_loop_pages:
  assumes "0 < psize" and "eoff + 3 * (psize div 256) \<le> length g" and "length p0 = psize"
  shows "page_loop psize (int eoff) inp (p0 @ g) out =
    Some (Ret (out @ concat (map (page_image eoff g) (file_pages psize inp))))"
  using assms
proof (induction psize inp arbitrary: p0 g out rule: file_pages.induct)
  case (1 psize inp)
  show ?case
  proof (cases "length inp < psize")
    case True
    then show ?thesis by (simp add: page_loop.simps file_pages.simps [of psize inp])
  next
    case False
    let ?p = "take psize inp"
    let ?b = "page_image eoff g ?p"
    have lp: "length ?p = psize" using False by simp
    have e: "ecc_loop (psize div 256) 0 (int psize + int eoff) (?p @ drop psize (p0 @ g)) = Ret ?b"
      using ecc_loop_page [OF lp "1.prems"(2)] "1.prems"(3) by simp
    have b: "?b = ?p @ drop psize ?b" using lp by (simp add: page_image_def)
    have lb: "length (drop psize ?b) = length g"
      using "1.prems"(2) lp length_block_codes [of "[0..<psize div 256]" ?p]
      by (simp add: page_image_def)
    have c: "\<not> (psize = 0 \<or> length inp < psize)" using False "1.prems"(1) by simp
    have g: "eoff + 3 * (psize div 256) \<le> length (drop psize ?b)" using "1.prems"(2) by (simp only: lb)
    have again: "page_image eoff (drop psize ?b) q = page_image eoff g q" if "length q = psize" for q
      using page_image_again [of ?p q eoff g] that lp "1.prems"(2) by simp
    have "page_loop psize (int eoff) (drop psize inp) (?p @ drop psize ?b) (out @ ?b) =
        Some (Ret ((out @ ?b) @ concat (map (page_image eoff (drop psize ?b)) (file_pages psize (drop psize inp)))))"
      using "1.IH" [OF c "1.prems"(1) g lp, of "out @ ?b"] .
    then have "page_loop psize (int eoff) (drop psize inp) ?b (out @ ?b) =
        Some (Ret ((out @ ?b) @ concat (map (page_image eoff (drop psize ?b)) (file_pages psize (drop psize inp)))))"
      by (simp only: b [symmetric])
    moreover have "map (page_image eoff (drop psize ?b)) (file_pages psize (drop psize inp)) =
        map (page_image eoff g) (file_pages psize (drop psize inp))"
      using again file_pages_length by simp
    ultimately show ?thesis
      using False "1.prems"(1) e by (simp add: page_loop.simps file_pages.simps [of psize inp] ret_opt_def)
  qed
qed

text \<open>Pages of length 0 are read and written for ever: by induction on the approximations of the
  loop, no result is ever reached.\<close>

lemma page_loop_some:
  assumes "page_loop psize eoff inp buf out = Some r"
  shows "psize \<noteq> 0"
  by (rule page_loop.raw_induct [of "\<lambda>p _ _ _ _ _. p \<noteq> 0", OF _ assms])
     (rule notI, fastforce simp: ret_opt_def)

lemma page_loop_zero: "page_loop 0 eoff inp buf out = None"
  using page_loop_some [of 0] by (cases "page_loop 0 eoff inp buf out") auto

section \<open>Properties\<close>

lemma nand_options:
  "getopt_all ''e:o:p:'' [''-p'', p, ''-o'', o', ''-e'', e, a, b] =
     ([(CHR ''p'', Some p), (CHR ''o'', Some o'), (CHR ''e'', Some e)], [a, b])"
  if "\<not> is_option a" "\<not> is_option b"
  using that by (simp add: getopt_all_pair getopt_all_args)

text \<open>
  C35. For a page size that is not 0 and a spare area with room for the codes, \<^verbatim>\<open>nand_ecc\<close> returns with
  status 0, and the output consists of the complete pages of the input, each followed by its
  spare area: the codes of its blocks from the given offset on, and everywhere else what the
  buffer contained when it was allocated. An incomplete last page is dropped. With the page
  size 0 the program never returns.
\<close>

theorem nand_main_pages:
  assumes "files fs a = Some inp" and "readable fs a" and "creatable fs b" and "a \<noteq> b"
    and "\<not> is_option a" and "\<not> is_option b"
    and "int_of_ulong (fst (strtoul64 0 p)) = int psize" and "int_of_ulong (fst (strtoul64 0 o')) = int osize"
    and "int_of_ulong (fst (strtoul64 0 e)) = int eoff" and "eoff + 3 * (psize div 256) \<le> osize"
    and "malloc (psize + osize) = Some buf" and "length buf = psize + osize"
  shows "(0 < psize \<longrightarrow> (\<exists>fs'. nand_main malloc [''-p'', p, ''-o'', o', ''-e'', e, a, b] fs = Some (Ret (0, fs')) \<and>
      files fs' b = Some (concat (map (page_image eoff (drop psize buf)) (file_pages psize inp))))) \<and>
    (psize = 0 \<longrightarrow> nand_main malloc [''-p'', p, ''-o'', o', ''-e'', e, a, b] fs = None)"
proof (intro conjI impI)
  note main = nand_main_def nand_options [OF assms(5,6)]
  { assume "0 < psize"
    then have "page_loop psize (int eoff) inp (take psize buf @ drop psize buf) [] =
        Some (Ret ([] @ concat (map (page_image eoff (drop psize buf)) (file_pages psize inp))))"
      using assms(10,12) by (intro page_loop_pages) simp_all
    then show "\<exists>fs'. nand_main malloc [''-p'', p, ''-o'', o', ''-e'', e, a, b] fs = Some (Ret (0, fs')) \<and>
        files fs' b = Some (concat (map (page_image eoff (drop psize buf)) (file_pages psize inp)))"
      using assms(1-4,7-9,11) by (simp add: main nand_default_def) }
  { assume "psize = 0"
    then show "nand_main malloc [''-p'', p, ''-o'', o', ''-e'', e, a, b] fs = None"
      using assms(1-4,7-9,11) 
      by (simp add: main nand_default_def page_loop_zero) }
qed

theorem nand_main_pages_witness:
  "\<exists>fs'. nand_main (\<lambda>n. Some (replicate n 0xFF)) [''-p'', ''2'', ''-o'', ''1'', ''-e'', ''0'', ''in'', ''out'']
      \<lparr>files = [''in'' \<mapsto> [1, 2, 3, 4, 5]], readable = (\<lambda>_. True), creatable = (\<lambda>_. True), has_space = (\<lambda>_. True)\<rparr> =
      Some (Ret (0, fs')) \<and>
    files fs' ''out'' = Some [1, 2, 0xFF, 3, 4, 0xFF]"
proof -
  have n: "int_of_ulong (fst (strtoul64 0 ''2'')) = int 2" "int_of_ulong (fst (strtoul64 0 ''1'')) = int 1"
    "int_of_ulong (fst (strtoul64 0 ''0'')) = int 0"
    by (simp_all add: int_of_ulong_def strtoul64_def strto_scan_def strto_sign_def strto_base_def digit_val_def
        digits_value_def c_isspace_def)
  have pages: "file_pages 2 [1, 2, 3, 4, 5] = [[1, 2], [3, 4]]" by (simp add: file_pages.simps)
  let ?fs = "\<lparr>files = [''in'' \<mapsto> [1, 2, 3, 4, 5]], readable = (\<lambda>_. True), creatable = (\<lambda>_. True), has_space = (\<lambda>_. True)\<rparr>"
  have "0 < (2 :: nat) \<longrightarrow> (\<exists>fs'. nand_main (\<lambda>n. Some (replicate n 0xFF))
      [''-p'', ''2'', ''-o'', ''1'', ''-e'', ''0'', ''in'', ''out''] ?fs = Some (Ret (0, fs')) \<and>
      files fs' ''out'' = Some (concat (map (page_image 0 (drop 2 (replicate 3 0xFF))) (file_pages 2 [1, 2, 3, 4, 5]))))"
    using n by (intro nand_main_pages [THEN conjunct1]) (simp_all add: is_option_def)
  then show ?thesis by (simp add: pages page_image_def numeral_3_eq_3)
qed

end
