(* ===== verification/Hashmap.thy ===== *)
theory Hashmap
  imports Fw_Prelude Store_Spec "HOL-Library.Multiset"
begin

text \<open>
  The hash map of the web terminal's HTTP library (\<^verbatim>\<open>package/shellinabox/src/libhttp/hashmap.c\<close>): an array
  of buckets, each an array of key/value pairs that ends with a NULL key, and a counter that
  decides when the array grows.

  A bucket is the list of its pairs; a bucket that was never allocated is empty. Keys are C
  strings that the map does not copy and that do not change while they are in it. The calls of the
  destructor are recorded in the map they are made for. An allocation that fails aborts the process
  and is not part of the model; the counter and the number of buckets are far from the bounds of
  an \<^verbatim>\<open>int\<close>.
\<close>

section \<open>Model\<close>

type_synonym hm_key = "byte list"

record 'v hashmap =
  hm_entries :: "(hm_key \<times> 'v) list list"
  hm_num :: int
  hm_destructor :: bool
  hm_calls :: "(hm_key \<times> 'v) list"

definition initHashMap :: "bool \<Rightarrow> 'v hashmap" where
  "initHashMap dtor = \<lparr>hm_entries = [], hm_num = 0, hm_destructor = dtor, hm_calls = []\<rparr>"

definition mapSize :: "'v hashmap \<Rightarrow> nat" where
  "mapSize m = length (hm_entries m)"

text \<open>A call of the destructor, if there is one.\<close>

definition destruct :: "hm_key \<times> 'v \<Rightarrow> 'v hashmap \<Rightarrow> 'v hashmap" where
  "destruct e m = (if hm_destructor m then m\<lparr>hm_calls := hm_calls m @ [e]\<rparr> else m)"

definition destroyHashMap :: "'v hashmap \<Rightarrow> 'v hashmap" where
  "destroyHashMap m = (fold destruct (concat (hm_entries m)) m)\<lparr>hm_entries := []\<rparr>"

definition stringHashFunc :: "hm_key \<Rightarrow> u32" where
  "stringHashFunc s = fold (\<lambda>c h. 31 * h + ucast c) s 0"

definition hash_idx :: "'v hashmap \<Rightarrow> hm_key \<Rightarrow> nat" where
  "hash_idx m key = unat (stringHashFunc key) mod mapSize m"

text \<open>The size of the new array when one more entry needs it.\<close>

definition needs_growth :: "'v hashmap \<Rightarrow> bool" where
  "needs_growth m \<longleftrightarrow> hm_num m + 1 > (int (mapSize m) * 8) div 10"

definition grown_size :: "nat \<Rightarrow> nat" where
  "grown_size n = (if n = 0 then 32 else if n < 1024 then 2 * n else n + 1024)"

text \<open>The new map on the stack: its counter starts with the counter of the old map, and its destructor is not
  initialised (\<open>True\<close> stands for an arbitrary function).\<close>

definition new_map :: "'v hashmap \<Rightarrow> 'v hashmap" where
  "new_map m = \<lparr>hm_entries = replicate (grown_size (mapSize m)) [], hm_num = hm_num m,
     hm_destructor = True, hm_calls = []\<rparr>"

text \<open>The part of \<^verbatim>\<open>addToHashMap\<close> behind the growth: the first pair with the key is replaced, otherwise
  the pair goes to the end of its bucket.\<close>

definition put_entry :: "'v hashmap \<Rightarrow> hm_key \<Rightarrow> 'v \<Rightarrow> 'v hashmap" where
  "put_entry m key value =
     (let idx = hash_idx m key;
          b = hm_entries m ! idx;
          pre = takeWhile (\<lambda>e. fst e \<noteq> key) b
      in case dropWhile (\<lambda>e. fst e \<noteq> key) b of
           e # post \<Rightarrow> (destruct e m)\<lparr>hm_entries := (hm_entries m)[idx := pre @ (key, value) # post]\<rparr>
         | [] \<Rightarrow> m\<lparr>hm_entries := (hm_entries m)[idx := b @ [(key, value)]], hm_num := hm_num m + 1\<rparr>)"

text \<open>\<^verbatim>\<open>addToHashMap\<close> and its loop over the entries of the old map, which calls it for the new map.\<close>

function addToHashMap :: "'v hashmap \<Rightarrow> hm_key \<Rightarrow> 'v \<Rightarrow> 'v hashmap"
  and move_entries :: "(hm_key \<times> 'v) list \<Rightarrow> 'v hashmap \<Rightarrow> 'v hashmap"
where
  "addToHashMap m key value =
     put_entry
       (if needs_growth m
        then let nm = move_entries (concat (hm_entries m)) (new_map m)
             in m\<lparr>hm_entries := hm_entries nm, hm_num := hm_num nm\<rparr>
        else m) key value"
| "move_entries [] nm = nm"
| "move_entries (e # es) nm = move_entries es (addToHashMap nm (fst e) (snd e))"
  by pat_completeness auto

text \<open>
  The loop of \<^verbatim>\<open>deleteFromHashMap\<close> over a bucket: the last pair takes the place of a pair with the key, and the
  loop goes on behind that place. The second list holds the pairs that go.
\<close>

function del_bucket ::
  "hm_key \<Rightarrow> nat \<Rightarrow> (hm_key \<times> 'v) list \<Rightarrow> (hm_key \<times> 'v) list \<Rightarrow> (hm_key \<times> 'v) list \<times> (hm_key \<times> 'v) list" where
  "del_bucket key i b gone =
     (if i < length b then
        (if fst (b ! i) = key then del_bucket key (Suc i) (butlast (b[i := last b])) (gone @ [b ! i])
         else del_bucket key (Suc i) b gone)
      else (b, gone))"
  by pat_completeness auto
termination del_bucket
  by (relation "measure (\<lambda>(_, i, b, _). length b - i)") auto

text \<open>The code checks that the counter is not negative after each decrement; \<open>hm_num\<close> is an integer, so
  that the value it checks is there.\<close>

definition deleteFromHashMap :: "'v hashmap \<Rightarrow> hm_key \<Rightarrow> 'v hashmap" where
  "deleteFromHashMap m key =
     (if mapSize m = 0 then m
      else
        let idx = hash_idx m key; (b, gone) = del_bucket key 0 (hm_entries m ! idx) []
        in (fold destruct gone m)\<lparr>hm_entries := (hm_entries m)[idx := b], hm_num := hm_num m - int (length gone)\<rparr>)"

definition getFromHashMap :: "'v hashmap \<Rightarrow> hm_key \<Rightarrow> 'v option" where
  "getFromHashMap m key =
     (if mapSize m = 0 then None
      else case dropWhile (\<lambda>e. fst e \<noteq> key) (hm_entries m ! hash_idx m key) of
             [] \<Rightarrow> None | e # _ \<Rightarrow> Some (snd e))"

text \<open>
  \<^verbatim>\<open>iterateOverHashMap\<close>: the callback gets a pair, may change the value and says whether the pair stays;
  \<open>s\<close> is the state it works on. The last pair of the bucket takes the place of a pair that goes.
\<close>

function iter_bucket ::
  "('s \<Rightarrow> hm_key \<Rightarrow> 'v \<Rightarrow> bool \<times> 'v \<times> 's) \<Rightarrow> nat \<Rightarrow> (hm_key \<times> 'v) list \<Rightarrow> (hm_key \<times> 'v) list \<Rightarrow> 's \<Rightarrow>
     (hm_key \<times> 'v) list \<times> (hm_key \<times> 'v) list \<times> 's" where
  "iter_bucket fnc j b gone s =
     (if j < length b then
        (let (k, v) = b ! j; (keep, v', s') = fnc s k v; b' = b[j := (k, v')]
         in if keep then iter_bucket fnc (Suc j) b' gone s'
            else iter_bucket fnc j (butlast (b'[j := last b'])) (gone @ [(k, v')]) s')
      else (b, gone, s))"
  by pat_completeness auto
termination iter_bucket
  by (relation "measure (\<lambda>(_, j, b, _, _). length b - j)") auto

fun iter_buckets ::
  "('s \<Rightarrow> hm_key \<Rightarrow> 'v \<Rightarrow> bool \<times> 'v \<times> 's) \<Rightarrow> (hm_key \<times> 'v) list list \<Rightarrow> 's \<Rightarrow>
     (hm_key \<times> 'v) list list \<times> (hm_key \<times> 'v) list \<times> 's" where
  "iter_buckets fnc [] s = ([], [], s)"
| "iter_buckets fnc (b # bs) s =
     (let (b', gone, s') = iter_bucket fnc 0 b [] s; (bs', gone', s'') = iter_buckets fnc bs s'
      in (b' # bs', gone @ gone', s''))"

definition iterateOverHashMap ::
  "('s \<Rightarrow> hm_key \<Rightarrow> 'v \<Rightarrow> bool \<times> 'v \<times> 's) \<Rightarrow> 'v hashmap \<Rightarrow> 's \<Rightarrow> 'v hashmap \<times> 's" where
  "iterateOverHashMap fnc m s =
     (let (es, gone, s') = iter_buckets fnc (hm_entries m) s
      in ((fold destruct gone m)\<lparr>hm_entries := es\<rparr>, s'))"

definition getHashmapSize :: "'v hashmap \<Rightarrow> int" where
  "getHashmapSize m = hm_num m"

section \<open>Termination of the growth\<close>

definition hm_count :: "'v hashmap \<Rightarrow> nat" where
  "hm_count m = length (concat (hm_entries m))"

lemma length_concat_update:
  "i < length xss \<Longrightarrow> length (concat (xss[i := ys])) + length (xss ! i) = length (concat xss) + length ys"
proof (induction xss arbitrary: i)
  case (Cons xs xss)
  then show ?case by (cases i) auto
qed simp

lemma takeWhile_dropWhile_length:
  "dropWhile P xs = y # ys \<Longrightarrow> length xs = Suc (length (takeWhile P xs) + length ys)"
  by (metis add_Suc_right length_Cons length_append takeWhile_dropWhile_id)

abbreviation bucket_of :: "'v hashmap \<Rightarrow> hm_key \<Rightarrow> (hm_key \<times> 'v) list" where
  "bucket_of m k \<equiv> hm_entries m ! hash_idx m k"

lemma put_entry_absent:
  "dropWhile (\<lambda>e. fst e \<noteq> k) (bucket_of m k) = [] \<Longrightarrow>
     put_entry m k v = m\<lparr>hm_entries := (hm_entries m)[hash_idx m k := bucket_of m k @ [(k, v)]], hm_num := hm_num m + 1\<rparr>"
  by (simp add: put_entry_def Let_def del: dropWhile_eq_Nil_conv)

lemma put_entry_found:
  "dropWhile (\<lambda>e. fst e \<noteq> k) (bucket_of m k) = e # post \<Longrightarrow>
     put_entry m k v = (destruct e m)\<lparr>hm_entries :=
       (hm_entries m)[hash_idx m k := takeWhile (\<lambda>e. fst e \<noteq> k) (bucket_of m k) @ (k, v) # post]\<rparr>"
  by (simp add: put_entry_def Let_def)

lemma hm_count_put_entry: "hm_count (put_entry m k v) \<le> Suc (hm_count m)"
proof (cases "dropWhile (\<lambda>e. fst e \<noteq> k) (bucket_of m k)")
  case Nil
  show ?thesis
    using length_concat_update [of "hash_idx m k" "hm_entries m" "bucket_of m k @ [(k, v)]"]
    unfolding put_entry_absent [OF Nil]
    by (cases "hash_idx m k < length (hm_entries m)") (simp_all add: hm_count_def not_less list_update_beyond)
next
  case (Cons e post)
  show ?thesis
    using length_concat_update [of "hash_idx m k" "hm_entries m" "takeWhile (\<lambda>e. fst e \<noteq> k) (bucket_of m k) @ (k, v) # post"]
      takeWhile_dropWhile_length [OF Cons]
    unfolding put_entry_found [OF Cons]
    by (cases "hash_idx m k < length (hm_entries m)") (simp_all add: hm_count_def destruct_def not_less list_update_beyond)
qed

lemma hm_count_upd: "hm_count (m\<lparr>hm_entries := hm_entries nm, hm_num := n\<rparr>) = hm_count nm"
  by (simp add: hm_count_def)

lemma hm_count_new_map [simp]: "hm_count (new_map m) = 0"
  by (simp add: hm_count_def new_map_def)

text \<open>Adding an entry, growth included, adds at most one to the number of entries; so the map that the
  entries are moved to always has fewer entries than the old one.\<close>

lemma hm_count_add_partial:
  fixes m nm :: "'v hashmap"
  shows "addToHashMap_move_entries_dom (Inl (m, k, v)) \<Longrightarrow> hm_count (addToHashMap m k v) \<le> Suc (hm_count m)"
  "addToHashMap_move_entries_dom (Inr (es, nm)) \<Longrightarrow> hm_count (move_entries es nm) \<le> length es + hm_count nm"
proof (induction m k v and es nm rule: addToHashMap_move_entries.pinduct)
  case (1 m k v)
  note psimp = addToHashMap.psimps [OF "1.hyps"]
  show ?case
  proof (cases "needs_growth m")
    case True
    let ?nm = "move_entries (concat (hm_entries m)) (new_map m)"
    have "hm_count ?nm \<le> hm_count m"
      using "1.IH" [OF True] by (simp add: hm_count_def [of m])
    then have "hm_count (m\<lparr>hm_entries := hm_entries ?nm, hm_num := hm_num ?nm\<rparr>) \<le> hm_count m"
      by (simp add: hm_count_upd)
    then show ?thesis
      using hm_count_put_entry [of "m\<lparr>hm_entries := hm_entries ?nm, hm_num := hm_num ?nm\<rparr>" k v] True
      by (simp add: psimp Let_def)
  qed (simp add: psimp hm_count_put_entry)
next
  case (3 e es nm)
  then show ?case by (simp add: move_entries.psimps)
qed (simp add: move_entries.psimps)

definition add_rank :: "('v hashmap \<times> hm_key \<times> 'v) + ((hm_key \<times> 'v) list \<times> 'v hashmap) \<Rightarrow> nat \<times> nat \<times> nat" where
  "add_rank x = (case x of
      Inl (m, _, _) \<Rightarrow> (hm_count m, 1, 0)
    | Inr (es, nm) \<Rightarrow> (length es + hm_count nm, 0, length es))"

lemma add_rank_simps [simp]:
  "add_rank (Inl (m, k, v)) = (hm_count m, 1, 0)" "add_rank (Inr (es, nm)) = (length es + hm_count nm, 0, length es)"
  by (simp_all add: add_rank_def)

termination addToHashMap
proof (relation "inv_image (less_than <*lex*> less_than <*lex*> less_than) add_rank", goal_cases)
  case (2 m key val)
  then show ?case by (simp add: hm_count_def [symmetric])
next
  case (4 e es nm)
  then have "hm_count (addToHashMap nm (fst e) (snd e)) \<le> Suc (hm_count nm)"
    by (rule hm_count_add_partial(1))
  then show ?case by auto
qed auto

declare addToHashMap.simps [simp del]

section \<open>The map implements a finite map\<close>

text \<open>The invariant: every pair is in the bucket of its key, no key twice, and the counter is at least the
  number of pairs.\<close>

definition hm_ok :: "'v hashmap \<Rightarrow> bool" where
  "hm_ok m \<longleftrightarrow> (\<forall>i < mapSize m. distinct (map fst (hm_entries m ! i)) \<and>
     (\<forall>e \<in> set (hm_entries m ! i). hash_idx m (fst e) = i)) \<and> int (hm_count m) \<le> hm_num m"

lemma bucket_map_of:
  "(case dropWhile (\<lambda>e. fst e \<noteq> k) b of [] \<Rightarrow> None | e # _ \<Rightarrow> Some (snd e)) = map_of b k"
  by (induction b) auto

lemma get_map_of: "0 < mapSize m \<Longrightarrow> getFromHashMap m k = map_of (bucket_of m k) k"
  by (simp add: getFromHashMap_def bucket_map_of)

lemma hash_idx_less: "0 < mapSize m \<Longrightarrow> hash_idx m k < mapSize m"
  by (simp add: hash_idx_def)

lemma hash_idx_cong: "mapSize m = mapSize m' \<Longrightarrow> hash_idx m k = hash_idx m' k"
  by (simp add: hash_idx_def)

lemma hm_ok_bucket:
  assumes "hm_ok m" and "0 < mapSize m"
  shows "distinct (map fst (bucket_of m k))" "e \<in> set (bucket_of m k) \<Longrightarrow> hash_idx m (fst e) = hash_idx m k"
  using assms(1) hash_idx_less [OF assms(2), of k] unfolding hm_ok_def by blast+

text \<open>Replacing the bucket of a key by one that holds only keys of the old one, or the key itself.\<close>

lemma bucket_update:
  assumes "hm_ok m" and "0 < mapSize m" and "hm_entries m' = (hm_entries m)[hash_idx m k := b]"
    and "distinct (map fst b)" and "fst ` set b \<subseteq> insert k (fst ` set (bucket_of m k))"
    and "int (hm_count m') \<le> hm_num m'" and "\<And>x. x \<noteq> k \<Longrightarrow> map_of b x = map_of (bucket_of m k) x"
  shows "hm_ok m' \<and> getFromHashMap m' = (getFromHashMap m)(k := map_of b k)"
proof (rule conjI)
  have sz: "mapSize m' = mapSize m" by (simp add: mapSize_def assms(3))
  have idx: "hash_idx m' x = hash_idx m x" for x by (rule hash_idx_cong [OF sz])
  have len: "hash_idx m k < length (hm_entries m)"
    using hash_idx_less [OF assms(2)] by (simp add: mapSize_def)
  have b: "hash_idx m (fst e) = hash_idx m k" if "e \<in> set b" for e
  proof -
    have "fst e \<in> insert k (fst ` set (bucket_of m k))" by (rule subsetD [OF assms(5) imageI [OF that]])
    then show ?thesis
    proof
      assume "fst e \<in> fst ` set (bucket_of m k)"
      then obtain e' where "e' \<in> set (bucket_of m k)" and e': "fst e = fst e'" by (rule imageE)
      from hm_ok_bucket(2) [OF assms(1,2) this(1)] show ?thesis unfolding e' .
    qed simp
  qed
  show "hm_ok m'"
    using assms(1,4,6) len b by (auto simp: hm_ok_def sz idx assms(3) nth_list_update)
  show "getFromHashMap m' = (getFromHashMap m)(k := map_of b k)"
  proof
    fix x
    have g: "getFromHashMap m' x = map_of ((hm_entries m)[hash_idx m k := b] ! hash_idx m x) x"
      using get_map_of [of m' x] assms(2) by (simp add: sz idx assms(3))
    show "getFromHashMap m' x = ((getFromHashMap m)(k := map_of b k)) x"
    proof (cases "x = k")
      case False
      then show ?thesis
        using g assms(7) len get_map_of [OF assms(2), of x]
        by (cases "hash_idx m x = hash_idx m k") (auto simp: nth_list_update)
    qed (use g len in simp)
  qed
qed

lemma dropWhile_key:
  assumes "dropWhile (\<lambda>e. fst e \<noteq> k) b = e # post"
  shows "b = takeWhile (\<lambda>e. fst e \<noteq> k) b @ e # post" "fst e = k"
  using assms takeWhile_dropWhile_id [of "\<lambda>e. fst e \<noteq> k" b] hd_dropWhile [of "\<lambda>e. fst e \<noteq> k" b] by auto

lemma map_of_middle:
  "x \<noteq> k \<Longrightarrow> fst e = k \<Longrightarrow> map_of (pre @ (k, v) # post) x = map_of (pre @ e # post) x"
  by (cases e) (auto simp: map_of_append map_add_def split: option.splits)

lemma destruct_simps [simp]:
  "hm_entries (destruct e m) = hm_entries m" "hm_num (destruct e m) = hm_num m"
  "hm_destructor (destruct e m) = hm_destructor m"
  by (simp_all add: destruct_def)

text \<open>The pair that a key has in the map.\<close>

definition old_pair :: "'v hashmap \<Rightarrow> hm_key \<Rightarrow> (hm_key \<times> 'v) list" where
  "old_pair m k = (case getFromHashMap m k of None \<Rightarrow> [] | Some v \<Rightarrow> [(k, v)])"

definition fresh :: "'v hashmap \<Rightarrow> hm_key \<Rightarrow> nat" where
  "fresh m k = (if getFromHashMap m k = None then 1 else 0)"

text \<open>What storing a pair has to do: \<open>m'\<close> is the map after it.\<close>

definition stores :: "'v hashmap \<Rightarrow> hm_key \<Rightarrow> 'v \<Rightarrow> 'v hashmap \<Rightarrow> bool" where
  "stores m k v m' \<longleftrightarrow> hm_ok m' \<and> 0 < mapSize m' \<and> getFromHashMap m' = (getFromHashMap m)(k \<mapsto> v) \<and>
     hm_calls m' = hm_calls m @ (if hm_destructor m then old_pair m k else []) \<and>
     hm_destructor m' = hm_destructor m \<and> hm_count m' = hm_count m + fresh m k \<and>
     hm_num m + int (fresh m k) \<le> hm_num m'"

lemma put_entry_absent_stores:
  assumes "hm_ok m" and "0 < mapSize m" and absent: "dropWhile (\<lambda>e. fst e \<noteq> k) (bucket_of m k) = []"
  shows "stores m k v (put_entry m k v)"
proof -
  let ?b = "bucket_of m k" and ?m = "put_entry m k v"
  have len: "hash_idx m k < length (hm_entries m)"
    using hash_idx_less [OF assms(2)] by (simp add: mapSize_def)
  have m: "?m = m\<lparr>hm_entries := (hm_entries m)[hash_idx m k := ?b @ [(k, v)]], hm_num := hm_num m + 1\<rparr>"
    by (rule put_entry_absent [OF absent])
  have nk: "k \<notin> fst ` set ?b" using absent by auto
  then have g: "getFromHashMap m k = None" using get_map_of [OF assms(2), of k] by (simp add: map_of_eq_None_iff)
  have cnt: "hm_count ?m = hm_count m + 1"
    using length_concat_update [OF len, of "?b @ [(k, v)]"] by (simp add: m hm_count_def)
  have e: "hm_entries ?m = (hm_entries m)[hash_idx m k := ?b @ [(k, v)]]" by (simp add: m)
  have "distinct (map fst (?b @ [(k, v)]))" using hm_ok_bucket(1) [OF assms(1,2)] nk by simp
  moreover have "fst ` set (?b @ [(k, v)]) \<subseteq> insert k (fst ` set ?b)" by auto
  moreover have "int (hm_count ?m) \<le> hm_num ?m" using assms(1) cnt by (simp add: m hm_ok_def)
  moreover have "map_of (?b @ [(k, v)]) x = map_of ?b x" if "x \<noteq> k" for x
    using that by (simp add: map_add_def split: option.splits)
  ultimately have "hm_ok ?m \<and> getFromHashMap ?m = (getFromHashMap m)(k := map_of (?b @ [(k, v)]) k)"
    by (rule bucket_update [OF assms(1,2) e])
  moreover have "map_of (?b @ [(k, v)]) k = Some v"
    using iffD2 [OF map_of_eq_None_iff nk] by (simp add: map_add_def)
  moreover have "mapSize ?m = mapSize m" by (simp add: m mapSize_def)
  ultimately show ?thesis
    using cnt g assms(2) by (simp add: m stores_def fresh_def old_pair_def)
qed

lemma put_entry_found_stores:
  assumes "hm_ok m" and "0 < mapSize m" and found: "dropWhile (\<lambda>e. fst e \<noteq> k) (bucket_of m k) = e # post"
  shows "stores m k v (put_entry m k v)"
proof -
  let ?b = "bucket_of m k" and ?m = "put_entry m k v" and ?pre = "takeWhile (\<lambda>e. fst e \<noteq> k) (bucket_of m k)"
  let ?b' = "?pre @ (k, v) # post"
  have len: "hash_idx m k < length (hm_entries m)"
    using hash_idx_less [OF assms(2)] by (simp add: mapSize_def)
  have m: "?m = (destruct e m)\<lparr>hm_entries := (hm_entries m)[hash_idx m k := ?b']\<rparr>"
    by (rule put_entry_found [OF found])
  note b = dropWhile_key [OF found]
  have pre: "map_of ?pre k = None" by (auto simp: map_of_eq_None_iff dest: set_takeWhileD)
  have g: "getFromHashMap m k = Some (snd e)"
    using get_map_of [OF assms(2), of k] b pre by (metis (no_types) bucket_map_of found list.case(2))
  have cnt: "hm_count ?m = hm_count m"
    using length_concat_update [OF len, of ?b'] arg_cong [OF b(1), of length] by (simp add: m hm_count_def)
  have e: "hm_entries ?m = (hm_entries m)[hash_idx m k := ?b']" by (simp add: m)
  have keys: "map fst ?b' = map fst ?b"
    using arg_cong [OF b(1), of "map fst"] b(2) by simp
  then have "distinct (map fst ?b')" using hm_ok_bucket(1) [OF assms(1,2)] by metis
  moreover from arg_cong [OF keys, of set] have "fst ` set ?b' \<subseteq> insert k (fst ` set ?b)"
    unfolding set_map by blast
  moreover have "int (hm_count ?m) \<le> hm_num ?m" using assms(1) cnt by (simp add: m hm_ok_def)
  moreover have "map_of ?b' x = map_of ?b x" if "x \<noteq> k" for x
    using map_of_middle [OF that b(2), of ?pre v post] b(1) by metis
  ultimately have "hm_ok ?m \<and> getFromHashMap ?m = (getFromHashMap m)(k := map_of ?b' k)"
    by (rule bucket_update [OF assms(1,2) e])
  moreover have "map_of ?b' k = Some v" using pre by (simp add: map_add_def)
  moreover have "mapSize ?m = mapSize m" by (simp add: m mapSize_def)
  moreover have "hm_calls ?m = hm_calls m @ (if hm_destructor m then old_pair m k else [])"
    using g b(2) by (cases e) (simp add: m old_pair_def destruct_def)
  ultimately show ?thesis
    using cnt g assms(2) by (simp add: stores_def fresh_def) (simp add: m)
qed

lemma put_entry_stores: "hm_ok m \<Longrightarrow> 0 < mapSize m \<Longrightarrow> stores m k v (put_entry m k v)"
  by (cases "dropWhile (\<lambda>e. fst e \<noteq> k) (bucket_of m k)")
    (rule put_entry_absent_stores put_entry_found_stores, assumption+)+

section \<open>Growth keeps the entries\<close>

lemma hm_ok_distinct: "hm_ok m \<Longrightarrow> distinct (map fst (concat (hm_entries m)))"
  by (rule distinct_buckets [where f = "hash_idx m" and off = 0]) (simp add: hm_ok_def mapSize_def)

lemma get_concat: "hm_ok m \<Longrightarrow> getFromHashMap m = map_of (concat (hm_entries m))"
proof (rule ext, cases "mapSize m = 0")
  fix k
  assume ok: "hm_ok m" and "mapSize m \<noteq> 0"
  then have pos: "0 < mapSize m" by simp
  have idx: "hash_idx m k < length (hm_entries m)" using hash_idx_less [OF pos] by (simp add: mapSize_def)
  have "(k, v) \<in> set (concat (hm_entries m)) \<longleftrightarrow> (k, v) \<in> set (bucket_of m k)" for v
  proof
    assume "(k, v) \<in> set (concat (hm_entries m))"
    then obtain i where i: "i < length (hm_entries m)" "(k, v) \<in> set (hm_entries m ! i)"
      by (metis UN_E in_set_conv_nth set_concat)
    with ok have "hash_idx m k = i" by (force simp: hm_ok_def mapSize_def)
    with i show "(k, v) \<in> set (bucket_of m k)" by simp
  next
    assume "(k, v) \<in> set (bucket_of m k)"
    with nth_mem [OF idx] show "(k, v) \<in> set (concat (hm_entries m))" by auto
  qed
  then have "map_of (bucket_of m k) k = map_of (concat (hm_entries m)) k"
    using map_of_eq_Some_iff [OF hm_ok_bucket(1) [OF ok pos, of k], of k]
      map_of_eq_Some_iff [OF hm_ok_distinct [OF ok], of k] by (metis not_Some_eq)
  then show "getFromHashMap m k = map_of (concat (hm_entries m)) k"
    by (simp add: get_map_of [OF pos])
qed (simp add: getFromHashMap_def mapSize_def)

lemma hm_ok_cong:
  "hm_entries m' = hm_entries m \<Longrightarrow> hm_num m' = hm_num m \<Longrightarrow>
     hm_ok m' = hm_ok m \<and> getFromHashMap m' = getFromHashMap m \<and> mapSize m' = mapSize m \<and> hm_count m' = hm_count m"
  by (simp add: hm_ok_def mapSize_def hash_idx_def hm_count_def getFromHashMap_def fun_eq_iff)

lemma new_map_ok:
  assumes "hm_ok m"
  shows "hm_ok (new_map m)" "getFromHashMap (new_map m) = Map.empty" "0 < mapSize (new_map m)"
  using assms by (auto simp: hm_ok_def mapSize_def new_map_def getFromHashMap_def hash_idx_def hm_count_def grown_size_def)

text \<open>A list of pairs with new keys, moved into a map.\<close>

definition moves :: "(hm_key \<times> 'v) list \<Rightarrow> 'v hashmap \<Rightarrow> 'v hashmap \<Rightarrow> bool" where
  "moves es nm m' \<longleftrightarrow> hm_ok m' \<and> 0 < mapSize m' \<and> getFromHashMap m' = getFromHashMap nm ++ map_of es \<and>
     hm_calls m' = hm_calls nm \<and> hm_count m' = hm_count nm + length es \<and> hm_num nm + int (length es) \<le> hm_num m'"

lemma stores_moves:
  assumes "stores nm (fst e) (snd e) m1" and "moves es m1 m2" and "getFromHashMap nm (fst e) = None"
    and "fst e \<notin> fst ` set es"
  shows "moves (e # es) nm m2"
proof -
  have "(getFromHashMap nm)(fst e \<mapsto> snd e) ++ map_of es = getFromHashMap nm ++ map_of (e # es)"
    using iffD2 [OF map_of_eq_None_iff assms(4)] by (cases e) (auto simp: map_add_def fun_eq_iff split: option.splits)
  then show ?thesis
    using assms(1-3) by (auto simp: stores_def moves_def old_pair_def fresh_def)
qed

lemma moved_map:
  assumes "hm_ok m" and "moves (concat (hm_entries m)) (new_map m) nm"
  shows "hm_ok (m\<lparr>hm_entries := hm_entries nm, hm_num := hm_num nm\<rparr>)"
    and "0 < mapSize (m\<lparr>hm_entries := hm_entries nm, hm_num := hm_num nm\<rparr>)"
    and "getFromHashMap (m\<lparr>hm_entries := hm_entries nm, hm_num := hm_num nm\<rparr>) = getFromHashMap m"
    and "hm_count (m\<lparr>hm_entries := hm_entries nm, hm_num := hm_num nm\<rparr>) = hm_count m"
    and "hm_num m + int (hm_count m) \<le> hm_num nm"
  using assms hm_ok_cong [of "m\<lparr>hm_entries := hm_entries nm, hm_num := hm_num nm\<rparr>" nm] get_concat [OF assms(1)]
    new_map_ok(2) [OF assms(1)]
  by (auto simp: moves_def hm_count_def [of m]) (simp_all add: new_map_def)

lemma stores_cong:
  assumes "stores m1 k v m'" and "getFromHashMap m1 = getFromHashMap m" and "hm_calls m1 = hm_calls m"
    and "hm_destructor m1 = hm_destructor m" and "hm_count m1 = hm_count m" and "hm_num m \<le> hm_num m1"
  shows "stores m k v m'"
  using assms by (auto simp: stores_def old_pair_def fresh_def)

lemma add_stores:
  fixes m nm :: "'v hashmap"
  shows "hm_ok m \<Longrightarrow> stores m k v (addToHashMap m k v)"
    and "\<lbrakk>hm_ok nm; 0 < mapSize nm; distinct (map fst es); \<forall>e \<in> set es. getFromHashMap nm (fst e) = None\<rbrakk>
      \<Longrightarrow> moves es nm (move_entries es nm)"
proof (induction m k v and es nm rule: addToHashMap_move_entries.induct)
  case (1 m k v)
  show ?case
  proof (cases "needs_growth m")
    case True
    let ?nm = "move_entries (concat (hm_entries m)) (new_map m)"
    let ?m = "m\<lparr>hm_entries := hm_entries ?nm, hm_num := hm_num ?nm\<rparr>"
    have "moves (concat (hm_entries m)) (new_map m) ?nm"
      using new_map_ok [OF "1.prems"] hm_ok_distinct [OF "1.prems"] by (intro "1.IH" [OF True]) simp_all
    note mv = moved_map [OF "1.prems" this]
    have "stores m k v (put_entry ?m k v)"
      by (rule stores_cong [OF put_entry_stores [OF mv(1,2)] mv(3)]) (use mv(4,5) in simp_all)
    then show ?thesis using True by (simp add: addToHashMap.simps [of m] Let_def)
  next
    case False
    have "0 < mapSize m" using False "1.prems" by (auto simp: needs_growth_def hm_ok_def intro: gr0I)
    then show ?thesis using False put_entry_stores [OF "1.prems"] by (simp add: addToHashMap.simps [of m])
  qed
next
  case (2 nm)
  then show ?case by (simp add: moves_def)
next
  case (3 e es nm)
  have st: "stores nm (fst e) (snd e) (addToHashMap nm (fst e) (snd e))" using "3.IH"(1) "3.prems"(1) by blast
  have "moves es (addToHashMap nm (fst e) (snd e)) (move_entries es (addToHashMap nm (fst e) (snd e)))"
  proof (rule "3.IH"(2))
    have "fst e' \<noteq> fst e" if "e' \<in> set es" for e' using "3.prems"(3) that by (metis distinct.simps(2) image_eqI list.simps(9) set_map)
    then show "\<forall>e' \<in> set es. getFromHashMap (addToHashMap nm (fst e) (snd e)) (fst e') = None"
      using "3.prems"(4) st by (simp add: stores_def)
  qed (use "3.prems" st in \<open>simp_all add: stores_def\<close>)
  with st show ?case using "3.prems" stores_moves by (simp add: stores_moves)
qed

lemmas add_correct = add_stores(1) [unfolded stores_def]

text \<open>The counter, as opposed to the number of pairs, also grows by the number of pairs whenever the array
  does.\<close>

lemma add_growth_counter:
  assumes "hm_ok m" and "needs_growth m"
  shows "hm_num m + int (hm_count m) \<le> hm_num (addToHashMap m k v)"
proof -
  let ?nm = "move_entries (concat (hm_entries m)) (new_map m)"
  let ?m = "m\<lparr>hm_entries := hm_entries ?nm, hm_num := hm_num ?nm\<rparr>"
  have "moves (concat (hm_entries m)) (new_map m) ?nm"
    using new_map_ok [OF assms(1)] hm_ok_distinct [OF assms(1)] by (intro add_stores(2)) simp_all
  note mv = moved_map [OF assms(1) this]
  have "hm_num ?m \<le> hm_num (put_entry ?m k v)"
    using put_entry_stores [OF mv(1,2), of k v] unfolding stores_def by linarith
  then show ?thesis using mv(5) assms(2) by (simp add: addToHashMap.simps [of m] Let_def)
qed

section \<open>Removal\<close>

text \<open>The last element takes the place of the one that goes.\<close>

lemma swap_remove_mset:
  assumes "i < length b"
  shows "mset (b ! i # butlast (b[i := last b])) = mset b"
proof -
  have "last (b[i := last b]) = last b" using assms by (cases "b = []") (simp_all add: last_list_update)
  then have "mset (b[i := last b]) = add_mset (last b) (mset (butlast (b[i := last b])))"
    using assms append_butlast_last_id [of "b[i := last b]"] by (metis list_update_nonempty length_0_conv
        less_nat_zero_code mset.simps(1) mset.simps(2) mset_append union_mset_add_mset_right add.right_neutral)
  moreover have "mset (b[i := last b]) = add_mset (last b) (mset b - {#b ! i#})" using assms by (rule mset_update)
  ultimately have "mset b - {#b ! i#} = mset (butlast (b[i := last b]))" by simp
  then show ?thesis using insert_DiffM [of "b ! i" "mset b"] assms by simp
qed

lemma mset_keys:
  assumes "mset xs = mset ys" and "distinct (map fst ys)"
  shows "distinct (map fst xs)" "map_of xs = map_of ys"
proof -
  show d: "distinct (map fst xs)" using assms by (metis mset_eq_imp_distinct_iff mset_map)
  show "map_of xs = map_of ys" using map_of_inject_set [OF d assms(2)] mset_eq_setD [OF assms(1)] by blast
qed

lemma swap_remove_keys:
  assumes "i < length b" and "distinct (map fst b)"
  shows "distinct (map fst (butlast (b[i := last b])))" "map_of (butlast (b[i := last b])) = (map_of b)(fst (b ! i) := None)"
    "set (butlast (b[i := last b])) \<subseteq> set b"
proof -
  let ?b = "butlast (b[i := last b])"
  note k = mset_keys [OF swap_remove_mset [OF assms(1)] assms(2)]
  from k(1) show "distinct (map fst ?b)" by simp
  from k(1) have "fst (b ! i) \<notin> fst ` set ?b" by simp
  then have "map_of ?b (fst (b ! i)) = None" by (simp add: map_of_eq_None_iff)
  then show "map_of ?b = (map_of b)(fst (b ! i) := None)"
    using k(2) [symmetric] by (cases "b ! i") auto
  show "set ?b \<subseteq> set b" using mset_eq_setD [OF swap_remove_mset [OF assms(1)]] by auto
qed

declare del_bucket.simps [simp del] iter_bucket.simps [simp del]

lemma del_bucket_absent: "\<forall>j < length b. i \<le> j \<longrightarrow> fst (b ! j) \<noteq> k \<Longrightarrow> del_bucket k i b gone = (b, gone)"
  by (induction k i b gone rule: del_bucket.induct) (subst del_bucket.simps, auto)

lemma del_bucket_found:
  assumes "distinct (map fst b)" and "p < length b" and "fst (b ! p) = k"
  shows "i \<le> p \<Longrightarrow> del_bucket k i b gone = (butlast (b[p := last b]), gone @ [b ! p])"
proof (induction "p - i" arbitrary: i)
  case 0
  let ?b = "butlast (b[p := last b])"
  have "fst (b ! p) \<notin> fst ` set ?b"
    using mset_keys(1) [OF swap_remove_mset [OF assms(2)] assms(1)] by simp
  then have "\<forall>j < length ?b. Suc p \<le> j \<longrightarrow> fst (?b ! j) \<noteq> k" using assms(3) by (metis image_eqI nth_mem)
  from del_bucket_absent [OF this] 0 assms(2,3) show ?case by (subst del_bucket.simps) simp
next
  case (Suc d)
  then have "i < p" by simp
  then have "fst (b ! i) \<noteq> k"
    using assms nth_eq_iff_index_eq [OF assms(1), of i p] by auto
  with Suc assms(2) \<open>i < p\<close> show ?case by (subst del_bucket.simps) simp
qed

lemma del_bucket_cases:
  assumes "distinct (map fst b)"
  obtains (absent) "map_of b k = None" "del_bucket k 0 b [] = (b, [])"
  | (found) p where "p < length b" "fst (b ! p) = k" "map_of b k = Some (snd (b ! p))"
      "del_bucket k 0 b [] = (butlast (b[p := last b]), [b ! p])"
proof (cases "map_of b k")
  case None
  then have "k \<notin> fst ` set b" by (simp add: map_of_eq_None_iff)
  then have "\<forall>j < length b. 0 \<le> j \<longrightarrow> fst (b ! j) \<noteq> k" by (metis image_eqI nth_mem)
  from del_bucket_absent [OF this] None show thesis by (rule absent [rotated])
next
  case (Some v)
  then obtain p where p: "p < length b" "b ! p = (k, v)" by (metis in_set_conv_nth map_of_SomeD)
  with found [of p] del_bucket_found [OF assms p(1), of k 0 "[]"] Some show thesis by simp
qed

lemma fold_destruct:
  "fold destruct es m = m\<lparr>hm_calls := hm_calls m @ (if hm_destructor m then es else [])\<rparr>"
  by (induction es arbitrary: m) (auto simp: destruct_def)

lemma delete_found:
  assumes "hm_ok m" and "0 < mapSize m" and p: "p < length (bucket_of m k)" "fst (bucket_of m k ! p) = k"
    and "hm_entries m' = (hm_entries m)[hash_idx m k := butlast ((bucket_of m k)[p := last (bucket_of m k)])]"
    and "hm_num m' = hm_num m - 1"
  shows "hm_ok m' \<and> getFromHashMap m' = (getFromHashMap m)(k := None) \<and> hm_count m = hm_count m' + 1"
proof -
  let ?b = "bucket_of m k" and ?b' = "butlast ((bucket_of m k)[p := last (bucket_of m k)])"
  have len: "hash_idx m k < length (hm_entries m)"
    using hash_idx_less [OF assms(2)] by (simp add: mapSize_def)
  note r = swap_remove_keys [OF p(1) hm_ok_bucket(1) [OF assms(1,2)]]
  have cnt: "hm_count m = hm_count m' + 1"
    using length_concat_update [OF len, of ?b'] p(1) by (simp add: hm_count_def assms(5))
  then have "int (hm_count m') \<le> hm_num m'" using assms(1,6) by (simp add: hm_ok_def)
  moreover have "fst ` set ?b' \<subseteq> insert k (fst ` set ?b)" using r(3) by blast
  moreover have "map_of ?b' x = map_of ?b x" if "x \<noteq> k" for x using r(2) p(2) that by simp
  ultimately have "hm_ok m' \<and> getFromHashMap m' = (getFromHashMap m)(k := map_of ?b' k)"
    using r(1) by (intro bucket_update [OF assms(1,2,5)]) auto
  with cnt r(2) p(2) show ?thesis by simp
qed

lemma delete_correct:
  assumes "hm_ok m"
  shows "hm_ok (deleteFromHashMap m k) \<and> getFromHashMap (deleteFromHashMap m k) = (getFromHashMap m)(k := None) \<and>
    hm_calls (deleteFromHashMap m k) = hm_calls m @ (if hm_destructor m then old_pair m k else []) \<and>
    hm_count m = hm_count (deleteFromHashMap m k) + length (old_pair m k) \<and>
    hm_num (deleteFromHashMap m k) = hm_num m - int (length (old_pair m k))"
proof (cases "mapSize m = 0")
  case True
  then have "getFromHashMap m = Map.empty" by (simp add: getFromHashMap_def fun_eq_iff)
  with True assms show ?thesis by (simp add: deleteFromHashMap_def old_pair_def)
next
  case False
  then have pos: "0 < mapSize m" by simp
  from hm_ok_bucket(1) [OF assms pos, of k] show ?thesis
  proof (cases rule: del_bucket_cases [where k = k])
    case absent
    then have "deleteFromHashMap m k = m" using False by (simp add: deleteFromHashMap_def)
    moreover have "getFromHashMap m k = None" using absent(1) by (simp add: get_map_of [OF pos])
    ultimately show ?thesis using assms by (simp add: old_pair_def fun_upd_idem)
  next
    case (found p)
    have "deleteFromHashMap m k = (destruct (bucket_of m k ! p) m)\<lparr>hm_entries :=
        (hm_entries m)[hash_idx m k := butlast ((bucket_of m k)[p := last (bucket_of m k)])], hm_num := hm_num m - 1\<rparr>"
      using False found(4) by (simp add: deleteFromHashMap_def Let_def)
    note d = this delete_found [OF assms pos found(1,2), of "deleteFromHashMap m k"]
    have g: "getFromHashMap m k = Some (snd (bucket_of m k ! p))" using found(3) by (simp add: get_map_of [OF pos])
    have "hm_calls (deleteFromHashMap m k) = hm_calls m @ (if hm_destructor m then old_pair m k else [])"
      using g found(2) by (cases "bucket_of m k ! p") (simp add: d(1) old_pair_def destruct_def)
    moreover have "hm_num (deleteFromHashMap m k) = hm_num m - int (length (old_pair m k))"
      using g by (simp add: d(1) old_pair_def)
    ultimately show ?thesis using d g by (simp add: old_pair_def)
  qed
qed

interpretation hm: kv_store getFromHashMap addToHashMap deleteFromHashMap hm_ok "\<lambda>_ _. True"
  by unfold_locales (simp_all add: add_correct delete_correct)

section \<open>Iteration\<close>

text \<open>A callback whose answer depends on the pair only, and that records the pairs it is called with.\<close>

definition visit ::
  "(hm_key \<Rightarrow> 'v \<Rightarrow> bool) \<Rightarrow> (hm_key \<Rightarrow> 'v \<Rightarrow> 'v) \<Rightarrow> (hm_key \<times> 'v) list \<Rightarrow> hm_key \<Rightarrow> 'v \<Rightarrow> bool \<times> 'v \<times> (hm_key \<times> 'v) list" where
  "visit keep upd s k v = (keep k v, upd k v, s @ [(k, v)])"

definition kept :: "(hm_key \<Rightarrow> 'v \<Rightarrow> bool) \<Rightarrow> (hm_key \<Rightarrow> 'v \<Rightarrow> 'v) \<Rightarrow> (hm_key \<times> 'v) list \<Rightarrow> (hm_key \<times> 'v) list" where
  "kept keep upd b = map (\<lambda>(k, v). (k, upd k v)) (filter (\<lambda>(k, v). keep k v) b)"

abbreviation dropped :: "(hm_key \<Rightarrow> 'v \<Rightarrow> bool) \<Rightarrow> (hm_key \<Rightarrow> 'v \<Rightarrow> 'v) \<Rightarrow> (hm_key \<times> 'v) list \<Rightarrow> (hm_key \<times> 'v) list" where
  "dropped keep upd b \<equiv> kept (\<lambda>k v. \<not> keep k v) upd b"

lemma kept_simps [simp]:
  "kept keep upd [] = []" "kept keep upd (e # b) = (if keep (fst e) (snd e) then [(fst e, upd (fst e) (snd e))] else []) @ kept keep upd b"
  "kept keep upd (b @ b') = kept keep upd b @ kept keep upd b'"
  by (auto simp: kept_def split: prod.splits)

lemma mset_kept_cong: "mset b = mset b' \<Longrightarrow> mset (kept keep upd b) = mset (kept keep upd b')"
  by (simp add: kept_def)

lemma map_of_kept:
  "distinct (map fst b) \<Longrightarrow>
     map_of (kept keep upd b) k = (case map_of b k of Some v \<Rightarrow> if keep k v then Some (upd k v) else None | None \<Rightarrow> None)"
proof (induction b)
  case (Cons e b)
  then have "fst e \<notin> fst ` set b" by simp
  then have "map_of b (fst e) = None" by (simp add: map_of_eq_None_iff)
  with Cons show ?case by (auto simp: map_add_def split: option.splits)
qed simp

lemma distinct_kept: "distinct (map fst b) \<Longrightarrow> distinct (map fst (kept keep upd b))"
  by (simp add: kept_def comp_def case_prod_beta distinct_map_filter)

lemma swap_remove_rest:
  assumes "j < length b"
  shows "take j (butlast (b[j := last b])) = take j b"
    and "mset (drop j (butlast (b[j := last b]))) = mset (drop (Suc j) b)"
proof -
  let ?b = "butlast (b[j := last b])"
  have tk: "take j ?b = take j b" using assms by (simp add: take_butlast)
  then show "take j ?b = take j b" .
  have "add_mset (b ! j) (mset (take j ?b @ drop j ?b)) = mset (take j b @ b ! j # drop (Suc j) b)"
    using swap_remove_mset [OF assms] id_take_nth_drop [OF assms] by (metis append_take_drop_id mset.simps(2))
  then show "mset (drop j ?b) = mset (drop (Suc j) b)" unfolding tk by simp
qed

lemma iter_bucket_step:
  assumes "j < length b" and "b ! j = (k, v)"
  shows "iter_bucket (visit keep upd) j b gone s =
    (let b' = b[j := (k, upd k v)] in
     if keep k v then iter_bucket (visit keep upd) (Suc j) b' gone (s @ [(k, v)])
     else iter_bucket (visit keep upd) j (butlast (b'[j := last b'])) (gone @ [(k, upd k v)]) (s @ [(k, v)]))"
  using assms by (simp add: iter_bucket.simps [of _ j b] visit_def Let_def)

lemma iter_bucket_visit:
  assumes "iter_bucket (visit keep upd) j b gone s = (b', gone', s')" and "j \<le> length b"
  shows "mset b' = mset (take j b @ kept keep upd (drop j b)) \<and> mset gone' = mset (gone @ dropped keep upd (drop j b)) \<and>
    mset s' = mset (s @ drop j b)"
  using assms
proof (induction "length b - j" arbitrary: j b gone s)
  case 0
  then show ?case by (simp add: iter_bucket.simps [of _ j b])
next
  case (Suc n)
  then have j: "j < length b" by simp
  obtain k v where e: "b ! j = (k, v)" by (cases "b ! j")
  let ?b = "b[j := (k, upd k v)]"
  have d: "drop j b = (k, v) # drop (Suc j) b" using Cons_nth_drop_Suc [OF j] e by simp
  note step = iter_bucket_step [OF j e]
  show ?case
  proof (cases "keep k v")
    case True
    have "iter_bucket (visit keep upd) (Suc j) ?b gone (s @ [(k, v)]) = (b', gone', s')"
      using Suc.prems(1) True by (simp add: step)
    from Suc.hyps(1) [OF _ this] Suc.hyps(2) j True show ?thesis
      by (simp add: d take_Suc_conv_app_nth)
  next
    case False
    let ?c = "butlast (?b[j := last ?b])"
    have c: "take j ?c = take j b" "mset (drop j ?c) = mset (drop (Suc j) b)"
      using swap_remove_rest [of j ?b] j by simp_all
    have "iter_bucket (visit keep upd) j ?c (gone @ [(k, upd k v)]) (s @ [(k, v)]) = (b', gone', s')"
      using Suc.prems(1) False by (simp add: step Let_def)
    from Suc.hyps(1) [OF _ this] Suc.hyps(2) j False c mset_kept_cong [OF c(2)] show ?thesis
      by (simp add: d)
  qed
qed

lemma iter_buckets_visit:
  "iter_buckets (visit keep upd) bs s = (bs', gone, s') \<Longrightarrow>
     list_all2 (\<lambda>b b'. mset b' = mset (kept keep upd b)) bs bs' \<and> mset gone = mset (dropped keep upd (concat bs)) \<and>
     mset s' = mset (s @ concat bs)"
proof (induction bs arbitrary: s bs' gone s')
  case (Cons b bs)
  obtain b1 g1 s1 where 1: "iter_bucket (visit keep upd) 0 b [] s = (b1, g1, s1)" by (metis prod_cases3)
  obtain b2 g2 s2 where 2: "iter_buckets (visit keep upd) bs s1 = (b2, g2, s2)" by (metis prod_cases3)
  from Cons.prems iter_bucket_visit [OF 1] Cons.IH [OF 2] show ?case by (auto simp: 1 2)
qed simp

lemma list_all2_kept:
  assumes "list_all2 (\<lambda>b b'. mset b' = mset (kept keep upd b)) bs bs'"
  shows "mset (concat bs') = mset (kept keep upd (concat bs))"
  using assms by (induction rule: list_all2_induct) simp_all

lemma hm_ok_kept:
  assumes "hm_ok m" and "list_all2 (\<lambda>b b'. mset b' = mset (kept keep upd b)) (hm_entries m) (hm_entries m')"
    and "hm_num m' = hm_num m"
  shows "hm_ok m'"
proof -
  have len: "length (hm_entries m') = length (hm_entries m)" using list_all2_lengthD [OF assms(2)] by simp
  then have idx: "hash_idx m' x = hash_idx m x" for x by (simp add: hash_idx_def mapSize_def)
  have "hm_count m' \<le> hm_count m"
    using mset_eq_length [OF list_all2_kept [OF assms(2)]] length_filter_le by (simp add: hm_count_def kept_def)
  moreover have "distinct (map fst (hm_entries m' ! i)) \<and> (\<forall>e \<in> set (hm_entries m' ! i). hash_idx m (fst e) = i)"
    if "i < length (hm_entries m)" for i
  proof -
    have b: "mset (hm_entries m' ! i) = mset (kept keep upd (hm_entries m ! i))"
      using list_all2_nthD [OF assms(2) that] by simp
    have o: "distinct (map fst (hm_entries m ! i))" "\<forall>e \<in> set (hm_entries m ! i). hash_idx m (fst e) = i"
      using assms(1) that by (auto simp: hm_ok_def mapSize_def)
    have "set (hm_entries m' ! i) = set (kept keep upd (hm_entries m ! i))" by (rule mset_eq_setD [OF b])
    then show ?thesis using mset_keys(1) [OF b distinct_kept [OF o(1)]] o(2) by (auto simp: kept_def)
  qed
  ultimately show ?thesis using assms(1,3) by (simp add: hm_ok_def mapSize_def len idx)
qed

lemma iterate_correct:
  assumes "hm_ok m" and "iterateOverHashMap (visit keep upd) m [] = (m', s')"
  shows "hm_ok m' \<and> getFromHashMap m' = (\<lambda>k. case getFromHashMap m k of Some v \<Rightarrow> if keep k v then Some (upd k v) else None
      | None \<Rightarrow> None) \<and> mset s' = mset (concat (hm_entries m)) \<and> hm_num m' = hm_num m \<and>
    mset (hm_calls m') = mset (hm_calls m @ (if hm_destructor m then dropped keep upd (concat (hm_entries m)) else []))"
proof -
  obtain es gone s where i: "iter_buckets (visit keep upd) (hm_entries m) [] = (es, gone, s)" by (metis prod_cases3)
  note v = iter_buckets_visit [OF i]
  have m': "m' = (fold destruct gone m)\<lparr>hm_entries := es\<rparr>" "s' = s"
    using assms(2) by (simp_all add: iterateOverHashMap_def i)
  have ok: "hm_ok m'" using v by (intro hm_ok_kept [OF assms(1)]) (auto simp: m' fold_destruct)
  have "mset (concat (hm_entries m')) = mset (kept keep upd (concat (hm_entries m)))"
    using list_all2_kept v by (auto simp: m')
  from mset_keys(2) [OF this distinct_kept [OF hm_ok_distinct [OF assms(1)]]]
  have "getFromHashMap m' = map_of (kept keep upd (concat (hm_entries m)))" by (simp add: get_concat [OF ok])
  with ok v show ?thesis
    by (simp add: m' fold_destruct get_concat [OF assms(1)] map_of_kept [OF hm_ok_distinct [OF assms(1)]] fun_eq_iff)
qed

section \<open>Properties\<close>

lemma hm_ok_init [simp]: "hm_ok (initHashMap d)"
  by (simp add: hm_ok_def initHashMap_def mapSize_def hm_count_def)

text \<open>The operations that change a map, and the maps a program can build with them.\<close>

inductive hm_reach :: "'v hashmap \<Rightarrow> bool" where
  init: "hm_reach (initHashMap d)"
| add: "hm_reach m \<Longrightarrow> hm_reach (addToHashMap m k v)"
| del: "hm_reach m \<Longrightarrow> hm_reach (deleteFromHashMap m k)"
| iter: "hm_reach m \<Longrightarrow> hm_reach (fst (iterateOverHashMap (visit keep upd) m []))"

lemma hm_reach_ok: "hm_reach m \<Longrightarrow> hm_ok m"
proof (induction rule: hm_reach.induct)
  case (iter m keep upd)
  then show ?case
    using iterate_correct [OF iter.IH, of keep upd] by (cases "iterateOverHashMap (visit keep upd) m []") auto
qed (simp_all add: add_correct delete_correct)

text \<open>
  C36: the hash map is a finite map. Filling an empty map with a list of pairs, growing the array on the
  way as often as needed, and then removing a key gives the map of the list, the last pair of a key counting,
  without the removed key.
\<close>

theorem hashmap_refines_map:
  fixes kvs :: "(hm_key \<times> 'v) list"
  shows "getFromHashMap (deleteFromHashMap (fold (\<lambda>(k, v) m. addToHashMap m k v) kvs (initHashMap d)) key) =
     (map_of (rev kvs))(key := None)"
proof -
  have "getFromHashMap (initHashMap d :: 'v hashmap) = Map.empty"
    by (simp add: getFromHashMap_def initHashMap_def mapSize_def fun_eq_iff)
  then show ?thesis
    using hm.get_put_all [of "initHashMap d" kvs] hm.valid_put_all [of "initHashMap d" kvs]
    by (simp add: hm.get_remove empty_map_add)
qed

text \<open>
  C37: in every map a program can build, each pair is in the bucket of its key, no key is there twice, and the
  counter is at least the number of pairs, so the check after the decrement never fails; but the counter is
  not the number of pairs: when the array grows, the pairs that are there are counted a second time.
\<close>

theorem hashmap_counter:
  assumes "hm_reach m"
  shows "hm_ok m \<and> int (hm_count m) \<le> getHashmapSize m \<and> 0 \<le> hm_num (deleteFromHashMap m k) \<and>
    hm_count (addToHashMap m k v) = hm_count m + (if getFromHashMap m k = None then 1 else 0) \<and>
    (needs_growth m \<longrightarrow> getHashmapSize m + int (hm_count m) \<le> getHashmapSize (addToHashMap m k v))"
proof -
  have ok: "hm_ok m" by (rule hm_reach_ok [OF assms])
  have "hm_ok (deleteFromHashMap m k)" using delete_correct [OF ok] by blast
  then have "0 \<le> hm_num (deleteFromHashMap m k)" by (auto simp: hm_ok_def)
  moreover have "hm_count (addToHashMap m k v) = hm_count m + (if getFromHashMap m k = None then 1 else 0)"
    using add_correct [OF ok, of k v] by (simp add: fresh_def)
  ultimately show ?thesis
    using ok add_growth_counter [OF ok, of k v] by (auto simp: getHashmapSize_def hm_ok_def)
qed

lemma hashmap_counter_witness:
  "hm_reach (initHashMap True :: nat hashmap) \<and>
    (let m = initHashMap True :: nat hashmap
     in hm_ok m \<and> int (hm_count m) \<le> getHashmapSize m \<and> 0 \<le> hm_num (deleteFromHashMap m [97]) \<and>
       hm_count (addToHashMap m [97] 5) = hm_count m + (if getFromHashMap m [97] = None then 1 else 0) \<and>
       (needs_growth m \<longrightarrow> getHashmapSize m + int (hm_count m) \<le> getHashmapSize (addToHashMap m [97] 5)))"
  using hashmap_counter [OF hm_reach.init [of True], where k = "[97]" and v = "5 :: nat"]
  by (simp add: hm_reach.init)

text \<open>
  C38: the destructor is called for exactly the pairs that leave the map. Adding and removing a key call it
  once for the pair the key had, and not at all when it had none; growing the array calls it for no pair,
  although the destructor of the new map is not initialised.
\<close>

theorem hashmap_destructor_calls:
  assumes "hm_reach m" and "hm_destructor m"
  shows "hm_calls (addToHashMap m k v) = hm_calls m @ (case getFromHashMap m k of None \<Rightarrow> [] | Some w \<Rightarrow> [(k, w)]) \<and>
    hm_calls (deleteFromHashMap m k) = hm_calls m @ (case getFromHashMap m k of None \<Rightarrow> [] | Some w \<Rightarrow> [(k, w)]) \<and>
    hm_calls (destroyHashMap m) = hm_calls m @ concat (hm_entries m) \<and>
    hm_calls (move_entries (concat (hm_entries m)) (new_map m)) = []"
proof -
  have ok: "hm_ok m" by (rule hm_reach_ok [OF assms(1)])
  have "moves (concat (hm_entries m)) (new_map m) (move_entries (concat (hm_entries m)) (new_map m))"
    using new_map_ok [OF ok] hm_ok_distinct [OF ok] by (intro add_stores(2)) simp_all
  then have "hm_calls (move_entries (concat (hm_entries m)) (new_map m)) = []" by (simp add: moves_def new_map_def)
  then show ?thesis
    using add_correct [OF ok, of k v] delete_correct [OF ok, of k] assms(2)
    by (simp add: old_pair_def destroyHashMap_def fold_destruct)
qed

lemma hashmap_destructor_calls_witness:
  "let m = addToHashMap (initHashMap True) [97] (5 :: nat)
   in hm_reach m \<and> hm_destructor m \<and>
     hm_calls (addToHashMap m [97] 6) = hm_calls m @ (case getFromHashMap m [97] of None \<Rightarrow> [] | Some w \<Rightarrow> [([97], w)])"
proof -
  have r: "hm_reach (addToHashMap (initHashMap True) [97] (5 :: nat))" by (intro hm_reach.add hm_reach.init)
  have "hm_destructor (addToHashMap (initHashMap True) [97] (5 :: nat))"
    using add_correct [OF hm_ok_init, of True "[97]" "5 :: nat"] by (simp add: initHashMap_def)
  with hashmap_destructor_calls [OF r, where k = "[97]" and v = 6] r show ?thesis by (simp add: Let_def)
qed

text \<open>
  An iteration calls the callback once for every pair, in some order; afterwards the map holds the
  pairs the callback kept, with the values it left, the destructor was called for the others, and the counter
  is the old one.
\<close>

theorem iterate_visits_all:
  assumes "hm_reach m" and "iterateOverHashMap (visit keep upd) m [] = (m', s')"
  shows "mset s' = mset (concat (hm_entries m)) \<and>
    getFromHashMap m' k = (case getFromHashMap m k of Some v \<Rightarrow> if keep k v then Some (upd k v) else None | None \<Rightarrow> None) \<and>
    mset (hm_calls m') = mset (hm_calls m @ (if hm_destructor m then dropped keep upd (concat (hm_entries m)) else [])) \<and>
    getHashmapSize m' = getHashmapSize m"
  using iterate_correct [OF hm_reach_ok [OF assms(1)] assms(2)] by (simp add: getHashmapSize_def)

lemma iterate_visits_all_witness:
  "let m = addToHashMap (initHashMap True) [97] (5 :: nat); r = iterateOverHashMap (visit (\<lambda>_ v. v < 5) (\<lambda>_ v. v)) m []
   in hm_reach m \<and> mset (snd r) = mset (concat (hm_entries m)) \<and> getFromHashMap m [97] = Some 5 \<and>
     getFromHashMap (fst r) [97] = None \<and> getHashmapSize (fst r) = getHashmapSize m"
proof -
  let ?m = "addToHashMap (initHashMap True) [97] (5 :: nat)"
  have r: "hm_reach ?m" by (intro hm_reach.add hm_reach.init)
  have "getFromHashMap ?m [97] = Some 5"
    using add_correct [OF hm_ok_init, of True "[97]" "5 :: nat"] by simp
  with r iterate_visits_all [OF r surjective_pairing, of "\<lambda>_ v. v < 5" "\<lambda>_ v. v" "[97]"] show ?thesis
    by (simp add: Let_def)
qed

end
