(* ===== verification/Trie.thy ===== *)
theory Trie
  imports Fw_Prelude Store_Spec "HOL-Library.Multiset"
begin

text \<open>
  The trie of the web terminal's HTTP library (\<^verbatim>\<open>package/shellinabox/src/libhttp/trie.c\<close>), which finds the handler
  of a URL and the certificate of a server name. A node has a fragment of the keys below it and children
  for the next character; a child for the character NUL holds the value of the key that ends there.

  Keys are C strings: byte lists without NUL. A value is a pointer: \<open>None\<close> is NULL, which is what
  \<^verbatim>\<open>server.c\<close> stores for a handler that is taken away. All nodes of a trie have the same destructor; it is an
  argument of the operations that call it, and they return the values it is called with. A failed
  allocation ends the process and is left out. \<^verbatim>\<open>memcmp\<close> compares up to the first difference, which
  is at the latest the NUL behind the key.
\<close>

section \<open>Model\<close>

type_synonym trie_key = "byte list"

datatype 'v trie = Trie (t_key: trie_key) (t_idx: int) (t_value: "'v option") (t_ch: byte) (t_children: "'v trie list")

definition initTrie :: "'v trie" where
  "initTrie = Trie [] (- 1) None 0 []"

definition value_leaf :: "'v option \<Rightarrow> 'v trie" where
  "value_leaf val = (case initTrie of Trie k i _ c cs \<Rightarrow> Trie k i val c cs)"

definition addLeafToTrie :: "byte \<Rightarrow> trie_key \<Rightarrow> 'v option \<Rightarrow> 'v trie" where
  "addLeafToTrie ch key val = Trie key (int (length key)) None ch [value_leaf val]"

text \<open>The character of a C string at a position: the NUL is behind the last one.\<close>

definition key_at :: "trie_key \<Rightarrow> nat \<Rightarrow> byte" where
  "key_at key i = (if i < length key then key ! i else 0)"

text \<open>The first loop of \<^verbatim>\<open>addToTrie\<close>: the first position below \<open>n\<close> where the key differs from the fragment.\<close>

function first_diff :: "trie_key \<Rightarrow> trie_key \<Rightarrow> nat \<Rightarrow> nat \<Rightarrow> nat option" where
  "first_diff tk key n i =
     (if i < n then if key_at key i \<noteq> tk ! i then Some i else first_diff tk key n (Suc i) else None)"
  by pat_completeness auto
termination first_diff
  by (relation "measure (\<lambda>(_, _, n, i). n - i)") auto

text \<open>The node for the rest of a key, behind a new child or behind a fragment that is cut.\<close>

definition new_child :: "trie_key \<Rightarrow> 'v option \<Rightarrow> 'v trie" where
  "new_child key val = (if key_at key 0 \<noteq> 0 then addLeafToTrie (key_at key 0) (drop 1 key) val else value_leaf val)"

text \<open>
  \<^verbatim>\<open>addToTrie\<close> from \<^verbatim>\<open>nextNode\<close> on, with its loop over the children. The second component holds
  the values that the destructor is called with.
\<close>

fun add_node :: "'v trie \<Rightarrow> trie_key \<Rightarrow> 'v option \<Rightarrow> 'v trie \<times> 'v option list"
  and add_child :: "'v trie list \<Rightarrow> trie_key \<Rightarrow> 'v option \<Rightarrow> 'v trie list \<times> 'v option list"
where
  "add_node (Trie tk idx tv ch cs) key val =
     (case first_diff tk key (nat idx) 0 of
        Some i \<Rightarrow>
          (Trie tk (int i) None ch
             [Trie (take (nat idx - i - 1) (drop (i + 1) tk)) (idx - int i - 1) tv (tk ! i) cs, new_child (drop i key) val], [])
      | None \<Rightarrow> let (cs', gone) = add_child cs (drop (nat idx) key) val in (Trie tk idx tv ch cs', gone))"
| "add_child [] key val = ([new_child key val], [])"
| "add_child (c # cs) key val =
     (if key_at key 0 = t_ch c then
        if t_ch c \<noteq> 0 then let (c', gone) = add_node c (drop 1 key) val in (c' # cs, gone)
        else (Trie (t_key c) (t_idx c) val (t_ch c) (t_children c) # cs, [t_value c])
      else let (cs', gone) = add_child cs key val in (c # cs', gone))"

definition addToTrie :: "bool \<Rightarrow> 'v trie \<Rightarrow> trie_key \<Rightarrow> 'v option \<Rightarrow> 'v trie \<times> 'v option list" where
  "addToTrie dtor t key val =
     (if t_children t = [] then (addLeafToTrie 0 key val, [])
      else let (t', gone) = add_node t key val in (t', if dtor then gone else []))"

text \<open>
  \<^verbatim>\<open>getFromTrie\<close>: \<open>d\<close> says whether the caller asks for the rest of the key, \<open>part\<close> is the value and the rest of
  the key at the last shorter key on the way. The result is the value and the rest.
\<close>

definition partial_match :: "bool \<Rightarrow> ('v option \<times> trie_key) option \<Rightarrow> 'v option \<times> trie_key option" where
  "partial_match d part = (case part of Some (val, rest) \<Rightarrow> if d then (val, Some rest) else (None, None) | None \<Rightarrow> (None, None))"

fun get_node :: "bool \<Rightarrow> ('v option \<times> trie_key) option \<Rightarrow> 'v trie \<Rightarrow> trie_key \<Rightarrow> 'v option \<times> trie_key option"
  and get_child :: "bool \<Rightarrow> ('v option \<times> trie_key) option \<Rightarrow> 'v trie list \<Rightarrow> trie_key \<Rightarrow> 'v option \<times> trie_key option"
where
  "get_node d part (Trie tk idx tv ch cs) key =
     (if idx > 0 \<and> take (nat idx) tk \<noteq> take (nat idx) key then partial_match d part
      else get_child d part cs (if idx > 0 then drop (nat idx) key else key))"
| "get_child d part [] key = partial_match d part"
| "get_child d part (c # cs) key =
     (if key_at key 0 = t_ch c then
        if key_at key 0 = 0 then (t_value c, if d then Some key else None)
        else get_node d (case find (\<lambda>c'. t_ch c' = 0) cs of Some c' \<Rightarrow> Some (t_value c', key) | None \<Rightarrow> part) c (drop 1 key)
      else if t_ch c = 0 then get_child d (Some (t_value c, key)) cs key
      else get_child d part cs key)"

definition getFromTrie :: "bool \<Rightarrow> 'v trie \<Rightarrow> trie_key \<Rightarrow> 'v option \<times> trie_key option" where
  "getFromTrie d t key = get_node d None t key"

text \<open>\<^verbatim>\<open>destroyTrie\<close>: the values the destructor is called with; a failed check ends the process.\<close>

fun destroy_node :: "bool \<Rightarrow> 'v trie \<Rightarrow> 'v option list option"
  and destroy_children :: "bool \<Rightarrow> 'v trie list \<Rightarrow> 'v option list option"
where
  "destroy_node dtor (Trie tk idx tv ch cs) = destroy_children dtor cs"
| "destroy_children dtor [] = Some []"
| "destroy_children dtor (c # cs) =
     (if dtor \<and> t_ch c = 0 \<or> t_value c = None then
        (case destroy_node dtor c of None \<Rightarrow> None
         | Some xs \<Rightarrow> (case destroy_children dtor cs of None \<Rightarrow> None
           | Some ys \<Rightarrow> Some ((if dtor \<and> t_ch c = 0 then [t_value c] else []) @ xs @ ys)))
      else None)"

definition destroyTrie :: "bool \<Rightarrow> 'v trie \<Rightarrow> 'v option list option" where
  "destroyTrie dtor t = destroy_node dtor t"

section \<open>The pairs of a trie\<close>

text \<open>The keys of a trie with their values, in the order of the nodes.\<close>

fun node_pairs :: "'v trie \<Rightarrow> (trie_key \<times> 'v option) list"
  and child_pairs :: "'v trie list \<Rightarrow> (trie_key \<times> 'v option) list"
where
  "node_pairs (Trie tk idx tv ch cs) = map (\<lambda>(k, v). (take (nat idx) tk @ k, v)) (child_pairs cs)"
| "child_pairs [] = []"
| "child_pairs (c # cs) =
     (if t_ch c = 0 then [([], t_value c)] else map (\<lambda>(k, v). (t_ch c # k, v)) (node_pairs c)) @ child_pairs cs"

definition trie_map :: "'v trie \<Rightarrow> trie_key \<rightharpoonup> 'v option" where
  "trie_map t = map_of (node_pairs t)"

text \<open>The invariant of the nodes below the root, and of a root that has children.\<close>

fun node_ok :: "'v trie \<Rightarrow> bool" and children_ok :: "'v trie list \<Rightarrow> bool" where
  "node_ok (Trie tk idx tv ch cs) \<longleftrightarrow> 0 \<le> idx \<and> nat idx \<le> length tk \<and> 0 \<notin> set (take (nat idx) tk) \<and> tv = None \<and> cs \<noteq> [] \<and>
     children_ok cs"
| "children_ok [] \<longleftrightarrow> True"
| "children_ok (c # cs) \<longleftrightarrow> (if t_ch c = 0 then t_children c = [] else node_ok c) \<and>
     (\<forall>c' \<in> set cs. t_ch c' \<noteq> t_ch c) \<and> children_ok cs"

definition trie_ok :: "'v trie \<Rightarrow> bool" where
  "trie_ok t \<longleftrightarrow> (if t_children t = [] then t = initTrie else node_ok t)"

definition is_key :: "trie_key \<Rightarrow> bool" where
  "is_key key \<longleftrightarrow> 0 \<notin> set key"

lemma key_at_simps [simp]: "key_at [] i = 0" "key_at (x # xs) 0 = x" "key_at (x # xs) (Suc i) = key_at xs i"
  by (auto simp: key_at_def)

lemma is_key_simps [simp]: "is_key []" "is_key (x # xs) \<longleftrightarrow> x \<noteq> 0 \<and> is_key xs" "is_key (xs @ ys) \<longleftrightarrow> is_key xs \<and> is_key ys"
  by (auto simp: is_key_def)

lemma is_key_drop: "is_key key \<Longrightarrow> is_key (drop n key)"
  by (auto simp: is_key_def dest: in_set_dropD)

lemma key_at_zero: "is_key key \<Longrightarrow> key_at key 0 = 0 \<longleftrightarrow> key = []"
  by (cases key) auto

abbreviation pre :: "trie_key \<Rightarrow> (trie_key \<times> 'a) list \<Rightarrow> (trie_key \<times> 'a) list" where
  "pre p \<equiv> map (\<lambda>(k, v). (p @ k, v))"

abbreviation keys :: "(trie_key \<times> 'a) list \<Rightarrow> trie_key set" where
  "keys ps \<equiv> fst ` set ps"

lemma keys_pre: "keys (pre p ps) = (\<lambda>k. p @ k) ` keys ps"
  by force

lemma pre_pre: "pre p (pre q ps) = pre (p @ q) ps"
  by auto

lemma map_of_pre: "map_of (pre p ps) key = (if take (length p) key = p then map_of ps (drop (length p) key) else None)"
proof (induction ps)
  case (Cons e ps)
  have "key = p @ k \<longleftrightarrow> take (length p) key = p \<and> drop (length p) key = k" for k
    by (metis append_eq_conv_conj append_take_drop_id)
  with Cons show ?case by (cases e) auto
qed simp

lemma distinct_pre: "distinct (map fst (pre p ps)) = distinct (map fst ps)"
  by (induction ps) (auto simp: keys_pre image_iff)

lemma child_pairs_key: "k \<in> keys (child_pairs cs) \<Longrightarrow> \<exists>c \<in> set cs. key_at k 0 = t_ch c"
  by (induction cs) (auto split: if_splits)

lemma pairs_distinct:
  fixes t :: "'v trie" and cs :: "'v trie list"
  shows "node_ok t \<Longrightarrow> distinct (map fst (node_pairs t))"
  "children_ok cs \<Longrightarrow> distinct (map fst (child_pairs cs))"
proof (induction t and cs rule: node_pairs_child_pairs.induct)
  case (3 c cs)
  have "k \<notin> keys (child_pairs cs)" if "key_at k 0 = t_ch c" for k
    using that "3.prems" child_pairs_key [of k cs] by (metis children_ok.simps(2))
  moreover have "key_at k 0 = t_ch c" if "k \<in> keys (child_pairs [c])" for k using child_pairs_key [OF that] by simp
  ultimately have "keys (child_pairs [c]) \<inter> keys (child_pairs cs) = {}" by blast
  moreover have "distinct (map fst (child_pairs [c]))"
    using "3.IH"(1) "3.prems" distinct_pre [of "[t_ch c]" "node_pairs c"] by (cases "t_ch c = 0") simp_all
  moreover have "distinct (map fst (child_pairs cs))" using "3.IH"(2) "3.prems" by simp
  moreover have "child_pairs (c # cs) = child_pairs [c] @ child_pairs cs" by simp
  ultimately show ?case by (simp only: map_append distinct_append set_map)
next
  case (1 tk idx tv ch cs)
  then show ?case using distinct_pre [of "take (nat idx) tk" "child_pairs cs"] by simp
qed simp

section \<open>Adding a pair\<close>

text \<open>A list of pairs after a key got a new value: a new pair somewhere, or the old pair replaced.\<close>

inductive upd_pairs :: "trie_key \<Rightarrow> 'a \<Rightarrow> (trie_key \<times> 'a) list \<Rightarrow> (trie_key \<times> 'a) list \<Rightarrow> 'a list \<Rightarrow> bool" where
  fresh_pair: "key \<notin> keys (xs @ ys) \<Longrightarrow> upd_pairs key val (xs @ ys) (xs @ (key, val) # ys) []"
| old_pair: "upd_pairs key val (xs @ (key, w) # ys) (xs @ (key, val) # ys) [w]"

lemma upd_pairs_pre: "upd_pairs key val ps ps' gone \<Longrightarrow> upd_pairs (p @ key) val (pre p ps) (pre p ps') gone"
proof (induction rule: upd_pairs.induct)
  case (fresh_pair key xs ys val)
  then have "p @ key \<notin> keys (pre p xs @ pre p ys)" by (auto simp: keys_pre image_Un simp del: set_map)
  from upd_pairs.fresh_pair [OF this] show ?case by simp
next
  case (old_pair key val xs w ys)
  show ?case using upd_pairs.old_pair [of "p @ key" val "pre p xs" w "pre p ys"] by simp
qed

lemma upd_pairs_append:
  assumes "upd_pairs key val ps ps' gone" and "key \<notin> keys (zs @ ws)"
  shows "upd_pairs key val (zs @ ps @ ws) (zs @ ps' @ ws) gone"
  using assms
proof (induction rule: upd_pairs.induct)
  case (fresh_pair key xs ys val)
  then show ?case using upd_pairs.fresh_pair [of key "zs @ xs" "ys @ ws" val] by (simp add: image_Un)
next
  case (old_pair key val xs w ys)
  then show ?case using upd_pairs.old_pair [of key val "zs @ xs" w "ys @ ws"] by simp
qed

lemma upd_pairs_map_of:
  assumes "upd_pairs key val ps ps' gone" and "distinct (map fst ps)"
  shows "map_of ps' = (map_of ps)(key \<mapsto> val)" "gone = (case map_of ps key of None \<Rightarrow> [] | Some w \<Rightarrow> [w])"
  using assms by (induction rule: upd_pairs.induct)
    (auto simp: map_add_def fun_eq_iff image_Un map_of_eq_None_iff [THEN iffD2] split: option.splits)

lemma new_child_pairs: "is_key key \<Longrightarrow> child_pairs [new_child key val] = [(key, val)]"
  by (cases key) (simp_all add: new_child_def value_leaf_def initTrie_def addLeafToTrie_def)

lemma new_child_ok: "is_key key \<Longrightarrow> children_ok [new_child key val]"
  by (cases key) (simp_all add: new_child_def value_leaf_def initTrie_def addLeafToTrie_def is_key_def)

lemma t_ch_new_child [simp]: "t_ch (new_child key val) = key_at key 0"
  by (simp add: new_child_def value_leaf_def initTrie_def addLeafToTrie_def)

declare first_diff.simps [simp del]

lemma first_diff_None: "first_diff tk key n i = None \<longleftrightarrow> (\<forall>j. i \<le> j \<and> j < n \<longrightarrow> key_at key j = tk ! j)"
proof (induction tk key n i rule: first_diff.induct)
  case (1 tk key n i)
  show ?case
    by (subst first_diff.simps) (use 1 in \<open>auto simp: Suc_le_eq dest: le_neq_implies_less\<close>)
qed

lemma first_diff_Some:
  "first_diff tk key n i = Some j \<Longrightarrow> i \<le> j \<and> j < n \<and> key_at key j \<noteq> tk ! j \<and> (\<forall>l. i \<le> l \<and> l < j \<longrightarrow> key_at key l = tk ! l)"
proof (induction tk key n i rule: first_diff.induct)
  case (1 tk key n i)
  then show ?case
    by (subst (asm) (2) first_diff.simps) (auto split: if_splits simp: Suc_le_eq, metis le_neq_implies_less)
qed

text \<open>Where a key agrees with a fragment that has no NUL, it has not ended.\<close>

lemma key_agrees:
  assumes "\<forall>j < n. key_at key j = tk ! j" and "n \<le> length tk" and "0 \<notin> set (take n tk)"
  shows "take n key = take n tk" "n \<le> length key"
proof -
  show n: "n \<le> length key"
  proof (rule ccontr)
    assume "\<not> n \<le> length key"
    then have "tk ! length key = 0" "length key < n" using assms(1) [rule_format, of "length key"] by (simp_all add: key_at_def)
    then show False using assms(2,3) by (metis (no_types) length_take min.absorb2 nth_mem nth_take)
  qed
  show "take n key = take n tk" using assms(1,2) n by (intro nth_equalityI) (auto simp: key_at_def)
qed

text \<open>The node that is cut at position \<open>i\<close> of its fragment.\<close>

lemma split_node:
  fixes val :: "'v option"
  assumes ok: "node_ok (Trie tk idx tv ch cs)" and key: "is_key key" and d: "first_diff tk key (nat idx) 0 = Some i"
  defines "t' \<equiv> Trie tk (int i) None ch
    [Trie (take (nat idx - i - 1) (drop (i + 1) tk)) (idx - int i - 1) tv (tk ! i) cs, new_child (drop i key) val]"
  shows "node_ok t'" and "upd_pairs key val (node_pairs (Trie tk idx tv ch cs)) (node_pairs t') []"
proof -
  let ?n = "nat idx"
  have i: "i < ?n" "key_at key i \<noteq> tk ! i" "\<forall>j < i. key_at key j = tk ! j" using first_diff_Some [OF d] by auto
  have n: "?n \<le> length tk" "0 \<notin> set (take ?n tk)" "0 \<le> idx" using ok by auto
  have sub: "set (take i tk) \<subseteq> set (take ?n tk)" using i(1) by (simp add: set_take_subset_set_take)
  then have p: "take i key = take i tk" "i \<le> length key" using key_agrees [OF i(3)] i(1) n by auto
  have frag: "take ?n tk = take i tk @ tk ! i # take (?n - i - 1) (drop (i + 1) tk)"
  proof -
    have "take ?n tk = take i (take ?n tk) @ take ?n tk ! i # drop (Suc i) (take ?n tk)"
      by (rule id_take_nth_drop) (use i(1) n(1) in simp)
    then show ?thesis using i(1) by (simp add: drop_take min_def)
  qed
  have y: "tk ! i \<noteq> 0" "0 \<notin> set (take (?n - i - 1) (drop (i + 1) tk))" using n(2) unfolding frag by auto
  have k0: "key_at (drop i key) 0 = key_at key i" using p(2) by (simp add: key_at_def)
  have key': "is_key (drop i key)" by (rule is_key_drop [OF key])
  have "?n - i - 1 \<le> length tk - (i + 1)" "nat (idx - int i - 1) = ?n - i - 1" using n(1) i(1) by linarith+
  then show "node_ok t'"
    using i(1,2) n p(2) ok y sub new_child_ok [OF key', of val] k0 unfolding t'_def by auto
  have eq: "node_pairs t' = node_pairs (Trie tk idx tv ch cs) @ [(key, val)]"
  proof -
    have "child_pairs [Trie (take (?n - i - 1) (drop (i + 1) tk)) (idx - int i - 1) tv (tk ! i) cs, new_child (drop i key) val]
      = pre (tk ! i # take (?n - i - 1) (drop (i + 1) tk)) (child_pairs cs) @ [(drop i key, val)]"
      using new_child_pairs [OF key', of val] y(1) \<open>nat (idx - int i - 1) = ?n - i - 1\<close> by auto
    moreover have "take i tk @ drop i key = key" using p(1) by (metis append_take_drop_id)
    ultimately show ?thesis
      unfolding t'_def node_pairs.simps frag nat_int by (simp only: map_append pre_pre) simp
  qed
  have "key \<notin> keys (node_pairs (Trie tk idx tv ch cs))"
  proof
    assume "key \<in> keys (node_pairs (Trie tk idx tv ch cs))"
    then obtain k where "key = take ?n tk @ k" by (auto simp: keys_pre)
    then show False using i(1,2) n(1) by (auto simp: key_at_def nth_append)
  qed
  from fresh_pair [of key _ "[]" val] this show "upd_pairs key val (node_pairs (Trie tk idx tv ch cs)) (node_pairs t') []"
    unfolding eq by simp
qed

text \<open>Adding a pair keeps the invariant and changes the pairs accordingly.\<close>

lemma add_node_ok:
  fixes t :: "'v trie" and cs :: "'v trie list"
  shows "\<lbrakk>node_ok t; is_key key; add_node t key val = (t', gone)\<rbrakk> \<Longrightarrow>
      node_ok t' \<and> t_ch t' = t_ch t \<and> upd_pairs key val (node_pairs t) (node_pairs t') gone"
    and "\<lbrakk>children_ok cs; is_key key; add_child cs key val = (cs', gone)\<rbrakk> \<Longrightarrow>
      children_ok cs' \<and> t_ch ` set cs' = insert (key_at key 0) (t_ch ` set cs) \<and>
      upd_pairs key val (child_pairs cs) (child_pairs cs') gone"
proof (induction t key val and cs key val arbitrary: t' gone and cs' gone rule: add_node_add_child.induct)
  case (1 tk idx tv ch cs key val)
  show ?case
  proof (cases "first_diff tk key (nat idx) 0")
    case (Some i)
    with "1.prems" split_node [OF "1.prems"(1,2) Some, of val] show ?thesis by auto
  next
    case None
    obtain cs1 g where a: "add_child cs (drop (nat idx) key) val = (cs1, g)" by force
    with "1.prems" None have t': "t' = Trie tk idx tv ch cs1" "gone = g" by auto
    note ih = "1.IH" [OF None _ _ a]
    have n: "nat idx \<le> length tk" "0 \<notin> set (take (nat idx) tk)" using "1.prems"(1) by auto
    have "take (nat idx) key = take (nat idx) tk" using key_agrees(1) [OF _ n] None by (simp add: first_diff_None)
    then have "take (nat idx) tk @ drop (nat idx) key = key" by (metis append_take_drop_id)
    with ih "1.prems"(1,2) is_key_drop show ?thesis
      using upd_pairs_pre [of "drop (nat idx) key" val "child_pairs cs" "child_pairs cs1" g "take (nat idx) tk"]
      by (auto simp: t')
  qed
next
  case (2 key val)
  then have "cs' = [new_child key val]" "gone = []" by simp_all
  then show ?case
    using new_child_ok [OF "2.prems"(2), of val] new_child_pairs [OF "2.prems"(2), of val] fresh_pair [of key "[]" "[]" val]
    by (simp del: child_pairs.simps(2))
next
  case (3 c cs key val)
  note none = child_pairs_key [of key]
  consider (node) x xs where "key = x # xs" "x = t_ch c" "t_ch c \<noteq> 0" | (leaf) "key = []" "t_ch c = 0" | (other) "key_at key 0 \<noteq> t_ch c"
    using "3.prems"(2) by (cases key) auto
  then show ?case
  proof cases
    case node
    obtain c1 g where a: "add_node c xs val = (c1, g)" by force
    with "3.prems"(3) node have cs': "cs' = c1 # cs" "gone = g" by auto
    have "node_ok c1 \<and> t_ch c1 = t_ch c \<and> upd_pairs xs val (node_pairs c) (node_pairs c1) g"
      using "3.IH"(1) [of c1 g] "3.prems"(1,2) node a by simp
    moreover from "3.prems"(1) node have "\<forall>c' \<in> set cs. key_at key 0 \<noteq> t_ch c'" by auto
    with none [of cs] have "key \<notin> keys (child_pairs cs)" by blast
    ultimately show ?thesis
      using "3.prems"(1) node upd_pairs_append [OF upd_pairs_pre [of xs val "node_pairs c" "node_pairs c1" g "[x]"], of "[]" "child_pairs cs"]
      by (auto simp: cs')
  next
    case leaf
    then have "cs' = Trie (t_key c) (t_idx c) val (t_ch c) (t_children c) # cs" "gone = [t_value c]"
      using "3.prems"(3) by auto
    with leaf "3.prems"(1) old_pair [of "[]" val "[]" "t_value c" "child_pairs cs"] show ?thesis by auto
  next
    case other
    obtain cs1 g where a: "add_child cs key val = (cs1, g)" by force
    with "3.prems"(3) other have cs': "cs' = c # cs1" "gone = g" by auto
    have ih: "children_ok cs1 \<and> t_ch ` set cs1 = insert (key_at key 0) (t_ch ` set cs) \<and>
      upd_pairs key val (child_pairs cs) (child_pairs cs1) g"
      using "3.IH"(2) [OF other _ _ a] "3.prems"(1,2) by simp
    have "key \<notin> keys (child_pairs [c])" using other none [of "[c]"] by auto
    then have "upd_pairs key val (child_pairs (c # cs)) (child_pairs (c # cs1)) g"
      using ih upd_pairs_append [of key val "child_pairs cs" "child_pairs cs1" g "child_pairs [c]" "[]"] by simp
    moreover have "\<forall>c' \<in> set cs1. t_ch c' \<noteq> t_ch c"
    proof
      fix c' assume "c' \<in> set cs1"
      then have "t_ch c' \<in> insert (key_at key 0) (t_ch ` set cs)" using ih by blast
      then show "t_ch c' \<noteq> t_ch c" using other "3.prems"(1) by auto
    qed
    ultimately show ?thesis using ih "3.prems"(1) by (auto simp: cs' simp del: child_pairs.simps)
  qed
qed

section \<open>Lookup\<close>

text \<open>The child list as a map.\<close>

lemma kids_none: "\<forall>c \<in> set cs. t_ch c \<noteq> key_at key 0 \<Longrightarrow> map_of (child_pairs cs) key = None"
  using child_pairs_key [of key cs] by (metis map_of_eq_None_iff)

lemma kids_Cons:
  assumes "children_ok (c # cs)" and "is_key key"
  shows "map_of (child_pairs (c # cs)) key =
    (if key_at key 0 = t_ch c then if t_ch c = 0 then Some (t_value c) else map_of (node_pairs c) (drop 1 key)
     else map_of (child_pairs cs) key)"
proof -
  have none: "key_at key 0 = t_ch c \<Longrightarrow> map_of (child_pairs cs) key = None"
    using assms(1) by (intro kids_none) auto
  show ?thesis
    using assms(2) none map_of_pre [of "[t_ch c]" "node_pairs c" key]
    by (cases key) (auto simp: map_add_def split: option.splits)
qed

lemma node_lookup:
  "node_ok (Trie tk idx tv ch cs) \<Longrightarrow> map_of (node_pairs (Trie tk idx tv ch cs)) key =
     (if take (nat idx) tk = take (nat idx) key then map_of (child_pairs cs) (drop (nat idx) key) else None)"
  using map_of_pre [of "take (nat idx) tk" "child_pairs cs" key] by (auto simp: min_def)

text \<open>The longest prefix of a key in a map, as a value and the rest of the key.\<close>

primrec longest :: "(trie_key \<rightharpoonup> 'a) \<Rightarrow> trie_key \<Rightarrow> ('a \<times> trie_key) option" where
  "longest f [] = map_option (\<lambda>v. (v, [])) (f [])"
| "longest f (x # xs) = (case longest (\<lambda>k. f (x # k)) xs of Some r \<Rightarrow> Some r | None \<Rightarrow> map_option (\<lambda>v. (v, x # xs)) (f []))"

lemma longest_None: "longest f key = None \<longleftrightarrow> (\<forall>p rest. key = p @ rest \<longrightarrow> f p = None)"
proof (induction key arbitrary: f)
  case (Cons x xs)
  have "(\<forall>p rest. x # xs = p @ rest \<longrightarrow> f p = None) \<longleftrightarrow> f [] = None \<and> (\<forall>p rest. xs = p @ rest \<longrightarrow> f (x # p) = None)"
  proof (intro iffI conjI allI impI)
    assume a: "\<forall>p rest. x # xs = p @ rest \<longrightarrow> f p = None"
    show "f [] = None" using a by simp
    show "f (x # p) = None" if "xs = p @ rest" for p rest using a that by simp
  next
    fix p rest
    assume "f [] = None \<and> (\<forall>p rest. xs = p @ rest \<longrightarrow> f (x # p) = None)" "x # xs = p @ rest"
    then show "f p = None" by (cases p) auto
  qed
  then show ?case using Cons.IH [of "\<lambda>k. f (x # k)"] by (cases "longest (\<lambda>k. f (x # k)) xs") auto
qed simp

lemma longest_Some:
  "longest f key = Some (v, rest) \<Longrightarrow> \<exists>p. key = p @ rest \<and> f p = Some v \<and>
     (\<forall>q r. key = q @ r \<and> length p < length q \<longrightarrow> f q = None)"
proof (induction key arbitrary: f)
  case (Cons x xs)
  show ?case
  proof (cases "longest (\<lambda>k. f (x # k)) xs")
    case None
    with Cons.prems have "f [] = Some v" "rest = x # xs" by auto
    with None show ?thesis by (intro exI [of _ "[]"]) (auto simp: longest_None Cons_eq_append_conv)
  next
    case (Some r)
    with Cons.prems have "longest (\<lambda>k. f (x # k)) xs = Some (v, rest)" by simp
    from Cons.IH [OF this] obtain p
      where "xs = p @ rest" "f (x # p) = Some v" "\<forall>q r. xs = q @ r \<and> length p < length q \<longrightarrow> f (x # q) = None"
      by blast
    then show ?thesis by (intro exI [of _ "x # p"]) (auto simp: Cons_eq_append_conv)
  qed
qed auto

lemma longest_cong: "(\<And>p rest. key = p @ rest \<Longrightarrow> f p = g p) \<Longrightarrow> longest f key = longest g key"
proof (induction key arbitrary: f g)
  case (Cons x xs)
  have "longest (\<lambda>k. f (x # k)) xs = longest (\<lambda>k. g (x # k)) xs" by (rule Cons.IH) (simp add: Cons.prems)
  moreover have "f [] = g []" by (rule Cons.prems) simp
  ultimately show ?case by (simp split: option.split)
qed simp

lemma longest_empty: "longest (\<lambda>_. None) key = None"
  by (simp add: longest_None)

text \<open>Behind a fragment.\<close>

lemma longest_pre:
  "longest (map_of (pre p ps)) key =
     (if take (length p) key = p then longest (map_of ps) (drop (length p) key) else None)"
proof (induction p arbitrary: key)
  case (Cons x p)
  have e: "map_of (pre (x # p) ps) [] = None" using map_of_pre [of "x # p" ps "[]"] by simp
  have "(\<lambda>k. map_of (pre (x # p) ps) (y # k)) = (if y = x then map_of (pre p ps) else (\<lambda>_. None))" for y
    using map_of_pre [of "x # p" ps] map_of_pre [of p ps] by auto
  with Cons e show ?case by (cases key) (auto simp: longest_empty split: option.splits)
qed simp

lemma kids_empty_key: "children_ok cs \<Longrightarrow> map_of (child_pairs cs) [] = map_option t_value (find (\<lambda>c. t_ch c = 0) cs)"
  by (induction cs) (simp_all add: kids_Cons del: child_pairs.simps(2))

lemma kids_longest:
  assumes "children_ok (c # cs)" and "is_key (x # xs)"
  shows "longest (map_of (child_pairs (c # cs))) (x # xs) =
    (if x = t_ch c then case longest (map_of (node_pairs c)) xs of Some r \<Rightarrow> Some r
       | None \<Rightarrow> map_option (\<lambda>v. (v, x # xs)) (map_of (child_pairs cs) [])
     else if t_ch c = 0 then case longest (map_of (child_pairs cs)) (x # xs) of Some r \<Rightarrow> Some r | None \<Rightarrow> Some (t_value c, x # xs)
     else longest (map_of (child_pairs cs)) (x # xs))"
proof -
  let ?f = "map_of (child_pairs (c # cs))" and ?g = "map_of (child_pairs cs)"
  have rest: "longest (\<lambda>k. ?f (x # k)) xs = (if x = t_ch c then longest (map_of (node_pairs c)) xs else longest (\<lambda>k. ?g (x # k)) xs)"
    using assms(2) kids_Cons [OF assms(1)] by (auto intro!: longest_cong)
  have e: "?f [] = (if t_ch c = 0 then Some (t_value c) else ?g [])" using kids_Cons [OF assms(1), of "[]"] by auto
  have "t_ch c = 0 \<Longrightarrow> ?g [] = None" using assms(1) by (intro kids_none) auto
  with rest e assms(2) show ?thesis by (auto simp del: child_pairs.simps split: option.splits)
qed

lemma get_exact:
  fixes t :: "'v trie" and cs :: "'v trie list"
  shows "\<lbrakk>\<not> d; node_ok t; is_key key\<rbrakk> \<Longrightarrow> get_node d part t key = (Option.bind (map_of (node_pairs t) key) id, None)"
    and "\<lbrakk>\<not> d; children_ok cs; is_key key\<rbrakk> \<Longrightarrow> get_child d part cs key = (Option.bind (map_of (child_pairs cs) key) id, None)"
proof (induction d part t key and d part cs key rule: get_node_get_child.induct)
  case (1 d part tk idx tv ch cs key)
  then show ?case
    using is_key_drop [of key "nat idx"] by (auto simp: node_lookup partial_match_def simp del: node_pairs.simps split: option.splits)
next
  case (2 d part key)
  then show ?case by (simp add: partial_match_def split: option.splits)
next
  case (3 d part c cs key)
  then show ?case
    using key_at_zero [of key] is_key_drop [of key 1] by (auto simp: kids_Cons simp del: child_pairs.simps)
qed

lemma get_longest:
  fixes t :: "'v trie" and cs :: "'v trie list"
  shows "\<lbrakk>d; node_ok t; is_key key\<rbrakk> \<Longrightarrow> get_node d part t key =
      partial_match True (case longest (map_of (node_pairs t)) key of Some r \<Rightarrow> Some r | None \<Rightarrow> part)"
    and "\<lbrakk>d; children_ok cs; is_key key\<rbrakk> \<Longrightarrow> get_child d part cs key =
      partial_match True (case longest (map_of (child_pairs cs)) key of Some r \<Rightarrow> Some r | None \<Rightarrow> part)"
proof (induction d part t key and d part cs key rule: get_node_get_child.induct)
  case (1 d part tk idx tv ch cs key)
  have l: "length (take (nat idx) tk) = nat idx" using "1.prems"(2) by simp
  have "longest (map_of (node_pairs (Trie tk idx tv ch cs))) key =
      (if take (nat idx) tk = take (nat idx) key then longest (map_of (child_pairs cs)) (drop (nat idx) key) else None)"
    using longest_pre [of "take (nat idx) tk" "child_pairs cs" key, unfolded l]
    by (simp only: node_pairs.simps eq_commute [of "take (nat idx) key"])
  with 1 show ?case using is_key_drop [of key "nat idx"] by (auto simp del: node_pairs.simps)
next
  case (2 d part key)
  then show ?case by (simp add: longest_empty)
next
  case (3 d part c cs key)
  show ?case
  proof (cases key)
    case Nil
    then show ?thesis
      using 3 kids_Cons [of c cs "[]"] by (auto simp: partial_match_def simp del: child_pairs.simps)
  next
    case (Cons x xs)
    with 3 show ?thesis
      using kids_longest [of c cs x xs] kids_empty_key [of cs]
      by (auto simp del: child_pairs.simps longest.simps split: option.splits)
  qed
qed

section \<open>Destruction\<close>

lemma destroy_values:
  fixes t :: "'v trie" and cs :: "'v trie list"
  shows "node_ok t \<Longrightarrow> destroy_node True t = Some (map snd (node_pairs t))"
    and "children_ok cs \<Longrightarrow> destroy_children True cs = Some (map snd (child_pairs cs))"
proof (induction t and cs rule: node_pairs_child_pairs.induct)
  case (3 c cs)
  then show ?case by (cases c) (auto simp: comp_def case_prod_beta)
qed (auto simp: comp_def case_prod_beta)

lemma destroy_without_destructor:
  fixes t :: "'v trie" and cs :: "'v trie list"
  shows "node_ok t \<Longrightarrow> destroy_node False t = (if set (map snd (node_pairs t)) \<subseteq> {None} then Some [] else None)"
    and "children_ok cs \<Longrightarrow> destroy_children False cs = (if set (map snd (child_pairs cs)) \<subseteq> {None} then Some [] else None)"
proof (induction t and cs rule: node_pairs_child_pairs.induct)
  case (1 tk idx tv ch cs)
  then show ?case by (simp add: image_image case_prod_beta)
next
  case (3 c cs)
  have v: "snd ` set (child_pairs (c # cs)) = (if t_ch c = 0 then {t_value c} else snd ` set (node_pairs c)) \<union> snd ` set (child_pairs cs)"
    by (auto simp: image_image image_Un case_prod_beta)
  show ?case
  proof (cases "t_ch c = 0")
    case True
    then have "destroy_node False c = Some []" using "3.prems" by (cases c) simp
    then show ?thesis using 3 True v by (auto simp del: child_pairs.simps)
  next
    case False
    then have "t_value c = None" using "3.prems" by (cases c) simp
    then show ?thesis using 3 False v by (auto simp del: child_pairs.simps)
  qed
qed simp

section \<open>Properties\<close>

lemma trie_ok_cases: "trie_ok t \<Longrightarrow> t = initTrie \<or> node_ok t"
  by (auto simp: trie_ok_def split: if_splits)

lemma trie_map_init [simp]: "trie_map initTrie = Map.empty"
  by (simp add: trie_map_def initTrie_def)

lemma node_ok_trie_ok: "node_ok t \<Longrightarrow> trie_ok t"
  by (cases t) (simp add: trie_ok_def)

lemma add_correct:
  assumes "trie_ok t" and "is_key key" and "addToTrie dtor t key val = (t', gone)"
  shows "trie_ok t' \<and> trie_map t' = (trie_map t)(key \<mapsto> val) \<and>
    gone = (case trie_map t key of Some w \<Rightarrow> if dtor then [w] else [] | None \<Rightarrow> [])"
proof (cases "t_children t = []")
  case True
  then have "t = initTrie" "t' = addLeafToTrie 0 key val" "gone = []" using assms by (auto simp: trie_ok_def addToTrie_def)
  then show ?thesis
    using assms(2) by (auto simp: trie_ok_def addLeafToTrie_def trie_map_def initTrie_def value_leaf_def is_key_def fun_eq_iff)
next
  case False
  then have ok: "node_ok t" using assms(1) by (simp add: trie_ok_def)
  obtain g where a: "add_node t key val = (t', g)" and g: "gone = (if dtor then g else [])"
    using assms(3) False by (auto simp: addToTrie_def split: prod.splits)
  note n = add_node_ok(1) [OF ok assms(2) a]
  then have "upd_pairs key val (node_pairs t) (node_pairs t') g" by blast
  note u = upd_pairs_map_of [OF this pairs_distinct(1) [OF ok]]
  then show ?thesis using n g by (auto simp: trie_map_def node_ok_trie_ok split: option.splits)
qed

lemma upd_pairs_values:
  "upd_pairs key val ps ps' gone \<Longrightarrow> mset (map snd ps') + mset gone = add_mset val (mset (map snd ps))"
  by (induction rule: upd_pairs.induct) simp_all

lemma add_values:
  assumes "trie_ok t" and "is_key key" and "addToTrie True t key val = (t', gone)"
  shows "mset (map snd (node_pairs t')) + mset gone = add_mset val (mset (map snd (node_pairs t)))"
proof (cases "t_children t = []")
  case True
  then have "t = initTrie" "t' = addLeafToTrie 0 key val" "gone = []" using assms by (auto simp: trie_ok_def addToTrie_def)
  then show ?thesis by (simp add: addLeafToTrie_def initTrie_def value_leaf_def)
next
  case False
  then have "node_ok t" "add_node t key val = (t', gone)"
    using assms by (auto simp: trie_ok_def addToTrie_def split: prod.splits)
  with add_node_ok(1) [OF _ assms(2)] show ?thesis by (metis upd_pairs_values)
qed

text \<open>A trie filled with a list of pairs, and the values the destructor was called with on the way.\<close>

primrec trie_load :: "bool \<Rightarrow> (trie_key \<times> 'v option) list \<Rightarrow> 'v trie \<Rightarrow> 'v trie \<times> 'v option list" where
  "trie_load dtor [] t = (t, [])"
| "trie_load dtor (kv # kvs) t =
     (let (t1, gone) = addToTrie dtor t (fst kv) (snd kv); (t2, gone') = trie_load dtor kvs t1 in (t2, gone @ gone'))"

lemma trie_load_no_calls: "trie_load False kvs t = (t', gone) \<Longrightarrow> gone = []"
  by (induction kvs arbitrary: t t' gone) (auto simp: addToTrie_def split: prod.splits if_splits)

lemma trie_load_values:
  "\<lbrakk>trie_ok t; \<forall>kv \<in> set kvs. is_key (fst kv); trie_load True kvs t = (t', gone)\<rbrakk> \<Longrightarrow>
     mset (map snd (node_pairs t')) + mset gone = mset (map snd (node_pairs t)) + mset (map snd kvs)"
proof (induction kvs arbitrary: t t' gone)
  case (Cons kv kvs)
  obtain t1 g1 where 1: "addToTrie True t (fst kv) (snd kv) = (t1, g1)" by force
  obtain t2 g2 where 2: "trie_load True kvs t1 = (t2, g2)" by force
  have t': "t' = t2" "gone = g1 @ g2" using Cons.prems(3) by (simp_all add: 1 2)
  have "trie_ok t1" using add_correct [OF Cons.prems(1) _ 1] Cons.prems(2) by simp
  then have "mset (map snd (node_pairs t2)) + mset g2 = mset (map snd (node_pairs t1)) + mset (map snd kvs)"
    using Cons.IH [OF _ _ 2] Cons.prems(2) by simp
  moreover have "mset (map snd (node_pairs t1)) + mset g1 = add_mset (snd kv) (mset (map snd (node_pairs t)))"
    using add_values [OF Cons.prems(1) _ 1] Cons.prems(2) by simp
  ultimately show ?case by (simp add: t' ac_simps)
qed simp

lemma getFromTrie_correct:
  assumes "trie_ok t" and "is_key key"
  shows "getFromTrie False t key = (Option.bind (trie_map t key) id, None)"
    and "getFromTrie True t key = partial_match True (longest (trie_map t) key)"
  using trie_ok_cases [OF assms(1)] get_exact(1) [of False t key None] get_longest(1) [of True t key None] assms(2)
  by (auto simp: getFromTrie_def trie_map_def longest_empty initTrie_def partial_match_def split: option.splits)

lemma getFromTrie_longest:
  assumes "trie_ok t" and "is_key key" and "key = p @ rest" and "trie_map t p = Some val"
    and "\<forall>q r. key = q @ r \<and> length p < length q \<longrightarrow> trie_map t q = None"
  shows "getFromTrie True t key = (val, Some rest)"
proof -
  obtain v' rest' where l: "longest (trie_map t) key = Some (v', rest')"
    using longest_None [of "trie_map t" key] assms(3,4) by (cases "longest (trie_map t) key") auto
  from longest_Some [OF l] obtain p' where p': "key = p' @ rest'" "trie_map t p' = Some v'"
    "\<forall>q r. key = q @ r \<and> length p' < length q \<longrightarrow> trie_map t q = None" by blast
  have "length p' = length p" using assms(3-5) p' by (metis linorder_neqE_nat option.distinct(1))
  then have "p' = p" "rest' = rest" using assms(3) p'(1) by auto
  then show ?thesis using assms(4) p'(2) unfolding getFromTrie_correct(2) [OF assms(1,2)] l by (simp add: partial_match_def)
qed

lemma trie_ok_init [simp]: "trie_ok initTrie"
  by (simp add: trie_ok_def initTrie_def)

interpretation tr: route_table "getFromTrie True" "\<lambda>t key val. fst (addToTrie dtor t key val)" trie_map trie_ok is_key for dtor
proof
  fix t :: "'v trie" and key val assume t: "trie_ok t" "is_key key"
  note a = add_correct [OF t prod.collapse [symmetric], of dtor val]
  show "trie_map (fst (addToTrie dtor t key val)) = (trie_map t)(key \<mapsto> val)" using a by blast
  show "trie_ok (fst (addToTrie dtor t key val))" using a by blast
qed (rule getFromTrie_longest)

lemma trie_load_fold: "fst (trie_load dtor kvs t) = fold (\<lambda>kv t. fst (addToTrie dtor t (fst kv) (snd kv))) kvs t"
  by (induction kvs arbitrary: t) (simp_all add: Let_def split: prod.split, metis fst_conv)

lemma trie_load_ok:
  "\<lbrakk>trie_ok t; \<forall>kv \<in> set kvs. is_key (fst kv); trie_load dtor kvs t = (t', gone)\<rbrakk> \<Longrightarrow>
     trie_ok t' \<and> trie_map t' = trie_map t ++ map_of (rev kvs)"
  using tr.add_all [of t kvs dtor] trie_load_fold [of dtor kvs t] by simp

text \<open>
  C40: a trie filled with any pairs finds, without the request for a rest, the last value added for
  exactly the key; with it, the value of the longest key that is a prefix, and the rest of the key behind
  that prefix. A NULL value counts: a key that was taken away hides the shorter ones.
\<close>

theorem trie_longest_prefix:
  fixes kvs :: "(trie_key \<times> 'v option) list"
  assumes "\<forall>kv \<in> set kvs. is_key (fst kv)" and "is_key key" and "trie_load dtor kvs initTrie = (t, gone)"
  shows "getFromTrie False t key = (case map_of (rev kvs) key of Some val \<Rightarrow> val | None \<Rightarrow> None, None) \<and>
    (\<forall>p rest val. key = p @ rest \<and> map_of (rev kvs) p = Some val \<and>
       (\<forall>q r. key = q @ r \<and> length p < length q \<longrightarrow> map_of (rev kvs) q = None) \<longrightarrow> getFromTrie True t key = (val, Some rest)) \<and>
    ((\<forall>p rest. key = p @ rest \<longrightarrow> map_of (rev kvs) p = None) \<longrightarrow> getFromTrie True t key = (None, None))"
proof -
  have t: "trie_ok t" "trie_map t = map_of (rev kvs)" using trie_load_ok [OF trie_ok_init assms(1,3)] by simp_all
  note g = getFromTrie_correct [OF t(1) assms(2), unfolded t(2)]
  show ?thesis
  proof (intro conjI allI impI)
    show "getFromTrie False t key = (case map_of (rev kvs) key of Some val \<Rightarrow> val | None \<Rightarrow> None, None)"
      by (simp add: g(1) split: option.split)
  next
    fix p rest val
    assume "key = p @ rest \<and> map_of (rev kvs) p = Some val \<and>
      (\<forall>q r. key = q @ r \<and> length p < length q \<longrightarrow> map_of (rev kvs) q = None)"
    then show "getFromTrie True t key = (val, Some rest)"
      using getFromTrie_longest [OF t(1) assms(2), of p rest val] by (simp add: t(2))
  qed (simp add: g(2) partial_match_def longest_None [THEN iffD2])
qed

lemma trie_longest_prefix_witness:
  "let kvs = [([47], Some 1), ([47, 97], Some (2 :: nat)), ([47, 97], None)]
   in (\<forall>kv \<in> set kvs. is_key (fst kv)) \<and> is_key [47, 97, 98] \<and> is_key [47, 98] \<and>
     getFromTrie True (fst (trie_load True kvs initTrie)) [47, 98] = (Some 1, Some [98]) \<and>
     getFromTrie True (fst (trie_load True kvs initTrie)) [47, 97, 98] = (None, Some [98])"
proof -
  let ?kvs = "[([47], Some 1), ([47, 97], Some (2 :: nat)), ([47, 97], None)]" and ?m = "map_of [([47, 97 :: byte], None), ([47, 97], Some (2 :: nat)), ([47], Some 1)]"
  have k: "\<forall>kv \<in> set ?kvs. is_key (fst kv)" "is_key [47, 98]" "is_key [47, 97, 98]" by (simp_all add: is_key_def)
  obtain t gone where l: "trie_load True ?kvs initTrie = (t, gone)" by force
  have "\<forall>q r. [47, 98] = q @ r \<and> 1 < length q \<longrightarrow> ?m q = None"
    by (auto simp: Cons_eq_append_conv)
  then have "getFromTrie True t [47, 98] = (Some 1, Some [98])"
    using trie_longest_prefix [OF k(1,2) l, THEN conjunct2, THEN conjunct1, rule_format, of "[47]" "[98]" "Some 1"] by simp
  moreover have "\<forall>q r. [47, 97, 98] = q @ r \<and> 2 < length q \<longrightarrow> ?m q = None"
    by (auto simp: Cons_eq_append_conv)
  then have "getFromTrie True t [47, 97, 98] = (None, Some [98])"
    using trie_longest_prefix [OF k(1,3) l, THEN conjunct2, THEN conjunct1, rule_format, of "[47, 97]" "[98]" None] by simp
  ultimately show ?thesis using k l by (simp add: Let_def is_key_def)
qed

lemma no_values: "snd ` set ps \<subseteq> {None} \<longleftrightarrow> \<not> (\<exists>k w. (k, Some w) \<in> set ps)"
proof (induction ps)
  case (Cons e ps)
  then show ?case by (cases e; cases "snd e") auto
qed simp

text \<open>
  C17: no value is lost and none is destructed twice: the destructor is called once for every value
  that was added, when the value is replaced or when the trie is destroyed. Without a destructor the
  destruction of a trie with a value other than NULL fails its check and ends the process.
\<close>

theorem trie_values_destructed_once:
  fixes kvs :: "(trie_key \<times> 'v option) list"
  assumes "\<forall>kv \<in> set kvs. is_key (fst kv)"
  shows "(let (t, gone) = trie_load True kvs initTrie
      in \<exists>vals. destroyTrie True t = Some vals \<and> mset (gone @ vals) = mset (map snd kvs)) \<and>
    (let (t, gone) = trie_load False kvs initTrie
      in gone = [] \<and> destroyTrie False t = (if \<exists>k w. map_of (rev kvs) k = Some (Some w) then None else Some []))"
proof -
  obtain t gone where l: "trie_load True kvs initTrie = (t, gone)" by force
  obtain u gone' where l': "trie_load False kvs initTrie = (u, gone')" by force
  have d: "destroyTrie True t = Some (map snd (node_pairs t))"
    using trie_load_ok [OF trie_ok_init assms l] trie_ok_cases [of t] destroy_values(1) [of t]
    by (auto simp: destroyTrie_def initTrie_def)
  have "mset (map snd (node_pairs t)) + mset gone = mset (map snd kvs)"
    using trie_load_values [OF trie_ok_init assms l] by (simp add: initTrie_def)
  then have 1: "\<exists>vals. destroyTrie True t = Some vals \<and> mset (gone @ vals) = mset (map snd kvs)"
    using d by (auto simp: ac_simps)
  have u: "trie_ok u" "map_of (node_pairs u) = map_of (rev kvs)"
    using trie_load_ok [OF trie_ok_init assms l'] unfolding trie_map_init empty_map_add by (simp_all add: trie_map_def)
  have dist: "distinct (map fst (node_pairs u))"
    using trie_ok_cases [OF u(1)] pairs_distinct(1) [of u] by (auto simp: initTrie_def)
  have "set (map snd (node_pairs u)) \<subseteq> {None} \<longleftrightarrow> \<not> (\<exists>k w. map_of (rev kvs) k = Some (Some w))"
    unfolding u(2) [symmetric] map_of_eq_Some_iff [OF dist] set_map by (rule no_values)
  moreover have "destroyTrie False u = (if set (map snd (node_pairs u)) \<subseteq> {None} then Some [] else None)"
    by (rule disjE [OF trie_ok_cases [OF u(1)]]) (simp add: destroyTrie_def initTrie_def, simp add: destroyTrie_def destroy_without_destructor(1))
  moreover have "gone' = []" using trie_load_no_calls [OF l'] .
  ultimately show ?thesis using 1 by (simp add: l l')
qed

lemma trie_values_destructed_once_witness:
  "let kvs = [([47], Some 1), ([47, 97], Some (2 :: nat)), ([47, 97], None)]
   in (\<forall>kv \<in> set kvs. is_key (fst kv)) \<and>
     (let (t, gone) = trie_load True kvs initTrie
      in \<exists>vals. destroyTrie True t = Some vals \<and> mset (gone @ vals) = mset (map snd kvs))"
proof -
  let ?kvs = "[([47], Some 1), ([47, 97], Some (2 :: nat)), ([47, 97], None)]"
  have k: "\<forall>kv \<in> set ?kvs. is_key (fst kv)" by (simp add: is_key_def)
  show ?thesis
    unfolding Let_def by (rule conjI [OF k trie_values_destructed_once [OF k, unfolded Let_def, THEN conjunct1]])
qed

end
