(* ===== verification/Http_Conn.thy ===== *)
theory Http_Conn
  imports Hashmap C_Stdlib
begin

text \<open>
  A connection of the web terminal's HTTP library (\<^verbatim>\<open>package/shellinabox/src/libhttp/httpconnection.c\<close>): the part of
  \<^verbatim>\<open>struct HttpConnection\<close> that the parser of requests, the dispatcher and the web sockets work on, and the
  functions that read it. A \<^verbatim>\<open>char *\<close> is \<open>None\<close> for NULL or a C string; the values of a hash map are such pointers.
\<close>

type_synonym str_map = "byte list option hashmap"

text \<open>\<^verbatim>\<open>getFromHashMap\<close> returns NULL for a key that is absent and for one whose value is NULL; \<^verbatim>\<open>getRefFromHashMap\<close>
  returns NULL only for the first.\<close>

definition hm_str :: "str_map \<Rightarrow> string \<Rightarrow> byte list option" where
  "hm_str m key = (case getFromHashMap m (cstr key) of Some val \<Rightarrow> val | None \<Rightarrow> None)"

definition hm_has :: "str_map \<Rightarrow> string \<Rightarrow> bool" where
  "hm_has m key \<longleftrightarrow> getFromHashMap m (cstr key) \<noteq> None"

text \<open>An assignment through the pointer that \<^verbatim>\<open>getRefFromHashMap\<close> returns: the pair stays, no destructor is called.\<close>

definition hm_assign :: "'v hashmap \<Rightarrow> hm_key \<Rightarrow> 'v \<Rightarrow> 'v hashmap" where
  "hm_assign m key val =
     (if mapSize m = 0 then m
      else let idx = hash_idx m key; b = hm_entries m ! idx
           in case dropWhile (\<lambda>e. fst e \<noteq> key) b of
                [] \<Rightarrow> m
              | e # post \<Rightarrow> m\<lparr>hm_entries := (hm_entries m)[idx := takeWhile (\<lambda>e. fst e \<noteq> key) b @ (key, val) # post]\<rparr>)"

text \<open>A pointer that may outlive the string it points to.\<close>

datatype c_ptr = Null | Ptr "byte list" | Freed

datatype http_rc = HTTP_DONE | HTTP_ERROR | HTTP_READ_MORE | HTTP_SUSPEND | HTTP_PARTIAL_REPLY

datatype http_state = SNIFFING_SSL | COMMAND | HEADERS | PAYLOAD | DISCARD_PAYLOAD | WEBSOCKET

text \<open>A function pointer of the application, together with its argument. The callback of a connection is such a function, or
  \<^verbatim>\<open>serverCollectFullPayload\<close> with a \<^verbatim>\<open>struct PayLoad\<close>: the function it will call and the bytes so far (\<^verbatim>\<open>malloc(0)\<close> gives a pointer
  that is not NULL).\<close>

type_synonym app_fn = nat

datatype callback = App app_fn | Collect app_fn "byte list option"

text \<open>
  \<^verbatim>\<open>struct HttpConnection\<close> without the file descriptor, the peer's name, the SSL objects and the counters for the log. \<open>hc_key\<close> points
  to a key of the header; \<open>hc_private\<close> says whether \<^verbatim>\<open>private\<close> is set; \<open>hc_sent\<close> are the messages given to \<^verbatim>\<open>httpTransfer\<close>.
\<close>

record http_conn =
  hc_port :: int
  hc_closed :: bool
  hc_isSuspended :: bool
  hc_isPartialReply :: bool
  hc_done :: bool
  hc_state :: http_state
  hc_url :: "byte list option"
  hc_method :: "byte list option"
  hc_path :: "byte list option"
  hc_matchedPath :: "byte list option"
  hc_pathInfo :: "byte list option"
  hc_query :: "byte list option"
  hc_version :: "byte list option"
  hc_header :: str_map
  hc_headerLength :: int
  hc_key :: c_ptr
  hc_partial :: "byte list"
  hc_sent :: "byte list list"
  hc_expecting :: int
  hc_websocketType :: u32
  hc_callback :: "callback option"
  hc_websocketHandler :: "app_fn option"
  hc_private :: bool
  hc_code :: int
  hc_ssl :: bool

definition WS_UNDEFINED :: u32 where
  "WS_UNDEFINED = 0x1000"

definition WS_START_OF_FRAME :: u32 where
  "WS_START_OF_FRAME = 0x0100"

definition WS_END_OF_FRAME :: u32 where
  "WS_END_OF_FRAME = 0x0200"

text \<open>A new connection. \<open>ssl\<close> says whether the server supports SSL at all; \<open>hc_ssl\<close> whether the connection has switched to it.\<close>

definition initHttpConnection :: "int \<Rightarrow> bool \<Rightarrow> http_conn" where
  "initHttpConnection port ssl =
     \<lparr>hc_port = port, hc_closed = False, hc_isSuspended = False, hc_isPartialReply = False, hc_done = False,
      hc_state = (if ssl then SNIFFING_SSL else COMMAND), hc_url = None, hc_method = None, hc_path = None, hc_matchedPath = None,
      hc_pathInfo = None, hc_query = None, hc_version = None, hc_header = initHashMap True, hc_headerLength = 0,
      hc_key = Null, hc_partial = [], hc_sent = [], hc_expecting = 0, hc_websocketType = WS_UNDEFINED, hc_callback = None,
      hc_websocketHandler = None, hc_private = False, hc_code = 200, hc_ssl = False\<rparr>"

text \<open>The next byte: from the bytes kept of earlier reads for a negative offset, else from the buffer. \<open>None\<close> is a read
  in front of the kept bytes, \<open>Some None\<close> the value -1 at the end.\<close>

definition httpGetChar :: "http_conn \<Rightarrow> byte list \<Rightarrow> int \<Rightarrow> byte option option" where
  "httpGetChar http buf offset =
     (if offset < 0 then
        (if - offset \<le> int (length (hc_partial http))
         then Some (Some (hc_partial http ! nat (int (length (hc_partial http)) + offset))) else None)
      else if offset < int (length buf) then Some (Some (buf ! nat offset))
      else Some None)"

definition httpGetProtocol :: "http_conn \<Rightarrow> byte list" where
  "httpGetProtocol http = (if hc_ssl http then cstr ''https'' else cstr ''http'')"

definition httpGetHost :: "http_conn \<Rightarrow> byte list" where
  "httpGetHost http =
     (case hm_str (hc_header http) ''host'' of
        None \<Rightarrow> cstr ''localhost''
      | Some host \<Rightarrow> if host = [] then cstr ''localhost'' else host)"

definition httpGetPathInfo :: "http_conn \<Rightarrow> byte list" where
  "httpGetPathInfo http = (case hc_pathInfo http of Some p \<Rightarrow> p | None \<Rightarrow> [])"

definition httpGetQuery :: "http_conn \<Rightarrow> byte list" where
  "httpGetQuery http = (case hc_query http of Some q \<Rightarrow> q | None \<Rightarrow> [])"

text \<open>\<^verbatim>\<open>httpGetURL\<close> builds the text once, in a buffer of \<^verbatim>\<open>s_size + 1\<close> bytes; the path must have been read.\<close>

definition port_text :: "int \<Rightarrow> byte list" where
  "port_text port = take 24 (cstr ('':'' @ dec_of_int port))"

definition httpGetURL :: "http_conn \<Rightarrow> (byte list \<times> http_conn) outcome" where
  "httpGetURL http =
     (case (hc_url http, hc_path http) of
        (Some s, _) \<Rightarrow> Ret (s, http)
      | (None, None) \<Rightarrow> Undef
      | (None, Some path) \<Rightarrow>
          let host = httpGetHost http; s_size = 8 + length host + 25 + length path;
              s = take s_size (if hc_ssl http then cstr ''https://'' else cstr ''http://'') @ take s_size host @
                (if hc_port http \<noteq> (if hc_ssl http then 443 else 80) then port_text (hc_port http) else []) @ take s_size path
          in if length s \<le> s_size then Ret (s, http\<lparr>hc_url := Some s\<rparr>) else Undef)"

text \<open>Lower case, and the search of \<^verbatim>\<open>strcasestr\<close> and \<^verbatim>\<open>strstr\<close>.\<close>

definition lower_case :: "byte \<Rightarrow> byte" where
  "lower_case c = (if 65 \<le> c \<and> c \<le> 90 then c + 32 else c)"

fun has_infix :: "byte list \<Rightarrow> byte list \<Rightarrow> bool" where
  "has_infix s [] \<longleftrightarrow> s = []"
| "has_infix s (b # bs) \<longleftrightarrow> take (length s) (b # bs) = s \<or> has_infix s bs"

text \<open>A C string ends at its first NUL.\<close>

definition c_string :: "byte list \<Rightarrow> byte list" where
  "c_string bs = takeWhile (\<lambda>b. b \<noteq> 0) bs"

definition CRLF :: "byte list" where
  "CRLF = [13, 10]"

section \<open>Library lemmas\<close>

lemma get_init: "getFromHashMap (initHashMap d :: 'v hashmap) = Map.empty"
  by (simp add: getFromHashMap_def initHashMap_def mapSize_def fun_eq_iff)

lemma c_string_id: "0 \<notin> set s \<Longrightarrow> c_string s = s"
  by (induction s) (auto simp: c_string_def)

lemma hm_assign_ok:
  fixes m :: "'v hashmap"
  assumes "hm_ok m" and "getFromHashMap m key \<noteq> None"
  shows "hm_ok (hm_assign m key val)" and "getFromHashMap (hm_assign m key val) = (getFromHashMap m)(key \<mapsto> val)"
proof -
  have pos: "0 < mapSize m" using assms(2) by (auto simp: getFromHashMap_def split: if_splits)
  obtain e post where e: "dropWhile (\<lambda>e. fst e \<noteq> key) (hm_entries m ! hash_idx m key) = e # post"
    using assms(2) pos by (auto simp: getFromHashMap_def split: list.splits)
  have "hm_entries (hm_assign m key val) = hm_entries (put_entry m key val)" "hm_num (hm_assign m key val) = hm_num (put_entry m key val)"
    using e pos by (simp_all add: hm_assign_def put_entry_def Let_def destruct_def)
  note same = hm_ok_cong [OF this]
  have "stores m key val (put_entry m key val)" by (rule put_entry_stores [OF assms(1) pos])
  then show "hm_ok (hm_assign m key val)" "getFromHashMap (hm_assign m key val) = (getFromHashMap m)(key \<mapsto> val)"
    using same by (simp_all add: stores_def)
qed

end
