(* ===== verification/Url.thy ===== *)
theory Url
  imports Http_Conn
begin

text \<open>
  The URL of a request and its arguments (\<^verbatim>\<open>package/shellinabox/src/libhttp/url.c\<close>): the arguments of a query string, of
  a posted form and of a posted multipart body, collected in a hash map.

  A buffer with a length is the list of its bytes; a pointer into it is the list that is left, or an offset where
  pointers are compared. A C string made from bytes ends at its first NUL.
\<close>

section \<open>Model\<close>

text \<open>The value of a hexadecimal digit: the bit 0x20 of a letter is cleared first.\<close>

definition hex_val :: "byte \<Rightarrow> byte option" where
  "hex_val c =
     (if 48 \<le> c \<and> c \<le> 57 then Some (c - 48)
      else let d = c AND 0xDF in if 65 \<le> d \<and> d \<le> 70 then Some (d - 55) else None)"

text \<open>The loop of \<^verbatim>\<open>urlUnescape\<close>, which writes behind the place where it reads. A percent sign
  with one digit gives the value of that digit.\<close>

fun unescape :: "byte list \<Rightarrow> byte list" where
  "unescape [] = []"
| "unescape (ch # u) =
     (if ch = 43 then 32 # unescape u
      else if ch = 37 then
        (case u of
           [] \<Rightarrow> [37]
         | c1 # u1 \<Rightarrow>
             (case hex_val c1 of
                None \<Rightarrow> 37 # unescape u
              | Some d1 \<Rightarrow>
                  (case u1 of
                     [] \<Rightarrow> [d1]
                   | c2 # u2 \<Rightarrow>
                       (case hex_val c2 of
                          None \<Rightarrow> d1 # unescape u1
                        | Some d2 \<Rightarrow> (push_bit 4 d1 + d2) # unescape u2))))
      else ch # unescape u)"

definition urlUnescape :: "byte list \<Rightarrow> byte list" where
  "urlUnescape s = c_string (unescape s)"

definition urlMakeString :: "byte list \<Rightarrow> nat \<Rightarrow> byte list" where
  "urlMakeString buf len = c_string (take len buf)"

text \<open>The end of a pair in \<^verbatim>\<open>urlParseQueryString\<close>: \<open>k\<close> and \<open>v\<close> are the bytes from \<^verbatim>\<open>key\<close> and from \<^verbatim>\<open>value\<close> on.\<close>

definition query_pair :: "byte list \<Rightarrow> byte list option \<Rightarrow> str_map \<Rightarrow> str_map" where
  "query_pair k v args =
     (if k \<noteq> []
      then addToHashMap args (urlUnescape (urlMakeString k (length k)))
             (map_option (\<lambda>b. urlUnescape (urlMakeString b (length b))) v)
      else args)"

fun query_loop :: "byte list \<Rightarrow> byte list \<Rightarrow> byte list option \<Rightarrow> str_map \<Rightarrow> str_map" where
  "query_loop [] k v args = query_pair k v args"
| "query_loop (ch # cs) k v args =
     (if ch = 61 \<and> v = None then query_loop cs k (Some []) args
      else if ch = 38 then query_loop cs [] None (query_pair k v args)
      else if ch = 0 then args
      else case v of
             None \<Rightarrow> query_loop cs (k @ [ch]) None args
           | Some b \<Rightarrow> query_loop cs k (Some (b @ [ch])) args)"

definition urlParseQueryString :: "str_map \<Rightarrow> byte list \<Rightarrow> str_map" where
  "urlParseQueryString args query = query_loop query [] None args"

text \<open>One field of a header line: the bytes up to the next semicolon. The loop that is meant to make the
  key lower case sets a bit that lower case letters have already; the closing quote of a value stays.\<close>

definition key_case :: "byte \<Rightarrow> byte" where
  "key_case t = (if 97 \<le> t \<and> t \<le> 122 then t OR 0x20 else t)"

definition unquote :: "byte list \<Rightarrow> byte list" where
  "unquote b = (if 2 \<le> length b \<and> hd b = 34 \<and> last b = 34 then tl b else b)"

definition header_field :: "byte list \<Rightarrow> str_map \<Rightarrow> str_map" where
  "header_field seg m =
     (let k = takeWhile (\<lambda>c. c \<noteq> 61) seg; r = dropWhile (\<lambda>c. c \<noteq> 61) seg
      in if k \<noteq> []
         then addToHashMap m (map key_case (urlMakeString k (length k)))
                (case r of [] \<Rightarrow> None | _ # b \<Rightarrow> Some (let b' = unquote b in urlMakeString b' (length b')))
         else m)"

function urlParseHeaderLine :: "str_map \<Rightarrow> byte list \<Rightarrow> str_map" where
  "urlParseHeaderLine m s =
     (if s = [] then m
      else let s1 = dropWhile (\<lambda>c. c = 32 \<or> c = 59) s
           in urlParseHeaderLine (header_field (takeWhile (\<lambda>c. c \<noteq> 59) s1) m) (dropWhile (\<lambda>c. c \<noteq> 59) s1))"
  by pat_completeness auto

lemma header_rest_shorter:
  assumes "s \<noteq> []"
  shows "length (dropWhile (\<lambda>c. c \<noteq> 59) (dropWhile (\<lambda>c. c = 32 \<or> c = (59 :: byte)) s)) < length s"
proof (cases "dropWhile (\<lambda>c. c = 32 \<or> c = (59 :: byte)) s")
  case Nil
  then show ?thesis using assms by (simp del: dropWhile_eq_Nil_conv)
next
  case (Cons c cs)
  have "\<not> (c = 32 \<or> c = 59)" using hd_dropWhile [of "\<lambda>c. c = 32 \<or> c = (59 :: byte)" s, unfolded Cons] by simp
  moreover have "length (c # cs) \<le> length s"
    using length_dropWhile_le [of "\<lambda>c. c = 32 \<or> c = (59 :: byte)" s] unfolding Cons .
  ultimately show ?thesis using Cons length_dropWhile_le [of "\<lambda>c. c \<noteq> 59" cs] by simp
qed

termination urlParseHeaderLine
  by (relation "measure (\<lambda>(_, s). length s)") (simp_all add: header_rest_shorter)

text \<open>\<^verbatim>\<open>urlMemstr\<close>: the first occurrence of \<open>s\<close> in the buffer, as an offset from \<open>off\<close>. \<^verbatim>\<open>memchr\<close> looks at
  \<^verbatim>\<open>len - sLen\<close> bytes.\<close>

function memstr :: "byte list \<Rightarrow> byte list \<Rightarrow> nat \<Rightarrow> nat option" where
  "memstr s b off =
     (if s = [] then Some off
      else if length b < length s then None
      else if length s < length b then
        (let n = length b - length s; i = length (takeWhile (\<lambda>c. c \<noteq> hd s) (take n b))
         in if i = n then None
            else if take (length s) (drop i b) = s then Some (off + i)
            else memstr s (drop (Suc i) b) (off + Suc i))
      else if b = s then Some off
      else memstr s (tl b) (Suc off))"
  by pat_completeness auto
termination memstr
  by (relation "measure (\<lambda>(_, b, _). length b)") auto

definition urlMemstr :: "byte list \<Rightarrow> byte list \<Rightarrow> nat option" where
  "urlMemstr b s = memstr s b 0"

text \<open>Whether \<^verbatim>\<open>urlMemcmp\<close> and \<^verbatim>\<open>urlMemcasecmp\<close> return 0.\<close>

definition urlMemcmp :: "byte list \<Rightarrow> byte list \<Rightarrow> bool" where
  "urlMemcmp b s \<longleftrightarrow> length s \<le> length b \<and> take (length s) b = s"

definition urlMemcasecmp :: "byte list \<Rightarrow> byte list \<Rightarrow> bool" where
  "urlMemcasecmp b s \<longleftrightarrow> length s \<le> length b \<and> map lower_case (take (length s) b) = map lower_case s"

text \<open>
  The name of a part. It is copied only when it is not empty; an empty name still points into the map of fields,
  which is destroyed right away, and is used or freed again later.
\<close>

definition part_disposition :: "byte list \<Rightarrow> c_ptr" where
  "part_disposition line =
     (let fields = urlParseHeaderLine (initHashMap True) line
      in if hm_has fields ''form-data''
         then (case hm_str fields ''name'' of None \<Rightarrow> Null | Some n \<Rightarrow> if n = [] then Freed else Ptr n)
         else Null)"

function part_loop :: "str_map \<Rightarrow> c_ptr \<Rightarrow> byte list \<Rightarrow> str_map outcome" where
  "part_loop args name buf =
     (case urlMemstr buf CRLF of
        None \<Rightarrow> if name = Freed then Undef else Ret args
      | Some eol \<Rightarrow>
          if eol = 0 then
            (let body = drop 2 buf
             in case name of
                  Null \<Rightarrow> Ret args
                | Freed \<Rightarrow> Undef
                | Ptr n \<Rightarrow> Ret (addToHashMap args n (if body \<noteq> [] then Some (urlMakeString body (length body)) else None)))
          else
            part_loop args
              (if name = Null \<and> urlMemcasecmp buf (cstr ''content-disposition:'')
               then part_disposition (take (eol - 20) (drop 20 buf)) else name)
              (drop (eol + 2) buf))"
  by pat_completeness auto

text \<open>An occurrence of a string in a buffer, and the one that \<^verbatim>\<open>urlMemstr\<close> finds: the first, but at the very
  end of the buffer only if it is also the start, or if the byte in front of it is the first byte of the string.\<close>

definition occurs :: "byte list \<Rightarrow> byte list \<Rightarrow> nat \<Rightarrow> bool" where
  "occurs s b i \<longleftrightarrow> i + length s \<le> length b \<and> take (length s) (drop i b) = s"

definition found :: "byte list \<Rightarrow> byte list \<Rightarrow> nat \<Rightarrow> bool" where
  "found s b i \<longleftrightarrow> occurs s b i \<and> (\<forall>j < i. \<not> occurs s b j) \<and> (i + length s < length b \<or> i = 0 \<or> b ! (i - 1) = hd s)"

lemma found_unique: "found s b i \<Longrightarrow> found s b j \<Longrightarrow> i = j"
  by (metis found_def linorder_neqE_nat)

lemma occurs_hd:
  assumes "occurs s b i" and "s \<noteq> []"
  shows "b ! i = hd s"
proof -
  have "hd (take (length s) (drop i b)) = hd s" using assms(1) by (simp add: occurs_def)
  moreover have "i < length b" using assms by (cases s) (auto simp: occurs_def)
  ultimately show ?thesis using assms by (simp add: hd_drop_conv_nth)
qed

lemma occurs_drop: "n \<le> length b \<Longrightarrow> occurs s (drop n b) i \<longleftrightarrow> occurs s b (n + i)"
  by (auto simp: occurs_def add.commute)

declare memstr.simps [simp del]

lemma first_byte:
  fixes b :: "byte list"
  assumes "i = length (takeWhile (\<lambda>c. c \<noteq> x) (take n b))" and "n \<le> length b"
  shows "i \<le> n" and "\<forall>j < i. b ! j \<noteq> x" and "i < n \<Longrightarrow> b ! i = x"
proof -
  let ?t = "take n b"
  have l: "length ?t = n" using assms(2) by simp
  show n: "i \<le> n" using assms(1) length_takeWhile_le [of "\<lambda>c. c \<noteq> x" ?t] l by simp
  show "\<forall>j < i. b ! j \<noteq> x"
  proof (intro allI impI)
    fix j assume "j < i"
    then have "takeWhile (\<lambda>c. c \<noteq> x) ?t ! j = b ! j" using assms(1) n by (simp add: takeWhile_nth)
    moreover have "takeWhile (\<lambda>c. c \<noteq> x) ?t ! j \<noteq> x"
      using set_takeWhileD [OF nth_mem [OF \<open>j < i\<close> [unfolded assms(1)]]] by simp
    ultimately show "b ! j \<noteq> x" by simp
  qed
  show "i < n \<Longrightarrow> b ! i = x"
    using nth_length_takeWhile [of "\<lambda>c. c \<noteq> x" ?t] assms(1) l by simp
qed

lemma memstr_found: "s \<noteq> [] \<Longrightarrow> memstr s b off = Some r \<longleftrightarrow> (\<exists>i. r = off + i \<and> found s b i)"
proof (induction s b off rule: memstr.induct)
  case (1 s b off)
  note unf = memstr.simps [of s b off]
  have ne: "s \<noteq> []" by (rule "1.prems")
  consider (short) "length b < length s" | (longer) "length s < length b" | (eq) "length b = length s" by linarith
  then show ?case
  proof cases
    case short
    then show ?thesis using ne by (auto simp: unf found_def occurs_def)
  next
    case eq
    have "memstr s (tl b) (Suc off) = None" using ne eq by (subst memstr.simps) auto
    then show ?thesis using ne eq by (auto simp: unf found_def occurs_def)
  next
    case longer
    define n i where n: "n = length b - length s" and i: "i = length (takeWhile (\<lambda>c. c \<noteq> hd s) (take n b))"
    have nb: "n \<le> length b" by (simp add: n)
    note f = first_byte [OF i nb]
    have before: "\<not> occurs s b j" if "j < i" for j using f(2) occurs_hd [OF _ ne] that by blast
    show ?thesis
    proof (cases "i = n")
      case True
      have "\<not> found s b j" for j
      proof
        assume j: "found s b j"
        then have "j \<le> n" "\<not> j < i" using before by (auto simp: found_def occurs_def n)
        then have "j = n" using True by simp
        with j longer have "b ! (n - 1) = hd s" "0 < n" by (auto simp: found_def n)
        with f(2) True show False by auto
      qed
      then show ?thesis using True ne longer by (simp add: unf n i Let_def)
    next
      case False
      then have lt: "i < n" using f(1) by simp
      show ?thesis
      proof (cases "take (length s) (drop i b) = s")
        case True
        then have "found s b i" using lt before by (auto simp: found_def occurs_def n)
        then have "(\<exists>j. r = off + j \<and> found s b j) \<longleftrightarrow> r = off + i" using found_unique by blast
        moreover have "memstr s b off = Some (off + i)" using True False ne longer by (simp add: unf n i Let_def)
        ultimately show ?thesis by auto
      next
        case neq: False
        have ni: "\<not> occurs s b j" if "j < Suc i" for j
          using before neq that by (cases "j = i") (auto simp: occurs_def)
        have si: "Suc i \<le> length b" using lt n by simp
        have shift: "found s (drop (Suc i) b) j \<longleftrightarrow> found s b (Suc i + j)" for j
        proof -
          have "(\<forall>l < j. \<not> occurs s (drop (Suc i) b) l) \<longleftrightarrow> (\<forall>l < Suc i + j. \<not> occurs s b l)"
            unfolding occurs_drop [OF si] by (metis add_less_cancel_left le_add_diff_inverse ni not_less)
          moreover have "drop (Suc i) b ! (j - 1) = b ! (Suc i + j - 1)" if "0 < j" using that si by simp
          moreover have "b ! i = hd s" by (rule f(3) [OF lt])
          ultimately show ?thesis
            unfolding found_def occurs_drop [OF si] by (cases "j = 0") (auto simp: n)
        qed
        have "memstr s b off = memstr s (drop (Suc i) b) (off + Suc i)"
          using False neq ne longer by (simp add: unf n i Let_def)
        moreover have "memstr s (drop (Suc i) b) (off + Suc i) = Some r \<longleftrightarrow> (\<exists>j. r = off + Suc i + j \<and> found s (drop (Suc i) b) j)"
          using "1.IH"(1) [OF ne _ longer n i False neq ne] longer by simp
        moreover have "(\<exists>j. r = off + j \<and> found s b j) \<longleftrightarrow> (\<exists>j. r = off + Suc i + j \<and> found s b (Suc i + j))"
          by (metis add.assoc found_def le_add_diff_inverse ni not_less)
        ultimately show ?thesis by (simp add: shift)
      qed
    qed
  qed
qed

lemma urlMemstr_found: "s \<noteq> [] \<Longrightarrow> urlMemstr b s = Some i \<longleftrightarrow> found s b i"
  by (simp add: urlMemstr_def memstr_found)

lemma urlMemstr_bound: "s \<noteq> [] \<Longrightarrow> urlMemstr b s = Some i \<Longrightarrow> i + length s \<le> length b"
  by (simp add: urlMemstr_found found_def occurs_def)

termination part_loop
  by (relation "measure (\<lambda>(_, _, b). length b)") (auto simp: CRLF_def dest: urlMemstr_bound [rotated])

declare part_loop.simps [simp del] urlParseHeaderLine.simps [simp del]

definition urlParsePart :: "str_map \<Rightarrow> byte list \<Rightarrow> str_map outcome" where
  "urlParsePart args buf = part_loop args Null buf"

text \<open>
  The loop of \<^verbatim>\<open>urlParsePostBody\<close> over the delimiters of a multipart body. \<open>off\<close> is the offset of \<^verbatim>\<open>part\<close>; the length that is
  left always reaches to the end of the buffer. Without a delimiter the loop goes on unchanged: a call that
  does not return is \<open>None\<close>. A final delimiter without a part in front of it searches a NULL pointer.
\<close>

definition post_delim :: "byte list \<Rightarrow> nat \<Rightarrow> nat option" where
  "post_delim buf off =
     (case (if off = 0 then urlMemstr buf (cstr ''--'') else None) of
        Some p \<Rightarrow> Some p
      | None \<Rightarrow> map_option (\<lambda>i. off + i) (urlMemstr (drop off buf) (CRLF @ cstr ''--'')))"

partial_function (option) post_loop ::
  "byte list \<Rightarrow> byte list \<Rightarrow> nat \<Rightarrow> nat option \<Rightarrow> str_map \<Rightarrow> str_map outcome option" where
  "post_loop buf boundary off lastPart args =
     (if off < length buf then
        (case post_delim buf off of
           None \<Rightarrow> post_loop buf boundary off lastPart args
         | Some ptr \<Rightarrow>
             let off1 = ptr + (if off = 0 then 2 else 4); off2 = off1 + length boundary in
             if urlMemcmp (drop off1 buf) boundary then
               if urlMemcmp (drop off2 buf) CRLF then
                 (case (case lastPart of None \<Rightarrow> Ret args | Some l \<Rightarrow> urlParsePart args (take (ptr - l) (drop l buf))) of
                    Ret args' \<Rightarrow> post_loop buf boundary (off2 + 2) (Some (off2 + 2)) args'
                  | Exit n \<Rightarrow> Some (Exit n) | Undef \<Rightarrow> Some Undef)
               else if urlMemcmp (drop off2 buf) (cstr ''--'' @ CRLF) then
                 (case lastPart of
                    None \<Rightarrow> Some Undef
                  | Some l \<Rightarrow>
                      (case urlParsePart args (take (ptr - l) (drop l buf)) of
                         Ret args' \<Rightarrow> post_loop buf boundary (off2 + 4) None args'
                       | Exit n \<Rightarrow> Some (Exit n) | Undef \<Rightarrow> Some Undef))
               else post_loop buf boundary off2 lastPart args
             else post_loop buf boundary off1 lastPart args)
      else Some (Ret args))"

definition urlParsePostBody :: "str_map \<Rightarrow> http_conn \<Rightarrow> byte list \<Rightarrow> str_map outcome option" where
  "urlParsePostBody args http buf =
     (let contentType = urlParseHeaderLine (initHashMap True)
            (case hm_str (hc_header http) ''content-type'' of None \<Rightarrow> [] | Some ct \<Rightarrow> ct)
      in if hm_has contentType ''application/x-www-form-urlencoded''
         then Some (Ret (urlParseQueryString args buf))
         else if hm_has contentType ''multipart/form-data''
         then (case hm_str contentType ''boundary'' of
                 None \<Rightarrow> Some (Ret args)
               | Some boundary \<Rightarrow> if boundary \<noteq> [] then post_loop buf boundary 0 None args else Some (Ret args))
         else Some (Ret args))"

record url =
  u_protocol :: "byte list"
  u_user :: "byte list option"
  u_password :: "byte list option"
  u_host :: "byte list"
  u_port :: int
  u_path :: "byte list"
  u_pathinfo :: "byte list"
  u_query :: "byte list"
  u_anchor :: "byte list option"
  u_url :: "byte list option"
  u_args :: str_map

text \<open>\<^verbatim>\<open>initURL\<close>: the path must have been matched and the method read before, \<^verbatim>\<open>strdup\<close> and \<^verbatim>\<open>strcmp\<close> take no NULL.\<close>

definition initURL :: "http_conn \<Rightarrow> byte list \<Rightarrow> url outcome option" where
  "initURL http buf =
     (case (hc_matchedPath http, hc_method http) of
        (Some path, Some meth) \<Rightarrow>
          let u = \<lparr>u_protocol = httpGetProtocol http, u_user = None, u_password = None, u_host = httpGetHost http, u_port = hc_port http, u_path = path,
                u_pathinfo = httpGetPathInfo http, u_query = httpGetQuery http, u_anchor = None, u_url = None, u_args = initHashMap True\<rparr>
          in if meth = cstr ''GET'' then Some (Ret (u\<lparr>u_args := urlParseQueryString (u_args u) (u_query u)\<rparr>))
             else if meth = cstr ''POST'' then
               (case urlParsePostBody (u_args u) http buf of
                  None \<Rightarrow> None
                | Some (Ret args) \<Rightarrow> Some (Ret (u\<lparr>u_args := args\<rparr>))
                | Some (Exit n) \<Rightarrow> Some (Exit n)
                | Some Undef \<Rightarrow> Some Undef)
             else Some (Ret u)
      | _ \<Rightarrow> Some Undef)"

definition destroyURL :: "url \<Rightarrow> url" where
  "destroyURL u = u\<lparr>u_args := destroyHashMap (u_args u)\<rparr>"

text \<open>\<^verbatim>\<open>urlGetURL\<close> builds the text once, in a buffer of \<^verbatim>\<open>s_size + 1\<close> bytes.\<close>

definition urlGetURL :: "url \<Rightarrow> (byte list \<times> url) outcome" where
  "urlGetURL u =
     (case u_url u of
        Some s \<Rightarrow> Ret (s, u)
      | None \<Rightarrow>
          let s_size = 8 + length (u_host u) + 25 + length (u_path u);
              s = take s_size (u_protocol u) @ cstr ''://'' @ take s_size (u_host u) @
                (if u_port u \<noteq> (if u_protocol u \<noteq> cstr ''http'' then 443 else 80) then port_text (u_port u) else []) @
                take s_size (u_path u)
          in if length s \<le> s_size then Ret (s, u\<lparr>u_url := Some s\<rparr>) else Undef)"

end
