(* ===== verification/Url_Props.thy ===== *)
theory Url_Props
  imports Url
begin

text \<open>
  What the URL library makes of a request: a query string in the usual encoding is decoded into its
  pairs, a well-formed multipart body into its fields, with a quotation mark behind each name, and a multipart body that does
  not end with its last delimiter is never finished.
\<close>

section \<open>Query strings\<close>

text \<open>The usual encoding: letters and digits stand for themselves, other bytes are a percent sign and two digits.\<close>

definition alnum :: "byte \<Rightarrow> bool" where
  "alnum c \<longleftrightarrow> 48 \<le> c \<and> c \<le> 57 \<or> 65 \<le> c \<and> c \<le> 90 \<or> 97 \<le> c \<and> c \<le> 122"

definition hex_digit :: "byte \<Rightarrow> byte" where
  "hex_digit d = (if d < 10 then 48 + d else 55 + d)"

definition esc :: "byte \<Rightarrow> byte list" where
  "esc c = (if alnum c then [c] else [37, hex_digit (c div 16), hex_digit (c mod 16)])"

definition escape :: "byte list \<Rightarrow> byte list" where
  "escape s = concat (map esc s)"

fun encode_query :: "(byte list \<times> byte list) list \<Rightarrow> byte list" where
  "encode_query [] = []"
| "encode_query [(k, v)] = escape k @ 61 # escape v"
| "encode_query ((k, v) # kv # kvs) = escape k @ 61 # escape v @ 38 # encode_query (kv # kvs)"

lemma hex_digit_val:
  assumes "d < 16"
  shows "hex_val (hex_digit d) = Some d" "hex_digit d \<noteq> 0" "hex_digit d \<noteq> 61" "hex_digit d \<noteq> 38"
proof -
  have "\<forall>n \<in> set [0..<16]. hex_val (hex_digit (of_nat n)) = Some (of_nat n) \<and>
      hex_digit (of_nat n) \<noteq> 0 \<and> hex_digit (of_nat n) \<noteq> 61 \<and> hex_digit (of_nat n) \<noteq> 38"
    by (simp add: upt_rec hex_digit_def hex_val_def)
  moreover have "unat d \<in> set [0..<16]" using assms by (simp add: word_less_nat_alt)
  moreover have "of_nat (unat d) = d" by simp
  ultimately show "hex_val (hex_digit d) = Some d" "hex_digit d \<noteq> 0" "hex_digit d \<noteq> 61" "hex_digit d \<noteq> 38"
    by metis+
qed

lemma byte_nibbles: "c div 16 < (16 :: byte)" "c mod 16 < (16 :: byte)"
  using unat_less_256 [of c] by (simp_all add: word_less_nat_alt unat_div unat_mod less_mult_imp_div_less)

lemma unescape_esc: "unescape (esc c @ r) = c # unescape r"
proof (cases "alnum c")
  case True
  then have "c \<noteq> 43" "c \<noteq> 37" by (auto simp: alnum_def)
  then show ?thesis using True by (simp add: esc_def)
next
  case False
  have "push_bit 4 (c div 16) + c mod 16 = c"
    using div_mult_mod_eq [of c 16] by (simp add: push_bit_eq_mult)
  then show ?thesis
    using False hex_digit_val(1) [OF byte_nibbles(1) [of c]] hex_digit_val(1) [OF byte_nibbles(2) [of c]] by (simp add: esc_def)
qed

lemma unescape_escape: "unescape (escape s) = s"
  by (induction s) (simp_all add: escape_def unescape_esc)

lemma escape_set: "0 \<notin> set (escape s)" "61 \<notin> set (escape s)" "38 \<notin> set (escape s)"
proof -
  have "0 \<notin> set (esc c)" "61 \<notin> set (esc c)" "38 \<notin> set (esc c)" for c
    using hex_digit_val(2-4) [OF byte_nibbles(1) [of c]] hex_digit_val(2-4) [OF byte_nibbles(2) [of c]]
    by (auto simp: esc_def alnum_def)
  then show "0 \<notin> set (escape s)" "61 \<notin> set (escape s)" "38 \<notin> set (escape s)" by (auto simp: escape_def)
qed

lemma urlMakeString_all: "0 \<notin> set s \<Longrightarrow> urlMakeString s (length s) = s"
  by (simp add: urlMakeString_def c_string_id)

lemma escape_empty: "escape k = [] \<longleftrightarrow> k = []"
  by (cases k) (auto simp: escape_def esc_def)

lemma query_pair_escaped:
  "\<lbrakk>k \<noteq> []; 0 \<notin> set k; 0 \<notin> set v\<rbrakk> \<Longrightarrow> query_pair (escape k) (Some (escape v)) args = addToHashMap args k (Some v)"
  by (simp add: query_pair_def escape_empty urlMakeString_all escape_set urlUnescape_def unescape_escape c_string_id)

lemma query_loop_key:
  "\<lbrakk>0 \<notin> set ek; 61 \<notin> set ek; 38 \<notin> set ek\<rbrakk> \<Longrightarrow> query_loop (ek @ rest) k None args = query_loop rest (k @ ek) None args"
  by (induction ek arbitrary: k) auto

lemma query_loop_value:
  "\<lbrakk>0 \<notin> set ev; 38 \<notin> set ev\<rbrakk> \<Longrightarrow> query_loop (ev @ rest) k (Some b) args = query_loop rest k (Some (b @ ev)) args"
  by (induction ev arbitrary: b) auto

lemma query_loop_encoded:
  "\<forall>(k, v) \<in> set kvs. k \<noteq> [] \<and> 0 \<notin> set k \<and> 0 \<notin> set v \<Longrightarrow>
     query_loop (encode_query kvs) [] None args = fold (\<lambda>(k, v) m. addToHashMap m k v) (map (\<lambda>(k, v). (k, Some v)) kvs) args"
proof (induction kvs arbitrary: args rule: encode_query.induct)
  case 1
  then show ?case by (simp add: query_pair_def)
next
  case (2 k v)
  then show ?case
    using query_loop_key [OF escape_set, of k "61 # escape v" "[]" args]
      query_loop_value [OF escape_set(1,3), of v "[]" "escape k" "[]" args]
    by (simp add: query_pair_escaped)
next
  case (3 k v kv kvs)
  then show ?case
    using query_loop_key [OF escape_set, of k "61 # escape v @ 38 # encode_query (kv # kvs)" "[]" args]
      query_loop_value [OF escape_set(1,3), of v "38 # encode_query (kv # kvs)" "escape k" "[]" args]
    by (simp add: query_pair_escaped)
qed

lemma filled_args:
  fixes kvs :: "(hm_key \<times> 'v) list"
  shows "getFromHashMap (fold (\<lambda>(k, v) m. addToHashMap m k v) kvs (initHashMap d)) = map_of (rev kvs)"
  using hm.get_put_all [of "initHashMap d" kvs] by (simp add: get_init)

text \<open>
  C6: the arguments of a GET request are decoded: for every list of pairs with non-empty keys and without NUL, the
  encoded query gives a map with exactly these pairs, the last one of a key counting.
\<close>

theorem url_query_roundtrip:
  assumes "hc_method http = Some (cstr ''GET'')" and "hc_matchedPath http = Some path"
    and "hc_query http = Some (encode_query kvs)" and "\<forall>(k, v) \<in> set kvs. k \<noteq> [] \<and> 0 \<notin> set k \<and> 0 \<notin> set v"
  shows "\<exists>u. initURL http buf = Some (Ret u) \<and> u_query u = encode_query kvs \<and>
    getFromHashMap (u_args u) = map_of (rev (map (\<lambda>(k, v). (k, Some v)) kvs))"
  using assms query_loop_encoded [OF assms(4), of "initHashMap True"] filled_args [of "map (\<lambda>(k, v). (k, Some v)) kvs" True]
  by (simp add: initURL_def httpGetQuery_def urlParseQueryString_def Let_def)

section \<open>Header lines\<close>

lemma header_line_empty [simp]: "urlParseHeaderLine m [] = m"
  by (simp add: urlParseHeaderLine.simps)

lemma cut_at:
  "x \<notin> set k \<Longrightarrow> takeWhile (\<lambda>c. c \<noteq> x) (k @ x # b) = k" "x \<notin> set k \<Longrightarrow> dropWhile (\<lambda>c. c \<noteq> x) (k @ x # b) = x # b"
  "x \<notin> set k \<Longrightarrow> takeWhile (\<lambda>c. c \<noteq> x) k = k" "x \<notin> set k \<Longrightarrow> dropWhile (\<lambda>c. c \<noteq> x) k = []"
  by (induction k) auto

lemma dropWhile_head: "xs \<noteq> [] \<Longrightarrow> \<not> P (hd xs) \<Longrightarrow> dropWhile P xs = xs"
  by (cases xs) auto

lemma header_line_last:
  assumes "seg \<noteq> []" and "hd seg \<noteq> 32" and "59 \<notin> set seg" and "\<forall>c \<in> set sp. c = 32 \<or> c = 59"
  shows "urlParseHeaderLine m (sp @ seg) = header_field seg m"
proof -
  have "hd seg \<noteq> 59" using assms(1,3) by (metis hd_in_set)
  then have "dropWhile (\<lambda>c. c = 32 \<or> c = 59) (sp @ seg) = seg"
    using assms by (simp add: dropWhile_append2 dropWhile_head)
  then show ?thesis using assms(1,3) by (subst urlParseHeaderLine.simps) (simp add: cut_at)
qed

lemma header_line_more:
  assumes "seg \<noteq> []" and "hd seg \<noteq> 32" and "59 \<notin> set seg" and "\<forall>c \<in> set sp. c = 32 \<or> c = 59"
  shows "urlParseHeaderLine m (sp @ seg @ 59 # rest) = urlParseHeaderLine (header_field seg m) (59 # rest)"
proof -
  have "hd seg \<noteq> 59" using assms(1,3) by (metis hd_in_set)
  then have "dropWhile (\<lambda>c. c = 32 \<or> c = 59) (sp @ seg @ 59 # rest) = seg @ 59 # rest"
    using assms by (simp add: dropWhile_append2 dropWhile_head)
  then show ?thesis using assms(1,3) by (subst urlParseHeaderLine.simps) (simp add: cut_at)
qed

lemma header_field_key: "\<lbrakk>seg \<noteq> []; 61 \<notin> set seg\<rbrakk> \<Longrightarrow> header_field seg m = addToHashMap m (map key_case (c_string seg)) None"
  by (simp add: header_field_def Let_def urlMakeString_def cut_at)

lemma header_field_value:
  assumes "k \<noteq> []" and "61 \<notin> set k"
  shows "header_field (k @ 61 # b) m = addToHashMap m (map key_case (c_string k)) (Some (c_string (unquote b)))"
  using assms by (simp add: header_field_def Let_def urlMakeString_def cut_at)

text \<open>A line with a word and a parameter behind it.\<close>

lemma header_line_param:
  assumes "w \<noteq> []" and "hd w \<noteq> 32" and "59 \<notin> set w" and "61 \<notin> set w" and "k \<noteq> []" and "hd k \<noteq> 32" and "59 \<notin> set (k @ b)" and "61 \<notin> set k"
    and "\<forall>c \<in> set sp. c = 32 \<or> c = 59"
  shows "urlParseHeaderLine m (sp @ w @ [59, 32] @ k @ 61 # b) =
    addToHashMap (addToHashMap m (map key_case (c_string w)) None) (map key_case (c_string k)) (Some (c_string (unquote b)))"
proof -
  have "urlParseHeaderLine m (sp @ w @ 59 # 32 # k @ 61 # b) = urlParseHeaderLine (header_field w m) ([59, 32] @ (k @ 61 # b))"
    using header_line_more [OF assms(1-3,9), of m "32 # k @ 61 # b"] by simp
  also have "\<dots> = header_field (k @ 61 # b) (header_field w m)"
    using assms(5,6,7) by (intro header_line_last) auto
  finally show ?thesis by (simp add: header_field_value [OF assms(5,8)] header_field_key [OF assms(1,4)])
qed

section \<open>Delimiters\<close>

abbreviation DELIM :: "byte list" where
  "DELIM \<equiv> [13, 10, 45, 45]"

lemma delim_eq: "CRLF @ cstr ''--'' = DELIM" "cstr ''--'' = [45, 45]" "cstr ''--'' @ CRLF = [45, 45, 13, 10]"
  by (simp_all add: CRLF_def cstr_def byte_of_char_def)

lemma occurs_nth: "occurs s b i \<longleftrightarrow> i + length s \<le> length b \<and> (\<forall>j < length s. b ! (i + j) = s ! j)"
  by (auto simp: occurs_def list_eq_iff_nth_eq)

lemma occurs_append: "occurs (s @ t) b i \<longleftrightarrow> occurs s b i \<and> occurs t b (i + length s)"
proof
  assume "occurs (s @ t) b i"
  then have l: "i + length s + length t \<le> length b" and "take (length s + length t) (drop i b) = s @ t" by (auto simp: occurs_def)
  then have "take (length s) (drop i b) @ take (length t) (drop (i + length s) b) = s @ t"
    by (simp add: take_add add.commute)
  moreover have "length (take (length s) (drop i b)) = length s" using l by simp
  ultimately show "occurs s b i \<and> occurs t b (i + length s)" using l by (auto simp: occurs_def)
next
  assume "occurs s b i \<and> occurs t b (i + length s)"
  then show "occurs (s @ t) b i" by (auto simp: occurs_def take_add add.commute add.left_commute)
qed

lemma delim_no_overlap:
  assumes "occurs DELIM b i" and "occurs DELIM b j" and "i < j"
  shows "i + 4 \<le> j"
proof (rule ccontr)
  assume "\<not> i + 4 \<le> j"
  with assms(3) have "j = i + 1 \<or> j = i + 2 \<or> j = i + 3" by linarith
  moreover have "b ! (i + 1) = 10" "b ! (i + 2) = 45" "b ! (i + 3) = 45" "b ! j = 13"
    using assms(1,2) by (auto simp: occurs_nth numeral_eq_Suc dest: spec [of _ "0 :: nat"] spec [of _ "Suc 0"] spec [of _ "Suc (Suc 0)"] spec [of _ "Suc (Suc (Suc 0))"])
  ultimately show False by auto
qed

lemma urlMemcmp_occurs: "i \<le> length b \<Longrightarrow> urlMemcmp (drop i b) s \<longleftrightarrow> occurs s b i"
  by (auto simp: urlMemcmp_def occurs_def)

section \<open>Multipart bodies\<close>

text \<open>The rest of a round of the loop, once a delimiter was found at \<open>ptr\<close> and ends at \<open>off1\<close>.\<close>

definition post_found :: "byte list \<Rightarrow> byte list \<Rightarrow> nat \<Rightarrow> nat \<Rightarrow> nat option \<Rightarrow> str_map \<Rightarrow> str_map outcome option" where
  "post_found buf boundary off1 ptr lastPart args =
     (let off2 = off1 + length boundary in
      if urlMemcmp (drop off1 buf) boundary then
        if urlMemcmp (drop off2 buf) CRLF then
          (case (case lastPart of None \<Rightarrow> Ret args | Some l \<Rightarrow> urlParsePart args (take (ptr - l) (drop l buf))) of
             Ret args' \<Rightarrow> post_loop buf boundary (off2 + 2) (Some (off2 + 2)) args'
           | Exit n \<Rightarrow> Some (Exit n) | Undef \<Rightarrow> Some Undef)
        else if urlMemcmp (drop off2 buf) (cstr ''--'' @ CRLF) then
          (case lastPart of
             None \<Rightarrow> Some Undef
           | Some l \<Rightarrow>
               (case urlParsePart args (take (ptr - l) (drop l buf)) of
                  Ret args' \<Rightarrow> post_loop buf boundary (off2 + 4) None args'
                | Exit n \<Rightarrow> Some (Exit n) | Undef \<Rightarrow> Some Undef))
        else post_loop buf boundary off2 lastPart args
      else post_loop buf boundary off1 lastPart args)"

lemma post_loop_found:
  "off < length buf \<Longrightarrow> post_delim buf off = Some ptr \<Longrightarrow>
     post_loop buf boundary off lastPart args = post_found buf boundary (ptr + (if off = 0 then 2 else 4)) ptr lastPart args"
  by (subst post_loop.simps) (simp add: post_found_def Let_def)

lemma post_loop_end: "length buf \<le> off \<Longrightarrow> post_loop buf boundary off lastPart args = Some (Ret args)"
  by (subst post_loop.simps) simp

text \<open>Without a delimiter the loop does not end.\<close>

lemma post_loop_some:
  assumes "post_loop buf boundary off lastPart args = Some r"
  shows "off < length buf \<longrightarrow> post_delim buf off \<noteq> None"
  by (rule post_loop.raw_induct [of "\<lambda>buf _ off _ _ _. off < length buf \<longrightarrow> post_delim buf off \<noteq> None", OF _ assms])
    (rule impI, rule notI, fastforce)

lemma post_loop_stuck: "off < length buf \<Longrightarrow> post_delim buf off = None \<Longrightarrow> post_loop buf boundary off lastPart args = None"
  using post_loop_some by (cases "post_loop buf boundary off lastPart args") blast+

lemma post_delim_later: "0 < off \<Longrightarrow> post_delim buf off = map_option (\<lambda>i. off + i) (urlMemstr (drop off buf) DELIM)"
  by (simp add: post_delim_def delim_eq(1))

text \<open>False delimiters, with another text than the boundary behind them, are passed over.\<close>

lemma post_loop_skip:
  assumes "0 < off" and "off \<le> e" and "B \<noteq> []" and "occurs (DELIM @ B) buf e"
    and "\<forall>d. off \<le> d \<and> d < e \<longrightarrow> \<not> occurs (DELIM @ B) buf d"
  shows "post_loop buf B off lastPart args = post_found buf B (e + 4) e lastPart args"
  using assms
proof (induction "e - off" arbitrary: off rule: less_induct)
  case less
  have e: "occurs DELIM buf e" "occurs B buf (e + 4)" using less.prems(4) by (simp_all only: occurs_append) (simp_all add: numeral_eq_Suc)
  then have len: "e + 4 + length B \<le> length buf" by (simp add: occurs_def)
  have off: "off \<le> length buf" "off < length buf" using less.prems(2) len by linarith+
  define i where "i = (LEAST i. occurs DELIM (drop off buf) i)"
  have ex: "occurs DELIM (drop off buf) (e - off)" using e(1) less.prems(2) by (simp add: occurs_drop off)
  have i: "occurs DELIM (drop off buf) i" "\<forall>j < i. \<not> occurs DELIM (drop off buf) j" "i \<le> e - off"
    unfolding i_def using LeastI [of "occurs DELIM (drop off buf)", OF ex] not_less_Least Least_le [of "occurs DELIM (drop off buf)", OF ex] by blast+
  have "found DELIM (drop off buf) i"
    using i len less.prems(2,3) by (cases B) (auto simp: found_def)
  then have "urlMemstr (drop off buf) DELIM = Some i" by (simp add: urlMemstr_found)
  then have step: "post_loop buf B off lastPart args = post_found buf B (off + i + 4) (off + i) lastPart args"
    using post_loop_found [OF off(2), of "off + i"] less.prems(1) by (simp add: post_delim_later)
  show ?case
  proof (cases "off + i = e")
    case True
    then show ?thesis using step by simp
  next
    case False
    have oi: "occurs DELIM buf (off + i)" using i(1) by (simp add: occurs_drop off)
    have lt: "off + i < e" using False i(3) less.prems(2) by linarith
    have le: "off + i + 4 \<le> e" by (rule delim_no_overlap [OF oi e(1) lt])
    have "\<not> occurs (DELIM @ B) buf (off + i)" using less.prems(5) lt by simp
    then have "\<not> occurs B buf (off + i + 4)" using oi unfolding occurs_append by (simp add: numeral_eq_Suc)
    then have "\<not> urlMemcmp (drop (off + i + 4) buf) B" using le len by (subst urlMemcmp_occurs) simp_all
    then have "post_loop buf B off lastPart args = post_loop buf B (off + i + 4) lastPart args" using step by (simp add: post_found_def)
    also have "\<dots> = post_found buf B (e + 4) e lastPart args"
      using less.prems le by (intro less.hyps) auto
    finally show ?thesis .
  qed
qed

text \<open>A multipart body: the parts \<open>Ts\<close> between delimiters with the boundary \<open>B\<close>, and an epilogue.\<close>

fun mp_rest :: "byte list \<Rightarrow> byte list list \<Rightarrow> byte list \<Rightarrow> byte list" where
  "mp_rest B [] epi = epi"
| "mp_rest B [T] epi = T @ DELIM @ B @ [45, 45, 13, 10] @ epi"
| "mp_rest B (T # U # Ts) epi = T @ DELIM @ B @ [13, 10] @ mp_rest B (U # Ts) epi"

definition mp_body :: "byte list \<Rightarrow> byte list list \<Rightarrow> byte list \<Rightarrow> byte list" where
  "mp_body B Ts epi = [45, 45] @ B @ [13, 10] @ mp_rest B Ts epi"

text \<open>The delimiter with the boundary does not occur in a part.\<close>

definition mp_part :: "byte list \<Rightarrow> byte list \<Rightarrow> bool" where
  "mp_part B T \<longleftrightarrow> (\<forall>i < length T. \<not> occurs (DELIM @ B) (T @ DELIM @ B) i)"

fun parse_parts :: "byte list list \<Rightarrow> str_map \<Rightarrow> str_map outcome" where
  "parse_parts [] args = Ret args"
| "parse_parts (T # Ts) args = obind (urlParsePart args T) (parse_parts Ts)"

lemma occurs_within: "occurs s (a @ b) i \<Longrightarrow> i + length s \<le> length a \<Longrightarrow> occurs s a i"
  by (auto simp: occurs_def)

lemma occurs_prefix: "occurs s (p @ b) (length p + i) \<longleftrightarrow> occurs s b i"
  by (auto simp: occurs_def)

lemma occurs_here: "occurs s (p @ s @ b) (length p)"
  by (simp add: occurs_def)

lemma post_part:
  assumes "pre \<noteq> []" and "B \<noteq> []" and "mp_part B T" and "buf = pre @ T @ DELIM @ B @ tail"
  shows "post_loop buf B (length pre) lastPart args =
    post_found buf B (length pre + length T + 4) (length pre + length T) lastPart args"
proof (rule post_loop_skip)
  have b: "buf = (pre @ T) @ (DELIM @ B) @ tail" by (simp add: assms(4))
  show "occurs (DELIM @ B) buf (length pre + length T)" unfolding b using occurs_here [of "DELIM @ B" "pre @ T" tail] by simp
  show "\<forall>d. length pre \<le> d \<and> d < length pre + length T \<longrightarrow> \<not> occurs (DELIM @ B) buf d"
  proof (intro allI impI notI)
    fix d assume d: "length pre \<le> d \<and> d < length pre + length T" and "occurs (DELIM @ B) buf d"
    then have "occurs (DELIM @ B) ((T @ DELIM @ B) @ tail) (d - length pre)"
      using occurs_prefix [of "DELIM @ B" pre "(T @ DELIM @ B) @ tail" "d - length pre"] by (simp add: assms(4))
    then have "occurs (DELIM @ B) (T @ DELIM @ B) (d - length pre)" by (rule occurs_within) (use d in auto)
    moreover have "d - length pre < length T" using d by linarith
    ultimately show False using assms(3) unfolding mp_part_def by blast
  qed
qed (use assms(1,2) in auto)

lemma delim_drops:
  fixes pre T B tail :: "byte list"
  assumes "buf = pre @ T @ DELIM @ B @ tail"
  shows "drop (length pre + length T + 4) buf = B @ tail" "drop (length pre + length T + 4 + length B) buf = tail"
    "take (length pre + length T - length pre) (drop (length pre) buf) = T"
proof -
  have "buf = (pre @ T @ DELIM) @ B @ tail" "length pre + length T + 4 = length (pre @ T @ DELIM)" using assms by simp_all
  then show "drop (length pre + length T + 4) buf = B @ tail" by (metis append_eq_conv_conj)
  have "buf = (pre @ T @ DELIM @ B) @ tail" "length pre + length T + 4 + length B = length (pre @ T @ DELIM @ B)" using assms by simp_all
  then show "drop (length pre + length T + 4 + length B) buf = tail" by (metis append_eq_conv_conj)
  show "take (length pre + length T - length pre) (drop (length pre) buf) = T" by (simp add: assms)
qed

lemma urlMemcmp_append [simp]: "urlMemcmp (s @ t) s"
  by (simp add: urlMemcmp_def)

lemma urlMemcmp_other: "\<not> urlMemcmp (45 # t) CRLF"
  by (simp add: urlMemcmp_def CRLF_def)

lemma CRLF_eq: "CRLF = [13, 10]"
  by (rule CRLF_def)

lemma post_part_last:
  assumes "pre \<noteq> []" and "B \<noteq> []" and "mp_part B T" and "buf = pre @ T @ DELIM @ B @ [45, 45, 13, 10] @ epi"
  shows "post_loop buf B (length pre) (Some (length pre)) args =
    (case urlParsePart args T of
       Ret args' \<Rightarrow> post_loop buf B (length buf - length epi) None args'
     | Exit n \<Rightarrow> Some (Exit n) | Undef \<Rightarrow> Some Undef)"
proof -
  have l: "length buf - length epi = length pre + length T + 4 + length B + 4" by (simp add: assms(4))
  show ?thesis
    unfolding l using post_part [OF assms] delim_drops [OF assms(4)] urlMemcmp_other [of "45 # 13 # 10 # epi"]
      urlMemcmp_append [of "[45, 45, 13, 10]" epi]
    by (simp add: post_found_def Let_def delim_eq(3) split: outcome.split)
qed

lemma post_part_more:
  assumes "pre \<noteq> []" and "B \<noteq> []" and "mp_part B T" and "buf = pre @ T @ DELIM @ B @ [13, 10] @ rest"
  shows "post_loop buf B (length pre) (Some (length pre)) args =
    (case urlParsePart args T of
       Ret args' \<Rightarrow> (let l = length (pre @ T @ DELIM @ B @ [13, 10]) in post_loop buf B l (Some l) args')
     | Exit n \<Rightarrow> Some (Exit n) | Undef \<Rightarrow> Some Undef)"
proof -
  have l: "length (pre @ T @ DELIM @ B @ [13, 10]) = length pre + length T + 4 + length B + 2" by simp
  show ?thesis
    unfolding l using post_part [OF assms] delim_drops [OF assms(4)] urlMemcmp_append [of CRLF rest]
    by (simp add: post_found_def Let_def CRLF_eq split: outcome.split)
qed

lemma post_parts:
  assumes "pre \<noteq> []" and "B \<noteq> []" and "Ts \<noteq> []" and "\<forall>T \<in> set Ts. mp_part B T" and "buf = pre @ mp_rest B Ts epi"
  shows "post_loop buf B (length pre) (Some (length pre)) args =
    (case parse_parts Ts args of
       Ret args' \<Rightarrow> post_loop buf B (length buf - length epi) None args'
     | Exit n \<Rightarrow> Some (Exit n) | Undef \<Rightarrow> Some Undef)"
  using assms
proof (induction B Ts epi arbitrary: pre args rule: mp_rest.induct)
  case (2 B T epi)
  then have b: "buf = pre @ T @ DELIM @ B @ [45, 45, 13, 10] @ epi" and m: "mp_part B T" by simp_all
  show ?case unfolding post_part_last [OF "2.prems"(1,2) m b] by (simp split: outcome.split)
next
  case (3 B T U Ts epi)
  then have b: "buf = pre @ T @ DELIM @ B @ [13, 10] @ mp_rest B (U # Ts) epi" and m: "mp_part B T" by simp_all
  let ?pre = "pre @ T @ DELIM @ B @ [13, 10]"
  have IH: "post_loop buf B (length ?pre) (Some (length ?pre)) args' =
    (case parse_parts (U # Ts) args' of
       Ret args' \<Rightarrow> post_loop buf B (length buf - length epi) None args'
     | Exit n \<Rightarrow> Some (Exit n) | Undef \<Rightarrow> Some Undef)" for args'
    using "3.prems"(2,4) b by (intro "3.IH") simp_all
  show ?case
    unfolding post_part_more [OF "3.prems"(1,2) m b] Let_def IH by (simp split: outcome.split)
qed simp

lemma mp_start:
  "post_loop ([45, 45] @ B @ [13, 10] @ rest) B 0 None args =
     (let l = length ([45, 45] @ B @ [13, 10]) in post_loop ([45, 45] @ B @ [13, 10] @ rest) B l (Some l) args)"
proof -
  let ?buf = "[45, 45] @ B @ [13, 10] @ rest"
  have "found [45, 45] ?buf 0" by (simp add: found_def occurs_def)
  then have "urlMemstr ?buf (cstr ''--'') = Some 0" by (simp add: urlMemstr_found delim_eq(2))
  then have "post_delim ?buf 0 = Some 0" by (simp add: post_delim_def)
  then have "post_loop ?buf B 0 None args = post_found ?buf B 2 0 None args" using post_loop_found [of 0 ?buf 0] by (simp add: numeral_2_eq_2)
  moreover have "urlMemcmp (drop (Suc (Suc (length B))) ?buf) CRLF" "urlMemcmp (drop 2 ?buf) B"
    by (simp_all add: urlMemcmp_def CRLF_def)
  ultimately show ?thesis by (simp add: post_found_def Let_def)
qed

lemma post_body:
  assumes "B \<noteq> []" and "Ts \<noteq> []" and "\<forall>T \<in> set Ts. mp_part B T"
  shows "post_loop (mp_body B Ts epi) B 0 None args =
    (case parse_parts Ts args of
       Ret args' \<Rightarrow> post_loop (mp_body B Ts epi) B (length (mp_body B Ts epi) - length epi) None args'
     | Exit n \<Rightarrow> Some (Exit n) | Undef \<Rightarrow> Some Undef)"
  using mp_start [of B "mp_rest B Ts epi" args]
    post_parts [OF _ assms, of "[45, 45] @ B @ [13, 10]" "mp_body B Ts epi" epi args]
  by (simp add: mp_body_def Let_def)

section \<open>The parts of a form\<close>

text \<open>A field of a form the way browsers send it.\<close>

definition form_part :: "byte list \<times> byte list \<Rightarrow> byte list" where
  "form_part nv = (case nv of (n, v) \<Rightarrow> cstr ''Content-Disposition: form-data; name='' @ 34 # n @ 34 # CRLF @ CRLF @ v)"

definition plain_name :: "byte list \<Rightarrow> bool" where
  "plain_name n \<longleftrightarrow> 0 \<notin> set n \<and> 13 \<notin> set n \<and> 59 \<notin> set n"

lemma found_CRLF: "13 \<notin> set h \<Longrightarrow> r \<noteq> [] \<Longrightarrow> found CRLF (h @ CRLF @ r) (length h)"
proof -
  assume h: "13 \<notin> set h" and r: "r \<noteq> []"
  have "\<not> occurs CRLF (h @ CRLF @ r) j" if "j < length h" for j
  proof
    assume "occurs CRLF (h @ CRLF @ r) j"
    then have "h ! j = 13" using occurs_hd [of CRLF "h @ CRLF @ r" j] that by (simp add: CRLF_def nth_append)
    with h that show False by (metis nth_mem)
  qed
  then show ?thesis using r by (auto simp: found_def occurs_def)
qed

lemma disposition_eq:
  assumes "plain_name n"
  shows "part_disposition (cstr '' form-data; name='' @ 34 # n @ [34]) = Ptr (n @ [34])"
proof -
  let ?w = "cstr ''form-data''" and ?k = "cstr ''name''"
  have "cstr '' form-data; name='' @ 34 # n @ [34] = [32] @ ?w @ [59, 32] @ ?k @ 61 # 34 # n @ [34]"
    by (simp add: cstr_def byte_of_char_def)
  moreover have "urlParseHeaderLine m ([32] @ ?w @ [59, 32] @ ?k @ 61 # 34 # n @ [34]) =
      addToHashMap (addToHashMap m (map key_case (c_string ?w)) None) (map key_case (c_string ?k)) (Some (c_string (unquote (34 # n @ [34]))))" for m
    using assms by (intro header_line_param) (simp_all add: cstr_def byte_of_char_def plain_name_def)
  moreover have "c_string (unquote (34 # n @ [34])) = n @ [34]" using assms by (simp add: unquote_def c_string_id plain_name_def)
  moreover have "map key_case (c_string ?w) = ?w" "map key_case (c_string ?k) = ?k" "?w \<noteq> ?k"
    by (simp_all add: cstr_def byte_of_char_def c_string_def key_case_def)
  ultimately show ?thesis
    by (simp add: part_disposition_def hm_has_def hm_str_def hm.get_put hm.valid_put get_init)
qed

definition form_value :: "byte list \<Rightarrow> byte list option" where
  "form_value v = (if v = [] then None else Some v)"

lemma part_form:
  assumes "plain_name n" and "0 \<notin> set v"
  shows "urlParsePart args (form_part (n, v)) = Ret (addToHashMap args (n @ [34]) (form_value v))"
proof -
  define h where "h = cstr ''Content-Disposition: form-data; name='' @ 34 # n @ [34]"
  have fp: "form_part (n, v) = h @ CRLF @ CRLF @ v" by (simp add: form_part_def h_def)
  have c: "cstr ''Content-Disposition: form-data; name='' = cstr ''Content-Disposition:'' @ cstr '' form-data; name=''"
    by (simp add: cstr_def)
  have l: "length (cstr ''Content-Disposition:'') = 20" by (simp add: cstr_def)
  have "13 \<notin> set h" using assms(1) by (simp add: h_def plain_name_def cstr_def byte_of_char_def)
  then have eol: "urlMemstr (form_part (n, v)) CRLF = Some (length h)"
    unfolding fp using found_CRLF [of h "CRLF @ v"] by (simp add: urlMemstr_found CRLF_eq)
  have line: "take (length h - 20) (drop 20 (form_part (n, v))) = cstr '' form-data; name='' @ 34 # n @ [34]"
    unfolding fp h_def c using l by simp
  have "urlMemcasecmp (form_part (n, v)) (cstr ''content-disposition:'')"
    by (simp add: urlMemcasecmp_def fp h_def cstr_def byte_of_char_def lower_case_def)
  moreover have "drop (length h + 2) (form_part (n, v)) = CRLF @ v" unfolding fp by (simp add: CRLF_def)
  moreover have "h \<noteq> []" by (simp add: h_def)
  ultimately have "urlParsePart args (form_part (n, v)) = part_loop args (Ptr (n @ [34])) (CRLF @ v)"
    unfolding urlParsePart_def by (subst part_loop.simps) (simp add: eol line disposition_eq [OF assms(1)])
  moreover have "urlMemstr (CRLF @ v) CRLF = Some 0" by (simp add: urlMemstr_found found_def occurs_def CRLF_def)
  ultimately show ?thesis
    using assms(2) by (simp add: part_loop.simps [of args "Ptr (n @ [34])"] CRLF_eq form_value_def urlMakeString_def c_string_id)
qed

lemma parse_form_parts:
  assumes "\<forall>(n, v) \<in> set kvs. plain_name n \<and> 0 \<notin> set v"
  shows "parse_parts (map form_part kvs) args =
    Ret (fold (\<lambda>(k, v) m. addToHashMap m k v) (map (\<lambda>(n, v). (n @ [34], form_value v)) kvs) args)"
  using assms by (induction kvs arbitrary: args) (auto simp: part_form)

text \<open>A request whose header announces a multipart body.\<close>

definition multipart :: "http_conn \<Rightarrow> byte list \<Rightarrow> bool" where
  "multipart http B \<longleftrightarrow> hc_method http = Some (cstr ''POST'') \<and> hc_matchedPath http \<noteq> None \<and>
     hm_str (hc_header http) ''content-type'' = Some (cstr ''multipart/form-data; boundary='' @ B) \<and>
     B \<noteq> [] \<and> 0 \<notin> set B \<and> 34 \<notin> set B \<and> 59 \<notin> set B"

lemma content_type_eq:
  assumes "B \<noteq> []" and "0 \<notin> set B" and "34 \<notin> set B" and "59 \<notin> set B"
  shows "urlParseHeaderLine m (cstr ''multipart/form-data; boundary='' @ B) =
    addToHashMap (addToHashMap m (cstr ''multipart/form-data'') None) (cstr ''boundary'') (Some B)"
proof -
  let ?w = "cstr ''multipart/form-data''" and ?k = "cstr ''boundary''"
  have "cstr ''multipart/form-data; boundary='' @ B = [] @ ?w @ [59, 32] @ ?k @ 61 # B"
    by (simp add: cstr_def byte_of_char_def)
  moreover have "urlParseHeaderLine m ([] @ ?w @ [59, 32] @ ?k @ 61 # B) =
      addToHashMap (addToHashMap m (map key_case (c_string ?w)) None) (map key_case (c_string ?k)) (Some (c_string (unquote B)))"
    using assms by (intro header_line_param) (simp_all add: cstr_def byte_of_char_def)
  moreover have "unquote B = B" using assms(1,3) by (metis hd_in_set unquote_def)
  moreover have "map key_case (c_string ?w) = ?w" "map key_case (c_string ?k) = ?k"
    by (simp_all add: cstr_def byte_of_char_def c_string_def key_case_def)
  ultimately show ?thesis using assms(2) by (simp add: c_string_id)
qed

lemma post_multipart:
  assumes "multipart http B"
  shows "urlParsePostBody args http buf = post_loop buf B 0 None args"
proof -
  have "cstr ''multipart/form-data'' \<noteq> cstr ''application/x-www-form-urlencoded''"
    "cstr ''boundary'' \<noteq> cstr ''application/x-www-form-urlencoded''" "cstr ''boundary'' \<noteq> cstr ''multipart/form-data''"
    by (simp_all add: cstr_def)
  then show ?thesis
    using assms content_type_eq [of B "initHashMap True"]
    by (simp add: urlParsePostBody_def multipart_def hm_has_def hm_str_def [of "addToHashMap _ _ _"] hm.get_put hm.valid_put get_init)
qed

lemma init_multipart:
  assumes "multipart http B" and "post_loop buf B 0 None (initHashMap True) = Some (Ret args)"
  shows "\<exists>u. initURL http buf = Some (Ret u) \<and> u_args u = args"
  using assms post_multipart [OF assms(1), of "initHashMap True" buf]
  by (auto simp: initURL_def multipart_def cstr_def byte_of_char_def)

text \<open>
  C10: a form that a browser posts as a multipart body is read field by field, and the call returns. The name of every field
  comes out with the closing quotation mark behind it: under the name itself a field is not found.
\<close>

theorem url_multipart_form:
  assumes "multipart http B" and "kvs \<noteq> []" and "\<forall>(n, v) \<in> set kvs. plain_name n \<and> 0 \<notin> set v \<and> mp_part B (form_part (n, v))"
  shows "\<exists>u. initURL http (mp_body B (map form_part kvs) []) = Some (Ret u) \<and>
    getFromHashMap (u_args u) = map_of (rev (map (\<lambda>(n, v). (n @ [34], form_value v)) kvs))"
proof -
  have "B \<noteq> []" using assms(1) by (simp add: multipart_def)
  moreover have "\<forall>T \<in> set (map form_part kvs). mp_part B T" using assms(3) by auto
  moreover have "\<forall>(n, v) \<in> set kvs. plain_name n \<and> 0 \<notin> set v" using assms(3) by auto
  ultimately have "post_loop (mp_body B (map form_part kvs) []) B 0 None (initHashMap True) =
      Some (Ret (fold (\<lambda>(k, v) m. addToHashMap m k v) (map (\<lambda>(n, v). (n @ [34], form_value v)) kvs) (initHashMap True)))"
    using assms(2) by (simp add: post_body parse_form_parts post_loop_end)
  from init_multipart [OF assms(1) this] show ?thesis using filled_args by metis
qed

lemma init_stuck: "multipart http B \<Longrightarrow> post_loop buf B 0 None (initHashMap True) = None \<Longrightarrow> initURL http buf = None"
  using post_multipart [of http B "initHashMap True" buf]
  by (auto simp: initURL_def multipart_def cstr_def byte_of_char_def)

lemma memstr_absent: "s \<noteq> [] \<Longrightarrow> \<forall>i. \<not> occurs s b i \<Longrightarrow> urlMemstr b s = None"
  using urlMemstr_found [of s b] by (cases "urlMemstr b s") (auto simp: found_def)

text \<open>
  C14: a multipart body that breaks off is never finished: if no delimiter follows the first one, or there
  is none at all, \<^verbatim>\<open>initURL\<close> does not return. One such request stops the whole server.
\<close>

theorem url_multipart_hangs:
  assumes "multipart http B"
  shows "(buf \<noteq> [] \<and> (\<forall>i. \<not> occurs (cstr ''--'') buf i) \<longrightarrow> initURL http buf = None) \<and>
    (T \<noteq> [] \<and> (\<forall>i. \<not> occurs (CRLF @ cstr ''--'') T i) \<longrightarrow> initURL http (cstr ''--'' @ B @ CRLF @ T) = None)"
proof (intro conjI impI; elim conjE)
  assume b: "buf \<noteq> []" and n: "\<forall>i. \<not> occurs (cstr ''--'') buf i"
  have "\<forall>i. \<not> occurs (CRLF @ cstr ''--'') buf i" using n by (simp add: occurs_append)
  then have "post_delim buf 0 = None" using n by (simp add: post_delim_def memstr_absent cstr_def CRLF_def)
  then show "initURL http buf = None" using b by (intro init_stuck [OF assms] post_loop_stuck) simp_all
next
  assume T: "T \<noteq> []" and n: "\<forall>i. \<not> occurs (CRLF @ cstr ''--'') T i"
  let ?pre = "[45, 45] @ B @ [13, 10]" and ?buf = "[45, 45] @ B @ [13, 10] @ T"
  have "drop (length ?pre) ?buf = T" by simp
  then have "post_delim ?buf (length ?pre) = None"
    using n by (simp add: post_delim_later memstr_absent delim_eq(1))
  then have "post_loop ?buf B (length ?pre) (Some (length ?pre)) (initHashMap True) = None"
    using T by (intro post_loop_stuck) simp_all
  then have "post_loop ?buf B 0 None (initHashMap True) = None" unfolding mp_start Let_def .
  then show "initURL http (cstr ''--'' @ B @ CRLF @ T) = None" using init_stuck [OF assms] by (simp add: delim_eq(2) CRLF_def)
qed

text \<open>A connection with a posted form, for the witnesses.\<close>

definition get_conn :: http_conn where
  "get_conn = (initHttpConnection 4200 False)\<lparr>hc_method := Some (cstr ''GET''), hc_matchedPath := Some (cstr ''/x''),
     hc_query := Some (encode_query [(cstr ''a b'', cstr ''1&2''), (cstr ''c'', [])])\<rparr>"

definition post_conn :: http_conn where
  "post_conn = get_conn\<lparr>hc_method := Some (cstr ''POST''),
     hc_header := addToHashMap (initHashMap True) (cstr ''content-type'') (Some (cstr ''multipart/form-data; boundary='' @ cstr ''XyZ''))\<rparr>"

lemma post_conn_multipart: "multipart post_conn (cstr ''XyZ'')"
  by (simp add: multipart_def post_conn_def get_conn_def hm_str_def hm.get_put get_init cstr_def byte_of_char_def)

theorem url_query_roundtrip_witness:
  "\<exists>u. initURL get_conn [] = Some (Ret u) \<and> u_query u = encode_query [(cstr ''a b'', cstr ''1&2''), (cstr ''c'', [])] \<and>
    getFromHashMap (u_args u) = map_of (rev (map (\<lambda>(k, v). (k, Some v)) [(cstr ''a b'', cstr ''1&2''), (cstr ''c'', [])]))"
  by (rule url_query_roundtrip [of get_conn "cstr ''/x''"]) (simp_all add: get_conn_def cstr_def byte_of_char_def)

theorem url_multipart_form_witness:
  "\<exists>u. initURL post_conn (mp_body (cstr ''XyZ'') (map form_part [(cstr ''user'', cstr ''root'')]) []) = Some (Ret u) \<and>
    getFromHashMap (u_args u) = map_of (rev (map (\<lambda>(n, v). (n @ [34], form_value v)) [(cstr ''user'', cstr ''root'')]))"
proof (rule url_multipart_form [OF post_conn_multipart])
  have "mp_part (cstr ''XyZ'') (form_part (cstr ''user'', cstr ''root''))" by code_simp
  then show "\<forall>(n, v) \<in> set [(cstr ''user'', cstr ''root'')]. plain_name n \<and> 0 \<notin> set v \<and> mp_part (cstr ''XyZ'') (form_part (n, v))"
    by (simp add: plain_name_def) (simp add: cstr_def byte_of_char_def)
qed simp

theorem url_multipart_hangs_witness:
  "initURL post_conn (cstr ''ab'') = None \<and> initURL post_conn (cstr ''--'' @ cstr ''XyZ'' @ CRLF @ cstr ''ab'') = None"
  using url_multipart_hangs [OF post_conn_multipart, of "cstr ''ab''" "cstr ''ab''"]
  by (auto simp: occurs_nth cstr_def byte_of_char_def CRLF_def)

end
