(* ===== verification/Http_Request.thy ===== *)
theory Http_Request
  imports Http_Conn Trie
begin

text \<open>
  Requests of the HTTP library (\<^verbatim>\<open>httpconnection.c\<close> and the registration of handlers in \<^verbatim>\<open>server.c\<close> under
  \<^verbatim>\<open>package/shellinabox/src/libhttp\<close>): the command line, the header lines, the choice of the handler, the payload and the end of a request.

  The functions of the application are the parameter \<open>app\<close>: each takes and returns the connection and a state of its own. A failed \<^verbatim>\<open>check\<close>
  ends the process with status 1. Bytes are read through \<^verbatim>\<open>httpGetChar\<close>; a function that reads a line gets the list of the bytes from its offset
  on. The timeouts of the server and the log are left out, \<^verbatim>\<open>char\<close> is signed.
\<close>

section \<open>The application\<close>

text \<open>\<open>app_stale s\<close> stands for what the array \<^verbatim>\<open>buf\<close> of \<^verbatim>\<open>httpHandleConnection\<close> holds where a read has not stored anything: it is not initialised.\<close>

record 's http_app =
  app_handler :: "app_fn \<Rightarrow> http_conn \<Rightarrow> 's \<Rightarrow> http_rc \<times> http_conn \<times> 's"
  app_callback :: "app_fn \<Rightarrow> byte list option \<Rightarrow> http_conn \<Rightarrow> 's \<Rightarrow> http_rc \<times> http_conn \<times> 's"
  app_websocket :: "app_fn \<Rightarrow> u32 \<Rightarrow> byte list option \<Rightarrow> 's \<Rightarrow> http_rc \<times> 's"
  app_stale :: "'s \<Rightarrow> nat \<Rightarrow> byte"

definition WS_CONNECTION_OPENED :: u32 where
  "WS_CONNECTION_OPENED = 0xFF00"

definition WS_CONNECTION_CLOSED :: u32 where
  "WS_CONNECTION_CLOSED = 0x7F00"

text \<open>\<^verbatim>\<open>struct HttpHandler\<close>: \<open>Streaming f\<close> has the handler of the application, \<open>Collecting f\<close> has \<^verbatim>\<open>serverCollectHandler\<close> for it.\<close>

datatype http_fn = Streaming app_fn | Collecting app_fn

record http_handler =
  h_handler :: "http_fn option"
  h_websocketHandler :: "app_fn option"

definition serverRegisterHttpHandler :: "http_handler trie \<Rightarrow> byte list \<Rightarrow> app_fn option \<Rightarrow> http_handler trie" where
  "serverRegisterHttpHandler handlers url handler =
     fst (addToTrie True handlers url
       (case handler of None \<Rightarrow> None | Some f \<Rightarrow> Some \<lparr>h_handler = Some (Collecting f), h_websocketHandler = None\<rparr>))"

definition serverRegisterStreamingHttpHandler :: "http_handler trie \<Rightarrow> byte list \<Rightarrow> app_fn option \<Rightarrow> http_handler trie" where
  "serverRegisterStreamingHttpHandler handlers url handler =
     fst (addToTrie True handlers url
       (case handler of None \<Rightarrow> None | Some f \<Rightarrow> Some \<lparr>h_handler = Some (Streaming f), h_websocketHandler = None\<rparr>))"

definition serverRegisterWebSocketHandler :: "http_handler trie \<Rightarrow> byte list \<Rightarrow> app_fn option \<Rightarrow> http_handler trie" where
  "serverRegisterWebSocketHandler handlers url handler =
     fst (addToTrie True handlers url
       (case handler of None \<Rightarrow> None | Some f \<Rightarrow> Some \<lparr>h_handler = None, h_websocketHandler = Some f\<rparr>))"

section \<open>Replies\<close>

definition httpCloseRead :: "http_conn \<Rightarrow> http_conn" where
  "httpCloseRead http = http\<lparr>hc_closed := True\<rparr>"

text \<open>\<^verbatim>\<open>httpTransfer\<close> outside of a suspended or partial reply: the message is put in the queue of the connection, and the connection with an
  Internet Explorer is closed. The queue and the changes that are made to the text of a message are left out.\<close>

definition queue_msg :: "byte list \<Rightarrow> http_conn \<Rightarrow> http_conn" where
  "queue_msg msg http =
     (let ieBug = (case hm_str (hc_header http) ''user-agent'' of None \<Rightarrow> False | Some ua \<Rightarrow> has_infix (cstr ''MSIE '') ua);
          http' = http\<lparr>hc_sent := hc_sent http @ [msg]\<rparr>
      in if ieBug then httpCloseRead http' else http')"

definition reply_body :: "byte list \<Rightarrow> byte list \<Rightarrow> byte list" where
  "reply_body title msg =
     cstr ''<?xml version=\"1.0\" encoding=\"utf-8\"?>'' @ [10] @
     cstr ''<!DOCTYPE html PUBLIC \"-//W3C//DTD XHTML 1.0 Transitional//EN\" '' @
     cstr ''\"http://www.w3.org/TR/xhtml1/DTD/xhtml1-transitional.dtd\">'' @ [10] @
     cstr ''<html xmlns=\"http://www.w3.org/1999/xhtml\" xmlns:v=\"urn:schemas-microsoft-com:vml\" xml:lang=\"en\" lang=\"en\">'' @ [10] @
     cstr ''<head>'' @ [10] @ cstr ''<title>'' @ title @ cstr ''</title>'' @ [10] @ cstr ''</head>'' @ [10] @ cstr ''<body>'' @ [10] @
     msg @ [10] @ cstr ''</body>'' @ [10] @ cstr ''</html>'' @ [10]"

definition reply_head :: "int \<Rightarrow> byte list \<Rightarrow> nat \<Rightarrow> byte list" where
  "reply_head code msg len =
     cstr ''HTTP/1.1 '' @ cstr (dec_of_int code) @ [32] @ msg @ CRLF @
     (if code \<noteq> 200 then cstr ''Connection: close'' @ CRLF else []) @
     cstr ''Content-Type: text/html; charset=utf-8'' @ CRLF @ cstr ''Content-Length: '' @ cstr (dec_of_nat len) @ CRLF @ CRLF"

text \<open>\<^verbatim>\<open>httpSendReply\<close> without details: \<^verbatim>\<open>fmt\<close> is \<^verbatim>\<open>NO_MSG\<close>.\<close>

definition httpSendReply :: "int \<Rightarrow> byte list \<Rightarrow> http_conn \<Rightarrow> http_conn outcome" where
  "httpSendReply code msg http =
     (case hc_method http of
        None \<Rightarrow> Undef
      | Some meth \<Rightarrow>
          let isHead = (meth = cstr ''HEAD'');
              body = reply_body (if code \<noteq> 200 then cstr (dec_of_int code) @ [32] @ msg else msg) msg
          in if code = 0 \<and> isHead then Undef
             else let http' = queue_msg ((if code \<noteq> 0 then reply_head code msg (length body) else []) @ (if isHead then [] else body))
                    (http\<lparr>hc_code := code\<rparr>)
                  in Ret (if code \<noteq> 200 \<or> isHead then httpCloseRead http' else http'))"

section \<open>Callbacks\<close>

definition MAX_PAYLOAD_LENGTH :: nat where
  "MAX_PAYLOAD_LENGTH = 65536"

text \<open>\<^verbatim>\<open>serverCollectFullPayload\<close>; \<open>buf\<close> is \<open>None\<close> at the end of the connection. The payload is kept in the callback of the connection.\<close>

definition set_payload :: "byte list option \<Rightarrow> http_conn \<Rightarrow> http_conn" where
  "set_payload bs http = (case hc_callback http of Some (Collect f _) \<Rightarrow> http\<lparr>hc_callback := Some (Collect f bs)\<rparr> | _ \<Rightarrow> http)"

definition payload_len :: "byte list option \<Rightarrow> nat" where
  "payload_len bs = (case bs of None \<Rightarrow> 0 | Some b \<Rightarrow> length b)"

definition serverCollectFullPayload ::
  "'s http_app \<Rightarrow> app_fn \<Rightarrow> byte list option \<Rightarrow> byte list option \<Rightarrow> http_conn \<Rightarrow> 's \<Rightarrow> (http_rc \<times> http_conn \<times> 's) outcome" where
  "serverCollectFullPayload app f bytes buf http s =
     (if (case buf of None \<Rightarrow> False | Some b \<Rightarrow> b \<noteq> [] \<and> payload_len bytes + length b > MAX_PAYLOAD_LENGTH) then
        obind (httpSendReply 400 (cstr ''Bad Request'') http) (\<lambda>http'. Ret (HTTP_DONE, http', s))
      else
        let bytes' = (case buf of None \<Rightarrow> bytes | Some b \<Rightarrow>
              if b = [] then bytes else Some ((case bytes of None \<Rightarrow> [] | Some p \<Rightarrow> p) @ b));
            http1 = set_payload bytes' http;
            contentLength = hm_str (hc_header http) ''content-length'';
            call = (case contentLength of
                None \<Rightarrow> True
              | Some cl \<Rightarrow> bytes' \<noteq> None \<and> (atoi (str_of_bytes cl) \<le> int (payload_len bytes') \<or> buf = None));
            (rc, http2, s2) = (if call then app_callback app f (Some (case bytes' of None \<Rightarrow> [] | Some p \<Rightarrow> p)) http1 s
                               else (HTTP_READ_MORE, http1, s));
            http3 = (if call then set_payload None http2 else http2)
        in if buf = None \<and> (rc = HTTP_SUSPEND \<or> rc = HTTP_PARTIAL_REPLY) then
             (case app_callback app f None http3 s2 of (_, http4, s4) \<Rightarrow> Ret (HTTP_DONE, http4, s4))
           else Ret (rc, http3, s2))"

definition run_callback ::
  "'s http_app \<Rightarrow> callback \<Rightarrow> byte list option \<Rightarrow> http_conn \<Rightarrow> 's \<Rightarrow> (http_rc \<times> http_conn \<times> 's) outcome" where
  "run_callback app cb buf http s =
     (case cb of
        App f \<Rightarrow> Ret (app_callback app f buf http s)
      | Collect f bytes \<Rightarrow> serverCollectFullPayload app f bytes buf http s)"

text \<open>\<^verbatim>\<open>serverCollectHandler\<close> sets the callback and asks for the payload.\<close>

definition run_handler :: "'s http_app \<Rightarrow> http_fn \<Rightarrow> http_conn \<Rightarrow> 's \<Rightarrow> http_rc \<times> http_conn \<times> 's" where
  "run_handler app h http s =
     (case h of
        Streaming f \<Rightarrow> app_handler app f http s
      | Collecting f \<Rightarrow> (HTTP_READ_MORE, http\<lparr>hc_callback := Some (Collect f (Some []))\<rparr>, s))"

section \<open>The state of a connection\<close>

text \<open>\<^verbatim>\<open>strcmp(a, b) < 0\<close>.\<close>

fun str_less :: "byte list \<Rightarrow> byte list \<Rightarrow> bool" where
  "str_less _ [] \<longleftrightarrow> False"
| "str_less [] (b # bs) \<longleftrightarrow> True"
| "str_less (a # as) (b # bs) \<longleftrightarrow> a < b \<or> a = b \<and> str_less as bs"

definition wants_close :: "http_conn \<Rightarrow> bool" where
  "wants_close http \<longleftrightarrow>
     (case hm_str (hc_header http) ''connection'' of None \<Rightarrow> False | Some con \<Rightarrow> has_infix (cstr ''close'') (map lower_case con)) \<or>
     (case hc_version http of None \<Rightarrow> True | Some v \<Rightarrow> str_less v (cstr ''HTTP/1.1''))"

definition httpFinishCommand :: "'s http_app \<Rightarrow> http_conn \<Rightarrow> 's \<Rightarrow> (http_conn \<times> 's) outcome" where
  "httpFinishCommand app http s =
     obind
       (if hc_done http then Ret (http, s)
        else case (hc_callback http, hc_websocketHandler http) of
            (None, None) \<Rightarrow> Ret (http, s)
          | (cb, ws) \<Rightarrow>
              obind (case cb of
                       Some c \<Rightarrow> run_callback app c None http s
                     | None \<Rightarrow> (case app_websocket app (the ws) WS_CONNECTION_CLOSED None s of (rc, s') \<Rightarrow> Ret (rc, http, s')))
                (\<lambda>(rc, http', s').
                   if rc = HTTP_SUSPEND \<or> rc = HTTP_PARTIAL_REPLY then Exit 1
                   else let http'' = http'\<lparr>hc_callback := None\<rparr>
                        in Ret (if rc = HTTP_ERROR then httpCloseRead http'' else http'', s')))
       (\<lambda>(http', s'). Ret (if \<not> hc_closed http' \<and> wants_close http' then httpCloseRead http' else http', s'))"

text \<open>\<^verbatim>\<open>httpSetState\<close>. The strings of the header are freed when a request ends, but \<^verbatim>\<open>http->key\<close> is not reset.\<close>

definition clear_command :: "http_conn \<Rightarrow> http_conn" where
  "clear_command http =
     http\<lparr>hc_done := False, hc_url := None, hc_method := None, hc_path := None, hc_matchedPath := None, hc_pathInfo := None,
          hc_query := None, hc_version := None, hc_header := initHashMap True, hc_headerLength := 0,
          hc_key := (case hc_key http of Null \<Rightarrow> Null | _ \<Rightarrow> Freed), hc_callback := None, hc_code := 200\<rparr>"

definition httpSetState :: "'s http_app \<Rightarrow> http_state \<Rightarrow> http_conn \<Rightarrow> 's \<Rightarrow> (http_conn \<times> 's) outcome" where
  "httpSetState app state http s =
     (if state = hc_state http then Ret (http, s)
      else obind
        (if state = COMMAND then
           obind (if hc_state http \<noteq> SNIFFING_SSL then httpFinishCommand app http s else Ret (http, s))
             (\<lambda>(http', s'). if hc_private http' then Exit 1 else Ret (clear_command http', s'))
         else Ret (http, s))
        (\<lambda>(http', s'). Ret (http'\<lparr>hc_state := state\<rparr>, s')))"

section \<open>The choice of the handler\<close>

text \<open>The length of the payload: negative if it is unknown.\<close>

definition length_field :: "byte list option \<Rightarrow> int" where
  "length_field val =
     (case val of
        None \<Rightarrow> - 1
      | Some cl \<Rightarrow> if cl = [] then - 1
          else case strtol 10 (str_of_bytes cl) of (n, rest) \<Rightarrow> if rest = [] then n else - 1)"

definition content_length :: "http_conn \<Rightarrow> int" where
  "content_length http = length_field (hm_str (hc_header http) ''content-length'')"

definition no_payload :: "http_conn \<Rightarrow> http_conn" where
  "no_payload http = (if hc_expecting http < 0 then http\<lparr>hc_expecting := 0\<rparr> else http)"

text \<open>The loop over the characters of the host name: it ends at a colon, which is overwritten; \<open>None\<close> is a bad character.\<close>

definition host_char :: "byte \<Rightarrow> bool" where
  "host_char c \<longleftrightarrow> c = 45 \<or> c = 46 \<or> 48 \<le> c \<and> c \<le> 57 \<or> 65 \<le> c \<and> c \<le> 90 \<or> 97 \<le> c \<and> c \<le> 122 \<or> c = 0x7F"

definition host_name :: "byte list \<Rightarrow> byte list option" where
  "host_name host =
     (let h = takeWhile (\<lambda>c. c \<noteq> 58) host in if list_all host_char h then Some h else None)"

text \<open>The answer to a web socket handshake: \<open>None\<close> if there is none, or a bad one.\<close>

definition printable :: "byte list \<Rightarrow> bool" where
  "printable s \<longleftrightarrow> list_all (\<lambda>c. 32 \<le> c) s"

definition ws_handshake :: "http_conn \<Rightarrow> byte list option" where
  "ws_handshake http =
     (if hm_str (hc_header http) ''upgrade'' = Some (cstr ''WebSocket'') \<and> hm_str (hc_header http) ''connection'' = Some (cstr ''Upgrade'') then
        (case hm_str (hc_header http) ''origin'' of
           None \<Rightarrow> None
         | Some origin \<Rightarrow>
             let protocol = hm_str (hc_header http) ''websocket-protocol''
             in if \<not> printable origin \<or> (case protocol of None \<Rightarrow> False | Some p \<Rightarrow> \<not> printable p) then None
                else Some
                  (cstr ''HTTP/1.1 101 Web Socket Protocol Handshake'' @ CRLF @ cstr ''Upgrade: WebSocket'' @ CRLF @
                   cstr ''Connection: Upgrade'' @ CRLF @ cstr ''WebSocket-Origin: '' @ origin @ CRLF @
                   cstr ''WebSocket-Location: '' @ (if hc_ssl http then cstr ''wss'' else cstr ''ws'') @ cstr ''://'' @
                   httpGetHost http @
                   (if hc_port http \<noteq> (if hc_ssl http then 443 else 80) then cstr ('':'' @ dec_of_int (hc_port http)) else []) @
                   (case hc_path http of None \<Rightarrow> [] | Some p \<Rightarrow> p) @ CRLF @
                   (case protocol of None \<Rightarrow> [] | Some p \<Rightarrow> cstr ''WebSocket-Protocol: '' @ p @ CRLF) @ CRLF))
      else None)"

text \<open>The parts of a path whose first \<open>n\<close> bytes are the key of the handler: the slashes at the end of the key belong to the rest, which must be empty
  or start a new segment, a query or a fragment.\<close>

definition split_path :: "byte list \<Rightarrow> nat \<Rightarrow> (byte list \<times> byte list option \<times> byte list option) option" where
  "split_path path n =
     (let matched = rev (dropWhile (\<lambda>c. c = 47) (rev (take n path)));
          diff = drop (length matched) path
      in if diff = [] \<or> hd diff \<in> {47, 63, 35}
         then Some (matched,
           if diff \<noteq> [] \<and> hd diff \<noteq> 63 then Some (takeWhile (\<lambda>c. c \<noteq> 63) diff) else None,
           case dropWhile (\<lambda>c. c \<noteq> 63) diff of [] \<Rightarrow> None | _ # query \<Rightarrow> Some query)
         else None)"

text \<open>The dispatch, behind the checks of the request.\<close>

definition file_not_found :: "http_conn \<Rightarrow> 's \<Rightarrow> (http_rc \<times> http_conn \<times> 's) outcome" where
  "file_not_found http s = obind (httpSendReply 404 (cstr ''File Not Found'') http) (\<lambda>http'. Ret (HTTP_DONE, http', s))"

definition dispatch :: "'s http_app \<Rightarrow> http_handler trie \<Rightarrow> http_conn \<Rightarrow> 's \<Rightarrow> (http_rc \<times> http_conn \<times> 's) outcome" where
  "dispatch app handlers http s =
     (case hc_path http of
        None \<Rightarrow> Undef
      | Some path \<Rightarrow>
          (case getFromTrie True handlers path of
             (None, _) \<Rightarrow> file_not_found http s
           | (Some h, rest) \<Rightarrow>
               (case (h_websocketHandler h, ws_handshake http) of
                  (Some w, Some response) \<Rightarrow>
                    obind (httpSetState app WEBSOCKET ((no_payload (queue_msg response http))\<lparr>hc_websocketHandler := Some w\<rparr>) s)
                      (\<lambda>(http', s'). Ret (HTTP_READ_MORE, http', s'))
                | _ \<Rightarrow>
                    (case (h_handler h, rest) of
                       (None, _) \<Rightarrow> file_not_found http s
                     | (Some f, None) \<Rightarrow> Exit 1
                     | (Some f, Some r) \<Rightarrow>
                         (case split_path path (length path - length r) of
                            None \<Rightarrow> file_not_found http s
                          | Some (matched, info, query) \<Rightarrow>
                              if hc_matchedPath http \<noteq> None \<or> hc_pathInfo http \<noteq> None \<or> hc_query http \<noteq> None then Exit 1
                              else Ret (run_handler app f
                                (http\<lparr>hc_matchedPath := Some matched, hc_pathInfo := info, hc_query := query\<rparr>) s))))))"

definition options_reply :: "byte list" where
  "options_reply = cstr ''HTTP/1.1 200 OK'' @ CRLF @ cstr ''Content-Length: 0'' @ CRLF @ cstr ''Allow: GET, POST, OPTIONS'' @ CRLF @ CRLF"

definition httpHandleCommand :: "'s http_app \<Rightarrow> http_handler trie \<Rightarrow> http_conn \<Rightarrow> 's \<Rightarrow> (http_rc \<times> http_conn \<times> 's) outcome" where
  "httpHandleCommand app handlers http0 s =
     (let http = http0\<lparr>hc_expecting := content_length http0\<rparr>;
          refuse = (\<lambda>code msg http. obind (httpSendReply code (cstr msg) http) (\<lambda>http'. Ret (HTTP_DONE, http', s)))
      in case hc_method http of
        None \<Rightarrow> Undef
      | Some meth \<Rightarrow>
          if meth = cstr ''OPTIONS'' then Ret (HTTP_READ_MORE, no_payload (queue_msg options_reply http), s)
          else if meth \<in> {cstr ''PUT'', cstr ''DELETE'', cstr ''TRACE'', cstr ''CONNECT''} then refuse 405 ''Method Not Allowed'' http
          else if meth \<notin> {cstr ''GET'', cstr ''POST'', cstr ''HEAD''} then refuse 501 ''Method Not Implemented'' http
          else let http1 = (if meth = cstr ''POST'' then http else no_payload http)
               in case hm_str (hc_header http1) ''host'' of
                    None \<Rightarrow> dispatch app handlers http1 s
                  | Some host \<Rightarrow>
                      (case host_name host of
                         None \<Rightarrow> refuse 400 ''Bad Request'' http1
                       | Some h \<Rightarrow> dispatch app handlers (http1\<lparr>hc_header := hm_assign (hc_header http1) (cstr ''host'') (Some h)\<rparr>) s))"

section \<open>The command line\<close>

definition blank :: "byte \<Rightarrow> bool" where
  "blank c \<longleftrightarrow> c = 32 \<or> c = 9"

definition upper_case :: "byte \<Rightarrow> byte" where
  "upper_case c = (if 97 \<le> c \<and> c \<le> 122 then c AND NOT 0x20 else c)"

definition bad_request :: "http_conn \<Rightarrow> http_conn" where
  "bad_request http =
     http\<lparr>hc_method := Some (case hc_method http of None \<Rightarrow> [] | Some m \<Rightarrow> m),
          hc_path := Some (case hc_path http of None \<Rightarrow> [] | Some p \<Rightarrow> p),
          hc_version := Some (case hc_version http of None \<Rightarrow> [] | Some v \<Rightarrow> v)\<rparr>"

text \<open>\<^verbatim>\<open>httpParseCommand\<close> for the bytes \<open>bs\<close> from the offset on. Text that does not fit into the memory that was allocated for it is \<open>Undef\<close>.\<close>

definition httpParseCommand ::
  "'s http_app \<Rightarrow> byte list \<Rightarrow> int \<Rightarrow> int \<Rightarrow> int \<Rightarrow> http_conn \<Rightarrow> 's \<Rightarrow> (bool \<times> http_conn \<times> 's) outcome" where
  "httpParseCommand app bs firstSpace lastSpace lineLength http s =
     (if firstSpace < 1 \<or> lastSpace < 0 then Ret (False, bad_request http, s)
      else if hc_method http \<noteq> None then Exit 1
      else
        let method = map upper_case (take (nat firstSpace) bs);
            http1 = http\<lparr>hc_method := Some (c_string method)\<rparr>
        in if hc_path http1 \<noteq> None then Exit 1
           else
             let path = dropWhile blank (drop (nat firstSpace) (take (nat lastSpace) bs));
                 http2 = http1\<lparr>hc_path := Some (c_string path)\<rparr>
             in if \<not> int (length path) < lastSpace - firstSpace then Undef
                else if (c_string path = [] \<or> hd (c_string path) \<noteq> 47) \<and>
                        (c_string method \<noteq> cstr ''OPTIONS'' \<or> c_string path \<noteq> cstr ''*'')
                then Ret (False, bad_request http2, s)
                else if hc_version http2 \<noteq> None then Exit 1
                else
                  let version = dropWhile blank (map upper_case (takeWhile (\<lambda>c. c \<noteq> 13) (drop (nat lastSpace) (take (nat lineLength) bs))));
                      http3 = http2\<lparr>hc_version := Some (c_string version)\<rparr>
                  in if \<not> int (length version) < lineLength - lastSpace + 1 then Undef
                     else if take 5 (c_string version) \<noteq> cstr ''HTTP/'' \<or>
                          \<not> (5 < length (c_string version) \<and> 49 \<le> c_string version ! 5 \<and> c_string version ! 5 \<le> 57)
                     then Ret (False, bad_request http3, s)
                     else obind (httpSetState app HEADERS http3 s) (\<lambda>(http', s'). Ret (True, http', s')))"

section \<open>Header lines\<close>

text \<open>What is appended for a continuation line: blanks inside are dropped, too.\<close>

definition strip_cr :: "byte list \<Rightarrow> byte list" where
  "strip_cr v = (if v \<noteq> [] \<and> last v = 13 then butlast v else v)"

definition continued :: "byte list \<Rightarrow> byte list \<Rightarrow> byte list" where
  "continued old line = old @ 32 # filter (\<lambda>c. \<not> blank c) (strip_cr (tl line))"

text \<open>The reaction to the result of a handler or of a callback, as in \<^verbatim>\<open>httpParseHeaders\<close>; \<open>read_more\<close> is the case of \<^verbatim>\<open>HTTP_READ_MORE\<close>.\<close>

definition set_flags :: "bool \<Rightarrow> bool \<Rightarrow> http_conn \<Rightarrow> http_conn" where
  "set_flags susp part http = http\<lparr>hc_isSuspended := susp, hc_isPartialReply := part\<rparr>"

definition wait_payload :: "'s http_app \<Rightarrow> http_conn \<Rightarrow> 's \<Rightarrow> (http_conn \<times> 's) outcome" where
  "wait_payload app http s =
     (if hc_state http \<noteq> PAYLOAD \<and> hc_state http \<noteq> DISCARD_PAYLOAD then
        if hc_state http \<noteq> HEADERS then Exit 1 else httpSetState app PAYLOAD http s
      else Ret (http, s))"

definition http_result ::
  "(http_conn \<Rightarrow> 's \<Rightarrow> (http_conn \<times> 's) outcome) \<Rightarrow> 's http_app \<Rightarrow> http_rc \<Rightarrow> http_conn \<Rightarrow> 's \<Rightarrow> (http_conn \<times> 's) outcome" where
  "http_result read_more app rc http s =
     (case rc of
        HTTP_READ_MORE \<Rightarrow> read_more (set_flags False False http) s
      | HTTP_SUSPEND \<Rightarrow> wait_payload app (set_flags True False http) s
      | HTTP_PARTIAL_REPLY \<Rightarrow> wait_payload app (set_flags False True http) s
      | _ \<Rightarrow>
          let http1 = (if hc_expecting http < 0 \<or> rc = HTTP_ERROR then httpCloseRead http else http);
              http2 = set_flags False False (http1\<lparr>hc_done := True\<rparr>)
          in httpSetState app (if hc_expecting http \<noteq> 0 then DISCARD_PAYLOAD else COMMAND) http2 s)"

definition after_more :: "'s http_app \<Rightarrow> http_conn \<Rightarrow> 's \<Rightarrow> (http_conn \<times> 's) outcome" where
  "after_more app http s =
     (if hc_state http \<noteq> WEBSOCKET
      then httpSetState app (if hc_expecting http \<noteq> 0 then PAYLOAD else COMMAND) http s
      else Ret (http, s))"

text \<open>\<^verbatim>\<open>HTTP_READ_MORE\<close>: without a payload the callback is called at once, and its result is treated in the same way.\<close>

definition header_more :: "'s http_app \<Rightarrow> http_conn \<Rightarrow> 's \<Rightarrow> (http_conn \<times> 's) outcome" where
  "header_more app http s =
     (if hc_done http then Exit 1
      else if hc_expecting http = 0 then
        (case (hc_callback http, hc_websocketHandler http) of
           (Some cb, _) \<Rightarrow>
             obind (run_callback app cb (Some []) http s)
               (\<lambda>(rc, http', s'). if rc = HTTP_READ_MORE then after_more app http' s' else http_result (after_more app) app rc http' s')
         | (None, Some w) \<Rightarrow> (case app_websocket app w WS_CONNECTION_OPENED None s of (_, s') \<Rightarrow> after_more app http s')
         | (None, None) \<Rightarrow> after_more app http s)
      else after_more app http s)"

definition end_of_headers :: "'s http_app \<Rightarrow> http_handler trie \<Rightarrow> http_conn \<Rightarrow> 's \<Rightarrow> (http_conn \<times> 's) outcome" where
  "end_of_headers app handlers http s =
     (if hc_expecting http \<noteq> 0 then Exit 1
      else obind (httpHandleCommand app handlers (http\<lparr>hc_callback := None\<rparr>) s)
        (\<lambda>(rc, http', s'). http_result (header_more app) app rc http' s'))"

definition header_line :: "byte list \<Rightarrow> int \<Rightarrow> http_conn \<Rightarrow> http_conn" where
  "header_line line colon http =
     (let key = c_string (map lower_case (take (nat colon) line));
          val = c_string (dropWhile blank (strip_cr (drop (nat colon + 1) line)))
      in if getFromHashMap (hc_header http) key \<noteq> None then http\<lparr>hc_key := Null\<rparr>
         else http\<lparr>hc_key := Ptr key, hc_header := addToHashMap (hc_header http) key (Some val)\<rparr>)"

text \<open>\<^verbatim>\<open>httpParseHeaders\<close> for the bytes \<open>bs\<close> from the offset on, of which the line is the first \<open>lineLength\<close>.\<close>

definition httpParseHeaders ::
  "'s http_app \<Rightarrow> http_handler trie \<Rightarrow> byte list \<Rightarrow> int \<Rightarrow> int \<Rightarrow> http_conn \<Rightarrow> 's \<Rightarrow> (bool \<times> http_conn \<times> 's) outcome" where
  "httpParseHeaders app handlers bs colon lineLength http s =
     (let line = take (nat lineLength) bs in
      if bs \<noteq> [] \<and> blank (hd bs) then
        (case hc_key http of
           Null \<Rightarrow> Ret (True, http, s)
         | Freed \<Rightarrow> Undef
         | Ptr key \<Rightarrow>
             (case getFromHashMap (hc_header http) key of
                None \<Rightarrow> Exit 1
              | Some None \<Rightarrow> Undef
              | Some (Some old) \<Rightarrow>
                  Ret (True, http\<lparr>hc_header := hm_assign (hc_header http) key (Some (c_string (continued old line)))\<rparr>, s)))
      else if bs = [] \<or> hd bs = 10 \<or> take 2 bs = CRLF then
        obind (end_of_headers app handlers http s)
          (\<lambda>(http', s'). Ret (True, if bs = [] then httpCloseRead http' else http', s'))
      else if colon \<le> 0 then
        obind (httpSendReply 400 (cstr ''Bad Request'') http) (\<lambda>http'. Ret (False, http', s))
      else if \<not> colon < lineLength then Exit 1
      else Ret (True, header_line line colon http, s))"

section \<open>The payload\<close>

text \<open>\<^verbatim>\<open>httpConsumePayload\<close> for the bytes at a pointer, of which it may take less.\<close>

definition payload_more :: "'s http_app \<Rightarrow> http_conn \<Rightarrow> 's \<Rightarrow> (http_conn \<times> 's) outcome" where
  "payload_more app http s = (if hc_expecting http = 0 then httpSetState app COMMAND http s else Ret (http, s))"

definition httpConsumePayload :: "'s http_app \<Rightarrow> byte list \<Rightarrow> http_conn \<Rightarrow> 's \<Rightarrow> (int \<times> http_conn \<times> 's) outcome" where
  "httpConsumePayload app buf http s =
     (let len = (if hc_expecting http \<ge> 0 \<and> int (length buf) > hc_expecting http then hc_expecting http else int (length buf));
          http1 = (if hc_expecting http \<ge> 0 then http\<lparr>hc_expecting := hc_expecting http - len\<rparr> else http)
      in obind
           (case hc_callback http1 of
              Some cb \<Rightarrow>
                if hc_done http1 then Exit 1
                else obind (run_callback app cb (Some (take (nat len) buf)) http1 s)
                  (\<lambda>(rc, http', s'). http_result (payload_more app) app rc http' s')
            | None \<Rightarrow>
                if hc_expecting http1 < 0 then httpSetState app COMMAND (httpCloseRead (http1\<lparr>hc_expecting := 0\<rparr>)) s
                else Ret (http1, s))
           (\<lambda>(http', s'). Ret (len, http', s')))"

text \<open>\<^verbatim>\<open>httpParsePayload\<close>: first the kept bytes, then those of the array \<^verbatim>\<open>buf\<close> up to \<open>bytes\<close>. The array has 4096 bytes, of which the read has stored
  only the first ones; a read behind its end is \<open>Undef\<close>.\<close>

definition BUF_SIZE :: nat where
  "BUF_SIZE = 4096"

definition read_array :: "'s http_app \<Rightarrow> byte list \<Rightarrow> 's \<Rightarrow> byte list" where
  "read_array app buf s = buf @ map (app_stale app s) [length buf..<BUF_SIZE]"

definition payload_partial :: "'s http_app \<Rightarrow> int \<Rightarrow> http_conn \<Rightarrow> 's \<Rightarrow> (int \<times> int \<times> http_conn \<times> 's) outcome" where
  "payload_partial app offset http s =
     (if offset < 0 then
        if - offset > int (length (hc_partial http)) then Exit 1
        else if hc_expecting http \<noteq> 0 then
          obind (httpConsumePayload app (drop (nat (int (length (hc_partial http)) + offset)) (hc_partial http)) http s)
            (\<lambda>(consumed, http', s').
               Ret (consumed, offset + consumed, http'\<lparr>hc_partial := drop (nat consumed) (hc_partial http')\<rparr>, s'))
        else Ret (0, offset, http, s)
      else Ret (0, offset, http, s))"

definition httpParsePayload :: "'s http_app \<Rightarrow> int \<Rightarrow> byte list \<Rightarrow> int \<Rightarrow> http_conn \<Rightarrow> 's \<Rightarrow> (int \<times> http_conn \<times> 's) outcome" where
  "httpParsePayload app offset buf bytes http s =
     obind (payload_partial app offset http s)
       (\<lambda>(consumed, offset1, http1, s1).
          if hc_expecting http1 \<noteq> 0 \<and> bytes - offset1 > 0 then
            if offset1 < 0 then Exit 1
            else if bytes > int (length (read_array app buf s1)) then Undef
            else obind (httpConsumePayload app (drop (nat offset1) (take (nat bytes) (read_array app buf s1))) http1 s1)
              (\<lambda>(n, http2, s2). Ret (consumed + n, http2, s2))
          else Ret (consumed, http1, s1))"

section \<open>The loop over the bytes of a read\<close>

text \<open>The view of the bytes through \<^verbatim>\<open>httpGetChar\<close> from an offset on.\<close>

definition pending :: "http_conn \<Rightarrow> byte list \<Rightarrow> int \<Rightarrow> byte list" where
  "pending http buf offset = drop (nat (int (length (hc_partial http)) + offset)) (hc_partial http @ buf)"

text \<open>The scan of a line: its length without the line feed, the places of the first colon and of the first and the last blank, and whether it is complete.\<close>

record line_scan =
  l_length :: int
  l_colon :: int
  l_firstSpace :: int
  l_lastSpace :: int
  l_fullLine :: bool

fun scan_line :: "byte list \<Rightarrow> line_scan \<Rightarrow> line_scan" where
  "scan_line [] l = l\<lparr>l_fullLine := False\<rparr>"
| "scan_line (c # cs) l =
     (let next = scan_line cs in
      if c = 58 then next (l\<lparr>l_colon := (if l_colon l < 0 then l_length l else l_colon l), l_length := l_length l + 1\<rparr>)
      else if blank c then
        next (if l_firstSpace l < 0 then l\<lparr>l_firstSpace := l_length l, l_length := l_length l + 1\<rparr>
              else l\<lparr>l_lastSpace := l_length l, l_length := l_length l + 1\<rparr>)
      else if c = 10 then l
      else next (l\<lparr>l_length := l_length l + 1\<rparr>))"

definition new_line :: line_scan where
  "new_line = \<lparr>l_length = 0, l_colon = - 1, l_firstSpace = - 1, l_lastSpace = - 1, l_fullLine = True\<rparr>"

text \<open>One round, without the treatment of what is left: \<open>Leave\<close> is \<^verbatim>\<open>break\<close>, otherwise the bytes to push back, the bytes used up and \<^verbatim>\<open>eob\<close>.\<close>

datatype round = Leave | Round int int bool

definition round_line ::
  "'s http_app \<Rightarrow> http_handler trie \<Rightarrow> byte list \<Rightarrow> bool \<Rightarrow> int \<Rightarrow> http_conn \<Rightarrow> 's \<Rightarrow> (round \<times> http_conn \<times> 's) outcome" where
  "round_line app handlers buf eof offset http s =
     (if hc_expecting http \<noteq> 0 then Exit 1
      else
        let bs = pending http buf offset; l = scan_line bs new_line
        in if l_fullLine l \<or> eof then
             if l_length l \<noteq> 0 then
               obind (if hc_state http = HEADERS
                      then httpParseHeaders app handlers bs (l_colon l) (l_length l) http s
                      else httpParseCommand app bs (l_firstSpace l) (l_lastSpace l) (l_length l) http s)
                 (\<lambda>(go, http', s'). Ret (if go then Round 0 (l_length l + 1) (\<not> l_fullLine l) else Leave, http', s'))
             else Ret (Round 0 (l_length l + 1) (\<not> l_fullLine l), http, s)
           else Ret (Round (l_length l) 0 True, http, s))"

definition round_payload ::
  "'s http_app \<Rightarrow> byte list \<Rightarrow> int \<Rightarrow> http_conn \<Rightarrow> 's \<Rightarrow> (round \<times> http_conn \<times> 's) outcome" where
  "round_payload app buf offset http s =
     (if hc_expecting http \<noteq> 0 then
        let bytes = int (length buf);
            len = (if hc_expecting http > 0 \<and> bytes > hc_expecting http then hc_expecting http else bytes - offset)
        in obind (if hc_state http = PAYLOAD then httpParsePayload app offset buf (len + offset) http s else Ret (len, http, s))
             (\<lambda>(len', http', s'). Ret (Round (bytes - offset - len') len' False, http', s'))
      else Ret (Round 0 0 False, http, s))"

end
