(* ===== verification/Websocket.thy ===== *)
theory Websocket
  imports Http_Conn
begin

text \<open>
  Web sockets of the HTTP library (\<^verbatim>\<open>httpHandleWebSocket\<close>, \<^verbatim>\<open>httpSendWebSocketTextMsg\<close> and
  \<^verbatim>\<open>httpSendWebSocketBinaryMsg\<close> of \<^verbatim>\<open>package/shellinabox/src/libhttp/httpconnection.c\<close>): the state machine that takes frames out of the bytes
  of each read, and the two encoders.

  The handler of the application is a parameter: it works on a state of its own and answers whether it returned \<^verbatim>\<open>HTTP_DONE\<close>. It
  cannot reach the fields of the connection that the state machine uses.
\<close>

section \<open>Model\<close>

type_synonym 's ws_handler = "'s \<Rightarrow> u32 \<Rightarrow> byte list \<Rightarrow> bool \<times> 's"

text \<open>\<^verbatim>\<open>handle_partial\<close>: the payload is in the bytes kept of an earlier read. The result says whether to go on, and the new offset.\<close>

definition handle_partial ::
  "'s ws_handler \<Rightarrow> int \<Rightarrow> byte \<Rightarrow> http_conn \<Rightarrow> 's \<Rightarrow> (bool \<times> int \<times> http_conn \<times> 's) outcome" where
  "handle_partial h offset ch http s =
     (let plen = int (length (hc_partial http)) in
      if - offset \<le> plen then
        let (len, t) = (if - offset \<ge> hc_expecting http
                        then (hc_expecting http, hc_websocketType http OR WS_END_OF_FRAME)
                        else (- offset, hc_websocketType http));
            data = take (nat len) (drop (nat (plen + offset)) (hc_partial http));
            (done, s') = (if len \<noteq> 0 then h s t data else (True, s))
        in if len < 0 then Undef
           else if \<not> done then Ret (False, offset, http\<lparr>hc_websocketType := t\<rparr>, s')
           else let (len', t') = (if ch = 0xFF \<and> len < plen then (len + 1, WS_UNDEFINED) else (len, t))
                in Ret (True, offset + len',
                     http\<lparr>hc_partial := drop (nat len') (hc_partial http), hc_expecting := hc_expecting http - len',
                          hc_websocketType := t' AND NOT (WS_START_OF_FRAME OR WS_END_OF_FRAME)\<rparr>, s')
      else Exit 1)"

definition handle_buffered ::
  "'s ws_handler \<Rightarrow> byte list \<Rightarrow> int \<Rightarrow> byte \<Rightarrow> http_conn \<Rightarrow> 's \<Rightarrow> (bool \<times> int \<times> http_conn \<times> 's) outcome" where
  "handle_buffered h buf offset ch http s =
     (let (len, t) = (if int (length buf) - offset \<ge> hc_expecting http
                      then (hc_expecting http, hc_websocketType http OR WS_END_OF_FRAME)
                      else (int (length buf) - offset, hc_websocketType http));
          (done, s') = (if len \<noteq> 0 then h s t (take (nat len) (drop (nat offset) buf)) else (True, s))
      in if len < 0 then Undef
         else if \<not> done then Ret (False, offset, http\<lparr>hc_websocketType := t\<rparr>, s')
         else if ch = 0xFF \<and> \<not> offset + len < int (length buf) then Exit 1
         else let (len', t') = (if ch = 0xFF then (len + 1, WS_UNDEFINED) else (len, t))
              in Ret (True, offset + len',
                   http\<lparr>hc_expecting := hc_expecting http - len',
                        hc_websocketType := t' AND NOT (WS_START_OF_FRAME OR WS_END_OF_FRAME)\<rparr>, s'))"

definition ws_data ::
  "'s ws_handler \<Rightarrow> byte list \<Rightarrow> int \<Rightarrow> byte \<Rightarrow> http_conn \<Rightarrow> 's \<Rightarrow> (bool \<times> int \<times> http_conn \<times> 's) outcome" where
  "ws_data h buf offset ch http s =
     (if offset < 0 then handle_partial h offset ch http s else handle_buffered h buf offset ch http s)"

text \<open>The search for the end of a text, a byte 0xFF, in the kept bytes if there are any left, else in the buffer: the last byte
  read, and the connection that expects the bytes in front.\<close>

definition ws_scan :: "byte list \<Rightarrow> int \<Rightarrow> http_conn \<Rightarrow> (byte \<times> http_conn) option" where
  "ws_scan buf offset http =
     (if offset < 0 \<and> \<not> - offset \<le> int (length (hc_partial http)) then None
      else let bs = (if offset < 0 then drop (nat (int (length (hc_partial http)) + offset)) (hc_partial http)
                     else drop (nat offset) buf);
               n = length (takeWhile (\<lambda>b. b \<noteq> 0xFF) bs)
           in Some (if n < length bs then 0xFF else last bs, http\<lparr>hc_expecting := int n\<rparr>))"

text \<open>A byte of the header of a frame: the type of the frame, or a digit of the length of binary data.\<close>

definition ws_head :: "byte \<Rightarrow> http_conn \<Rightarrow> (byte \<times> http_conn) option" where
  "ws_head c http =
     (let t = hc_websocketType http in
      if t AND 0xFF \<noteq> 0 then
        (if hc_expecting http > 0xFFFFFF then None
         else let e = 128 * hc_expecting http + int (unat (c AND 0x7F))
              in if c AND 0x80 = 0 then Some (0, http\<lparr>hc_expecting := e, hc_websocketType := t AND NOT WS_UNDEFINED\<rparr>)
                 else Some (c, http\<lparr>hc_expecting := e\<rparr>))
      else if c AND 0x80 \<noteq> 0
      then Some (c, http\<lparr>hc_websocketType := ucast c OR WS_START_OF_FRAME OR WS_UNDEFINED, hc_expecting := 0\<rparr>)
      else Some (c, http\<lparr>hc_websocketType := ucast c OR WS_START_OF_FRAME\<rparr>))"

function ws_loop ::
  "'s ws_handler \<Rightarrow> byte list \<Rightarrow> int \<Rightarrow> byte \<Rightarrow> http_conn \<Rightarrow> 's \<Rightarrow> (bool \<times> http_conn \<times> 's) outcome" where
  "ws_loop h buf offset ch http s =
     (if offset < int (length buf) then
        (if hc_websocketType http AND WS_UNDEFINED \<noteq> 0 then
           (case httpGetChar http buf offset of
              Some (Some c) \<Rightarrow>
                (case ws_head c http of
                   None \<Rightarrow> Ret (False, http, s)
                 | Some (ch', http') \<Rightarrow> ws_loop h buf (offset + 1) ch' http' s)
            | _ \<Rightarrow> Undef)
         else if hc_websocketType http AND 0x80 \<noteq> 0 \<and> hc_expecting http = 0 then
           ws_loop h buf offset ch (http\<lparr>hc_websocketType := WS_UNDEFINED\<rparr>) s
         else
           (case (if hc_websocketType http AND 0x80 \<noteq> 0 then Some (ch, http) else ws_scan buf offset http) of
              None \<Rightarrow> Undef
            | Some (ch1, http1) \<Rightarrow>
                (case ws_data h buf offset ch1 http1 s of
                   Ret (True, offset', http', s') \<Rightarrow> ws_loop h buf offset' ch1 http' s'
                 | Ret (False, _, http', s') \<Rightarrow> Ret (False, http', s')
                 | Exit n \<Rightarrow> Exit n | Undef \<Rightarrow> Undef)))
      else Ret (True, http, s))"
  by pat_completeness auto

lemma ws_data_progress:
  assumes "ws_data h buf off ch http s = Ret (True, off', http', s')" and "off < int (length buf)"
    and "hc_expecting http \<noteq> 0 \<or> ch = 0xFF"
  shows "off < off'"
  using assms
  by (auto simp: ws_data_def handle_partial_def handle_buffered_def Let_def split: if_splits prod.splits)

lemma ws_scan_progress:
  assumes "ws_scan buf off http = Some (ch, http')" and "off < int (length buf)"
  shows "hc_expecting http' \<noteq> 0 \<or> ch = 0xFF"
proof -
  define bs where "bs = (if off < 0 then drop (nat (int (length (hc_partial http)) + off)) (hc_partial http) else drop (nat off) buf)"
  have "bs \<noteq> []" using assms by (auto simp: bs_def ws_scan_def split: if_splits)
  then show ?thesis using assms(1) unfolding ws_scan_def bs_def [symmetric]
    by (auto simp: Let_def split: if_splits)
qed

lemma ws_step_progress:
  assumes "(if bin then Some (ch, http) else ws_scan buf off http) = Some (ch1, http1)"
    and "ws_data h buf off ch1 http1 s = Ret (True, off', http', s')" and "off < int (length buf)"
    and "\<not> (bin \<and> hc_expecting http = 0)"
  shows "off < off'"
proof (cases bin)
  case True
  then show ?thesis using ws_data_progress [OF assms(2,3)] assms(1,4) by simp
next
  case False
  then have "ws_scan buf off http = Some (ch1, http1)" using assms(1) by simp
  from ws_data_progress [OF assms(2,3) ws_scan_progress [OF this assms(3)]] show ?thesis .
qed

termination ws_loop
proof (relation "measures [\<lambda>(_, buf, off, _). nat (int (length buf) - off),
    \<lambda>(_, _, _, _, http, _). if hc_websocketType http AND WS_UNDEFINED = 0 then 1 else 0]", goal_cases)
  case (3 h buf off ch http s)
  then show ?case by (simp add: WS_UNDEFINED_def)
next
  case (4 h buf off ch http s x2 ch1 http1 x1 b ya off' yb http' s')
  then have x: "x2 = (ch1, http1)" "x1 = (True, off', http', s')" by simp_all
  have "off < off'" by (rule ws_step_progress [OF 4(4,6) [unfolded x] 4(1,3)])
  then show ?case using 4(1) by simp
qed auto

declare ws_loop.simps [simp del]

text \<open>One call. What \<^verbatim>\<open>httpHandleConnection\<close> does around it in the state \<^verbatim>\<open>WEBSOCKET\<close> is in the theory of the loop: the offset starts in front of the kept
  bytes, all bytes are used up, and when the call fails the connection is closed.\<close>

definition httpHandleWebSocket ::
  "'s ws_handler \<Rightarrow> int \<Rightarrow> byte list \<Rightarrow> http_conn \<Rightarrow> 's \<Rightarrow> (bool \<times> http_conn \<times> 's) outcome" where
  "httpHandleWebSocket h offset buf http s = ws_loop h buf offset 0 http s"

text \<open>\<^verbatim>\<open>httpSendWebSocketTextMsg\<close> for the bytes of the formatted message: each is a Latin-1 character and is
  sent in UTF-8.\<close>

definition utf8_char :: "byte \<Rightarrow> byte list" where
  "utf8_char ch = (if ch AND 0x80 \<noteq> 0 then [0xC0 + drop_bit 6 ch, 0x80 + (ch AND 0x3F)] else [ch])"

definition utf8Len :: "byte list \<Rightarrow> nat" where
  "utf8Len msg = length msg + 2 + length (filter (\<lambda>ch. ch AND 0x80 \<noteq> 0) msg)"

definition httpSendWebSocketTextMsg :: "int \<Rightarrow> byte list \<Rightarrow> byte list outcome" where
  "httpSendWebSocketTextMsg type msg =
     (if \<not> (type \<ge> 0 \<and> type \<le> 0x7F) then Exit 1
      else if \<not> int (length msg) < 0x60000000 then Exit 1
      else Ret (of_int type # concat (map utf8_char msg) @ [0xFF]))"

text \<open>\<^verbatim>\<open>httpSendWebSocketBinaryMsg\<close>: the digits of the length to the base 128, least significant first; the bit 0x80 of the
  last one is cleared, and then the digits are reversed in place.\<close>

fun base128 :: "nat \<Rightarrow> byte list" where
  "base128 l = (0x80 + (of_nat l AND 0x7F)) # (if l div 128 = 0 then [] else base128 (l div 128))"

declare base128.simps [simp del]

function reverse_digits :: "nat \<Rightarrow> byte list \<Rightarrow> byte list" where
  "reverse_digits j ds =
     (if j < length ds div 2
      then reverse_digits (Suc j) (ds[j := ds ! (length ds - 1 - j), length ds - 1 - j := ds ! j])
      else ds)"
  by pat_completeness auto
termination reverse_digits
  by (relation "measure (\<lambda>(j, ds). length ds div 2 - j)") auto

declare reverse_digits.simps [simp del]

definition length_digits :: "nat \<Rightarrow> byte list" where
  "length_digits len = (let ds = base128 len; i = length ds - 1 in reverse_digits 0 (ds[i := ds ! i AND 0x7F]))"

definition httpSendWebSocketBinaryMsg :: "int \<Rightarrow> byte list \<Rightarrow> byte list outcome" where
  "httpSendWebSocketBinaryMsg type msg =
     (if \<not> (type \<ge> 0x80 \<and> type \<le> 0xFF) then Exit 1
      else if \<not> (length msg > 0 \<and> int (length msg) < 0x7FFFFFF0) then Exit 1
      else Ret (of_int type # length_digits (length msg) @ msg))"

section \<open>The types of frames\<close>

lemma bit_of_power: "w = 2 ^ k \<Longrightarrow> k < LENGTH('a) \<Longrightarrow> bit (w :: 'a :: len word) n \<longleftrightarrow> n = k"
  by (auto simp: bit_exp_iff)

lemma ws_bit:
  "bit WS_UNDEFINED n \<longleftrightarrow> n = 12" "bit WS_START_OF_FRAME n \<longleftrightarrow> n = 8" "bit WS_END_OF_FRAME n \<longleftrightarrow> n = 9"
  "bit (0x80 :: u32) n \<longleftrightarrow> n = 7" "bit (0x80 :: byte) n \<longleftrightarrow> n = 7"
  by (rule bit_of_power; simp add: WS_UNDEFINED_def WS_START_OF_FRAME_def WS_END_OF_FRAME_def)+

lemma ws_bit_ff: "bit (0xFF :: u32) n \<longleftrightarrow> n < 8"
proof -
  have "(0xFF :: u32) = mask 8" by (simp add: mask_eq_exp_minus_1)
  then show ?thesis by (simp only: bit_mask_iff) auto
qed

lemma byte_bit: "bit (c :: byte) n \<Longrightarrow> n < 8"
  using bit_imp_le_length [of c n] by simp

lemma ws_type_undefined [simp]: "(w OR WS_UNDEFINED) AND WS_UNDEFINED \<noteq> 0" "WS_UNDEFINED AND WS_UNDEFINED \<noteq> 0"
proof -
  have "bit ((w OR WS_UNDEFINED) AND WS_UNDEFINED) 12" by (simp add: ws_bit bit_and_iff bit_or_iff)
  then show "(w OR WS_UNDEFINED) AND WS_UNDEFINED \<noteq> 0" by auto
qed (simp add: WS_UNDEFINED_def)

lemma ws_flags_nonzero [simp]: "WS_UNDEFINED \<noteq> 0" "WS_END_OF_FRAME \<noteq> 0"
  by (simp_all add: WS_UNDEFINED_def WS_END_OF_FRAME_def)

lemma ws_type [simp]:
  fixes c :: byte
  shows "(ucast c OR WS_START_OF_FRAME OR WS_UNDEFINED) AND WS_UNDEFINED = WS_UNDEFINED"
    and "(ucast c OR WS_START_OF_FRAME OR WS_UNDEFINED) AND 0xFF = ucast c"
    and "(ucast c OR WS_START_OF_FRAME OR WS_UNDEFINED) AND NOT WS_UNDEFINED = ucast c OR WS_START_OF_FRAME"
    and "(ucast c OR WS_START_OF_FRAME) AND WS_UNDEFINED = 0"
    and "(ucast c OR WS_START_OF_FRAME) AND 0x80 = ucast (c AND 0x80)"
    and "(ucast c :: u32) AND WS_UNDEFINED = 0"
    and "(ucast c :: u32) AND 0x80 = ucast (c AND 0x80)"
    and "(ucast c OR WS_END_OF_FRAME) AND NOT WS_START_OF_FRAME AND NOT WS_END_OF_FRAME = ucast c"
    and "((ucast c OR WS_START_OF_FRAME) OR WS_END_OF_FRAME) AND NOT WS_START_OF_FRAME AND NOT WS_END_OF_FRAME = ucast c"
    and "(ucast c OR WS_START_OF_FRAME) AND NOT WS_START_OF_FRAME AND NOT WS_END_OF_FRAME = ucast c"
    and "(ucast c) AND NOT WS_START_OF_FRAME AND NOT WS_END_OF_FRAME = ucast c"
    and "(ucast (ucast c :: u32) :: byte) = c"
    and "(ucast (ucast c OR WS_END_OF_FRAME) :: byte) = c"
    and "(ucast ((ucast c OR WS_START_OF_FRAME) OR WS_END_OF_FRAME) :: byte) = c"
    and "(ucast (ucast c OR WS_START_OF_FRAME) :: byte) = c"
  by (rule bit_word_eqI; auto simp: ws_bit ws_bit_ff bit_and_iff bit_or_iff bit_not_iff bit_ucast_iff simp del: bit_numeral_word_iff dest: byte_bit)+

section \<open>A reference that reads byte by byte\<close>

datatype ws_mode = Frame_start | Length_digits byte nat | Binary byte nat | Text byte | Failed

text \<open>The protocol one byte at a time: the next mode, and the byte of payload with the type of its frame.\<close>

fun ws_byte :: "ws_mode \<Rightarrow> byte \<Rightarrow> ws_mode \<times> (byte \<times> byte) list" where
  "ws_byte Frame_start c = (if c AND 0x80 \<noteq> 0 then Length_digits c 0 else Text c, [])"
| "ws_byte (Length_digits t n) c =
     (if n > 0xFFFFFF then Failed
      else let n' = 128 * n + unat (c AND 0x7F)
           in if c AND 0x80 \<noteq> 0 then Length_digits t n' else if n' = 0 then Frame_start else Binary t n', [])"
| "ws_byte (Binary t n) c = (if n = 1 then Frame_start else Binary t (n - 1), [(t, c)])"
| "ws_byte (Text t) c = (if c = 0xFF then (Frame_start, []) else (Text t, [(t, c)]))"
| "ws_byte Failed c = (Failed, [])"

fun ws_bytes :: "ws_mode \<Rightarrow> byte list \<Rightarrow> ws_mode \<times> (byte \<times> byte) list" where
  "ws_bytes m [] = (m, [])"
| "ws_bytes m (c # cs) = (let (m1, o1) = ws_byte m c; (m2, o2) = ws_bytes m1 cs in (m2, o1 @ o2))"

lemma ws_bytes_append:
  "ws_bytes m (xs @ ys) = (let (m1, o1) = ws_bytes m xs; (m2, o2) = ws_bytes m1 ys in (m2, o1 @ o2))"
  by (induction xs arbitrary: m) (auto split: prod.splits)

lemma ws_bytes_failed [simp]: "ws_bytes Failed bs = (Failed, [])"
  by (induction bs) auto

lemma ws_bytes_binary:
  "length bs \<le> n \<Longrightarrow> 0 < n \<Longrightarrow> ws_bytes (Binary t n) bs =
     (if length bs = n then Frame_start else Binary t (n - length bs), map (Pair t) bs)"
proof (induction bs arbitrary: n)
  case (Cons c cs)
  then show ?case by (cases "n = 1") auto
qed simp

lemma ws_bytes_text: "0xFF \<notin> set bs \<Longrightarrow> ws_bytes (Text t) bs = (Text t, map (Pair t) bs)"
  by (induction bs) auto

text \<open>A handler that accepts everything and records its calls, and the bytes that such a record holds.\<close>

definition record_calls :: "(u32 \<times> byte list) list ws_handler" where
  "record_calls s t bs = (True, s @ [(t, bs)])"

definition ws_payload :: "(u32 \<times> byte list) list \<Rightarrow> (byte \<times> byte) list" where
  "ws_payload evs = concat (map (\<lambda>(t, bs). map (Pair (ucast t)) bs) evs)"

lemma ws_payload_snoc [simp]: "ws_payload (evs @ [(t, bs)]) = ws_payload evs @ map (Pair (ucast t)) bs" "ws_payload [] = []"
  by (simp_all add: ws_payload_def)

text \<open>The mode of a connection.\<close>

fun ws_rel :: "http_conn \<Rightarrow> ws_mode \<Rightarrow> bool" where
  "ws_rel http Frame_start \<longleftrightarrow> hc_websocketType http = WS_UNDEFINED \<or>
     hc_expecting http = 0 \<and>
     (\<exists>t :: byte. t AND 0x80 \<noteq> 0 \<and> (hc_websocketType http = ucast t \<or> hc_websocketType http = ucast t OR WS_START_OF_FRAME))"
| "ws_rel http (Length_digits t n) \<longleftrightarrow> t AND 0x80 \<noteq> 0 \<and>
     hc_websocketType http = ucast t OR WS_START_OF_FRAME OR WS_UNDEFINED \<and> hc_expecting http = int n"
| "ws_rel http (Binary t n) \<longleftrightarrow> t AND 0x80 \<noteq> 0 \<and> 0 < n \<and> hc_expecting http = int n \<and>
     (hc_websocketType http = ucast t \<or> hc_websocketType http = ucast t OR WS_START_OF_FRAME)"
| "ws_rel http (Text t) \<longleftrightarrow> t AND 0x80 = 0 \<and>
     (hc_websocketType http = ucast t \<or> hc_websocketType http = ucast t OR WS_START_OF_FRAME)"
| "ws_rel http Failed \<longleftrightarrow> False"

lemma ucast_zero_iff: "(ucast (c :: byte) :: u32) = 0 \<longleftrightarrow> c = 0"
proof
  assume z: "(ucast c :: u32) = 0"
  show "c = 0"
  proof (rule bit_word_eqI)
    fix n assume "n < LENGTH(8)"
    then have "bit c n \<longleftrightarrow> bit (ucast c :: u32) n" by (simp add: bit_ucast_iff)
    then show "bit c n \<longleftrightarrow> bit (0 :: byte) n" by (simp add: z)
  qed
qed simp

lemma ws_rel_head:
  assumes "ws_rel http m" and "hc_websocketType http AND WS_UNDEFINED \<noteq> 0"
  shows "case ws_head c http of
     None \<Rightarrow> ws_byte m c = (Failed, [])
   | Some (ch, http') \<Rightarrow> ws_rel http' (fst (ws_byte m c)) \<and> snd (ws_byte m c) = [] \<and> hc_partial http' = hc_partial http \<and>
       hc_closed http' = hc_closed http \<and> (\<forall>t n. fst (ws_byte m c) = Binary t n \<longrightarrow> ch \<noteq> 0xFF)"
  using assms
proof (cases m)
  case Frame_start
  then have "hc_websocketType http = WS_UNDEFINED" using assms by auto
  moreover have "WS_UNDEFINED AND 0xFF = 0" by (simp add: WS_UNDEFINED_def)
  ultimately show ?thesis using Frame_start by (simp add: ws_head_def)
next
  case (Length_digits t n)
  then have "hc_websocketType http AND 0xFF \<noteq> 0" using assms(1) by (auto simp: ucast_zero_iff)
  then show ?thesis using Length_digits assms(1) by (auto simp: ws_head_def Let_def simp del: of_nat_unat)
qed auto

text \<open>A piece of a frame: it is not empty, and a piece of text is always marked as the end of its frame.\<close>

definition ws_piece :: "u32 \<times> byte list \<Rightarrow> bool" where
  "ws_piece e \<longleftrightarrow> snd e \<noteq> [] \<and> (fst e AND 0x80 = 0 \<longrightarrow> fst e AND WS_END_OF_FRAME \<noteq> 0)"

lemma ws_end_flag [simp]: "(w OR WS_END_OF_FRAME) AND WS_END_OF_FRAME \<noteq> 0"
proof -
  have "bit ((w OR WS_END_OF_FRAME) AND WS_END_OF_FRAME) 9" by (simp add: ws_bit bit_and_iff bit_or_iff)
  then show "(w OR WS_END_OF_FRAME) AND WS_END_OF_FRAME \<noteq> 0" by auto
qed

lemma ws_end_binary [simp]: "(w OR WS_END_OF_FRAME) AND 0x80 = w AND 0x80"
  by (rule bit_word_eqI) (auto simp: ws_bit bit_and_iff bit_or_iff simp del: bit_numeral_word_iff)

lemma data_binary:
  assumes "ws_rel http (Binary t n)" and "off < length buf" and "ch \<noteq> 0xFF" and "k = min n (length buf - off)"
  shows "\<exists>e http'. ws_data record_calls buf (int off) ch http evs = Ret (True, int (off + k), http', evs @ [(e, take k (drop off buf))]) \<and>
    ucast e = t \<and> e AND 0x80 \<noteq> 0 \<and> hc_partial http' = hc_partial http \<and> hc_closed http' = hc_closed http \<and>
    ws_rel http' (if k = n then Frame_start else Binary t (n - k))"
proof -
  have n: "0 < n" "hc_expecting http = int n" "t AND 0x80 \<noteq> 0" using assms(1) by auto
  show ?thesis
  proof (cases "n \<le> length buf - off")
    case True
    then show ?thesis
      using assms n by (auto simp: ws_data_def handle_buffered_def record_calls_def Let_def ucast_zero_iff intro!: exI [of _ t])
  next
    case False
    then show ?thesis
      using assms n by (auto simp: ws_data_def handle_buffered_def record_calls_def Let_def ucast_zero_iff)
  qed
qed

lemma data_text:
  fixes buf :: "byte list"
  assumes "ws_rel http (Text t)" and "off < length buf" and "x = takeWhile (\<lambda>b. b \<noteq> 0xFF) (drop off buf)"
  shows "\<exists>ch e http0 http'. ws_scan buf (int off) http = Some (ch, http0) \<and>
    ws_data record_calls buf (int off) ch http0 evs =
      Ret (True, int (if off + length x < length buf then off + length x + 1 else length buf), http', if x = [] then evs else evs @ [(e, x)]) \<and>
    ucast e = t \<and> e AND WS_END_OF_FRAME \<noteq> 0 \<and> hc_partial http' = hc_partial http \<and> hc_closed http' = hc_closed http \<and>
    ws_rel http' (if off + length x < length buf then Frame_start else Text t)"
proof -
  have le: "length x \<le> length buf - off" using assms(3) length_takeWhile_le [of "\<lambda>b. b \<noteq> 0xFF" "drop off buf"] by simp
  have x: "take (length x) (drop off buf) = x" by (simp add: assms(3) takeWhile_eq_take [symmetric])
  have u: "WS_UNDEFINED AND NOT WS_START_OF_FRAME AND NOT WS_END_OF_FRAME = WS_UNDEFINED"
    by (rule bit_word_eqI) (auto simp: ws_bit bit_and_iff bit_not_iff)
  define e where "e = hc_websocketType http OR WS_END_OF_FRAME"
  have e: "ucast e = t" "e AND WS_END_OF_FRAME \<noteq> 0" "e AND NOT WS_START_OF_FRAME AND NOT WS_END_OF_FRAME = ucast t"
    unfolding e_def using assms(1) ws_end_flag by auto
  let ?ch = "if length x < length buf - off then 0xFF else last (drop off buf)"
  have scan: "ws_scan buf (int off) http = Some (?ch, http\<lparr>hc_expecting := int (length x)\<rparr>)"
    by (simp add: ws_scan_def assms(3) Let_def)
  show ?thesis
  proof (cases "off + length x < length buf")
    case True
    then have "length x < length buf - off" by simp
    then show ?thesis
      unfolding scan using True assms(1,2) le x u e e_def
      by (intro exI [of _ ?ch] exI [of _ e]) (simp add: ws_data_def handle_buffered_def record_calls_def Let_def)
  next
    case False
    then have all: "x = drop off buf" using le x by simp
    then have "last x \<in> set x" using assms(2) by (intro last_in_set) simp
    then have "last x \<noteq> 0xFF" using set_takeWhileD [of "last x" "\<lambda>b. b \<noteq> 0xFF" "drop off buf"] assms(3) by simp
    then have "last (drop off buf) \<noteq> 0xFF" by (simp add: all)
    then show ?thesis
      unfolding scan using assms(1,2) all e e_def
      by (intro exI [of _ ?ch] exI [of _ e]) (simp add: ws_data_def handle_buffered_def record_calls_def Let_def)
  qed
qed

lemma reads_text:
  fixes bs :: "byte list"
  assumes "x = takeWhile (\<lambda>b. b \<noteq> 0xFF) bs"
  shows "ws_bytes (Text t) bs =
    (if length x < length bs
     then (fst (ws_bytes Frame_start (drop (length x + 1) bs)), map (Pair t) x @ snd (ws_bytes Frame_start (drop (length x + 1) bs)))
     else (Text t, map (Pair t) x))"
  using assms
proof (induction bs arbitrary: x)
  case (Cons b bs)
  then show ?case by (cases "b = 0xFF") (auto simp: Let_def split: prod.splits)
qed simp

lemma reads_binary:
  assumes "k = min n (length bs)" and "0 < n"
  shows "ws_bytes (Binary t n) bs =
    (let m = if k = n then Frame_start else Binary t (n - k)
     in (fst (ws_bytes m (drop k bs)), map (Pair t) (take k bs) @ snd (ws_bytes m (drop k bs))))"
  using ws_bytes_append [of "Binary t n" "take k bs" "drop k bs"] ws_bytes_binary [of "take k bs" n t] assms
  by (auto simp: Let_def split: prod.splits)

text \<open>The loop does what the reference does, for any state of a connection and from any offset on.\<close>

definition agrees :: "byte list \<Rightarrow> ws_mode \<Rightarrow> http_conn \<Rightarrow> (u32 \<times> byte list) list \<Rightarrow>
    (bool \<times> http_conn \<times> (u32 \<times> byte list) list) outcome \<Rightarrow> bool" where
  "agrees bs m http evs r \<longleftrightarrow>
     (\<exists>ok http' evs'. r = Ret (ok, http', evs') \<and> ws_payload evs' = ws_payload evs @ snd (ws_bytes m bs) \<and>
        hc_partial http' = hc_partial http \<and> hc_closed http' = hc_closed http \<and>
        (if ok then ws_rel http' (fst (ws_bytes m bs)) else fst (ws_bytes m bs) = Failed) \<and>
        (list_all ws_piece evs \<longrightarrow> list_all ws_piece evs'))"

lemma agreesI:
  "\<lbrakk>r = Ret (ok, http', evs'); ws_payload evs' = ws_payload evs @ snd (ws_bytes m bs); hc_partial http' = hc_partial http;
    hc_closed http' = hc_closed http; if ok then ws_rel http' (fst (ws_bytes m bs)) else fst (ws_bytes m bs) = Failed;
    list_all ws_piece evs \<Longrightarrow> list_all ws_piece evs'\<rbrakk> \<Longrightarrow> agrees bs m http evs r"
  by (auto simp: agrees_def)

text \<open>One more step in front.\<close>

lemma agrees_step:
  assumes "agrees bs' m' http' evs' r" and "fst (ws_bytes m bs) = fst (ws_bytes m' bs')"
    and "ws_payload evs' @ snd (ws_bytes m' bs') = ws_payload evs @ snd (ws_bytes m bs)"
    and "hc_partial http' = hc_partial http" and "hc_closed http' = hc_closed http" and "list_all ws_piece evs \<longrightarrow> list_all ws_piece evs'"
  shows "agrees bs m http evs r"
proof -
  from assms(1) obtain ok h1 e1 where r: "r = Ret (ok, h1, e1)" "ws_payload e1 = ws_payload evs' @ snd (ws_bytes m' bs')"
      "hc_partial h1 = hc_partial http'" "hc_closed h1 = hc_closed http'"
      "if ok then ws_rel h1 (fst (ws_bytes m' bs')) else fst (ws_bytes m' bs') = Failed" "list_all ws_piece evs' \<longrightarrow> list_all ws_piece e1"
    unfolding agrees_def by blast
  show ?thesis by (rule agreesI [OF r(1)]) (use r assms in auto)
qed

lemma loop_head:
  assumes "off < length buf" and "hc_websocketType http AND WS_UNDEFINED \<noteq> 0"
  shows "ws_loop h buf (int off) ch http evs =
    (case ws_head (buf ! off) http of
       None \<Rightarrow> Ret (False, http, evs)
     | Some (ch', http') \<Rightarrow> ws_loop h buf (int (Suc off)) ch' http' evs)"
proof -
  have "int (Suc off) = int off + 1" by simp
  then show ?thesis using assms by (subst ws_loop.simps) (simp only: httpGetChar_def, simp)
qed

lemma loop_head_agrees:
  assumes "off < length buf" and "hc_websocketType http AND WS_UNDEFINED \<noteq> 0" and "ws_rel http m" and "hc_partial http = []"
    and IH: "\<And>ch' http' m'. \<lbrakk>ws_rel http' m'; hc_partial http' = []; \<forall>t n. m' = Binary t n \<longrightarrow> ch' \<noteq> 0xFF\<rbrakk> \<Longrightarrow>
      agrees (drop (Suc off) buf) m' http' evs (ws_loop record_calls buf (int (Suc off)) ch' http' evs)"
  shows "agrees (drop off buf) m http evs (ws_loop record_calls buf (int off) ch http evs)"
proof -
  have d: "drop off buf = buf ! off # drop (Suc off) buf" by (rule Cons_nth_drop_Suc [symmetric, OF assms(1)])
  note rel = ws_rel_head [OF assms(3,2), of "buf ! off"]
  show ?thesis
  proof (cases "ws_head (buf ! off) http")
    case None
    then show ?thesis unfolding loop_head [OF assms(1,2)] d using rel by (auto intro!: agreesI)
  next
    case (Some r)
    obtain ch' http' where r: "r = (ch', http')" by (cases r)
    have "agrees (drop (Suc off) buf) (fst (ws_byte m (buf ! off))) http' evs (ws_loop record_calls buf (int (Suc off)) ch' http' evs)"
      using rel Some r assms(4) by (intro IH) auto
    then show ?thesis
      unfolding loop_head [OF assms(1,2)] Some r option.case prod.case
      by (rule agrees_step) (use rel Some r in \<open>auto simp: d Let_def split: prod.splits\<close>)
  qed
qed

lemma loop_empty_frame:
  assumes "off < length buf" and "hc_websocketType http AND WS_UNDEFINED = 0" and "hc_websocketType http AND 0x80 \<noteq> 0" and "hc_expecting http = 0"
  shows "ws_loop h buf (int off) ch http evs = ws_loop h buf (int off) ch (http\<lparr>hc_websocketType := WS_UNDEFINED\<rparr>) evs"
  using assms by (subst ws_loop.simps) simp

lemma loop_data:
  assumes "off < length buf" and "hc_websocketType http AND WS_UNDEFINED = 0"
    and "\<not> (hc_websocketType http AND 0x80 \<noteq> 0 \<and> hc_expecting http = 0)"
    and "(if hc_websocketType http AND 0x80 \<noteq> 0 then Some (ch, http) else ws_scan buf (int off) http) = Some (ch1, http1)"
    and "ws_data h buf (int off) ch1 http1 evs = Ret (True, off', http', evs')"
  shows "ws_loop h buf (int off) ch http evs = ws_loop h buf off' ch1 http' evs'"
  using assms by (subst ws_loop.simps) (simp only: prod.case outcome.case option.case if_True if_False bool.case of_nat_less_iff simp_thms)

lemma loop_binary_agrees:
  assumes "off < length buf" and "ws_rel http (Binary t n)" and "ch \<noteq> 0xFF" and "hc_partial http = []" and "k = min n (length buf - off)"
    and IH: "\<And>http' m' evs'. \<lbrakk>ws_rel http' m'; hc_partial http' = []\<rbrakk> \<Longrightarrow>
      agrees (drop (off + k) buf) m' http' evs' (ws_loop record_calls buf (int (off + k)) ch http' evs')"
  shows "agrees (drop off buf) (Binary t n) http evs (ws_loop record_calls buf (int off) ch http evs)"
proof -
  let ?m = "if k = n then Frame_start else Binary t (n - k)"
  obtain e http' where d: "ws_data record_calls buf (int off) ch http evs = Ret (True, int (off + k), http', evs @ [(e, take k (drop off buf))])"
      "ucast e = t" "e AND 0x80 \<noteq> 0" "hc_partial http' = hc_partial http" "hc_closed http' = hc_closed http" "ws_rel http' ?m"
    using data_binary [OF assms(2,1,3,5)] by blast
  have n: "0 < n" using assms(2) by simp
  have "agrees (drop (off + k) buf) ?m http' (evs @ [(e, take k (drop off buf))])
      (ws_loop record_calls buf (int (off + k)) ch http' (evs @ [(e, take k (drop off buf))]))"
    using d(4,6) assms(4) by (intro IH) simp_all
  moreover have "ws_loop record_calls buf (int off) ch http evs =
      ws_loop record_calls buf (int (off + k)) ch http' (evs @ [(e, take k (drop off buf))])"
    using assms(2) by (intro loop_data [OF assms(1) _ _ _ d(1)]) (auto simp: ucast_zero_iff)
  ultimately show ?thesis
    using d(2,3,4,5) n assms(1,5)
    by (simp only:) (rule agrees_step, assumption, auto simp: reads_binary [of k n "drop off buf"] Let_def ws_piece_def add.commute)
qed

lemma loop_text_agrees:
  assumes "off < length buf" and "ws_rel http (Text t)" and "hc_partial http = []"
    and IH: "\<And>off' ch' http' m' evs'. \<lbrakk>off < off'; off' \<le> length buf; ws_rel http' m'; hc_partial http' = []; \<forall>t n. m' \<noteq> Binary t n\<rbrakk> \<Longrightarrow>
      agrees (drop off' buf) m' http' evs' (ws_loop record_calls buf (int off') ch' http' evs')"
  shows "agrees (drop off buf) (Text t) http evs (ws_loop record_calls buf (int off) ch http evs)"
proof -
  define x where "x = takeWhile (\<lambda>b. b \<noteq> 0xFF) (drop off buf)"
  define off' where "off' = (if off + length x < length buf then off + length x + 1 else length buf)"
  define evs' where "evs' e = (if x = [] then evs else evs @ [(e, x)])" for e :: u32
  define m' where "m' = (if off + length x < length buf then Frame_start else Text t)"
  obtain ch1 e http0 http' where d: "ws_scan buf (int off) http = Some (ch1, http0)"
      "ws_data record_calls buf (int off) ch1 http0 evs = Ret (True, int off', http', evs' e)"
      "ucast e = t" "e AND WS_END_OF_FRAME \<noteq> 0" "hc_partial http' = hc_partial http" "hc_closed http' = hc_closed http" "ws_rel http' m'"
    unfolding off'_def evs'_def m'_def using data_text [OF assms(2,1) x_def] by blast
  have "agrees (drop off' buf) m' http' (evs' e) (ws_loop record_calls buf (int off') ch1 http' (evs' e))"
    using d(5,7) assms(1,3) by (intro IH) (auto simp: off'_def m'_def)
  moreover have "ws_loop record_calls buf (int off) ch http evs = ws_loop record_calls buf (int off') ch1 http' (evs' e)"
    using assms(2) d(1) by (intro loop_data [OF assms(1) _ _ _ d(2)]) auto
  moreover have "off + length x < length buf \<longleftrightarrow> length x < length (drop off buf)" by auto
  ultimately show ?thesis
    using d(3-6) reads_text [OF x_def, of t]
    by (simp only:) (rule agrees_step, assumption, auto simp: off'_def evs'_def m'_def ws_piece_def add.commute)
qed

lemma ws_loop_agrees:
  assumes "ws_rel http m" and "off \<le> length buf" and "hc_partial http = []" and "\<forall>t n. m = Binary t n \<longrightarrow> ch \<noteq> 0xFF"
  shows "agrees (drop off buf) m http evs (ws_loop record_calls buf (int off) ch http evs)"
  using assms
proof (induction "2 * (length buf - off) + (if hc_websocketType http AND WS_UNDEFINED = 0 then 1 else 0 :: nat)"
    arbitrary: off ch http m evs rule: less_induct)
  case less
  have IH: "agrees (drop off' buf) m' http' evs' (ws_loop record_calls buf (int off') ch' http' evs')"
    if "off < off'" "off' \<le> length buf" "ws_rel http' m'" "hc_partial http' = []" "\<forall>t n. m' = Binary t n \<longrightarrow> ch' \<noteq> 0xFF"
    for off' m' http' ch' evs'
    using that by (intro less.hyps [of off' http']) auto
  consider (stop) "off = length buf" | (head) "off < length buf" "hc_websocketType http AND WS_UNDEFINED \<noteq> 0"
    | (data) "off < length buf" "hc_websocketType http AND WS_UNDEFINED = 0" using less.prems(2) by linarith
  then show ?case
  proof cases
    case stop
    then show ?thesis using less.prems by (subst ws_loop.simps) (auto simp: agrees_def)
  next
    case head
    show ?thesis by (rule loop_head_agrees [OF head less.prems(1,3)]) (rule IH, use head in auto)
  next
    case data
    show ?thesis
    proof (cases m)
      case Frame_start
      then have e: "hc_websocketType http AND 0x80 \<noteq> 0" "hc_expecting http = 0"
        using less.prems(1) data by (auto simp: ucast_zero_iff)
      have "agrees (drop off buf) Frame_start (http\<lparr>hc_websocketType := WS_UNDEFINED\<rparr>) evs
          (ws_loop record_calls buf (int off) ch (http\<lparr>hc_websocketType := WS_UNDEFINED\<rparr>) evs)"
        using less.prems(2,3) data by (intro less.hyps [of off "http\<lparr>hc_websocketType := WS_UNDEFINED\<rparr>"]) simp_all
      then show ?thesis unfolding loop_empty_frame [OF data e] Frame_start by (rule agrees_step) simp_all
    next
      case (Binary t n)
      then have n: "ws_rel http (Binary t n)" "ch \<noteq> 0xFF" "0 < n" using less.prems(1,4) by auto
      show ?thesis unfolding Binary
        by (rule loop_binary_agrees [OF data(1) n(1,2) less.prems(3) refl]) (rule IH, use data n in auto)
    next
      case (Text t)
      then have t: "ws_rel http (Text t)" using less.prems(1) by simp
      show ?thesis unfolding Text by (rule loop_text_agrees [OF data(1) t less.prems(3)]) (rule IH, auto)
    qed (use less.prems(1) data in auto)
  qed
qed

end
