(* ===== verification/Http_Loop.thy ===== *)
theory Http_Loop
  imports Http_Request Websocket
begin

text \<open>
  The input side of \<^verbatim>\<open>httpHandleConnection\<close> (\<^verbatim>\<open>package/shellinabox/src/libhttp/httpconnection.c\<close>): what a connection does with the bytes of one read.
  A line that is not complete is kept for the next read. The loop may not end; a call that does not return is \<open>None\<close>.

  Left out are the reading itself, the change to SSL, the output and the events that the connection waits for. An
  allocation of a negative number of bytes fails, which ends the process.
\<close>

section \<open>Model\<close>

definition MAX_HEADER_LENGTH :: int where
  "MAX_HEADER_LENGTH = 65536"

definition conn_handler :: "'s http_app \<Rightarrow> app_fn \<Rightarrow> 's ws_handler" where
  "conn_handler app w = (\<lambda>s t bs. case app_websocket app w t (Some bs) s of (rc, s') \<Rightarrow> (rc = HTTP_DONE, s'))"

definition round_websocket ::
  "'s http_app \<Rightarrow> byte list \<Rightarrow> int \<Rightarrow> http_conn \<Rightarrow> 's \<Rightarrow> (round \<times> http_conn \<times> 's) outcome" where
  "round_websocket app buf offset http s =
     (case hc_websocketHandler http of
        None \<Rightarrow> Exit 1
      | Some w \<Rightarrow>
          obind (httpHandleWebSocket (conn_handler app w) offset buf http s)
            (\<lambda>(go, http', s').
               if go then Ret (Round 0 (int (length buf) - offset) False, http', s')
               else Ret (Leave, httpCloseRead http', s')))"

definition conn_round ::
  "'s http_app \<Rightarrow> http_handler trie \<Rightarrow> byte list \<Rightarrow> bool \<Rightarrow> int \<Rightarrow> http_conn \<Rightarrow> 's \<Rightarrow> (round \<times> http_conn \<times> 's) outcome" where
  "conn_round app handlers buf eof offset http s =
     (case hc_state http of
        PAYLOAD \<Rightarrow> round_payload app buf offset http s
      | DISCARD_PAYLOAD \<Rightarrow> round_payload app buf offset http s
      | WEBSOCKET \<Rightarrow> round_websocket app buf offset http s
      | _ \<Rightarrow> round_line app handlers buf eof offset http s)"

text \<open>The bytes that are pushed back. In the first case they are copied from the offset where the round started.\<close>

definition push_back :: "int \<Rightarrow> byte list \<Rightarrow> int \<Rightarrow> http_conn \<Rightarrow> http_conn outcome" where
  "push_back n buf offset http =
     (if offset \<ge> 0 then
        if n < 0 then Exit 1
        else if offset + n > int (length buf) then Undef
        else Ret (http\<lparr>hc_partial := take (nat n) (drop (nat offset) buf)\<rparr>)
      else if n \<noteq> int (length (hc_partial http)) then
        if n < 0 then Exit 1
        else if n > int (length (pending http buf offset)) then Undef
        else Ret (http\<lparr>hc_partial := take (nat n) (pending http buf offset)\<rparr>)
      else Ret http)"

partial_function (option) conn_loop ::
  "'s http_app \<Rightarrow> http_handler trie \<Rightarrow> byte list \<Rightarrow> bool \<Rightarrow> int \<Rightarrow> http_conn \<Rightarrow> 's \<Rightarrow> (int \<times> http_conn \<times> 's) outcome option" where
  "conn_loop app handlers buf eof offset http s =
     (case conn_round app handlers buf eof offset http s of
        Exit n \<Rightarrow> Some (Exit n)
      | Undef \<Rightarrow> Some Undef
      | Ret (r, http', s') \<Rightarrow>
          (case r of
             Leave \<Rightarrow> Some (Ret (offset, http', s'))
           | Round pushBack consumed eob \<Rightarrow>
               if pushBack \<noteq> 0 then Some (obind (push_back pushBack buf offset http') (\<lambda>http''. Ret (- pushBack, http'', s')))
               else if eob \<or> offset + consumed \<ge> int (length buf) \<or> hc_closed http' then Some (Ret (offset + consumed, http', s'))
               else conn_loop app handlers buf eof (offset + consumed) http' s'))"

definition keep_rest :: "int \<Rightarrow> http_conn \<Rightarrow> http_conn outcome" where
  "keep_rest offset http =
     (let plen = int (length (hc_partial http)) in
      if hc_closed http \<or> offset \<ge> 0 then Ret (http\<lparr>hc_partial := []\<rparr>)
      else if - offset = plen then Ret http
      else if - offset < plen then Ret (http\<lparr>hc_partial := drop (nat (plen + offset)) (hc_partial http)\<rparr>)
      else Exit 1)"

text \<open>What happens when the peer has closed the connection.\<close>

definition conn_eof :: "'s http_app \<Rightarrow> http_handler trie \<Rightarrow> http_conn \<Rightarrow> 's \<Rightarrow> (http_conn \<times> 's) outcome" where
  "conn_eof app handlers http s =
     (if hc_partial http \<noteq> [] then Exit 1
      else case hc_state http of
             SNIFFING_SSL \<Rightarrow> Ret (http, s)
           | COMMAND \<Rightarrow> Ret (http, s)
           | HEADERS \<Rightarrow>
               if hc_expecting http \<noteq> 0 then Exit 1
               else obind (httpHandleCommand app handlers (http\<lparr>hc_callback := None\<rparr>) s)
                 (\<lambda>(_, http', s'). httpSetState app COMMAND (httpCloseRead http') s')
           | _ \<Rightarrow> httpSetState app COMMAND (httpCloseRead (http\<lparr>hc_expecting := 0\<rparr>)) s)"

definition conn_input ::
  "'s http_app \<Rightarrow> http_handler trie \<Rightarrow> byte list \<Rightarrow> bool \<Rightarrow> http_conn \<Rightarrow> 's \<Rightarrow> (http_conn \<times> 's) outcome option" where
  "conn_input app handlers buf eof http s =
     map_option (\<lambda>r. obind r (\<lambda>(http', s'). if eof then conn_eof app handlers http' s' else Ret (http', s')))
       (if buf \<noteq> [] \<or> eof \<and> hc_partial http \<noteq> [] then
          map_option (\<lambda>r. obind r (\<lambda>(offset, http', s'). obind (keep_rest offset http') (\<lambda>http''. Ret (http'', s'))))
            (conn_loop app handlers buf eof (- int (length (hc_partial http))) http s)
        else Some (Ret (http, s)))"

text \<open>A read of a connection that is not closed: no bytes are the end of the stream. All bytes count for the length of the header, those of a payload
  and of web sockets, too.\<close>

definition conn_read ::
  "'s http_app \<Rightarrow> http_handler trie \<Rightarrow> byte list \<Rightarrow> http_conn \<Rightarrow> 's \<Rightarrow> (http_conn \<times> 's) outcome option" where
  "conn_read app handlers buf http s =
     (if hc_closed http then conn_input app handlers [] True http s
      else if buf = [] then conn_input app handlers [] True (httpCloseRead http) s
      else
        let http1 = http\<lparr>hc_headerLength := hc_headerLength http + int (length buf)\<rparr>
        in if hc_headerLength http1 > MAX_HEADER_LENGTH then
             (case httpSendReply 413 (cstr ''Header too big'') http1 of
                Ret http2 \<Rightarrow> conn_input app handlers [] True http2 s
              | Exit n \<Rightarrow> Some (Exit n) | Undef \<Rightarrow> Some Undef)
           else conn_input app handlers buf False http1 s)"

text \<open>Several reads, one after the other.\<close>

fun conn_reads ::
  "'s http_app \<Rightarrow> http_handler trie \<Rightarrow> byte list list \<Rightarrow> http_conn \<Rightarrow> 's \<Rightarrow> (http_conn \<times> 's) outcome option" where
  "conn_reads app handlers [] http s = Some (Ret (http, s))"
| "conn_reads app handlers (buf # bufs) http s =
     (case conn_read app handlers buf http s of
        Some (Ret (http', s')) \<Rightarrow> conn_reads app handlers bufs http' s'
      | r \<Rightarrow> r)"

end
