(* ===== verification/Http_Props.thy ===== *)
theory Http_Props
  imports Http_Loop
begin

text \<open>
  What a connection makes of a request, however it is cut into reads: the lines are put together, the header is collected and the handler is
  called. And three ways in which a client can stop the server: a bad command line, bytes behind a request that the
  application suspends, and a header without an end.
\<close>

section \<open>The view through httpGetChar\<close>

lemma httpGetChar_pending:
  assumes "- offset \<le> int (length (hc_partial http))"
  shows "httpGetChar http buf offset = Some (case pending http buf offset of [] \<Rightarrow> None | c # _ \<Rightarrow> Some c)"
proof -
  define n where "n = nat (int (length (hc_partial http)) + offset)"
  have at: "pending http buf offset = drop n (hc_partial http @ buf)" by (simp add: pending_def n_def)
  show ?thesis
  proof (cases "n < length (hc_partial http @ buf)")
    case True
    then have "pending http buf offset = (hc_partial http @ buf) ! n # drop (Suc n) (hc_partial http @ buf)"
      unfolding at by (rule Cons_nth_drop_Suc [symmetric])
    moreover have "n < length (hc_partial http) \<longleftrightarrow> offset < 0" "n - length (hc_partial http) = nat offset"
      using assms by (auto simp: n_def)
    ultimately show ?thesis using assms True by (auto simp: httpGetChar_def n_def nth_append)
  next
    case False
    then show ?thesis using assms unfolding at by (auto simp: httpGetChar_def n_def)
  qed
qed

lemma pending_step:
  assumes "pending http buf offset = x @ y" and "- offset \<le> int (length (hc_partial http))" and "hc_partial http' = hc_partial http"
  shows "pending http' buf (offset + int (length x)) = y"
proof -
  have "nat (int (length (hc_partial http)) + (offset + int (length x))) = nat (int (length (hc_partial http)) + offset) + length x"
    using assms(2) by simp
  then have "pending http' buf (offset + int (length x)) = drop (length x) (pending http buf offset)"
    unfolding pending_def assms(3) by (simp only: drop_drop add.commute)
  then show ?thesis by (simp add: assms(1))
qed

lemma pending_length:
  "- offset \<le> int (length (hc_partial http)) \<Longrightarrow> offset \<le> int (length buf) \<Longrightarrow> int (length (pending http buf offset)) = int (length buf) - offset"
  by (auto simp: pending_def)

lemma pending_start: "pending http buf (- int (length (hc_partial http))) = hc_partial http @ buf"
  by (simp add: pending_def)

lemma pending_buffer: "0 \<le> offset \<Longrightarrow> pending http buf offset = drop (nat offset) buf"
  by (simp add: pending_def nat_add_distrib)

section \<open>Lines\<close>

text \<open>A text without blanks, colons and line feeds only counts for the length.\<close>

lemma scan_word:
  assumes "\<forall>c \<in> set x. \<not> blank c \<and> c \<noteq> 10 \<and> c \<noteq> 58"
  shows "scan_line (x @ cs) l = scan_line cs (l\<lparr>l_length := l_length l + int (length x)\<rparr>)"
  using assms by (induction x arbitrary: l) (simp_all add: Let_def add.assoc)

lemma scan_no_blank:
  assumes "\<forall>c \<in> set x. \<not> blank c \<and> c \<noteq> 10"
  shows "\<exists>col. scan_line (x @ cs) l = scan_line cs (l\<lparr>l_length := l_length l + int (length x), l_colon := col\<rparr>)"
  using assms
proof (induction x arbitrary: l)
  case Nil
  then show ?case by (intro exI [of _ "l_colon l"]) simp
next
  case (Cons c x)
  show ?case
  proof (cases "c = 58")
    case True
    then show ?thesis
      using Cons.IH [of "l\<lparr>l_colon := (if l_colon l < 0 then l_length l else l_colon l), l_length := l_length l + 1\<rparr>"] Cons.prems
      by (auto simp: Let_def add.assoc)
  next
    case False
    then show ?thesis using Cons.IH [of "l\<lparr>l_length := l_length l + 1\<rparr>"] Cons.prems by (auto simp: Let_def add.assoc)
  qed
qed

lemma scan_rest:
  assumes "10 \<notin> set x"
  shows "l_length (scan_line (x @ 10 # rest) l) = l_length l + int (length x)"
    and "l_fullLine (scan_line (x @ 10 # rest) l) = l_fullLine l"
    and "0 \<le> l_colon l \<Longrightarrow> l_colon (scan_line (x @ 10 # rest) l) = l_colon l"
  using assms by (induction x arbitrary: l) (auto simp: Let_def blank_def)

lemma scan_unfinished:
  assumes "10 \<notin> set x"
  shows "l_length (scan_line x l) = l_length l + int (length x)" and "\<not> l_fullLine (scan_line x l)"
  using assms by (induction x arbitrary: l) (auto simp: Let_def)

section \<open>A request\<close>

definition word :: "byte list \<Rightarrow> bool" where
  "word x \<longleftrightarrow> x \<noteq> [] \<and> list_all (\<lambda>c. \<not> blank c \<and> c \<noteq> 10 \<and> c \<noteq> 58 \<and> c \<noteq> 0) x"

definition method_word :: "byte list \<Rightarrow> bool" where
  "method_word m \<longleftrightarrow> word m \<and> list_all (\<lambda>c. \<not> (97 \<le> c \<and> c \<le> 122)) m"

definition abs_path :: "byte list \<Rightarrow> bool" where
  "abs_path p \<longleftrightarrow> p \<noteq> [] \<and> hd p = 47 \<and> list_all (\<lambda>c. \<not> blank c \<and> c \<noteq> 10 \<and> c \<noteq> 0) p"

definition field_value :: "byte list \<Rightarrow> bool" where
  "field_value v \<longleftrightarrow> 10 \<notin> set v \<and> 0 \<notin> set v \<and> (v = [] \<or> \<not> blank (hd v))"

text \<open>The lines of a request, without their line feeds, and what they leave in the connection.\<close>

definition command_line :: "byte list \<Rightarrow> byte list \<Rightarrow> byte list" where
  "command_line m p = m @ 32 # p @ 32 # cstr ''HTTP/1.1'' @ [13]"

definition field_line :: "byte list \<times> byte list \<Rightarrow> byte list" where
  "field_line kv = (case kv of (k, v) \<Rightarrow> k @ 58 # 32 # v @ [13])"

definition command_conn :: "byte list \<Rightarrow> byte list \<Rightarrow> http_conn \<Rightarrow> http_conn" where
  "command_conn m p http =
     http\<lparr>hc_method := Some m, hc_path := Some p, hc_version := Some (cstr ''HTTP/1.1''), hc_state := HEADERS\<rparr>"

definition field_conn :: "byte list \<times> byte list \<Rightarrow> http_conn \<Rightarrow> http_conn" where
  "field_conn kv http =
     (case kv of (k, v) \<Rightarrow>
        let key = map lower_case k
        in if getFromHashMap (hc_header http) key \<noteq> None then http\<lparr>hc_key := Null\<rparr>
           else http\<lparr>hc_key := Ptr key, hc_header := addToHashMap (hc_header http) key (Some v)\<rparr>)"

lemma upper_case_id: "list_all (\<lambda>c. \<not> (97 \<le> c \<and> c \<le> 122)) m \<Longrightarrow> map upper_case m = m"
  by (induction m) (auto simp: upper_case_def)

lemma lower_case_nz: "c \<noteq> 0 \<Longrightarrow> lower_case c \<noteq> 0"
proof -
  have "c + 32 = 0 \<Longrightarrow> c = - 32" by (simp add: eq_neg_iff_add_eq_0)
  then show "c \<noteq> 0 \<Longrightarrow> lower_case c \<noteq> 0" by (auto simp: lower_case_def)
qed

lemma scan_command:
  assumes "method_word m" and "abs_path p"
  shows "\<exists>col. scan_line (command_line m p @ 10 # rest) new_line =
    \<lparr>l_length = int (length m + length p) + 11, l_colon = col, l_firstSpace = int (length m), l_lastSpace = int (length m + length p) + 1, l_fullLine = True\<rparr>"
proof -
  have m: "\<forall>c \<in> set m. \<not> blank c \<and> c \<noteq> 10 \<and> c \<noteq> 58" using assms(1) by (auto simp: method_word_def word_def list_all_iff)
  have p: "\<forall>c \<in> set p. \<not> blank c \<and> c \<noteq> 10" using assms(2) by (auto simp: abs_path_def list_all_iff)
  have v: "\<forall>c \<in> set (cstr ''HTTP/1.1'' @ [13]). \<not> blank c \<and> c \<noteq> 10 \<and> c \<noteq> 58" by (simp add: cstr_def byte_of_char_def blank_def)
  have t: "command_line m p @ 10 # rest = m @ 32 # p @ 32 # (cstr ''HTTP/1.1'' @ [13]) @ 10 # rest" by (simp add: command_line_def)
  let ?l = "new_line\<lparr>l_length := int (length m) + 1, l_firstSpace := int (length m)\<rparr>"
  have s1: "scan_line (command_line m p @ 10 # rest) new_line = scan_line (p @ 32 # (cstr ''HTTP/1.1'' @ [13]) @ 10 # rest) ?l"
    unfolding t scan_word [OF m] by (simp add: new_line_def blank_def)
  obtain col where s2: "scan_line (p @ 32 # (cstr ''HTTP/1.1'' @ [13]) @ 10 # rest) ?l =
      scan_line (32 # (cstr ''HTTP/1.1'' @ [13]) @ 10 # rest) (?l\<lparr>l_length := l_length ?l + int (length p), l_colon := col\<rparr>)"
    using scan_no_blank [OF p] by blast
  have "scan_line (32 # (cstr ''HTTP/1.1'' @ [13]) @ 10 # rest) l =
      scan_line ((cstr ''HTTP/1.1'' @ [13]) @ 10 # rest) (l\<lparr>l_lastSpace := l_length l, l_length := l_length l + 1\<rparr>)" if "0 \<le> l_firstSpace l" for l
    using that by (simp add: blank_def Let_def)
  then show ?thesis
    unfolding s1 s2 using scan_word [OF v] by (intro exI [of _ col]) (simp add: new_line_def cstr_def blank_def)
qed

lemma scan_field:
  assumes "word k" and "field_value v"
  shows "l_length (scan_line (field_line (k, v) @ 10 # rest) new_line) = int (length k + length v) + 3"
    and "l_colon (scan_line (field_line (k, v) @ 10 # rest) new_line) = int (length k)"
    and "l_fullLine (scan_line (field_line (k, v) @ 10 # rest) new_line)"
proof -
  have k: "\<forall>c \<in> set k. \<not> blank c \<and> c \<noteq> 10 \<and> c \<noteq> 58" using assms(1) by (auto simp: word_def list_all_iff)
  have v: "10 \<notin> set (32 # v @ [13])" using assms(2) by (simp add: field_value_def)
  have t: "field_line (k, v) @ 10 # rest = k @ 58 # (32 # v @ [13]) @ 10 # rest" by (simp add: field_line_def)
  have s: "scan_line (field_line (k, v) @ 10 # rest) new_line =
      scan_line ((32 # v @ [13]) @ 10 # rest) (new_line\<lparr>l_length := int (length k) + 1, l_colon := int (length k)\<rparr>)"
    unfolding t scan_word [OF k] by (simp add: new_line_def Let_def)
  show "l_length (scan_line (field_line (k, v) @ 10 # rest) new_line) = int (length k + length v) + 3"
    "l_colon (scan_line (field_line (k, v) @ 10 # rest) new_line) = int (length k)"
    "l_fullLine (scan_line (field_line (k, v) @ 10 # rest) new_line)"
    unfolding s scan_rest(1,2) [OF v] using scan_rest(3) [OF v] by (simp_all add: new_line_def)
qed

text \<open>A connection that waits for a line.\<close>

definition idle :: "http_conn \<Rightarrow> bool" where
  "idle http \<longleftrightarrow> hc_state http = COMMAND \<and> hc_method http = None \<and> hc_path http = None \<and> hc_version http = None \<and>
     hc_expecting http = 0 \<and> \<not> hc_closed http"

definition in_header :: "http_conn \<Rightarrow> bool" where
  "in_header http \<longleftrightarrow> hc_state http = HEADERS \<and> hc_expecting http = 0 \<and> \<not> hc_closed http"

lemma http_version_ok: "c_string (cstr ''HTTP/1.1'') = cstr ''HTTP/1.1''" "map upper_case (cstr ''HTTP/1.1'') = cstr ''HTTP/1.1''"
  "takeWhile (\<lambda>c. c \<noteq> 13) (cstr ''HTTP/1.1'' @ 13 # r) = cstr ''HTTP/1.1''" "dropWhile blank (cstr ''HTTP/1.1'') = cstr ''HTTP/1.1''"
  "take 5 (cstr ''HTTP/1.1'') = cstr ''HTTP/''" "cstr ''HTTP/1.1'' ! 5 = 49" "length (cstr ''HTTP/1.1'') = 8"
  by (simp_all add: cstr_def byte_of_char_def c_string_def upper_case_def blank_def)

lemma round_command:
  assumes "idle http" and "method_word m" and "abs_path p" and "pending http buf offset = command_line m p @ 10 # rest"
  shows "round_line app handlers buf eof offset http s =
    Ret (Round 0 (int (length (command_line m p)) + 1) False, command_conn m p http, s)"
proof -
  obtain col where scan: "scan_line (pending http buf offset) new_line = \<lparr>l_length = int (length m + length p) + 11, l_colon = col,
      l_firstSpace = int (length m), l_lastSpace = int (length m + length p) + 1, l_fullLine = True\<rparr>"
    unfolding assms(4) using scan_command [OF assms(2,3)] by blast
  let ?bs = "pending http buf offset"
  have n: "nat (int (length m + length p) + 1) = length m + length p + 1" "nat (int (length m + length p) + 11) = length m + length p + 11"
    by simp_all
  have bs: "?bs = m @ 32 # p @ 32 # cstr ''HTTP/1.1'' @ 13 # 10 # rest" by (simp add: assms(4) command_line_def)
  have m: "take (length m) ?bs = m" "map upper_case m = m" "c_string m = m" "m \<noteq> []"
    using assms(2) by (auto simp: bs upper_case_id method_word_def word_def list_all_iff intro!: c_string_id)
  have p: "dropWhile blank (drop (length m) (take (length m + length p + 1) ?bs)) = p" "c_string p = p" "p \<noteq> []" "hd p = 47"
    using assms(3) by (auto simp: bs abs_path_def list_all_iff blank_def dropWhile_eq_self_iff intro!: c_string_id)
  have d: "drop (length m + length p + 1) ?bs = 32 # cstr ''HTTP/1.1'' @ 13 # 10 # rest" by (simp add: bs)
  have v: "drop (length m + length p + 1) (take (length m + length p + 11) ?bs) = 32 # cstr ''HTTP/1.1'' @ [13]"
    unfolding drop_take d by (simp add: cstr_def)
  have "httpParseCommand app ?bs (int (length m)) (int (length m + length p) + 1) (int (length m + length p) + 11) http s =
      Ret (True, command_conn m p http, s)"
    using assms(1) m(4) p(3,4) unfolding httpParseCommand_def nat_int n m(1-3) p(1,2) v
    by (simp add: idle_def Let_def m p http_version_ok blank_def upper_case_def httpSetState_def command_conn_def)
  then show ?thesis using assms(1) by (simp add: round_line_def scan idle_def command_line_def cstr_def)
qed

lemma round_field:
  assumes "in_header http" and "word k" and "field_value v" and "pending http buf offset = field_line (k, v) @ 10 # rest"
  shows "round_line app handlers buf eof offset http s =
    Ret (Round 0 (int (length (field_line (k, v))) + 1) False, field_conn (k, v) http, s)"
proof -
  let ?bs = "pending http buf offset"
  note scan = scan_field [OF assms(2,3), of rest, folded assms(4)]
  have k: "k \<noteq> []" "\<not> blank (hd k)" "hd k \<noteq> 10" "hd ?bs = hd k" "?bs \<noteq> []"
    using assms(2) unfolding assms(4) by (cases k; simp add: word_def field_line_def)+
  have crlf: "take 2 ?bs \<noteq> CRLF"
    unfolding assms(4) using assms(2) by (cases k; cases "tl k") (auto simp: word_def field_line_def CRLF_def)
  have "length k + length v + 3 = length (field_line (k, v))" by (simp add: field_line_def)
  then have line: "take (length k + length v + 3) ?bs = field_line (k, v)" unfolding assms(4) by (metis append_eq_conv_conj)
  have val: "dropWhile blank (strip_cr (drop (length k + 1) (field_line (k, v)))) = v" "c_string v = v"
    using assms(3) by (auto simp: field_line_def strip_cr_def field_value_def blank_def dropWhile_eq_self_iff butlast_append intro!: c_string_id)
  have key: "c_string (map lower_case (take (length k) (field_line (k, v)))) = map lower_case k"
    using assms(2) lower_case_nz by (auto simp: field_line_def word_def list_all_iff intro!: c_string_id)
  have "header_line (field_line (k, v)) (int (length k)) http = field_conn (k, v) http"
    unfolding header_line_def nat_int key val by (simp add: field_conn_def Let_def)
  moreover have "nat (int (length k + length v) + 3) = length k + length v + 3" by simp
  ultimately have "httpParseHeaders app handlers ?bs (int (length k)) (int (length k + length v) + 3) http s =
      Ret (True, field_conn (k, v) http, s)"
    unfolding httpParseHeaders_def using k crlf line by simp
  then show ?thesis using assms(1) unfolding round_line_def scan Let_def
    by (simp add: scan in_header_def) (simp add: field_line_def)
qed

lemma round_end:
  assumes "in_header http" and "pending http buf offset = 13 # 10 # rest"
  shows "round_line app handlers buf eof offset http s =
    obind (end_of_headers app handlers http s) (\<lambda>(http', s'). Ret (Round 0 2 False, http', s'))"
proof -
  have "scan_line (pending http buf offset) new_line = new_line\<lparr>l_length := 1\<rparr>"
    unfolding assms(2) by (simp add: new_line_def blank_def)
  moreover have "httpParseHeaders app handlers (pending http buf offset) (- 1) 1 http s =
      obind (end_of_headers app handlers http s) (\<lambda>(http', s'). Ret (True, http', s'))"
    unfolding assms(2) httpParseHeaders_def by (simp add: blank_def CRLF_def)
  ultimately show ?thesis
    using assms(1) by (cases "end_of_headers app handlers http s") (auto simp: round_line_def in_header_def new_line_def)
qed

lemma round_unfinished:
  assumes "hc_expecting http = 0" and "10 \<notin> set (pending http buf offset)"
  shows "round_line app handlers buf False offset http s = Ret (Round (int (length (pending http buf offset))) 0 True, http, s)"
  using assms scan_unfinished [OF assms(2), of new_line] by (simp add: round_line_def Let_def new_line_def)

section \<open>Complete lines\<close>

definition text_of :: "byte list list \<Rightarrow> byte list" where
  "text_of L = concat (map (\<lambda>l. l @ [10]) L)"

lemma text_of_simps [simp]: "text_of [] = []" "text_of (l # L) = l @ 10 # text_of L" "text_of (L @ M) = text_of L @ text_of M"
  by (simp_all add: text_of_def)

text \<open>A command line and header lines that take a connection to another one.\<close>

inductive reads_lines :: "http_conn \<Rightarrow> byte list list \<Rightarrow> http_conn \<Rightarrow> bool" where
  rl_nil: "idle http \<or> in_header http \<Longrightarrow> reads_lines http [] http"
| rl_command: "\<lbrakk>idle http; method_word m; abs_path p; reads_lines (command_conn m p http) L http'\<rbrakk> \<Longrightarrow>
    reads_lines http (command_line m p # L) http'"
| rl_field: "\<lbrakk>in_header http; word k; field_value v; reads_lines (field_conn (k, v) http) L http'\<rbrakk> \<Longrightarrow>
    reads_lines http (field_line (k, v) # L) http'"

inductive_cases rl_nilE: "reads_lines http [] http'"
inductive_cases rl_consE: "reads_lines http (l # L) http'"

definition with_input :: "byte list \<Rightarrow> int \<Rightarrow> http_conn \<Rightarrow> http_conn" where
  "with_input p n http = http\<lparr>hc_partial := p, hc_headerLength := n\<rparr>"

lemma with_input_simps [simp]:
  "command_conn m p (with_input q n http) = with_input q n (command_conn m p http)"
  "field_conn kv (with_input q n http) = with_input q n (field_conn kv http)"
  "idle (with_input q n http) = idle http" "in_header (with_input q n http) = in_header http"
  "hc_partial (with_input q n http) = q" "hc_headerLength (with_input q n http) = n"
  "hc_closed (with_input q n http) = hc_closed http" "hc_state (with_input q n http) = hc_state http"
  by (simp_all add: with_input_def command_conn_def field_conn_def idle_def in_header_def Let_def split: prod.split)

lemma reads_lines_with_input: "reads_lines http L http' \<Longrightarrow> reads_lines (with_input q n http) L (with_input q n http')"
  by (induction rule: reads_lines.induct) (auto intro: reads_lines.intros)

lemma conn_fields [simp]:
  "hc_partial (command_conn m p http) = hc_partial http" "hc_partial (field_conn kv http) = hc_partial http"
  "hc_closed (command_conn m p http) = hc_closed http" "hc_closed (field_conn kv http) = hc_closed http"
  by (simp_all add: command_conn_def field_conn_def Let_def split: prod.split)

lemma reads_lines_keeps: "reads_lines http L http' \<Longrightarrow> hc_partial http' = hc_partial http \<and> \<not> hc_closed http' \<and> (idle http' \<or> in_header http')"
  by (induction rule: reads_lines.induct) (auto simp: idle_def in_header_def)

lemma reads_lines_app: "reads_lines http (L @ M) http'' \<Longrightarrow> \<exists>http'. reads_lines http L http' \<and> reads_lines http' M http''"
proof (induction L arbitrary: http)
  case Nil
  then have "idle http \<or> in_header http" by (auto elim: reads_lines.cases)
  then show ?case using Nil rl_nil by auto
next
  case (Cons l L)
  from Cons.prems have "reads_lines http (l # (L @ M)) http''" by simp
  then show ?case by (cases rule: rl_consE) (use Cons.IH in \<open>blast intro: reads_lines.intros\<close>)+
qed

lemma loop_line:
  assumes "hc_state http = COMMAND \<or> hc_state http = HEADERS"
    and "round_line app handlers buf eof offset http s = Ret (Round 0 (int (length l) + 1) False, http', s)" and "\<not> hc_closed http'"
    and "pending http buf offset = l @ 10 # rest" and "- offset \<le> int (length (hc_partial http))"
  shows "conn_loop app handlers buf eof offset http s =
    (if rest = [] then Some (Ret (int (length buf), http', s)) else conn_loop app handlers buf eof (offset + int (length l) + 1) http' s)"
proof -
  have r: "conn_round app handlers buf eof offset http s = Ret (Round 0 (int (length l) + 1) False, http', s)"
    using assms(1,2) by (auto simp: conn_round_def)
  have "offset \<le> int (length buf)" using assms(4,5) by (cases "offset \<le> int (length buf)") (auto simp: pending_def)
  from pending_length [OF assms(5) this] have "offset + int (length l) + 1 + int (length rest) = int (length buf)"
    unfolding assms(4) by simp
  then show ?thesis using assms(3) by (subst conn_loop.simps) (cases rest; auto simp: r add.assoc)
qed

lemma pending_line:
  assumes "pending http buf offset = l @ 10 # r" and "- offset \<le> int (length (hc_partial http))" and "hc_partial http' = hc_partial http"
  shows "pending http' buf (offset + int (length l) + 1) = r"
  using pending_step [of http buf offset "l @ [10]" r http'] assms by (simp add: ac_simps)

lemma text_of_empty [simp]: "text_of L = [] \<longleftrightarrow> L = []"
  by (cases L) simp_all

lemma loop_lines_cons:
  assumes "hc_state http = COMMAND \<or> hc_state http = HEADERS"
    and "round_line app handlers buf eof offset http s = Ret (Round 0 (int (length l) + 1) False, http1, s)" and "\<not> hc_closed http1"
    and "pending http buf offset = l @ 10 # text_of L @ rest" and "- offset \<le> int (length (hc_partial http))" and "L = [] \<Longrightarrow> http' = http1"
    and IH: "L \<noteq> [] \<or> rest \<noteq> [] \<Longrightarrow> conn_loop app handlers buf eof (offset + int (length l) + 1) http1 s =
      (if rest = [] then Some (Ret (int (length buf), http', s))
       else conn_loop app handlers buf eof (offset + int (length l) + 1 + int (length (text_of L))) http' s)"
  shows "conn_loop app handlers buf eof offset http s =
    (if rest = [] then Some (Ret (int (length buf), http', s))
     else conn_loop app handlers buf eof (offset + int (length (text_of (l # L)))) http' s)"
proof -
  have len: "offset + int (length l) + 1 + int (length (text_of L)) = offset + int (length (text_of (l # L)))" by simp
  show ?thesis
  proof (cases "L = [] \<and> rest = []")
    case True
    then show ?thesis using loop_line [OF assms(1-5)] assms(6) by simp
  next
    case False
    then show ?thesis using loop_line [OF assms(1-5)] IH unfolding len by auto
  qed
qed

lemma loop_lines:
  assumes "reads_lines http L http'" and "pending http buf offset = text_of L @ rest" and "- offset \<le> int (length (hc_partial http))"
    and "L \<noteq> [] \<or> rest \<noteq> []"
  shows "conn_loop app handlers buf eof offset http s =
    (if rest = [] then Some (Ret (int (length buf), http', s)) else conn_loop app handlers buf eof (offset + int (length (text_of L))) http' s)"
  using assms
proof (induction arbitrary: offset rule: reads_lines.induct)
  case (rl_command http m p L http')
  have l: "pending http buf offset = command_line m p @ 10 # text_of L @ rest" using rl_command.prems(1) by simp
  show ?case
    using rl_command.hyps rl_command.prems(2) rl_command.IH [OF pending_line [OF l rl_command.prems(2), of "command_conn m p http"]]
    by (intro loop_lines_cons [OF _ round_command [OF rl_command.hyps(1-3) l] _ l rl_command.prems(2)])
       (auto simp: idle_def elim: rl_nilE)
next
  case (rl_field http k v L http')
  have l: "pending http buf offset = field_line (k, v) @ 10 # text_of L @ rest" using rl_field.prems(1) by simp
  show ?case
    using rl_field.hyps rl_field.prems(2) rl_field.IH [OF pending_line [OF l rl_field.prems(2), of "field_conn (k, v) http"]]
    by (intro loop_lines_cons [OF _ round_field [OF rl_field.hyps(1-3) l] _ l rl_field.prems(2)])
       (auto simp: in_header_def elim: rl_nilE)
qed simp

section \<open>Reads\<close>

lemma loop_unfinished:
  assumes "pending http buf offset = rest" and "rest \<noteq> []" and "10 \<notin> set rest" and "idle http \<or> in_header http"
    and "0 \<le> offset \<or> offset = - int (length (hc_partial http)) \<and> buf \<noteq> []"
  shows "conn_loop app handlers buf False offset http s = Some (Ret (- int (length rest), http\<lparr>hc_partial := rest\<rparr>, s))"
proof -
  have "conn_round app handlers buf False offset http s = Ret (Round (int (length rest)) 0 True, http, s)"
    using round_unfinished [of http buf offset app handlers s] assms by (auto simp: conn_round_def idle_def in_header_def)
  moreover have "push_back (int (length rest)) buf offset http = Ret (http\<lparr>hc_partial := rest\<rparr>)"
  proof (cases "0 \<le> offset")
    case True
    then have "drop (nat offset) buf = rest" using assms(1) by (simp add: pending_buffer)
    then show ?thesis using True assms(2) by (auto simp: push_back_def)
  next
    case False
    then have "rest = hc_partial http @ buf" "buf \<noteq> []" using assms(1,5) pending_start by auto
    then show ?thesis using False assms(1) by (simp add: push_back_def)
  qed
  ultimately show ?thesis using assms(2) by (subst conn_loop.simps) simp
qed

lemma no_line_in_partial:
  assumes "p @ buf = text_of L @ r" and "10 \<notin> set p" and "L \<noteq> []"
  shows "length p < length (text_of L)"
proof (rule ccontr)
  assume "\<not> length p < length (text_of L)"
  moreover have "take (length (text_of L)) (p @ buf) = text_of L" by (simp add: assms(1))
  ultimately have "text_of L = take (length (text_of L)) p" by simp
  then have "set (text_of L) \<subseteq> set p" by (metis set_take_subset)
  then show False using assms(2,3) by (cases L) auto
qed

lemma keep_rest_end: "0 \<le> offset \<Longrightarrow> keep_rest offset http = Ret (http\<lparr>hc_partial := []\<rparr>)"
  by (simp add: keep_rest_def)

lemma feed_lines:
  assumes "reads_lines http L http'" and "10 \<notin> set (hc_partial http)" and "hc_partial http @ buf = text_of L @ rest"
    and "buf \<noteq> []" and "10 \<notin> set rest"
  shows "conn_input app handlers buf False http s = Some (Ret (http'\<lparr>hc_partial := rest\<rparr>, s))"
proof -
  note k = reads_lines_keeps [OF assms(1)]
  let ?o = "- int (length (hc_partial http))"
  have p: "pending http buf ?o = text_of L @ rest" by (simp add: pending_start assms(3))
  have ne: "L \<noteq> [] \<or> rest \<noteq> []" using assms(3,4) by auto
  note lines = loop_lines [OF assms(1) p _ ne, of app handlers False s]
  have "conn_loop app handlers buf False ?o http s =
      (if rest = [] then Some (Ret (int (length buf), http', s)) else Some (Ret (- int (length rest), http'\<lparr>hc_partial := rest\<rparr>, s)))"
  proof (cases "rest = []")
    case True
    then show ?thesis using lines by simp
  next
    case False
    have "pending http' buf (?o + int (length (text_of L))) = rest" using pending_step [OF p, of http'] k by simp
    moreover have "0 \<le> ?o + int (length (text_of L)) \<or> ?o + int (length (text_of L)) = - int (length (hc_partial http')) \<and> buf \<noteq> []"
      using no_line_in_partial [OF assms(3,2)] assms(4) k by (cases "L = []") auto
    ultimately have "conn_loop app handlers buf False (?o + int (length (text_of L))) http' s =
        Some (Ret (- int (length rest), http'\<lparr>hc_partial := rest\<rparr>, s))"
      using k by (intro loop_unfinished [OF _ False assms(5)]) simp_all
    then show ?thesis using lines False by simp
  qed
  then show ?thesis using assms(4) k by (auto simp: conn_input_def keep_rest_def)
qed

text \<open>The empty line ends the header.\<close>

lemma loop_end:
  assumes "in_header http" and "pending http buf offset = 13 # 10 # rest" and "- offset \<le> int (length (hc_partial http))"
  shows "conn_loop app handlers buf False offset http s =
    (case end_of_headers app handlers http s of
       Ret (http', s') \<Rightarrow> if rest = [] \<or> hc_closed http' then Some (Ret (offset + 2, http', s')) else conn_loop app handlers buf False (offset + 2) http' s'
     | Exit n \<Rightarrow> Some (Exit n) | Undef \<Rightarrow> Some Undef)"
proof -
  have r: "conn_round app handlers buf False offset http s =
      obind (end_of_headers app handlers http s) (\<lambda>(http', s'). Ret (Round 0 2 False, http', s'))"
    using round_end [OF assms(1,2)] assms(1) by (simp add: conn_round_def in_header_def)
  have "offset \<le> int (length buf)" using assms(2,3) by (cases "offset \<le> int (length buf)") (auto simp: pending_def)
  from pending_length [OF assms(3) this] have len: "offset + 2 + int (length rest) = int (length buf)" unfolding assms(2) by simp
  show ?thesis
  proof (cases "end_of_headers app handlers http s")
    case (Ret x)
    then show ?thesis using r len by (subst conn_loop.simps) (cases rest; auto split: prod.split)
  qed (subst conn_loop.simps; simp add: r)+
qed

lemma feed_end:
  assumes "reads_lines http L http'" and "in_header http'" and "10 \<notin> set (hc_partial http)"
    and "hc_partial http @ buf = text_of L @ [13, 10] @ rest"
    and "offset = int (length buf) - int (length rest)"
  shows "0 \<le> offset" and "conn_loop app handlers buf False (- int (length (hc_partial http))) http s =
      (case end_of_headers app handlers http' s of
         Ret (http'', s') \<Rightarrow> if rest = [] \<or> hc_closed http'' then Some (Ret (offset, http'', s')) else conn_loop app handlers buf False offset http'' s'
       | Exit n \<Rightarrow> Some (Exit n) | Undef \<Rightarrow> Some Undef)"
proof -
  note k = reads_lines_keeps [OF assms(1)]
  let ?o = "- int (length (hc_partial http))"
  let ?e = "?o + int (length (text_of L))"
  have p: "pending http buf ?o = text_of L @ 13 # 10 # rest" using assms(4) by (simp add: pending_start)
  have q: "pending http' buf ?e = 13 # 10 # rest" using pending_step [OF p, of http'] k by simp
  have off: "offset = ?e + 2" using arg_cong [OF assms(4), of length] assms(5) by simp
  show "0 \<le> offset"
  proof (cases "L = []")
    case True
    then have "hc_partial http @ buf = 13 # 10 # rest" using assms(4) by simp
    then have "length (hc_partial http) \<le> 1" using assms(3) by (cases "hc_partial http"; cases "tl (hc_partial http)") auto
    then show ?thesis using True off by simp
  next
    case False
    then show ?thesis using no_line_in_partial [OF assms(4,3)] off by simp
  qed
  have e: "- ?e \<le> int (length (hc_partial http'))" using k by simp
  have "conn_loop app handlers buf False ?o http s = conn_loop app handlers buf False ?e http' s"
    using loop_lines [OF assms(1) p, of app handlers False s] by simp
  then show "conn_loop app handlers buf False ?o http s =
      (case end_of_headers app handlers http' s of
         Ret (http'', s') \<Rightarrow> if rest = [] \<or> hc_closed http'' then Some (Ret (offset, http'', s')) else conn_loop app handlers buf False offset http'' s'
       | Exit n \<Rightarrow> Some (Exit n) | Undef \<Rightarrow> Some Undef)"
    unfolding off by (rule trans [OF _ loop_end [OF assms(2) q e]])
qed

lemma reads_lines_no_lf: "reads_lines http L http' \<Longrightarrow> \<forall>l \<in> set L. 10 \<notin> set l"
  by (induction rule: reads_lines.induct)
    (auto simp: command_line_def field_line_def method_word_def word_def abs_path_def field_value_def list_all_iff cstr_def byte_of_char_def)

lemma split_lines:
  assumes "xs @ ys = text_of L @ [13, 10]" and "ys \<noteq> []" and "\<forall>l \<in> set L. 10 \<notin> set l"
  shows "\<exists>L1 L2 rest. L = L1 @ L2 \<and> xs = text_of L1 @ rest \<and> 10 \<notin> set rest \<and> rest @ ys = text_of L2 @ [13, 10]"
  using assms
proof (induction L arbitrary: xs)
  case Nil
  then have "10 \<notin> set xs" by (cases xs; cases "tl xs") auto
  then show ?case using Nil by auto
next
  case (Cons l L)
  show ?case
  proof (cases "length xs \<le> length l")
    case True
    then have "xs = take (length xs) l" using arg_cong [OF Cons.prems(1), of "take (length xs)"] by simp
    then have "10 \<notin> set xs" using Cons.prems(3) by (metis in_set_takeD list.set_intros(1))
    then show ?thesis using Cons.prems(1) by (intro exI [of _ "[]"] exI [of _ "l # L"] exI [of _ xs]) simp
  next
    case False
    then have "take (Suc (length l)) xs = l @ [10]" using arg_cong [OF Cons.prems(1), of "take (Suc (length l))"] by simp
    then obtain zs where z: "xs = l @ 10 # zs" by (metis append_Cons append_assoc append_Nil append_take_drop_id)
    then have "zs @ ys = text_of L @ [13, 10]" using Cons.prems(1) by simp
    from Cons.IH [OF this Cons.prems(2)] Cons.prems(3) obtain L1 L2 rest where
      "L = L1 @ L2" "zs = text_of L1 @ rest" "10 \<notin> set rest" "rest @ ys = text_of L2 @ [13, 10]" by auto
    then show ?thesis using z by (intro exI [of _ "l # L1"] exI [of _ L2] exI [of _ rest]) simp
  qed
qed

lemma conn_read_open:
  assumes "\<not> hc_closed http" and "buf \<noteq> []" and "hc_headerLength http + int (length buf) \<le> MAX_HEADER_LENGTH"
  shows "conn_read app handlers buf http s =
    conn_input app handlers buf False (with_input (hc_partial http) (hc_headerLength http + int (length buf)) http) s"
  using assms by (simp add: conn_read_def with_input_def)

text \<open>A request that arrives in any number of reads: the header is complete when \<^verbatim>\<open>end_of_headers\<close> is called.\<close>

definition drop_partial :: "(http_conn \<times> 's) outcome \<Rightarrow> (http_conn \<times> 's) outcome" where
  "drop_partial r = obind r (\<lambda>(http, s). Ret (http\<lparr>hc_partial := []\<rparr>, s))"

lemma read_last:
  assumes "reads_lines http L http'" and "in_header http'" and "10 \<notin> set (hc_partial http)" and "hc_partial http @ buf = text_of L @ [13, 10]"
    and "buf \<noteq> []" and "\<not> hc_closed http" and "hc_headerLength http + int (length buf) \<le> MAX_HEADER_LENGTH"
  shows "conn_read app handlers buf http s =
    Some (drop_partial (end_of_headers app handlers (with_input (hc_partial http) (hc_headerLength http + int (length buf)) http') s))"
proof -
  let ?n = "hc_headerLength http + int (length buf)"
  note fe = feed_end [OF reads_lines_with_input [OF assms(1), of "hc_partial http" ?n], where rest = "[]" and buf = buf,
      unfolded with_input_simps append_Nil2, OF assms(2,3,4) refl]
  show ?thesis
    unfolding conn_read_open [OF assms(6,5,7)]
    by (cases "end_of_headers app handlers (with_input (hc_partial http) ?n http') s")
       (auto simp: conn_input_def assms(5) fe(2) keep_rest_end drop_partial_def)
qed

lemma reads_request:
  assumes "reads_lines http L http'" and "in_header http'" and "10 \<notin> set (hc_partial http)" and "hc_partial http @ concat bufs = text_of L @ [13, 10]"
    and "[] \<notin> set bufs" and "bufs \<noteq> []" and "\<not> hc_closed http" and "hc_headerLength http + int (length (concat bufs)) \<le> MAX_HEADER_LENGTH"
  shows "\<exists>p. conn_reads app handlers bufs http s =
    Some (drop_partial (end_of_headers app handlers (with_input p (hc_headerLength http + int (length (concat bufs))) http') s))"
  using assms
proof (induction bufs arbitrary: http http' L)
  case (Cons buf bufs)
  show ?case
  proof (cases "bufs = []")
    case True
    have "conn_reads app handlers [buf] http s = conn_read app handlers buf http s"
      by (auto split: option.split outcome.split)
    moreover have "conn_read app handlers buf http s =
        Some (drop_partial (end_of_headers app handlers (with_input (hc_partial http) (hc_headerLength http + int (length buf)) http') s))"
      using Cons.prems(4-8) True by (intro read_last [OF Cons.prems(1-3)]) auto
    ultimately show ?thesis unfolding True by (intro exI [of _ "hc_partial http"]) simp
  next
    case False
    then have "concat bufs \<noteq> []" using Cons.prems(5) by (cases bufs) auto
    moreover have "(hc_partial http @ buf) @ concat bufs = text_of L @ [13, 10]" using Cons.prems(4) by simp
    ultimately obtain L1 L2 rest where L: "L = L1 @ L2" "hc_partial http @ buf = text_of L1 @ rest" "10 \<notin> set rest"
        "rest @ concat bufs = text_of L2 @ [13, 10]"
      using split_lines reads_lines_no_lf [OF Cons.prems(1)] by blast
    obtain http1 where h: "reads_lines http L1 http1" "reads_lines http1 L2 http'" using reads_lines_app Cons.prems(1) unfolding L(1) by blast
    let ?n = "hc_headerLength http + int (length buf)"
    have b: "buf \<noteq> []" "?n \<le> MAX_HEADER_LENGTH" using Cons.prems(5,8) by auto
    have "conn_read app handlers buf http s = Some (Ret (with_input rest ?n http1, s))"
      unfolding conn_read_open [OF Cons.prems(7) b]
      using feed_lines [OF reads_lines_with_input [OF h(1)], of "hc_partial http" ?n buf rest app handlers s] L(2,3) Cons.prems(3) b(1)
      by (simp add: with_input_def)
    then have "conn_reads app handlers (buf # bufs) http s = conn_reads app handlers bufs (with_input rest ?n http1) s" by simp
    moreover have "\<exists>p. conn_reads app handlers bufs (with_input rest ?n http1) s =
        Some (drop_partial (end_of_headers app handlers (with_input p (hc_headerLength (with_input rest ?n http1) + int (length (concat bufs))) (with_input rest ?n http')) s))"
      using Cons.prems(2,5,8) False L(3,4) reads_lines_keeps [OF h(1)]
      by (intro Cons.IH [where L = L2] reads_lines_with_input [OF h(2)]) auto
    moreover have "with_input p m (with_input q k http') = with_input p m http'" for p q m k by (simp add: with_input_def)
    ultimately show ?thesis by (simp add: add.assoc)
  qed
qed simp

section \<open>The handler of a request\<close>

definition request_lines :: "byte list \<Rightarrow> byte list \<Rightarrow> (byte list \<times> byte list) list \<Rightarrow> byte list list" where
  "request_lines m path hs = command_line m path # map field_line hs"

definition request_conn :: "byte list \<Rightarrow> byte list \<Rightarrow> (byte list \<times> byte list) list \<Rightarrow> http_conn \<Rightarrow> http_conn" where
  "request_conn m path hs http = fold field_conn hs (command_conn m path http)"

lemma in_header_field [simp]: "in_header (field_conn kv http) = in_header http"
  by (simp add: field_conn_def in_header_def Let_def split: prod.split)

lemma reads_fields:
  "\<lbrakk>in_header http; \<forall>(k, v) \<in> set hs. word k \<and> field_value v\<rbrakk> \<Longrightarrow> reads_lines http (map field_line hs) (fold field_conn hs http) \<and> in_header (fold field_conn hs http)"
  by (induction hs arbitrary: http) (auto intro: reads_lines.intros)

lemma reads_request_lines:
  assumes "idle http" and "method_word m" and "abs_path path" and "\<forall>(k, v) \<in> set hs. word k \<and> field_value v"
  shows "reads_lines http (request_lines m path hs) (request_conn m path hs http)" and "in_header (request_conn m path hs http)"
proof -
  have "in_header (command_conn m path http)" using assms(1) by (simp add: idle_def in_header_def command_conn_def)
  from reads_fields [OF this assms(4)] assms(1-3) show "reads_lines http (request_lines m path hs) (request_conn m path hs http)"
    "in_header (request_conn m path hs http)" by (auto simp: request_lines_def request_conn_def intro: reads_lines.intros)
qed

text \<open>The header holds the first value of every name, in lower case.\<close>

definition header_map :: "(byte list \<times> byte list) list \<Rightarrow> byte list \<Rightarrow> byte list option option" where
  "header_map hs = map_of (map (\<lambda>(k, v). (map lower_case k, Some v)) hs)"

lemma field_conn_header:
  assumes "hm_ok (hc_header http)"
  shows "hm_ok (hc_header (field_conn (k, v) http))"
    and "getFromHashMap (hc_header (field_conn (k, v) http)) = header_map [(k, v)] ++ getFromHashMap (hc_header http)"
proof -
  show "hm_ok (hc_header (field_conn (k, v) http))" using assms by (simp add: field_conn_def Let_def hm.valid_put)
  show "getFromHashMap (hc_header (field_conn (k, v) http)) = header_map [(k, v)] ++ getFromHashMap (hc_header http)"
    using assms by (auto simp: field_conn_def Let_def hm.get_put header_map_def map_add_def fun_eq_iff split: option.splits)
qed

lemma fields_header:
  assumes "hm_ok (hc_header http)"
  shows "hm_ok (hc_header (fold field_conn hs http)) \<and>
    getFromHashMap (hc_header (fold field_conn hs http)) = header_map hs ++ getFromHashMap (hc_header http)"
  using assms
proof (induction hs arbitrary: http)
  case Nil
  then show ?case by (simp add: header_map_def)
next
  case (Cons kv hs)
  obtain k v where kv: "kv = (k, v)" by (cases kv)
  note f = field_conn_header [OF Cons.prems, of k v]
  have "header_map hs ++ (header_map [(k, v)] ++ g) = header_map (kv # hs) ++ g" for g
    by (auto simp: header_map_def kv map_add_def fun_eq_iff split: option.splits)
  then show ?case using Cons.IH [OF f(1)] f(2) by (simp add: kv)
qed

lemma fields_other [simp]:
  "hc_method (fold field_conn hs http) = hc_method http" "hc_path (fold field_conn hs http) = hc_path http"
  "hc_matchedPath (fold field_conn hs http) = hc_matchedPath http" "hc_pathInfo (fold field_conn hs http) = hc_pathInfo http"
  "hc_query (fold field_conn hs http) = hc_query http" "hc_version (fold field_conn hs http) = hc_version http"
  "hc_done (fold field_conn hs http) = hc_done http" "hc_private (fold field_conn hs http) = hc_private http"
  "hc_websocketHandler (fold field_conn hs http) = hc_websocketHandler http"
  by (induction hs arbitrary: http) (auto simp: field_conn_def Let_def split: prod.split)

text \<open>The registrations of handlers, in order, and the one whose key is the longest prefix of a path: the part \<open>u\<close> of the path
  that is matched is this key without slashes at its end, which belong to the rest \<open>r\<close>.\<close>

definition registered :: "(byte list \<times> http_handler option) list \<Rightarrow> http_handler trie" where
  "registered regs = fst (trie_load True regs initTrie)"

definition longest_key :: "(byte list \<times> http_handler option) list \<Rightarrow> byte list \<Rightarrow> byte list \<Rightarrow> http_fn \<Rightarrow> bool" where
  "longest_key regs path key f \<longleftrightarrow> (\<forall>kv \<in> set regs. is_key (fst kv)) \<and> take (length key) path = key \<and>
     map_of (rev regs) key = Some (Some \<lparr>h_handler = Some f, h_websocketHandler = None\<rparr>) \<and>
     (\<forall>n. length key < n \<and> n \<le> length path \<longrightarrow> map_of (rev regs) (take n path) = None)"

definition routed :: "(byte list \<times> http_handler option) list \<Rightarrow> byte list \<Rightarrow> byte list \<Rightarrow> byte list \<Rightarrow> http_fn \<Rightarrow> bool" where
  "routed regs path u r f \<longleftrightarrow> path = u @ r \<and> (u = [] \<or> last u \<noteq> 47) \<and> (r = [] \<or> hd r \<in> {47, 63, 35}) \<and>
     (\<exists>n. longest_key regs path (u @ replicate n 47) f)"

definition path_info :: "byte list \<Rightarrow> byte list option" where
  "path_info r = (if r = [] \<or> hd r = 63 then None else Some (takeWhile (\<lambda>c. c \<noteq> 63) r))"

definition path_query :: "byte list \<Rightarrow> byte list option" where
  "path_query r = (case dropWhile (\<lambda>c. c \<noteq> 63) r of [] \<Rightarrow> None | _ # q \<Rightarrow> Some q)"

lemma split_path_eq:
  assumes "u = [] \<or> last u \<noteq> 47" and "r = [] \<or> hd r \<in> {47, 63, 35}" and "take n r = replicate n 47"
  shows "split_path (u @ r) (length u + n) = Some (u, path_info r, path_query r)"
proof -
  have "dropWhile (\<lambda>c. c = 47) (rev (take (length u + n) (u @ r))) = dropWhile (\<lambda>c. c = 47) (rev u)"
    using assms(3) dropWhile_append2 [of "replicate n 47" "\<lambda>c. c = 47" "rev u"] by simp
  also have "\<dots> = rev u" using assms(1) by (cases "u = []") (simp_all add: dropWhile_eq_self_iff hd_rev)
  finally show ?thesis using assms(2) by (auto simp: split_path_def path_info_def path_query_def Let_def)
qed

lemma longest_key_trie:
  assumes "longest_key regs path key f" and "0 \<notin> set path"
  shows "getFromTrie True (registered regs) path =
    (Some \<lparr>h_handler = Some f, h_websocketHandler = None\<rparr>, Some (drop (length key) path))"
  unfolding registered_def trie_load_fold
  by (rule tr.find_added [OF trie_ok_init trie_map_init]) (use assms in \<open>simp_all add: longest_key_def is_key_def\<close>)

lemma dispatch_routed:
  assumes "routed regs path u r f" and "0 \<notin> set path" and "hc_path http = Some path"
    and "hc_matchedPath http = None" and "hc_pathInfo http = None" and "hc_query http = None"
  shows "dispatch app (registered regs) http s =
    Ret (run_handler app f (http\<lparr>hc_matchedPath := Some u, hc_pathInfo := path_info r, hc_query := path_query r\<rparr>) s)"
proof -
  obtain n where n: "longest_key regs path (u @ replicate n 47) f" and p: "path = u @ r" "u = [] \<or> last u \<noteq> 47" "r = [] \<or> hd r \<in> {47, 63, 35}"
    using assms(1) unfolding routed_def by blast
  have r: "take n r = replicate n 47" using n p(1) by (simp add: longest_key_def)
  then have "n \<le> length r" by (metis length_replicate length_take min.absorb_iff2)
  then have "split_path path (length path - length (drop n r)) = Some (u, path_info r, path_query r)"
    using split_path_eq [OF p(2,3) r] p(1) by simp
  moreover have "drop (length (u @ replicate n 47)) path = drop n r" using p(1) by simp
  ultimately show ?thesis
    unfolding dispatch_def assms(3) using assms(4-6) by (simp add: longest_key_trie [OF n assms(2)])
qed

text \<open>The connection that the handler gets.\<close>

definition request_ready :: "byte list \<Rightarrow> http_conn \<Rightarrow> http_conn" where
  "request_ready m http =
     (let h1 = http\<lparr>hc_callback := None, hc_expecting := (if m = cstr ''POST'' \<or> 0 \<le> content_length http then content_length http else 0)\<rparr>
      in case hm_str (hc_header http) ''host'' of
           None \<Rightarrow> h1
         | Some host \<Rightarrow> h1\<lparr>hc_header := hm_assign (hc_header http) (cstr ''host'') (Some (takeWhile (\<lambda>c. c \<noteq> 58) host))\<rparr>)"

definition host_ok :: "http_conn \<Rightarrow> bool" where
  "host_ok http \<longleftrightarrow> (case hm_str (hc_header http) ''host'' of None \<Rightarrow> True | Some host \<Rightarrow> list_all host_char (takeWhile (\<lambda>c. c \<noteq> 58) host))"

lemma end_of_headers_ready:
  assumes "hc_expecting http = 0" and "hc_method http = Some m" and "m \<in> {cstr ''GET'', cstr ''POST'', cstr ''HEAD''}" and "host_ok http"
  shows "end_of_headers app handlers http s =
    obind (dispatch app handlers (request_ready m http) s) (\<lambda>(rc, http', s'). http_result (header_more app) app rc http' s')"
proof -
  have m: "m \<noteq> cstr ''OPTIONS''" "m \<notin> {cstr ''PUT'', cstr ''DELETE'', cstr ''TRACE'', cstr ''CONNECT''}"
    "m = cstr ''GET'' \<or> m = cstr ''POST'' \<or> m = cstr ''HEAD''" using assms(3) by (auto simp: cstr_def byte_of_char_def)
  have c: "content_length (http\<lparr>hc_callback := None\<rparr>) = content_length http" by (simp add: content_length_def)
  show ?thesis
  proof (cases "hm_str (hc_header http) ''host''")
    case None
    then show ?thesis using assms(1,2) m
      by (auto simp: end_of_headers_def httpHandleCommand_def request_ready_def Let_def c no_payload_def)
  next
    case (Some host)
    then have "host_name host = Some (takeWhile (\<lambda>c. c \<noteq> 58) host)" using assms(4) by (simp add: host_ok_def host_name_def Let_def)
    then show ?thesis using assms(1,2) m Some
      by (auto simp: end_of_headers_def httpHandleCommand_def request_ready_def Let_def c no_payload_def)
  qed
qed

definition good_request :: "byte list \<Rightarrow> byte list \<Rightarrow> (byte list \<times> byte list) list \<Rightarrow> bool" where
  "good_request m path hs \<longleftrightarrow> m \<in> {cstr ''GET'', cstr ''POST'', cstr ''HEAD''} \<and> abs_path path \<and>
     (\<forall>(k, v) \<in> set hs. word k \<and> field_value v) \<and>
     (case header_map hs (cstr ''host'') of Some (Some h) \<Rightarrow> list_all host_char (takeWhile (\<lambda>c. c \<noteq> 58) h) | _ \<Rightarrow> True)"

definition cut_host :: "(byte list \<Rightarrow> byte list option option) \<Rightarrow> byte list \<Rightarrow> byte list option option" where
  "cut_host h k = (if k = cstr ''host'' then map_option (map_option (takeWhile (\<lambda>c. c \<noteq> 58))) (h k) else h k)"

lemma good_method: "m \<in> {cstr ''GET'', cstr ''POST'', cstr ''HEAD''} \<Longrightarrow> method_word m"
  by (auto simp: method_word_def word_def blank_def cstr_def byte_of_char_def)

text \<open>A new connection, with other input fields, after the lines of a request.\<close>

definition new_conn :: "int \<Rightarrow> http_conn" where
  "new_conn port = initHttpConnection port False"

lemma new_conn_idle: "idle (new_conn port)" "hc_partial (new_conn port) = []" "\<not> hc_closed (new_conn port)" "hc_headerLength (new_conn port) = 0"
  by (simp_all add: new_conn_def initHttpConnection_def idle_def)

lemma request_conn_header:
  "hm_ok (hc_header (request_conn m path hs (new_conn port)))"
  "getFromHashMap (hc_header (request_conn m path hs (new_conn port))) = header_map hs"
  using fields_header [of "command_conn m path (new_conn port)" hs]
  by (simp_all add: request_conn_def command_conn_def new_conn_def initHttpConnection_def get_init)

lemma header_map_some: "header_map hs k = Some w \<Longrightarrow> \<exists>v. w = Some v"
  unfolding header_map_def by (induction hs) (auto split: if_splits)

lemma ready_header:
  assumes "hc_header http = hc_header (request_conn m path hs (new_conn port))"
  shows "getFromHashMap (hc_header (request_ready m' http)) = cut_host (header_map hs)"
proof (cases "header_map hs (cstr ''host'')")
  case None
  then have "cut_host (header_map hs) = header_map hs" by (auto simp: cut_host_def fun_eq_iff)
  then show ?thesis using None by (simp add: request_ready_def Let_def hm_str_def assms request_conn_header)
next
  case (Some w)
  then obtain host where w: "header_map hs (cstr ''host'') = Some (Some host)" using header_map_some by blast
  then have "cut_host (header_map hs) = (header_map hs)(cstr ''host'' \<mapsto> Some (takeWhile (\<lambda>c. c \<noteq> 58) host))"
    by (auto simp: cut_host_def fun_eq_iff)
  then show ?thesis
    using w by (simp add: request_ready_def Let_def hm_str_def assms request_conn_header hm_assign_ok(2))
qed

text \<open>What the handler of a request gets.\<close>

definition request_length :: "byte list \<Rightarrow> (byte list \<times> byte list) list \<Rightarrow> int" where
  "request_length m hs =
     (let n = length_field (case header_map hs (cstr ''content-length'') of None \<Rightarrow> None | Some v \<Rightarrow> v)
      in if m = cstr ''POST'' \<or> 0 \<le> n then n else 0)"

definition is_request ::
  "byte list \<Rightarrow> byte list \<Rightarrow> (byte list \<times> byte list) list \<Rightarrow> byte list \<Rightarrow> byte list \<Rightarrow> http_conn \<Rightarrow> bool" where
  "is_request m path hs u r req \<longleftrightarrow> hc_method req = Some m \<and> hc_path req = Some path \<and> hc_version req = Some (cstr ''HTTP/1.1'') \<and>
     hc_matchedPath req = Some u \<and> hc_pathInfo req = path_info r \<and> hc_query req = path_query r \<and>
     getFromHashMap (hc_header req) = cut_host (header_map hs) \<and> hc_state req = HEADERS \<and> \<not> hc_closed req \<and> \<not> hc_done req \<and>
     hc_expecting req = request_length m hs \<and> hc_callback req = None \<and> hc_websocketHandler req = None"

lemma request_to_handler:
  assumes "good_request m path hs" and "routed regs path u r f" and c_def: "c = with_input p n (request_conn m path hs (new_conn port))"
  shows "\<exists>req. is_request m path hs u r req \<and> hc_headerLength req = n \<and> hc_partial req = p \<and>
    end_of_headers app (registered regs) c s =
      (case run_handler app f req s of (rc, http', s') \<Rightarrow> http_result (header_more app) app rc http' s')"
proof -
  have c: "hc_method c = Some m" "hc_path c = Some path" "hc_matchedPath c = None" "hc_pathInfo c = None" "hc_query c = None"
      "hc_version c = Some (cstr ''HTTP/1.1'')" "hc_header c = hc_header (request_conn m path hs (new_conn port))"
      "hc_done c = False" "hc_websocketHandler c = None"
    by (simp_all add: c_def with_input_def request_conn_def command_conn_def new_conn_def initHttpConnection_def)
  have h: "in_header c"
    using reads_request_lines(2) [OF new_conn_idle(1) good_method, of m path hs port] assms(1) by (simp add: c_def good_request_def)
  have host: "host_ok c"
    using assms(1) header_map_some [of hs "cstr ''host''"]
    by (auto simp: host_ok_def hm_str_def c(7) request_conn_header good_request_def split: option.splits)
  have m: "m \<in> {cstr ''GET'', cstr ''POST'', cstr ''HEAD''}" and path: "0 \<notin> set path"
    using assms(1) by (auto simp: good_request_def abs_path_def list_all_iff)
  let ?r = "request_ready m c"
  let ?req = "?r\<lparr>hc_matchedPath := Some u, hc_pathInfo := path_info r, hc_query := path_query r\<rparr>"
  have rr: "hc_path ?r = Some path" "hc_matchedPath ?r = None" "hc_pathInfo ?r = None" "hc_query ?r = None" "hc_method ?r = Some m"
      "hc_version ?r = Some (cstr ''HTTP/1.1'')" "hc_state ?r = HEADERS" "\<not> hc_closed ?r" "\<not> hc_done ?r" "hc_callback ?r = None" "hc_websocketHandler ?r = None"
    using c h by (simp_all add: request_ready_def Let_def in_header_def split: option.split)
  have "hc_expecting ?r = request_length m hs"
    by (simp add: request_ready_def Let_def content_length_def hm_str_def c(7) request_conn_header request_length_def split: option.split)
  then have "is_request m path hs u r ?req" using rr ready_header [OF c(7), of m] by (simp add: is_request_def)
  moreover have "end_of_headers app (registered regs) c s =
      (case run_handler app f ?req s of (rc, http', s') \<Rightarrow> http_result (header_more app) app rc http' s')"
    using end_of_headers_ready [OF _ c(1) m host, of app "registered regs" s] h dispatch_routed [OF assms(2) path rr(1-4), of app s]
    by (simp add: in_header_def)
  moreover have "hc_headerLength ?req = n" "hc_partial ?req = p" by (simp_all add: request_ready_def Let_def c_def split: option.split)
  ultimately show ?thesis by (intro exI [of _ ?req]) simp
qed

text \<open>
  C24: a request reaches its handler: however the text of a GET, POST or HEAD request is cut into reads, the handler that was registered for the longest
  prefix of the path is called with the path split into the matched part (without slashes at its end), the rest and the query, and with the
  first value of every header field.
\<close>

theorem http_request_reaches_handler:
  assumes "good_request m path hs" and "routed regs path u r f" and "concat bufs = text_of (request_lines m path hs) @ CRLF"
    and "[] \<notin> set bufs" and "int (length (concat bufs)) \<le> MAX_HEADER_LENGTH"
  shows "\<exists>req. is_request m path hs u r req \<and>
    conn_reads app (registered regs) bufs (new_conn port) s =
      Some (drop_partial (case run_handler app f req s of (rc, http', s') \<Rightarrow> http_result (header_more app) app rc http' s'))"
proof -
  have r: "reads_lines (new_conn port) (request_lines m path hs) (request_conn m path hs (new_conn port))"
      "in_header (request_conn m path hs (new_conn port))"
    using reads_request_lines [OF new_conn_idle(1) good_method] assms(1) by (simp_all add: good_request_def)
  have "bufs \<noteq> []" using assms(3) by (auto simp: CRLF_def)
  then obtain p where "conn_reads app (registered regs) bufs (new_conn port) s =
      Some (drop_partial (end_of_headers app (registered regs) (with_input p (int (length (concat bufs))) (request_conn m path hs (new_conn port))) s))"
    using reads_request [OF r, of bufs app "registered regs" s] assms(3-5) by (auto simp: new_conn_idle CRLF_def)
  then show ?thesis using request_to_handler [OF assms(1,2) refl] by metis
qed

section \<open>Bytes behind a suspended request\<close>

lemma conn_loop_some:
  assumes "conn_loop app handlers buf eof offset http s = Some r"
  shows "\<not> (hc_state http = PAYLOAD \<and> hc_expecting http = 0 \<and> \<not> hc_closed http \<and> offset < int (length buf))"
  by (rule conn_loop.raw_induct [of "\<lambda>_ _ buf _ offset http _ _. \<not> (hc_state http = PAYLOAD \<and> hc_expecting http = 0 \<and> \<not> hc_closed http \<and> offset < int (length buf))", OF _ assms])
    (rule notI, fastforce simp: conn_round_def round_payload_def)

lemma conn_loop_stuck:
  "hc_state http = PAYLOAD \<Longrightarrow> hc_expecting http = 0 \<Longrightarrow> \<not> hc_closed http \<Longrightarrow> offset < int (length buf) \<Longrightarrow>
     conn_loop app handlers buf eof offset http s = None"
  by (cases "conn_loop app handlers buf eof offset http s") (auto dest: conn_loop_some)

text \<open>
  C25: a request that the application suspends and that has no payload left must be the last thing in its read: if a single byte
  follows, the loop over the bytes of the read never ends, and the server with it.
\<close>

theorem http_suspended_pipeline_hangs:
  assumes "good_request m path hs" and "routed regs path u r (Streaming g)" and "buf = text_of (request_lines m path hs) @ CRLF @ x"
    and "x \<noteq> []" and "int (length buf) \<le> MAX_HEADER_LENGTH"
    and "\<forall>req. is_request m path hs u r req \<longrightarrow>
      (\<exists>http' s'. app_handler app g req s = (HTTP_SUSPEND, http', s') \<and> hc_state http' = HEADERS \<and> hc_expecting http' = 0 \<and> \<not> hc_closed http')"
  shows "conn_read app (registered regs) buf (new_conn port) s = None"
proof -
  let ?c = "with_input [] (int (length buf)) (request_conn m path hs (new_conn port))"
  let ?n = "with_input [] (int (length buf)) (new_conn port)"
  have r: "reads_lines ?n (request_lines m path hs) ?c" "in_header ?c"
    using reads_request_lines [OF new_conn_idle(1) good_method] assms(1) by (auto simp: good_request_def intro: reads_lines_with_input)
  obtain req where q: "is_request m path hs u r req" and e: "end_of_headers app (registered regs) ?c s =
      (case run_handler app (Streaming g) req s of (rc, http', s') \<Rightarrow> http_result (header_more app) app rc http' s')"
    using request_to_handler [OF assms(1,2) refl, where app = app and s = s and port = port] by blast
  from assms(6) q obtain http' s' where h: "app_handler app g req s = (HTTP_SUSPEND, http', s')" "hc_state http' = HEADERS"
      "hc_expecting http' = 0" "\<not> hc_closed http'" by blast
  have eh: "end_of_headers app (registered regs) ?c s = Ret ((set_flags True False http')\<lparr>hc_state := PAYLOAD\<rparr>, s')"
    unfolding e using h by (simp add: run_handler_def http_result_def wait_payload_def httpSetState_def set_flags_def)
  let ?off = "int (length buf) - int (length x)"
  have b: "hc_partial ?n @ buf = text_of (request_lines m path hs) @ [13, 10] @ x" using assms(3) by (simp add: CRLF_def)
  have "10 \<notin> set (hc_partial ?n)" by simp
  note f = feed_end(2) [OF r this b refl, of app "registered regs" s]
  have "conn_loop app (registered regs) buf False 0 ?n s = conn_loop app (registered regs) buf False ?off ((set_flags True False http')\<lparr>hc_state := PAYLOAD\<rparr>) s'"
    using f unfolding eh outcome.case prod.case using assms(4) h(4) by (simp add: set_flags_def)
  also have "\<dots> = None" using assms(4) h(3,4) by (intro conn_loop_stuck) (simp_all add: set_flags_def)
  finally have "conn_loop app (registered regs) buf False 0 ?n s = None" .
  moreover have "buf \<noteq> []" using assms(3) by (simp add: CRLF_def)
  ultimately show ?thesis
    using conn_read_open [of "new_conn port" buf app "registered regs" s] assms(5) by (simp add: new_conn_idle conn_input_def)
qed

section \<open>Witnesses\<close>

text \<open>An application with one handler, which suspends every request and is content with every payload.\<close>

definition demo_app :: "unit http_app" where
  "demo_app = \<lparr>app_handler = (\<lambda>_ http s. (HTTP_SUSPEND, http, s)), app_callback = (\<lambda>_ _ http s. (HTTP_DONE, http, s)),
     app_websocket = (\<lambda>_ _ _ s. (HTTP_DONE, s)), app_stale = (\<lambda>_ _. 170)\<rparr>"

definition demo_regs :: "http_fn \<Rightarrow> (byte list \<times> http_handler option) list" where
  "demo_regs f = [(cstr ''/a'', Some \<lparr>h_handler = Some f, h_websocketHandler = None\<rparr>)]"

lemma demo_routed:
  assumes "r = [] \<or> hd r \<in> {47, 63, 35}"
  shows "routed (demo_regs f) (cstr ''/a'' @ r) (cstr ''/a'') r f"
proof -
  have "take n (cstr ''/a'' @ r) \<noteq> cstr ''/a''" if "length (cstr ''/a'') < n" "n \<le> length (cstr ''/a'' @ r)" for n
    using that by (metis length_take min.absorb2 nat_less_le)
  moreover have "last (cstr ''/a'') \<noteq> 47" "cstr ''/a'' \<noteq> []" "is_key (cstr ''/a'')" by (simp_all add: cstr_def byte_of_char_def is_key_def)
  ultimately show ?thesis
    using assms unfolding routed_def longest_key_def demo_regs_def by (intro conjI exI [of _ 0]) simp_all
qed

definition demo_fields :: "(byte list \<times> byte list) list" where
  "demo_fields = [(cstr ''Host'', cstr ''router:4200'')]"

lemma demo_request: "good_request (cstr ''GET'') (cstr ''/a'' @ cstr ''/b?c=d'') demo_fields"
  by (simp add: good_request_def demo_fields_def header_map_def abs_path_def word_def field_value_def blank_def lower_case_def host_char_def
      cstr_def byte_of_char_def)

theorem http_request_reaches_handler_witness:
  "\<exists>req. is_request (cstr ''GET'') (cstr ''/a'' @ cstr ''/b?c=d'') demo_fields (cstr ''/a'') (cstr ''/b?c=d'') req \<and>
    conn_reads demo_app (registered (demo_regs (Streaming 1)))
      [take 7 (text_of (request_lines (cstr ''GET'') (cstr ''/a'' @ cstr ''/b?c=d'') demo_fields) @ CRLF),
       drop 7 (text_of (request_lines (cstr ''GET'') (cstr ''/a'' @ cstr ''/b?c=d'') demo_fields) @ CRLF)] (new_conn 4200) () =
      Some (drop_partial (case run_handler demo_app (Streaming 1) req () of (rc, http', s') \<Rightarrow> http_result (header_more demo_app) demo_app rc http' s'))"
proof (rule http_request_reaches_handler [OF demo_request demo_routed])
  let ?t = "text_of (request_lines (cstr ''GET'') (cstr ''/a'' @ cstr ''/b?c=d'') demo_fields) @ CRLF"
  have l: "length ?t = 44" by (simp add: request_lines_def command_line_def field_line_def demo_fields_def cstr_def CRLF_def)
  show "concat [take 7 ?t, drop 7 ?t] = ?t" unfolding concat.simps append_Nil2 by (rule append_take_drop_id)
  show "[] \<notin> set [take 7 ?t, drop 7 ?t]" using l by (auto dest: arg_cong [where f = length])
  show "int (length (concat [take 7 ?t, drop 7 ?t])) \<le> MAX_HEADER_LENGTH" using l by (simp add: MAX_HEADER_LENGTH_def)
qed (simp_all add: cstr_def byte_of_char_def)

theorem http_suspended_pipeline_hangs_witness:
  "conn_read demo_app (registered (demo_regs (Streaming 1)))
     (text_of (request_lines (cstr ''GET'') (cstr ''/a'' @ cstr ''/b?c=d'') demo_fields) @ CRLF @ cstr ''G'') (new_conn 4200) () = None"
proof (rule http_suspended_pipeline_hangs [OF demo_request demo_routed refl])
  have "request_length (cstr ''GET'') demo_fields = 0"
    by (simp add: request_length_def length_field_def header_map_def demo_fields_def cstr_def byte_of_char_def lower_case_def)
  then show "\<forall>req. is_request (cstr ''GET'') (cstr ''/a'' @ cstr ''/b?c=d'') demo_fields (cstr ''/a'') (cstr ''/b?c=d'') req \<longrightarrow>
      (\<exists>http' s'. app_handler demo_app 1 req () = (HTTP_SUSPEND, http', s') \<and> hc_state http' = HEADERS \<and> hc_expecting http' = 0 \<and> \<not> hc_closed http')"
    by (simp add: is_request_def demo_app_def)
qed (simp_all add: cstr_def byte_of_char_def request_lines_def command_line_def field_line_def demo_fields_def CRLF_def MAX_HEADER_LENGTH_def)

end
