(* ===== verification/Websocket_Props.thy ===== *)
theory Websocket_Props
  imports Http_Props
begin

text \<open>
  Web sockets end to end, through the input side of a connection (\<^verbatim>\<open>httpHandleConnection\<close>): the frames come out the same however the network cuts their bytes into
  reads, until the connection has got 64 KiB; and what the two encoders make of a message is read back, except for binary messages of 128 bytes and more.
  An empty read is the end of the stream, so none of the reads is empty.
\<close>

section \<open>Connections\<close>

text \<open>A connection on which the application \<open>w\<close> runs a web socket, and an application that accepts everything and records its calls.\<close>

definition ws_live :: "app_fn \<Rightarrow> http_conn \<Rightarrow> bool" where
  "ws_live w http \<longleftrightarrow> hc_state http = WEBSOCKET \<and> hc_websocketHandler http = Some w \<and> hc_callback http = None \<and> hc_partial http = [] \<and>
     hc_method http \<noteq> None \<and> \<not> hc_done http \<and> \<not> hc_private http \<and> \<not> hc_isSuspended http \<and> \<not> hc_isPartialReply http"

definition ws_open :: "app_fn \<Rightarrow> http_conn \<Rightarrow> bool" where
  "ws_open w http \<longleftrightarrow> ws_live w http \<and> \<not> hc_closed http"

definition recording :: "(u32 \<times> byte list) list http_app \<Rightarrow> bool" where
  "recording app \<longleftrightarrow> (\<forall>w t data s. app_websocket app w t data s = (HTTP_DONE, s @ [(t, case data of None \<Rightarrow> [] | Some bs \<Rightarrow> bs)]))"

text \<open>The reads before the first one with which a connection exceeds the bound on the bytes that it may receive.\<close>

fun reads_within :: "int \<Rightarrow> byte list list \<Rightarrow> byte list list" where
  "reads_within n [] = []"
| "reads_within n (buf # bufs) =
     (if n + int (length buf) \<le> MAX_HEADER_LENGTH then buf # reads_within (n + int (length buf)) bufs else [])"

lemma reads_within_all: "n + int (length (concat bufs)) \<le> MAX_HEADER_LENGTH \<Longrightarrow> reads_within n bufs = bufs"
  by (induction bufs arbitrary: n) (auto simp: algebra_simps)

text \<open>The answer to a handshake opens a web socket.\<close>

lemma handshake_opens:
  assumes "hc_state http = HEADERS" and "hc_expecting http = 0" and "hc_partial http = []" and "\<not> hc_closed http" and "\<not> hc_done http" and "\<not> hc_private http"
    and "hc_method http = Some (cstr ''GET'')" and "hc_path http = Some path" and "hm_str (hc_header http) ''host'' = None"
    and "hm_str (hc_header http) ''content-length'' = None" and "hm_str (hc_header http) ''user-agent'' = None"
    and "getFromTrie True handlers path = (Some h, rest)" and "h_websocketHandler h = Some w"
    and "ws_handshake (http\<lparr>hc_callback := None, hc_expecting := 0\<rparr>) = Some response"
  shows "\<exists>http'. end_of_headers app handlers http s = Ret (http', snd (app_websocket app w WS_CONNECTION_OPENED None s)) \<and> ws_open w http' \<and>
    hc_websocketType http' = hc_websocketType http \<and> hc_headerLength http' = hc_headerLength http \<and> hc_sent http' = hc_sent http @ [response]"
proof -
  have "content_length (http\<lparr>hc_callback := None\<rparr>) = - 1" using assms(10) by (simp add: content_length_def length_field_def)
  then show ?thesis using assms
    by (simp add: end_of_headers_def httpHandleCommand_def Let_def no_payload_def dispatch_def queue_msg_def httpSetState_def
        http_result_def header_more_def set_flags_def after_more_def ws_open_def ws_live_def cstr_def byte_of_char_def split: prod.split)
qed

section \<open>Reads\<close>

text \<open>All that web sockets leave alone.\<close>

definition ws_frame :: "http_conn \<Rightarrow> http_conn" where
  "ws_frame http = http\<lparr>hc_expecting := 0, hc_websocketType := 0, hc_partial := []\<rparr>"

lemma ws_frame_simps [simp]:
  "ws_frame (http\<lparr>hc_expecting := e\<rparr>) = ws_frame http" "ws_frame (http\<lparr>hc_websocketType := t\<rparr>) = ws_frame http"
  "ws_frame (http\<lparr>hc_partial := p\<rparr>) = ws_frame http"
  by (simp_all add: ws_frame_def)

lemma ws_frame_eq:
  assumes "ws_frame http' = ws_frame http"
  shows "hc_state http' = hc_state http" "hc_websocketHandler http' = hc_websocketHandler http" "hc_callback http' = hc_callback http"
    "hc_method http' = hc_method http" "hc_done http' = hc_done http" "hc_private http' = hc_private http"
    "hc_isSuspended http' = hc_isSuspended http" "hc_isPartialReply http' = hc_isPartialReply http"
    "hc_headerLength http' = hc_headerLength http" "hc_sent http' = hc_sent http"
  using arg_cong [OF assms, of hc_state] arg_cong [OF assms, of hc_websocketHandler] arg_cong [OF assms, of hc_callback]
    arg_cong [OF assms, of hc_method] arg_cong [OF assms, of hc_done] arg_cong [OF assms, of hc_private] arg_cong [OF assms, of hc_isSuspended]
    arg_cong [OF assms, of hc_isPartialReply] arg_cong [OF assms, of hc_headerLength] arg_cong [OF assms, of hc_sent]
  by (simp_all add: ws_frame_def)

lemma ws_head_frame: "ws_head c http = Some (ch, http') \<Longrightarrow> ws_frame http' = ws_frame http"
  by (auto simp: ws_head_def Let_def split: if_splits)

lemma ws_scan_frame: "ws_scan buf off http = Some (ch, http') \<Longrightarrow> ws_frame http' = ws_frame http"
  by (auto simp: ws_scan_def Let_def split: if_splits)

lemma ws_data_frame: "ws_data h buf off ch http s = Ret (ok, off', http', s') \<Longrightarrow> ws_frame http' = ws_frame http"
  by (auto simp: ws_data_def handle_partial_def handle_buffered_def Let_def split: if_splits prod.splits)

lemma ws_loop_frame: "ws_loop h buf off ch http s = Ret (ok, http', s') \<Longrightarrow> ws_frame http' = ws_frame http"
proof (induction h buf off ch http s rule: ws_loop.induct)
  case (1 h buf off ch http s)
  show ?case
    using "1.prems" "1.IH" by (subst (asm) ws_loop.simps)
      (auto split: if_splits option.splits outcome.splits prod.splits bool.splits dest!: ws_head_frame ws_scan_frame ws_data_frame)
qed

lemma recording_handler: "recording app \<Longrightarrow> conn_handler app w = record_calls"
  by (simp add: recording_def conn_handler_def record_calls_def fun_eq_iff)

lemma websocket_round:
  assumes "recording app" and "hc_state http = WEBSOCKET" and "hc_websocketHandler http = Some w"
    and "ws_loop record_calls buf 0 0 http evs = Ret (ok, http', evs')"
  shows "conn_round app handlers buf eof 0 http evs =
      Ret (if ok then Round 0 (int (length buf)) False else Leave, if ok then http' else httpCloseRead http', evs')"
  using assms(2-4) by (simp add: conn_round_def round_websocket_def httpHandleWebSocket_def recording_handler [OF assms(1)])

text \<open>A read of an open web socket that stays within the bound.\<close>

lemma ws_read_agrees:
  assumes "recording app" and "ws_open w http" and "ws_rel http m" and "buf \<noteq> []"
    and "hc_headerLength http + int (length buf) \<le> MAX_HEADER_LENGTH"
  shows "\<exists>http' evs'. conn_read app handlers buf http evs = Some (Ret (http', evs')) \<and> ws_live w http' \<and>
    hc_headerLength http' = hc_headerLength http + int (length buf) \<and> hc_sent http' = hc_sent http \<and>
    ws_payload evs' = ws_payload evs @ snd (ws_bytes m buf) \<and> (list_all ws_piece evs \<longrightarrow> list_all ws_piece evs') \<and>
    (if hc_closed http' then fst (ws_bytes m buf) = Failed else ws_rel http' (fst (ws_bytes m buf)))"
proof -
  let ?n = "with_input (hc_partial http) (hc_headerLength http + int (length buf)) http"
  have live: "ws_live w ?n" "\<not> hc_closed ?n" "hc_partial ?n = []" using assms(2) by (simp_all add: ws_open_def ws_live_def with_input_def)
  then have st: "hc_state ?n = WEBSOCKET" "hc_websocketHandler ?n = Some w" by (simp_all only: ws_live_def)
  have rel: "ws_rel ?n m" using assms(3) by (cases m) (simp_all add: with_input_def)
  have "agrees (drop 0 buf) m ?n evs (ws_loop record_calls buf (int 0) 0 ?n evs)"
    using rel live by (intro ws_loop_agrees) auto
  then obtain ok http' evs' where r: "ws_loop record_calls buf 0 0 ?n evs = Ret (ok, http', evs')"
      "ws_payload evs' = ws_payload evs @ snd (ws_bytes m buf)" "hc_closed http' = hc_closed ?n" "hc_partial http' = hc_partial ?n"
      "if ok then ws_rel http' (fst (ws_bytes m buf)) else fst (ws_bytes m buf) = Failed" "list_all ws_piece evs \<longrightarrow> list_all ws_piece evs'"
    unfolding agrees_def drop_0 semiring_1_class.of_nat_0 by blast
  note f = ws_frame_eq [OF ws_loop_frame [OF r(1)]]
  let ?http' = "(if ok then http' else httpCloseRead http')\<lparr>hc_partial := []\<rparr>"
  have "conn_round app handlers buf False 0 ?n evs =
      Ret (if ok then Round 0 (int (length buf)) False else Leave, if ok then http' else httpCloseRead http', evs')"
    by (rule websocket_round [OF assms(1) st r(1)])
  then have "conn_loop app handlers buf False 0 ?n evs =
      Some (Ret (if ok then int (length buf) else 0, if ok then http' else httpCloseRead http', evs'))"
    by (subst conn_loop.simps) (cases ok; simp)
  then have "conn_read app handlers buf http evs = Some (Ret (?http', evs'))"
    using conn_read_open [of http buf app handlers evs] assms(2,4,5) live(3)
    by (cases ok) (simp_all add: ws_open_def conn_input_def keep_rest_def)
  moreover have "ws_rel (http'\<lparr>hc_partial := []\<rparr>) n = ws_rel http' n" for n by (cases n) auto
  moreover have "ws_live w ?http'" "hc_headerLength ?http' = hc_headerLength http + int (length buf)" "hc_sent ?http' = hc_sent http"
    using live(1) f by (simp_all add: ws_live_def httpCloseRead_def with_input_def)
  ultimately show ?thesis using r(2-6) live(2)
    by (intro exI [of _ ?http'] exI [of _ evs']) (cases ok; simp add: httpCloseRead_def)
qed

text \<open>What is done with a web socket that is closed.\<close>

definition ws_dead :: "http_conn \<Rightarrow> bool" where
  "ws_dead http \<longleftrightarrow> hc_state http = COMMAND \<and> hc_closed http \<and> hc_partial http = []"

lemma dead_reads: "ws_dead http \<Longrightarrow> conn_reads app handlers bufs http s = Some (Ret (http, s))"
  by (induction bufs) (simp_all add: ws_dead_def conn_read_def conn_input_def conn_eof_def)

lemma live_eof:
  assumes "recording app" and "ws_live w http" and "hc_closed http"
  shows "\<exists>http'. conn_input app handlers [] True http s = Some (Ret (http', s @ [(WS_CONNECTION_CLOSED, [])])) \<and> ws_dead http' \<and> hc_sent http' = hc_sent http"
  using assms
  by (simp add: conn_input_def conn_eof_def ws_live_def httpSetState_def httpFinishCommand_def recording_def httpCloseRead_def clear_command_def ws_dead_def)

lemma closed_reads:
  assumes "recording app" and "ws_live w http" and "hc_closed http"
  shows "\<exists>http'. conn_reads app handlers bufs http s =
      Some (Ret (http', s @ (if hc_state http' = WEBSOCKET then [] else [(WS_CONNECTION_CLOSED, [])]))) \<and>
    hc_closed http' \<and> hc_sent http' = hc_sent http"
proof (cases bufs)
  case Nil
  then show ?thesis using assms by (simp add: ws_live_def)
next
  case (Cons buf rest)
  obtain http' where h: "conn_input app handlers [] True http s = Some (Ret (http', s @ [(WS_CONNECTION_CLOSED, [])]))" "ws_dead http'" "hc_sent http' = hc_sent http"
    using live_eof [OF assms] by blast
  then show ?thesis using assms(3) by (simp add: Cons conn_read_def dead_reads ws_dead_def)
qed

lemma header_too_big:
  assumes "recording app" and "ws_open w http" and "buf \<noteq> []" and "MAX_HEADER_LENGTH < hc_headerLength http + int (length buf)"
  shows "\<exists>http' r. conn_reads app handlers (buf # bufs) http s = Some (Ret (http', s @ [(WS_CONNECTION_CLOSED, [])])) \<and> ws_dead http' \<and>
    hc_sent http' = hc_sent http @ [r] \<and> take 27 r = cstr ''HTTP/1.1 413 Header too big''"
proof -
  let ?n = "http\<lparr>hc_headerLength := hc_headerLength http + int (length buf)\<rparr>"
  have live: "ws_live w ?n" using assms(2) by (simp add: ws_open_def ws_live_def)
  then obtain meth where m: "hc_method ?n = Some meth" by (auto simp: ws_live_def)
  have t: "take 27 (reply_head 413 (cstr ''Header too big'') n @ x) = cstr ''HTTP/1.1 413 Header too big''" for n x
  proof -
    have "cstr ''HTTP/1.1 '' @ cstr (dec_of_int 413) @ [32] @ cstr ''Header too big'' = cstr ''HTTP/1.1 413 Header too big''" by code_simp
    then have "\<exists>y. reply_head 413 (cstr ''Header too big'') n = cstr ''HTTP/1.1 413 Header too big'' @ y"
      unfolding reply_head_def append_assoc [symmetric] by (simp only: append_assoc) (metis append_assoc)
    then show ?thesis by (auto simp: cstr_def)
  qed
  obtain http1 r where s: "httpSendReply 413 (cstr ''Header too big'') ?n = Ret http1" "ws_live w http1" "hc_closed http1"
      "hc_sent http1 = hc_sent http @ [r]" "take 27 r = cstr ''HTTP/1.1 413 Header too big''"
    using m live t by (auto simp: httpSendReply_def Let_def queue_msg_def ws_live_def httpCloseRead_def)
  obtain http' where h: "conn_input app handlers [] True http1 s = Some (Ret (http', s @ [(WS_CONNECTION_CLOSED, [])]))" "ws_dead http'" "hc_sent http' = hc_sent http1"
    using live_eof [OF assms(1) s(2,3)] by blast
  have "conn_read app handlers buf http s = Some (Ret (http', s @ [(WS_CONNECTION_CLOSED, [])]))"
    using assms(2-4) s(1) h(1) by (simp add: conn_read_def ws_open_def Let_def)
  then show ?thesis using h(2,3) s(4,5) by (simp add: dead_reads)
qed

text \<open>All reads.\<close>

definition ws_result ::
  "(http_conn \<times> (u32 \<times> byte list) list) outcome option \<Rightarrow> http_conn \<Rightarrow> ws_mode \<Rightarrow> (u32 \<times> byte list) list \<Rightarrow> byte list list \<Rightarrow> bool" where
  "ws_result r http m evs bufs \<longleftrightarrow>
     (let got = reads_within (hc_headerLength http) bufs; stop = fst (ws_bytes m (concat got)) in
      \<exists>http' evs' sent.
        r = Some (Ret (http', evs' @ (if hc_state http' = WEBSOCKET then [] else [(WS_CONNECTION_CLOSED, [])]))) \<and>
        ws_payload evs' = ws_payload evs @ snd (ws_bytes m (concat got)) \<and> (list_all ws_piece evs \<longrightarrow> list_all ws_piece evs') \<and>
        (hc_closed http' \<longleftrightarrow> stop = Failed \<or> got \<noteq> bufs) \<and> (\<not> hc_closed http' \<longrightarrow> hc_state http' = WEBSOCKET) \<and> (sent \<noteq> [] \<longrightarrow> hc_state http' = COMMAND) \<and> hc_sent http' = hc_sent http @ sent \<and>
        map (take 27) sent = (if stop \<noteq> Failed \<and> got \<noteq> bufs then [cstr ''HTTP/1.1 413 Header too big''] else []))"

lemma ws_result_later:
  assumes "ws_result r http1 (fst (ws_bytes m buf)) evs1 bufs" and "hc_headerLength http + int (length buf) \<le> MAX_HEADER_LENGTH"
    and "hc_headerLength http1 = hc_headerLength http + int (length buf)" and "hc_sent http1 = hc_sent http"
    and "ws_payload evs1 = ws_payload evs @ snd (ws_bytes m buf)" and "list_all ws_piece evs \<longrightarrow> list_all ws_piece evs1"
  shows "ws_result r http m evs (buf # bufs)"
proof -
  have app: "fst (ws_bytes m (buf @ x)) = fst (ws_bytes (fst (ws_bytes m buf)) x)"
    "snd (ws_bytes m (buf @ x)) = snd (ws_bytes m buf) @ snd (ws_bytes (fst (ws_bytes m buf)) x)" for x
    by (simp_all add: ws_bytes_append Let_def split: prod.split)
  from assms(1) show ?thesis
    unfolding ws_result_def Let_def reads_within.simps concat.simps app if_P [OF assms(2)] assms(3,4)
    apply (elim exE conjE)
    subgoal for http' evs' sent by (intro exI [of _ http'] exI [of _ evs'] exI [of _ sent]) (use assms(5,6) in simp)
    done
qed

lemma ws_reads_agrees:
  assumes "recording app" and "ws_open w http" and "ws_rel http m" and "[] \<notin> set bufs"
  shows "ws_result (conn_reads app handlers bufs http evs) http m evs bufs"
  using assms
proof (induction bufs arbitrary: http m evs)
  case Nil
  then have "m \<noteq> Failed" "hc_state http = WEBSOCKET" "\<not> hc_closed http" by (auto simp: ws_open_def ws_live_def)
  then show ?case by (simp add: ws_result_def)
next
  case (Cons buf bufs)
  have b: "buf \<noteq> []" "[] \<notin> set bufs" and m: "m \<noteq> Failed" using Cons.prems(3,4) by auto
  show ?case
  proof (cases "hc_headerLength http + int (length buf) \<le> MAX_HEADER_LENGTH")
    case False
    obtain http' r where "conn_reads app handlers (buf # bufs) http evs = Some (Ret (http', evs @ [(WS_CONNECTION_CLOSED, [])]))" "ws_dead http'"
      "hc_sent http' = hc_sent http @ [r]" "take 27 r = cstr ''HTTP/1.1 413 Header too big''"
      using header_too_big [OF assms(1) Cons.prems(2) b(1), of handlers bufs evs] False by auto
    then show ?thesis using False m by (auto simp: ws_result_def ws_dead_def intro!: exI [of _ "[r]"])
  next
    case True
    obtain http1 evs1 where r: "conn_read app handlers buf http evs = Some (Ret (http1, evs1))" "ws_live w http1"
        "hc_headerLength http1 = hc_headerLength http + int (length buf)" "hc_sent http1 = hc_sent http"
        "ws_payload evs1 = ws_payload evs @ snd (ws_bytes m buf)" "list_all ws_piece evs \<longrightarrow> list_all ws_piece evs1"
        "if hc_closed http1 then fst (ws_bytes m buf) = Failed else ws_rel http1 (fst (ws_bytes m buf))"
      using ws_read_agrees [OF Cons.prems(1-3) b(1) True, of handlers evs] by blast
    have step: "conn_reads app handlers (buf # bufs) http evs = conn_reads app handlers bufs http1 evs1" by (simp add: r(1))
    have "ws_result (conn_reads app handlers bufs http1 evs1) http1 (fst (ws_bytes m buf)) evs1 bufs"
    proof (cases "hc_closed http1")
      case True
      then show ?thesis using closed_reads [OF Cons.prems(1) r(2) True, of handlers bufs evs1] r(7) by (auto simp: ws_result_def)
    next
      case False
      then show ?thesis using r(2,7) b(2) by (intro Cons.IH Cons.prems(1)) (simp_all add: ws_open_def)
    qed
    then show ?thesis unfolding step by (rule ws_result_later [OF _ True r(3-6)])
  qed
qed

text \<open>
  C15: web sockets do not depend on how the network delivers the bytes, up to the bound on the bytes that a connection may receive: for every way to cut a
  stream of bytes into reads, the handler gets exactly the payload bytes that the protocol gives for the reads within the bound, each with the type of its
  frame and in order, in pieces that are not empty. The connection is closed if and only if the length of a frame does not fit or a read exceeds the bound; in the second case
  an HTTP error is sent into the web socket. All bytes count for the bound, which is never reset: no web socket outlives 64 KiB of input.
\<close>

theorem ws_reads_reference:
  assumes "recording app" and "ws_open w http" and "hc_websocketType http = WS_UNDEFINED" and "[] \<notin> set bufs"
  shows "let got = reads_within (hc_headerLength http) bufs; stop = fst (ws_bytes Frame_start (concat got)) in
    \<exists>http' evs sent.
      conn_reads app handlers bufs http [] =
        Some (Ret (http', evs @ (if hc_state http' = WEBSOCKET then [] else [(WS_CONNECTION_CLOSED, [])]))) \<and>
      ws_payload evs = snd (ws_bytes Frame_start (concat got)) \<and> list_all (\<lambda>(t, bs). bs \<noteq> []) evs \<and>
      (hc_closed http' \<longleftrightarrow> stop = Failed \<or> got \<noteq> bufs) \<and> (\<not> hc_closed http' \<longrightarrow> hc_state http' = WEBSOCKET) \<and> (sent \<noteq> [] \<longrightarrow> hc_state http' = COMMAND) \<and>
      hc_sent http' = hc_sent http @ sent \<and>
      map (take 27) sent = (if stop \<noteq> Failed \<and> got \<noteq> bufs then [cstr ''HTTP/1.1 413 Header too big''] else [])"
proof -
  have p: "list_all ws_piece evs \<Longrightarrow> list_all (\<lambda>(t, bs). bs \<noteq> []) evs" for evs
    by (erule list.pred_mono_strong) (auto simp: ws_piece_def)
  have "ws_rel http Frame_start" using assms(3) by simp
  from ws_reads_agrees [OF assms(1,2) this assms(4), of handlers "[]"] show ?thesis
    unfolding ws_result_def Let_def ws_payload_snoc append_Nil list.pred_inject(1) simp_thms
    apply (elim exE conjE)
    subgoal for http' evs sent by (intro exI [of _ http'] exI [of _ evs] exI [of _ sent]) (simp add: p)
    done
qed

text \<open>Reads that stay within the bound.\<close>

lemma ws_reads_short:
  assumes "recording app" and "ws_open w http" and "hc_websocketType http = WS_UNDEFINED" and "[] \<notin> set bufs"
    and "hc_headerLength http + int (length (concat bufs)) \<le> MAX_HEADER_LENGTH" and "ws_bytes Frame_start (concat bufs) = (m, out)" and "m \<noteq> Failed"
  shows "\<exists>http' evs. conn_reads app handlers bufs http [] = Some (Ret (http', evs)) \<and> \<not> hc_closed http' \<and> hc_sent http' = hc_sent http \<and>
    ws_payload evs = out \<and> list_all ws_piece evs"
proof -
  have "ws_rel http Frame_start" using assms(3) by simp
  from ws_reads_agrees [OF assms(1,2) this assms(4), of handlers "[]"] show ?thesis
    unfolding ws_result_def Let_def reads_within_all [OF assms(5)] assms(6) fst_conv snd_conv using assms(7) by auto
qed

section \<open>Text messages\<close>

text \<open>What a browser makes of the two-byte sequences of UTF-8.\<close>

fun utf8_decode :: "byte list \<Rightarrow> byte list" where
  "utf8_decode [] = []"
| "utf8_decode (b # bs) =
     (if b AND 0x80 = 0 then b # utf8_decode bs
      else case bs of [] \<Rightarrow> [] | c # cs \<Rightarrow> (push_bit 6 (b AND 0x03) OR (c AND 0x3F)) # utf8_decode cs)"

definition utf8_ok :: "byte \<Rightarrow> bool" where
  "utf8_ok ch \<longleftrightarrow> (0xC0 + drop_bit 6 ch) AND 0x80 \<noteq> 0 \<and> 0xC0 + drop_bit 6 ch \<noteq> 0xFF \<and> 0x80 + (ch AND 0x3F) \<noteq> 0xFF \<and>
     push_bit 6 ((0xC0 + drop_bit 6 ch) AND 0x03) OR ((0x80 + (ch AND 0x3F)) AND 0x3F) = ch"

lemma utf8_ok_all: "list_all (\<lambda>n. utf8_ok (of_nat n)) [0..<256]"
  by code_simp

lemma utf8_ok: "utf8_ok ch"
proof -
  have "unat ch \<in> set [0..<256]" using unat_less_256 [of ch] by simp
  then have "utf8_ok (of_nat (unat ch))" using utf8_ok_all unfolding list_all_iff by blast
  then show ?thesis by simp
qed

lemma utf8_char_decode: "utf8_decode (utf8_char ch @ r) = ch # utf8_decode r"
  using utf8_ok [of ch] by (simp add: utf8_char_def utf8_ok_def)

lemma utf8_decode_msg: "utf8_decode (concat (map utf8_char msg)) = msg"
  by (induction msg) (simp_all add: utf8_char_decode)

lemma utf8_no_end: "0xFF \<notin> set (concat (map utf8_char msg))"
proof -
  have "0xFF \<notin> set (utf8_char ch)" for ch using utf8_ok [of ch] by (auto simp: utf8_char_def utf8_ok_def)
  then show ?thesis by auto
qed

lemma utf8_length: "length (concat (map utf8_char msg)) + 2 = utf8Len msg"
  by (induction msg) (auto simp: utf8Len_def utf8_char_def)

lemma text_type:
  assumes "0 \<le> type" and "type \<le> 0x7F"
  shows "(of_int type :: byte) AND 0x80 = 0"
proof -
  have "list_all (\<lambda>n. (of_nat n :: byte) AND 0x80 = 0) [0..<128]" by code_simp
  moreover have "nat type \<in> set [0..<128]" using assms by simp
  moreover have "(of_int type :: byte) = of_nat (nat type)" using assms(1) by simp
  ultimately show ?thesis unfolding list_all_iff by metis
qed

lemma text_frame:
  assumes "t AND 0x80 = 0" and "0xFF \<notin> set bs"
  shows "ws_bytes Frame_start (t # bs @ [0xFF]) = (Frame_start, map (Pair t) bs)"
proof -
  have "ws_bytes (Text t) (bs @ [0xFF]) = (Frame_start, map (Pair t) bs)"
    using ws_bytes_append [of "Text t" bs "[0xFF]"] ws_bytes_text [OF assms(2), of t] by simp
  then show ?thesis using assms(1) by simp
qed

lemma ucast_binary: "(ucast (w :: u32) :: byte) AND 0x80 = 0 \<Longrightarrow> w AND 0x80 = 0"
proof -
  assume "(ucast w :: byte) AND 0x80 = 0"
  then have "\<not> bit ((ucast w :: byte) AND 0x80) 7" by (metis bit_0_eq bot_apply bot_bool_def)
  then have "\<not> bit w 7" by (simp add: bit_and_iff ws_bit bit_ucast_iff del: bit_numeral_word_iff)
  then show ?thesis by (intro bit_word_eqI) (auto simp: bit_and_iff ws_bit simp del: bit_numeral_word_iff)
qed

lemma text_pieces:
  assumes "list_all ws_piece evs" and "ws_payload evs = map (Pair t) bs" and "t AND 0x80 = 0"
  shows "list_all (\<lambda>(e, _). e AND WS_END_OF_FRAME \<noteq> 0) evs"
  unfolding list_all_iff
proof (intro ballI, clarify)
  fix e and x :: "byte list" assume m: "(e, x) \<in> set evs" and z: "e AND WS_END_OF_FRAME = 0"
  have p: "ws_piece (e, x)" using assms(1) m by (simp add: list_all_iff)
  then have "hd x \<in> set x" by (simp add: ws_piece_def)
  then have "(ucast e, hd x) \<in> set (ws_payload evs)" using m by (force simp: ws_payload_def)
  then have "(ucast e :: byte) AND 0x80 = 0" using assms(2,3) by auto
  then show False using p z ucast_binary by (auto simp: ws_piece_def)
qed

text \<open>
  C16: a text message is read back as it was sent, however the frame is cut, as long as the connection stays within the bound on its bytes: the handler gets the UTF-8 encoding of the Latin-1 message, and
  the frame fills exactly the buffer that was allocated for it. Every piece is marked as the end of its frame, though only the last one is.
\<close>

theorem ws_text_roundtrip:
  assumes "recording app" and "ws_open w http" and "hc_websocketType http = WS_UNDEFINED" and "[] \<notin> set bufs"
    and "hc_headerLength http + int (length (concat bufs)) \<le> MAX_HEADER_LENGTH"
    and "httpSendWebSocketTextMsg type msg = Ret (concat bufs)"
  shows "\<exists>http' evs. conn_reads app handlers bufs http [] = Some (Ret (http', evs)) \<and> \<not> hc_closed http' \<and>
    utf8_decode (map snd (ws_payload evs)) = msg \<and> list_all (\<lambda>(t, _). t = of_int type) (ws_payload evs) \<and>
    length (concat bufs) = utf8Len msg \<and> list_all (\<lambda>(t, _). t AND WS_END_OF_FRAME \<noteq> 0) evs"
proof -
  let ?t = "of_int type :: byte" and ?bs = "concat (map utf8_char msg)"
  have b: "concat bufs = ?t # ?bs @ [0xFF]" and t: "0 \<le> type" "type \<le> 0x7F"
    using assms(6) by (auto simp: httpSendWebSocketTextMsg_def split: if_splits)
  have w: "ws_bytes Frame_start (concat bufs) = (Frame_start, map (Pair ?t) ?bs)"
    unfolding b by (rule text_frame [OF text_type [OF t] utf8_no_end])
  obtain http' evs where r: "conn_reads app handlers bufs http [] = Some (Ret (http', evs))"
      "ws_payload evs = map (Pair ?t) ?bs" "list_all ws_piece evs" "\<not> hc_closed http'"
    using ws_reads_short [OF assms(1-5) w, of handlers] by auto
  have "length (concat bufs) = utf8Len msg" unfolding b using utf8_length [of msg] by simp
  then show ?thesis
    using r text_pieces [OF r(3,2) text_type [OF t]] by (auto simp: comp_def utf8_decode_msg list_all_iff)
qed

section \<open>Binary messages\<close>

fun top_digit :: "nat \<Rightarrow> nat" where
  "top_digit l = (if l < 128 then l else top_digit (l div 128))"

declare top_digit.simps [simp del]

definition digit_ok :: "nat \<Rightarrow> bool" where
  "digit_ok d \<longleftrightarrow> (of_nat d :: byte) AND 0x7F = of_nat d \<and> (0x80 + of_nat d :: byte) AND 0x7F = of_nat d \<and>
     (of_nat d :: byte) AND 0x80 = 0 \<and> unat (of_nat d :: byte) = d"

lemma digit_ok: "d < 128 \<Longrightarrow> digit_ok d"
proof -
  have "list_all digit_ok [0..<128]" by code_simp
  then show "d < 128 \<Longrightarrow> digit_ok d" by (simp add: list_all_iff)
qed

lemma top_digit_less: "top_digit l < 128" "0 < l \<Longrightarrow> 0 < top_digit l"
proof -
  show "top_digit l < 128" by (induction l rule: top_digit.induct) (subst top_digit.simps, simp)
  show "0 < l \<Longrightarrow> 0 < top_digit l"
    by (induction l rule: top_digit.induct) (subst top_digit.simps, auto simp: div_greater_zero_iff)
qed

lemma base128_top: "\<exists>xs. base128 l = xs @ [0x80 + of_nat (top_digit l)] \<and> (xs = [] \<longleftrightarrow> l < 128)"
proof (induction l rule: base128.induct)
  case (1 l)
  show ?case
  proof (cases "l < 128")
    case True
    then show ?thesis using digit_ok [OF True] by (subst base128.simps) (simp add: top_digit.simps digit_ok_def)
  next
    case False
    then have "l div 128 \<noteq> 0" by (simp add: div_eq_0_iff)
    from "1.IH" [OF this] False show ?thesis by (subst base128.simps) (auto simp: top_digit.simps [of l] div_eq_0_iff)
  qed
qed

lemma base128_length: "l < 128 ^ Suc k \<Longrightarrow> length (base128 l) \<le> Suc k"
proof (induction k arbitrary: l)
  case 0
  then show ?case by (subst base128.simps) simp
next
  case (Suc k)
  have "l div 128 < 128 ^ Suc k" using Suc.prems by (simp add: less_mult_imp_div_less mult.commute)
  from Suc.IH [OF this] show ?case by (subst base128.simps) simp
qed

text \<open>The swaps reverse the digits.\<close>

lemma reverse_digits_nth:
  "length (reverse_digits j ds) = length ds \<and> (\<forall>k < length ds. reverse_digits j ds ! k =
     (if j \<le> k \<and> k + j < length ds then ds ! (length ds - 1 - k) else ds ! k))"
proof (induction j ds rule: reverse_digits.induct)
  case (1 j ds)
  show ?case
  proof (cases "j < length ds div 2")
    case True
    then have "j < length ds" "length ds - 1 - j < length ds" "0 < length ds" by linarith+
    then show ?thesis using True "1.IH" [OF True] by (subst (1 2) reverse_digits.simps) (auto simp: nth_list_update)
  next
    case False
    have "ds ! (length ds - 1 - k) = ds ! k" if "j \<le> k" "k + j < length ds" for k
    proof -
      have "length ds - 1 - k = k" using that False by linarith
      then show ?thesis by simp
    qed
    then show ?thesis using False by (subst (1 2) reverse_digits.simps) auto
  qed
qed

lemma reverse_digits_rev: "reverse_digits 0 ds = rev ds"
  using reverse_digits_nth [of 0 ds] by (auto simp: list_eq_iff_nth_eq rev_nth)

lemma length_digits_top:
  obtains xs where "length_digits l = of_nat (top_digit l) # xs" "xs = [] \<longleftrightarrow> l < 128" "length (length_digits l) = length (base128 l)"
proof -
  obtain ys where y: "base128 l = ys @ [0x80 + of_nat (top_digit l)]" "ys = [] \<longleftrightarrow> l < 128" using base128_top by blast
  have "length_digits l = of_nat (top_digit l) # rev ys"
    using digit_ok [OF top_digit_less(1) [of l]] by (simp add: length_digits_def reverse_digits_rev y(1) digit_ok_def)
  then show thesis using that [of "rev ys"] y by simp
qed

lemma binary_type:
  assumes "0x80 \<le> type" and "type \<le> 0xFF"
  shows "(of_int type :: byte) AND 0x80 \<noteq> 0"
proof -
  have "list_all (\<lambda>n. (of_nat n :: byte) AND 0x80 \<noteq> 0) [128..<256]" by code_simp
  moreover have "nat type \<in> set [128..<256]" unfolding set_upt using assms by auto
  moreover have "(of_int type :: byte) = of_nat (nat type)" using assms(1) by simp
  ultimately show ?thesis unfolding list_all_iff by metis
qed

text \<open>
  C22: a binary message of less than 128 bytes is read back as it was sent, however the frame is cut, as long as the connection stays within the bound on its bytes. From 128 bytes on the first digit of the length
  is sent without the bit that announces more digits: a receiver takes it for the whole length, which is then wrong, and
  the rest of the length for payload.
\<close>

theorem ws_binary_roundtrip:
  assumes "httpSendWebSocketBinaryMsg type msg = Ret (concat bufs)"
    and "recording app" and "ws_open w http" and "hc_websocketType http = WS_UNDEFINED" and "[] \<notin> set bufs"
    and "hc_headerLength http + int (length (concat bufs)) \<le> MAX_HEADER_LENGTH"
  shows "length (concat bufs) \<le> length msg + 6 \<and>
    (length msg < 128 \<longrightarrow> (\<exists>http' evs. conn_reads app handlers bufs http [] = Some (Ret (http', evs)) \<and> \<not> hc_closed http' \<and>
       ws_payload evs = map (Pair (of_int type)) msg)) \<and>
    (128 \<le> length msg \<longrightarrow> (\<exists>d. 0 < d \<and> d < length msg \<and>
       ws_bytes Frame_start (take 2 (concat bufs)) = (Binary (of_int type) d, [])))"
proof -
  let ?t = "of_int type :: byte" and ?d = "top_digit (length msg)"
  obtain xs where x: "length_digits (length msg) = of_nat ?d # xs" "xs = [] \<longleftrightarrow> length msg < 128"
      "length (length_digits (length msg)) = length (base128 (length msg))" by (rule length_digits_top)
  have b: "concat bufs = ?t # of_nat ?d # xs @ msg" and t: "0x80 \<le> type" "type \<le> 0xFF" and len: "0 < length msg" "int (length msg) < 0x7FFFFFF0"
    using assms(1) x(1) by (auto simp: httpSendWebSocketBinaryMsg_def split: if_splits)
  have d: "digit_ok ?d" "?d < 128" "0 < ?d" using top_digit_less len(1) by (auto intro: digit_ok)
  have head: "ws_bytes Frame_start [?t, of_nat ?d] = (Binary ?t ?d, [])"
    using d binary_type [OF t] by (simp add: digit_ok_def)
  have "length (base128 (length msg)) \<le> Suc 4" by (rule base128_length) (use len(2) in simp)
  then have fits: "length (concat bufs) \<le> length msg + 6" unfolding b using x(1,3) by simp
  have short: "ws_bytes Frame_start (concat bufs) = (Frame_start, map (Pair ?t) msg)" if "length msg < 128"
    unfolding b using ws_bytes_append [of Frame_start "[?t, of_nat ?d]" msg] head x(2) that len(1) ws_bytes_binary [of msg "length msg" ?t]
    by (simp add: top_digit.simps [of "length msg"])
  have "\<exists>http' evs. conn_reads app handlers bufs http [] = Some (Ret (http', evs)) \<and> \<not> hc_closed http' \<and> ws_payload evs = map (Pair ?t) msg"
    if "length msg < 128"
    using ws_reads_short [OF assms(2-6) short [OF that], of handlers] by auto
  moreover have "take 2 (concat bufs) = [?t, of_nat ?d]" by (simp add: b)
  moreover have "?d < length msg" if "128 \<le> length msg" using that d(2) by simp
  ultimately show ?thesis using fits head d(3) by auto
qed

section \<open>Witnesses\<close>

text \<open>A connection whose request has opened a web socket of the application 3, and one that has got almost all the bytes it may get.\<close>

definition ws_app :: "(u32 \<times> byte list) list http_app" where
  "ws_app = \<lparr>app_handler = (\<lambda>_ http s. (HTTP_DONE, http, s)), app_callback = (\<lambda>_ _ http s. (HTTP_DONE, http, s)),
     app_websocket = (\<lambda>_ t data s. (HTTP_DONE, s @ [(t, case data of None \<Rightarrow> [] | Some bs \<Rightarrow> bs)])), app_stale = (\<lambda>_ _. 170)\<rparr>"

definition ws_conn :: "int \<Rightarrow> http_conn" where
  "ws_conn n = (initHttpConnection 80 False)\<lparr>hc_state := WEBSOCKET, hc_method := Some (cstr ''GET''), hc_websocketHandler := Some 3, hc_headerLength := n\<rparr>"

lemma ws_conn: "recording ws_app" "ws_open 3 (ws_conn n)" "hc_websocketType (ws_conn n) = WS_UNDEFINED" "hc_headerLength (ws_conn n) = n"
    "hc_sent (ws_conn n) = []"
  by (simp_all add: recording_def ws_app_def ws_conn_def ws_open_def ws_live_def initHttpConnection_def)

theorem ws_reads_reference_witness:
  "\<exists>http' evs. conn_reads ws_app (registered []) [[0], [104, 105], [255, 129, 1], [7]] (ws_conn 65530) [] = Some (Ret (http', evs @ [(WS_CONNECTION_CLOSED, [])])) \<and>
    ws_payload evs = [(0, 104), (0, 105)] \<and> hc_closed http' \<and> map (take 27) (hc_sent http') = [cstr ''HTTP/1.1 413 Header too big'']"
proof -
  have w: "reads_within 65530 [[0], [104, 105], [255, 129, 1], [7 :: byte]] = [[0], [104, 105], [255, 129, 1]]" by (simp add: MAX_HEADER_LENGTH_def)
  have e: "ws_bytes Frame_start (concat [[0], [104, 105], [255, 129, 1]]) = (Binary 129 1, [(0, 104), (0, 105)])" by simp
  have n: "[] \<notin> set [[0], [104, 105], [255, 129, 1], [7 :: byte]]" by simp
  have f: "(Binary 129 1 = Failed \<or> [[0], [104, 105], [255, 129, 1]] \<noteq> [[0], [104, 105], [255, 129, 1], [7 :: byte]]) = True"
    "(Binary 129 1 \<noteq> Failed \<and> [[0], [104, 105], [255, 129, 1]] \<noteq> [[0], [104, 105], [255, 129, 1], [7 :: byte]]) = True" by simp_all
  obtain http' evs sent where r: "conn_reads ws_app (registered []) [[0], [104, 105], [255, 129, 1], [7]] (ws_conn 65530) [] =
      Some (Ret (http', evs @ (if hc_state http' = WEBSOCKET then [] else [(WS_CONNECTION_CLOSED, [])])))"
      "ws_payload evs = [(0, 104), (0, 105)]" "hc_closed http' = True" "sent \<noteq> [] \<longrightarrow> hc_state http' = COMMAND" "hc_sent http' = sent"
      "map (take 27) sent = [cstr ''HTTP/1.1 413 Header too big'']"
    using ws_reads_reference [OF ws_conn(1-3) n, of 65530 "registered []"]
    unfolding ws_conn(4,5) w e Let_def fst_conv snd_conv append_Nil f if_True by (elim exE conjE) (rule that)
  then have "hc_state http' = COMMAND" by auto
  then show ?thesis using r by (intro exI [of _ http'] exI [of _ evs]) (simp del: conn_reads.simps)
qed

theorem ws_text_roundtrip_witness:
  "\<exists>http' evs. conn_reads ws_app (registered []) [[0], [195, 169, 105], [255]] (ws_conn 200) [] = Some (Ret (http', evs)) \<and> \<not> hc_closed http' \<and>
    utf8_decode (map snd (ws_payload evs)) = [233, 105] \<and> list_all (\<lambda>(t, _). t = 0) (ws_payload evs) \<and>
    list_all (\<lambda>(t, _). t AND WS_END_OF_FRAME \<noteq> 0) evs"
proof -
  have "httpSendWebSocketTextMsg 0 [233, 105] = Ret (concat [[0], [195, 169, 105], [255]])" by code_simp
  from ws_text_roundtrip [OF ws_conn(1-3) _ _ this, of 200 "registered []"] show ?thesis
    by (auto simp add: ws_conn(4) MAX_HEADER_LENGTH_def simp del: conn_reads.simps)
qed

theorem ws_binary_roundtrip_witness:
  "\<exists>http' evs. conn_reads ws_app (registered []) [[128], [3, 1], [2, 3]] (ws_conn 200) [] = Some (Ret (http', evs)) \<and> \<not> hc_closed http' \<and>
    ws_payload evs = [(128, 1), (128, 2), (128, 3)]"
proof -
  have "httpSendWebSocketBinaryMsg 128 [1, 2, 3] = Ret (concat [[128], [3, 1], [2, 3]])" by code_simp
  from ws_binary_roundtrip [OF this ws_conn(1-3), of 200 "registered []"] show ?thesis
    by (simp add: ws_conn(4) MAX_HEADER_LENGTH_def del: conn_reads.simps)
qed

end
