(* ===== verification/Http_Post.thy ===== *)
theory Http_Post
  imports Http_Props
begin

text \<open>
  The payload of a request and requests that are not well-formed: a posted payload is collected over any number of reads and given to the application
  as a whole; a line that is not a command leaves the connection in a state in which the next command ends the process.
\<close>

section \<open>Lines that are not a command\<close>

lemma scan_few_blanks:
  assumes "10 \<notin> set x" and "l_lastSpace l < 0" and "length (filter blank x) \<le> (if l_firstSpace l < 0 then 1 else 0)" and "0 \<le> l_length l"
  shows "l_lastSpace (scan_line (x @ 10 # r) l) < 0"
  using assms by (induction x arbitrary: l) (auto simp: Let_def blank_def split: if_splits)

lemma bad_command_round:
  assumes "hc_state http = COMMAND" and "hc_expecting http = 0" and "x \<noteq> []" and "10 \<notin> set x" and "length (filter blank x) \<le> 1"
    and "pending http buf offset = x @ 10 # r"
  shows "conn_round app handlers buf False offset http s = Ret (Leave, bad_request http, s)"
proof -
  let ?l = "scan_line (x @ 10 # r) new_line"
  have "l_lastSpace ?l < 0" using scan_few_blanks [OF assms(4), of new_line r] assms(5) by (simp add: new_line_def)
  moreover have "l_fullLine ?l" "l_length ?l = int (length x)" using scan_rest [OF assms(4), where rest = r and l = new_line] by (simp_all add: new_line_def)
  ultimately show ?thesis
    using assms(1-3) by (simp add: conn_round_def round_line_def assms(6) httpParseCommand_def Let_def)
qed

lemma command_again_round:
  assumes "hc_state http = COMMAND" and "hc_expecting http = 0" and "hc_method http \<noteq> None" and "method_word m" and "abs_path p"
    and "pending http buf offset = command_line m p @ 10 # r"
  shows "conn_round app handlers buf False offset http s = Exit 1"
proof -
  obtain col where "scan_line (pending http buf offset) new_line = \<lparr>l_length = int (length m + length p) + 11, l_colon = col,
      l_firstSpace = int (length m), l_lastSpace = int (length m + length p) + 1, l_fullLine = True\<rparr>"
    unfolding assms(6) using scan_command [OF assms(4,5)] by blast
  moreover have "m \<noteq> []" using assms(4) by (simp add: method_word_def word_def)
  ultimately show ?thesis using assms(1-3) by (simp add: conn_round_def round_line_def httpParseCommand_def Let_def)
qed

text \<open>
  C39: a line with less than two blanks is no command. It is dropped together with the rest of its read, without the answer 400 and without closing the connection, but
  the empty method is kept: the next command that comes on the connection fails a check, which ends the whole server.
\<close>

theorem http_bad_command_is_fatal:
  assumes "x \<noteq> []" and "10 \<notin> set x" and "length (filter blank x) \<le> 1" and "method_word m" and "abs_path p"
    and "int (length (x @ 10 # junk)) + int (length (command_line m p @ 10 # rest)) \<le> MAX_HEADER_LENGTH"
  shows "(\<exists>http'. conn_read app handlers (x @ 10 # junk) (new_conn port) s = Some (Ret (http', s)) \<and> hc_sent http' = [] \<and> \<not> hc_closed http') \<and>
    conn_reads app handlers [x @ 10 # junk, command_line m p @ 10 # rest] (new_conn port) s = Some (Exit 1)"
proof -
  let ?b = "x @ 10 # junk" and ?c = "command_line m p @ 10 # rest"
  let ?n = "with_input [] (int (length ?b)) (new_conn port)"
  have n: "hc_state ?n = COMMAND" "hc_expecting ?n = 0" "pending ?n ?b 0 = x @ 10 # junk" "\<not> hc_closed ?n" "hc_sent ?n = []"
    by (simp_all add: with_input_def new_conn_def initHttpConnection_def pending_def)
  have "conn_loop app handlers ?b False 0 ?n s = Some (Ret (0, bad_request ?n, s))"
    by (subst conn_loop.simps) (simp only: bad_command_round [OF n(1,2) assms(1-3) n(3)] outcome.case prod.case round.case)
  then have r1: "conn_read app handlers ?b (new_conn port) s = Some (Ret ((bad_request ?n)\<lparr>hc_partial := []\<rparr>, s))"
    using conn_read_open [of "new_conn port" ?b app handlers s] assms(6)
    by (simp add: new_conn_idle conn_input_def keep_rest_end)
  let ?h = "(bad_request ?n)\<lparr>hc_partial := []\<rparr>"
  let ?m = "with_input [] (int (length ?b) + int (length ?c)) ?h"
  have h: "hc_state ?m = COMMAND" "hc_expecting ?m = 0" "hc_method ?m \<noteq> None" "pending ?m ?c 0 = command_line m p @ 10 # rest" "\<not> hc_closed ?h"
      "hc_partial ?h = []" "hc_headerLength ?h = int (length ?b)" "hc_sent ?h = []"
    using n by (simp_all add: with_input_def bad_request_def pending_def)
  have "conn_loop app handlers ?c False 0 ?m s = Some (Exit 1)"
    by (subst conn_loop.simps) (simp only: command_again_round [OF h(1-3) assms(4,5) h(4)] outcome.case)
  then have "conn_read app handlers ?c ?h s = Some (Exit 1)"
    using conn_read_open [OF h(5), of ?c app handlers s] assms(6) h(6,7) by (simp add: conn_input_def)
  then show ?thesis using r1 h(5,8) by simp
qed

section \<open>The payload\<close>

text \<open>A connection that collects the payload for \<open>g\<close>: \<open>acc\<close> is there, \<open>k\<close> bytes are missing.\<close>

definition collecting :: "app_fn \<Rightarrow> byte list \<Rightarrow> nat \<Rightarrow> http_conn \<Rightarrow> bool" where
  "collecting g acc k http \<longleftrightarrow> hc_state http = PAYLOAD \<and> hc_callback http = Some (Collect g (Some acc)) \<and> hc_expecting http = int k \<and>
     hc_partial http = [] \<and> \<not> hc_closed http \<and> \<not> hc_done http \<and>
     (\<exists>cl. hm_str (hc_header http) ''content-length'' = Some cl \<and> atoi (str_of_bytes cl) = int (length acc + k))"

definition collected :: "app_fn \<Rightarrow> byte list \<Rightarrow> nat \<Rightarrow> http_conn \<Rightarrow> http_conn" where
  "collected g acc k http = http\<lparr>hc_callback := Some (Collect g (Some acc)), hc_expecting := int k\<rparr>"

lemma consume_payload:
  assumes "collecting g acc k http" and "buf \<noteq> []" and "length buf \<le> k" and "length acc + k \<le> MAX_PAYLOAD_LENGTH"
  shows "httpConsumePayload app buf http s =
    obind (if length buf < k then Ret (set_flags False False (collected g (acc @ buf) (k - length buf) http), s)
           else case app_callback app g (Some (acc @ buf)) (collected g (acc @ buf) 0 http) s of
             (rc, http', s') \<Rightarrow> http_result (payload_more app) app rc (set_payload None http') s')
      (\<lambda>(http', s'). Ret (int (length buf), http', s'))"
proof -
  from assms(1) obtain cl where cl: "hm_str (hc_header http) ''content-length'' = Some cl" "atoi (str_of_bytes cl) = int (length acc + k)"
    by (auto simp: collecting_def)
  let ?h = "http\<lparr>hc_expecting := int k - int (length buf)\<rparr>"
  have h: "set_payload (Some (acc @ buf)) ?h = collected g (acc @ buf) (k - length buf) http"
    using assms(1,3) by (simp add: set_payload_def collected_def collecting_def of_nat_diff)
  have len: "\<not> MAX_PAYLOAD_LENGTH < length acc + length buf" using assms(3,4) by simp
  have cb: "run_callback app (Collect g (Some acc)) (Some buf) ?h s =
      Ret (if length buf < k then (HTTP_READ_MORE, collected g (acc @ buf) (k - length buf) http, s)
           else case app_callback app g (Some (acc @ buf)) (collected g (acc @ buf) 0 http) s of (rc, http', s') \<Rightarrow> (rc, set_payload None http', s'))"
    using assms(2,3) len cl h
    by (auto simp: run_callback_def serverCollectFullPayload_def payload_len_def Let_def split: prod.split)
  have c: "hc_callback ?h = Some (Collect g (Some acc))" "\<not> hc_done ?h" "hc_expecting http = int k" using assms(1) by (simp_all add: collecting_def)
  have "httpConsumePayload app buf http s =
      obind (obind (run_callback app (Collect g (Some acc)) (Some buf) ?h s) (\<lambda>(rc, http', s'). http_result (payload_more app) app rc http' s'))
        (\<lambda>(http', s'). Ret (int (length buf), http', s'))"
    using assms(3) c by (simp add: httpConsumePayload_def Let_def)
  also have "\<dots> = obind (if length buf < k then Ret (set_flags False False (collected g (acc @ buf) (k - length buf) http), s)
           else case app_callback app g (Some (acc @ buf)) (collected g (acc @ buf) 0 http) s of
             (rc, http', s') \<Rightarrow> http_result (payload_more app) app rc (set_payload None http') s')
      (\<lambda>(http', s'). Ret (int (length buf), http', s'))"
    unfolding cb by (simp add: http_result_def payload_more_def set_flags_def collected_def split: prod.split)
  finally show ?thesis .
qed

lemma collecting_with_input: "collecting g acc k http \<Longrightarrow> collecting g acc k (with_input [] n http)"
  by (simp add: collecting_def with_input_def)

lemma collecting_next:
  "collecting g acc k http \<Longrightarrow> length buf < k \<Longrightarrow> collecting g (acc @ buf) (k - length buf) (set_flags False False (collected g (acc @ buf) (k - length buf) http))"
  by (auto simp: collecting_def collected_def set_flags_def of_nat_diff)

lemma payload_read:
  assumes "collecting g acc k http" and "buf \<noteq> []" and "length buf \<le> k" and "length acc + k \<le> MAX_PAYLOAD_LENGTH"
    and "hc_headerLength http + int (length buf) \<le> MAX_HEADER_LENGTH" and "h = with_input [] (hc_headerLength http + int (length buf)) http"
  shows "conn_read app handlers buf http s =
    Some (if length buf < k then Ret (set_flags False False (collected g (acc @ buf) (k - length buf) h), s)
          else drop_partial (case app_callback app g (Some (acc @ buf)) (collected g (acc @ buf) 0 h) s of
             (rc, http', s') \<Rightarrow> http_result (payload_more app) app rc (set_payload None http') s'))"
proof -
  have h: "collecting g acc k h" unfolding assms(6) by (rule collecting_with_input [OF assms(1)])
  then have st: "hc_state h = PAYLOAD" "hc_expecting h = int k" "hc_partial h = []" by (simp_all add: collecting_def)
  define R where "R = (if length buf < k then Ret (set_flags False False (collected g (acc @ buf) (k - length buf) h), s)
          else case app_callback app g (Some (acc @ buf)) (collected g (acc @ buf) 0 h) s of
             (rc, http', s') \<Rightarrow> http_result (payload_more app) app rc (set_payload None http') s')"
  have "0 < length buf" using assms(2) by simp
  then have "0 < k" using assms(3) by linarith
  have m: "take (length buf) (read_array app buf s) = buf" "length buf \<le> length (read_array app buf s)" by (simp_all add: read_array_def)
  have "conn_round app handlers buf False 0 h s = obind R (\<lambda>(http', s'). Ret (Round 0 (int (length buf)) False, http', s'))"
    using consume_payload [OF h assms(2-4), of app s, folded R_def] assms(2,3) st m \<open>0 < k\<close>
    by (cases R) (auto simp: conn_round_def round_payload_def httpParsePayload_def payload_partial_def Let_def)
  then have "conn_loop app handlers buf False 0 h s = Some (obind R (\<lambda>(http', s'). Ret (int (length buf), http', s')))"
    by (subst conn_loop.simps) (cases R; auto)
  moreover have "conn_read app handlers buf http s = conn_input app handlers buf False h s"
    using conn_read_open [of http buf app handlers s] assms(1,2,5,6) by (simp add: collecting_def)
  ultimately have "conn_read app handlers buf http s = Some (drop_partial R)"
    using assms(2) st(3) by (cases R) (auto simp: conn_input_def keep_rest_end drop_partial_def)
  moreover have "(set_flags False False (collected g (acc @ buf) n h))\<lparr>hc_partial := []\<rparr> = set_flags False False (collected g (acc @ buf) n h)" for n
    using st(3) by (simp add: set_flags_def collected_def)
  ultimately show ?thesis by (simp add: R_def drop_partial_def)
qed

text \<open>The whole payload, in any number of reads: the application gets it in one call.\<close>

lemma payload_reads:
  assumes "collecting g acc (length (concat bufs)) http" and "[] \<notin> set bufs" and "bufs \<noteq> []"
    and "length acc + length (concat bufs) \<le> MAX_PAYLOAD_LENGTH" and "hc_headerLength http + int (length (concat bufs)) \<le> MAX_HEADER_LENGTH"
  shows "\<exists>n susp part. conn_reads app handlers bufs http s =
    Some (drop_partial (case app_callback app g (Some (acc @ concat bufs)) (collected g (acc @ concat bufs) 0 (set_flags susp part (with_input [] n http))) s of
      (rc, http', s') \<Rightarrow> http_result (payload_more app) app rc (set_payload None http') s'))"
  using assms
proof (induction bufs arbitrary: acc http)
  case (Cons buf bufs)
  let ?k = "length (concat (buf # bufs))" and ?n = "hc_headerLength http + int (length buf)"
  have b: "buf \<noteq> []" "length buf \<le> ?k" "?n \<le> MAX_HEADER_LENGTH" using Cons.prems(2,5) by auto
  note rd = payload_read [OF Cons.prems(1) b(1,2) Cons.prems(4) b(3) refl, of app handlers s]
  show ?case
  proof (cases "bufs = []")
    case True
    have "conn_reads app handlers [buf] http s = conn_read app handlers buf http s" by (auto split: option.split outcome.split)
    moreover have "set_flags (hc_isSuspended http) (hc_isPartialReply http) (with_input [] ?n http) = with_input [] ?n http"
      by (simp add: set_flags_def with_input_def)
    ultimately show ?thesis using rd unfolding True
      by (intro exI [of _ ?n] exI [of _ "hc_isSuspended http"] exI [of _ "hc_isPartialReply http"]) simp
  next
    case False
    then have ne: "concat bufs \<noteq> []" using Cons.prems(2) by (cases bufs) auto
    let ?h = "set_flags False False (collected g (acc @ buf) (length (concat bufs)) (with_input [] ?n http))"
    have r: "conn_reads app handlers (buf # bufs) http s = conn_reads app handlers bufs ?h s" using rd ne by simp
    have c: "collecting g (acc @ buf) (length (concat bufs)) ?h"
      using collecting_next [OF collecting_with_input [OF Cons.prems(1), of ?n], of buf] ne by simp
    have "hc_headerLength ?h = ?n" by (simp add: set_flags_def collected_def with_input_def)
    then obtain n susp part where i: "conn_reads app handlers bufs ?h s =
        Some (drop_partial (case app_callback app g (Some ((acc @ buf) @ concat bufs)) (collected g ((acc @ buf) @ concat bufs) 0 (set_flags susp part (with_input [] n ?h))) s of
          (rc, http', s') \<Rightarrow> http_result (payload_more app) app rc (set_payload None http') s'))"
      using Cons.IH [OF c] Cons.prems(2,4,5) False by auto
    have "collected g a 0 (set_flags susp part (with_input [] n ?h)) = collected g a 0 (set_flags susp part (with_input [] n http))" for a
      by (simp add: collected_def set_flags_def with_input_def)
    then show ?thesis unfolding r i by (intro exI [of _ n] exI [of _ susp] exI [of _ part]) simp
  qed
qed simp

lemma conn_reads_append:
  "conn_reads app handlers (xs @ ys) http s =
     (case conn_reads app handlers xs http s of Some (Ret (http', s')) \<Rightarrow> conn_reads app handlers ys http' s' | r \<Rightarrow> r)"
proof (induction xs arbitrary: http s)
  case (Cons x xs)
  then show ?case by (auto split: option.split outcome.split)
qed simp

lemma collect_start:
  assumes "is_request m path hs u r req" and "0 < request_length m hs"
  shows "(case run_handler app (Collecting g) req s of (rc, http', s') \<Rightarrow> http_result (header_more app) app rc http' s') =
    Ret ((set_flags False False req)\<lparr>hc_callback := Some (Collect g (Some [])), hc_state := PAYLOAD\<rparr>, s)"
  using assms
  by (simp add: run_handler_def http_result_def header_more_def after_more_def httpSetState_def set_flags_def is_request_def)

text \<open>
  C26: a posted payload reaches the application in one piece: if the header and then the payload arrive in any number of reads, the function
  that was registered for the longest prefix of the path is called once, with exactly the bytes of the payload, when the last of them is there.
\<close>

theorem http_post_collected:
  assumes "good_request (cstr ''POST'') path hs" and "routed regs path u r (Collecting g)"
    and "header_map hs (cstr ''content-length'') = Some (Some cl)" and "strtol 10 (str_of_bytes cl) = (int (length body), [])" and "body \<noteq> []"
    and "length body \<le> MAX_PAYLOAD_LENGTH" and "concat bufs = text_of (request_lines (cstr ''POST'') path hs) @ CRLF" and "concat bufs' = body"
    and "[] \<notin> set (bufs @ bufs')" and "int (length (concat (bufs @ bufs'))) \<le> MAX_HEADER_LENGTH"
  shows "\<exists>req. hc_method req = Some (cstr ''POST'') \<and> hc_matchedPath req = Some u \<and> hc_pathInfo req = path_info r \<and> hc_query req = path_query r \<and>
    getFromHashMap (hc_header req) = cut_host (header_map hs) \<and> hc_state req = PAYLOAD \<and> hc_expecting req = 0 \<and>
    conn_reads app (registered regs) (bufs @ bufs') (new_conn port) s =
      Some (drop_partial (case app_callback app g (Some body) req s of
        (rc, http', s') \<Rightarrow> http_result (payload_more app) app rc (set_payload None http') s'))"
proof -
  let ?P = "cstr ''POST''" and ?N = "int (length (concat bufs))"
  have lines: "reads_lines (new_conn port) (request_lines ?P path hs) (request_conn ?P path hs (new_conn port))"
      "in_header (request_conn ?P path hs (new_conn port))"
    using reads_request_lines [OF new_conn_idle(1) good_method] assms(1) by (simp_all add: good_request_def)
  have "bufs \<noteq> []" using assms(7) by (auto simp: CRLF_def)
  then obtain p where rd: "conn_reads app (registered regs) bufs (new_conn port) s =
      Some (drop_partial (end_of_headers app (registered regs) (with_input p ?N (request_conn ?P path hs (new_conn port))) s))"
    using reads_request [OF lines, of bufs app "registered regs" s] assms(7,9,10) by (auto simp: new_conn_idle CRLF_def)
  obtain req where q: "is_request ?P path hs u r req" "hc_headerLength req = ?N" "end_of_headers app (registered regs) (with_input p ?N (request_conn ?P path hs (new_conn port))) s =
      (case run_handler app (Collecting g) req s of (rc, http', s') \<Rightarrow> http_result (header_more app) app rc http' s')"
    using request_to_handler [OF assms(1,2) refl, where app = app and s = s and port = port] by blast
  have cl: "cl \<noteq> []" using assms(4,5) by (auto simp: strtol_def strto_scan_def strto_sign_def strto_base_def str_of_bytes_def)
  have len: "request_length ?P hs = int (length body)" using assms(3,4) cl by (simp add: request_length_def length_field_def Let_def)
  have pos: "0 < request_length ?P hs" using len assms(5) by simp
  define h where "h = (set_flags False False req)\<lparr>hc_callback := Some (Collect g (Some [])), hc_state := PAYLOAD, hc_partial := []\<rparr>"
  have start: "conn_reads app (registered regs) bufs (new_conn port) s = Some (Ret (h, s))"
    unfolding rd q(3) collect_start [OF q(1) pos, of app g s] by (simp add: drop_partial_def h_def)
  have "cut_host (header_map hs) (cstr ''content-length'') = Some (Some cl)" using assms(3) by (simp add: cut_host_def cstr_def)
  then have c: "collecting g [] (length (concat bufs')) h"
    using q(1) len assms(4,8) by (auto simp: collecting_def h_def is_request_def set_flags_def hm_str_def atoi_def)
  have "bufs' \<noteq> []" using assms(5,8) by auto
  then obtain n susp part where "conn_reads app (registered regs) bufs' h s =
      Some (drop_partial (case app_callback app g (Some body) (collected g body 0 (set_flags susp part (with_input [] n h))) s of
        (rc, http', s') \<Rightarrow> http_result (payload_more app) app rc (set_payload None http') s'))"
    using payload_reads [OF c, of app "registered regs" s] assms(6,8,9,10) q(2) by (auto simp: h_def set_flags_def)
  then show ?thesis using start q(1)
    by (intro exI [of _ "collected g body 0 (set_flags susp part (with_input [] n h))"])
       (simp add: conn_reads_append collected_def set_flags_def with_input_def h_def is_request_def)
qed

section \<open>A payload that starts in the read of the header\<close>

lemma obind_Ret [simp]: "obind a Ret = a"
  by (cases a) simp_all

lemma header_then_payload:
  assumes "good_request (cstr ''POST'') path hs" and "routed regs path u r (Collecting g)"
    and "header_map hs (cstr ''content-length'') = Some (Some cl)" and "strtol 10 (str_of_bytes cl) = (int n, [])" and "0 < n"
    and "buf = text_of (request_lines (cstr ''POST'') path hs) @ CRLF @ part" and "part \<noteq> []" and "int (length buf) \<le> MAX_HEADER_LENGTH"
  shows "\<exists>h. collecting g [] n h \<and>
    conn_read app (registered regs) buf (new_conn port) s =
      map_option (\<lambda>r. obind r (\<lambda>(offset, http', s'). obind (keep_rest offset http') (\<lambda>http''. Ret (http'', s'))))
        (conn_loop app (registered regs) buf False (int (length buf) - int (length part)) h s)"
proof -
  let ?P = "cstr ''POST''" and ?N = "int (length buf)"
  let ?n = "with_input [] ?N (new_conn port)" and ?c = "with_input [] ?N (request_conn ?P path hs (new_conn port))"
  have lines: "reads_lines ?n (request_lines ?P path hs) ?c" "in_header ?c"
    using reads_request_lines [OF new_conn_idle(1) good_method] assms(1) by (auto simp: good_request_def intro: reads_lines_with_input)
  obtain req where q: "is_request ?P path hs u r req" "hc_partial req = []" "end_of_headers app (registered regs) ?c s =
      (case run_handler app (Collecting g) req s of (rc, http', s') \<Rightarrow> http_result (header_more app) app rc http' s')"
    using request_to_handler [OF assms(1,2) refl, where app = app and s = s and port = port] by blast
  have cl: "cl \<noteq> []" using assms(4,5) by (auto simp: strtol_def strto_scan_def strto_sign_def strto_base_def str_of_bytes_def)
  have len: "request_length ?P hs = int n" using assms(3,4) cl by (simp add: request_length_def length_field_def Let_def)
  then have pos: "0 < request_length ?P hs" using assms(5) by simp
  define h where "h = (set_flags False False req)\<lparr>hc_callback := Some (Collect g (Some [])), hc_state := PAYLOAD\<rparr>"
  have e: "end_of_headers app (registered regs) ?c s = Ret (h, s)" unfolding q(3) h_def by (rule collect_start [OF q(1) pos])
  have b: "hc_partial ?n @ buf = text_of (request_lines ?P path hs) @ [13, 10] @ part" using assms(6) by (simp add: CRLF_def)
  have "10 \<notin> set (hc_partial ?n)" by simp
  note f = feed_end(2) [OF lines this b refl, of app "registered regs" s, unfolded e outcome.case prod.case]
  have hp: "\<not> hc_closed h" using q(1) by (simp add: h_def set_flags_def is_request_def)
  have "conn_loop app (registered regs) buf False 0 ?n s = conn_loop app (registered regs) buf False (?N - int (length part)) h s"
    using f assms(7) hp by simp
  moreover have "buf \<noteq> []" using assms(6) by (simp add: CRLF_def)
  ultimately have "conn_read app (registered regs) buf (new_conn port) s =
      map_option (\<lambda>r. obind r (\<lambda>(offset, http', s'). obind (keep_rest offset http') (\<lambda>http''. Ret (http'', s'))))
        (conn_loop app (registered regs) buf False (?N - int (length part)) h s)"
    using conn_read_open [of "new_conn port" buf app "registered regs" s] assms(8)
    by (simp add: new_conn_idle conn_input_def option.map_comp comp_def)
  moreover have "cut_host (header_map hs) (cstr ''content-length'') = Some (Some cl)" using assms(3) by (simp add: cut_host_def cstr_def)
  then have "collecting g [] n h"
    using q(1,2) len assms(4) by (auto simp: collecting_def h_def is_request_def set_flags_def hm_str_def atoi_def)
  ultimately show ?thesis by blast
qed

text \<open>The application gets as many bytes as the header says, from the array if the read does not have them.\<close>

definition give_payload :: "'s http_app \<Rightarrow> app_fn \<Rightarrow> byte list \<Rightarrow> http_conn \<Rightarrow> 's \<Rightarrow> (http_conn \<times> 's) outcome" where
  "give_payload app g data req s =
     (case app_callback app g (Some data) req s of (rc, http', s') \<Rightarrow> http_result (payload_more app) app rc (set_payload None http') s')"

lemma collecting_round:
  assumes "collecting g [] n h" and "0 \<le> offset" and "0 < n" and "n < length buf" and "n \<le> MAX_PAYLOAD_LENGTH"
    and "data = take n (drop (nat offset) (read_array app buf s))"
  shows "conn_round app handlers buf False offset h s =
      (if nat offset + n \<le> length (read_array app buf s)
       then obind (give_payload app g data (collected g data 0 h) s)
         (\<lambda>(http', s'). Ret (Round (int (length buf) - offset - int n) (int n) False, http', s'))
       else Undef)"
proof -
  have st: "hc_state h = PAYLOAD" "hc_expecting h = int n" "hc_partial h = []" using assms(1) by (simp_all add: collecting_def)
  have i: "int n + offset > int (length (read_array app buf s)) \<longleftrightarrow> \<not> nat offset + n \<le> length (read_array app buf s)" using assms(2) by linarith
  show ?thesis
  proof (cases "nat offset + n \<le> length (read_array app buf s)")
    case True
    then have l: "length data = n" "data \<noteq> []" using assms(3,6) by auto
    have "nat (int n + offset) = nat offset + n" using assms(2) by simp
    then have d: "drop (nat offset) (take (nat (int n + offset)) (read_array app buf s)) = data" by (simp add: assms(6) take_drop add.commute)
    have "httpConsumePayload app data h s = obind (give_payload app g data (collected g data 0 h) s) (\<lambda>(http', s'). Ret (int n, http', s'))"
      using consume_payload [OF assms(1) l(2), of app s] l(1) assms(5) by (simp add: give_payload_def)
    then show ?thesis
      using assms(2-4) st d i True
      by (cases "give_payload app g data (collected g data 0 h) s")
         (auto simp: conn_round_def round_payload_def httpParsePayload_def payload_partial_def Let_def)
  next
    case False
    then show ?thesis
      using assms(2-4) st i by (simp add: conn_round_def round_payload_def httpParsePayload_def payload_partial_def Let_def)
  qed
qed

lemma array_part:
  assumes "part = drop off buf" and "off \<le> length buf"
  shows "n \<le> length part \<Longrightarrow> take n (drop off (read_array app buf s)) = take n part"
    and "\<lbrakk>length part \<le> n; off + n \<le> BUF_SIZE\<rbrakk> \<Longrightarrow>
      take n (drop off (read_array app buf s)) = part @ map (app_stale app s) [length buf..<off + n]"
proof -
  show "take n (drop off (read_array app buf s)) = take n part" if "n \<le> length part"
    using that assms by (simp add: read_array_def)
  assume le: "length part \<le> n" "off + n \<le> BUF_SIZE"
  have "length buf \<le> off + n" using le(1) assms by simp
  moreover from this have "[length buf..<BUF_SIZE] = [length buf..<off + n] @ [off + n..<BUF_SIZE]"
    using le(2) by (metis le_add_diff_inverse upt_add_eq_append)
  ultimately show "take n (drop off (read_array app buf s)) = part @ map (app_stale app s) [length buf..<off + n]"
    using le(1) assms by (simp add: read_array_def)
qed

text \<open>What the loop makes of bytes behind a payload.\<close>

lemma behind_payload:
  assumes "collecting g [] n h" and "part = drop off buf" and "off \<le> length buf"
    and "0 < n" and "n < length buf" and n: "n < length part" and "n \<le> MAX_PAYLOAD_LENGTH"
  shows "map_option (\<lambda>r. obind r (\<lambda>(offset, http', s'). obind (keep_rest offset http') (\<lambda>http''. Ret (http'', s'))))
      (conn_loop app handlers buf False (int off) h s) =
    Some (obind (give_payload app g (take n part) (collected g (take n part) 0 h) s)
      (\<lambda>(http', s'). Ret (http'\<lparr>hc_partial := if hc_closed http' then [] else take (length part - n) part\<rparr>, s')))"
proof -
  define R where "R = give_payload app g (take n part) (collected g (take n part) 0 h) s"
  have o: "int (length buf) - int off - int n = int (length part) - int n" "nat (int off) + n \<le> length (read_array app buf s)"
    using assms(2,3) n by (simp_all add: read_array_def)
  have pb: "push_back (int (length part) - int n) buf (int off) http' = Ret (http'\<lparr>hc_partial := take (length part - n) part\<rparr>)" for http'
    using n assms(2,3) by (simp add: push_back_def nat_diff_distrib)
  have kr: "keep_rest (int n - int (length part)) (http'\<lparr>hc_partial := take (length part - n) part\<rparr>) =
      Ret (http'\<lparr>hc_partial := if hc_closed http' then [] else take (length part - n) part\<rparr>)" for http'
    using n by (simp add: keep_rest_def of_nat_diff)
  have d: "take n part = take n (drop (nat (int off)) (read_array app buf s))" using n by (simp add: array_part(1) [OF assms(2,3)])
  have "conn_round app handlers buf False (int off) h s =
      obind R (\<lambda>(http', s'). Ret (Round (int (length part) - int n) (int n) False, http', s'))"
    unfolding R_def using collecting_round [OF assms(1) _ assms(4,5,7) d, of handlers] o by simp
  then have "conn_loop app handlers buf False (int off) h s =
      Some (obind R (\<lambda>(http', s'). Ret (int n - int (length part), http'\<lparr>hc_partial := take (length part - n) part\<rparr>, s')))"
    using n pb by (subst conn_loop.simps) (cases R; auto)
  then show ?thesis unfolding R_def [symmetric] by (cases R) (auto simp: kr)
qed

text \<open>What it makes of a payload that is not complete.\<close>

lemma short_payload:
  assumes "collecting g [] n h" and "part = drop off buf" and "off \<le> length buf"
    and "0 < n" and "n < length buf" and n: "length part < n" and "n \<le> MAX_PAYLOAD_LENGTH" and "length buf \<le> BUF_SIZE"
    and "data = part @ map (app_stale app s) [length buf..<off + n]"
  shows "conn_loop app handlers buf False (int off) h s =
    Some (if off + n \<le> BUF_SIZE then obind (give_payload app g data (collected g data 0 h) s) (\<lambda>_. Exit 1) else Undef)"
proof -
  define R where "R = give_payload app g data (collected g data 0 h) s"
  have o: "int (length buf) - int off - int n = int (length part) - int n" "length (read_array app buf s) = BUF_SIZE"
    using assms(2,3,8) by (simp_all add: read_array_def)
  have pb: "push_back (int (length part) - int n) buf (int off) http' = Exit 1" for http' using n by (simp add: push_back_def)
  have "conn_round app handlers buf False (int off) h s =
      (if off + n \<le> BUF_SIZE then obind R (\<lambda>(http', s'). Ret (Round (int (length part) - int n) (int n) False, http', s')) else Undef)"
  proof (cases "off + n \<le> BUF_SIZE")
    case True
    then have d: "data = take n (drop (nat (int off)) (read_array app buf s))" using n assms(9) by (simp add: array_part(2) [OF assms(2,3)])
    show ?thesis unfolding R_def using collecting_round [OF assms(1) _ assms(4,5,7) d, of handlers] o True by simp
  next
    case False
    then show ?thesis using collecting_round [OF assms(1) _ assms(4,5,7) refl, where offset = "int off" and app = app and s = s and handlers = handlers] o by simp
  qed
  then show ?thesis unfolding R_def [symmetric] using n pb by (subst conn_loop.simps) (cases R; auto)
qed

text \<open>
  C21: a payload that starts in the same read as its header, and is shorter than this whole read, is taken apart wrongly unless it ends with the read. If it is not complete, the missing bytes
  are taken from behind the read: what the array happens to hold there goes to the application as payload, and then a failed check ends the whole server; if the payload would reach
  behind the end of the array, the behaviour is undefined. If more bytes follow the payload, the application gets the right payload, but the bytes that are kept for the next request are
  the payload itself and not what follows.
\<close>

theorem http_payload_in_header_read:
  assumes "good_request (cstr ''POST'') path hs" and "routed regs path u r (Collecting g)"
    and "header_map hs (cstr ''content-length'') = Some (Some cl)" and "strtol 10 (str_of_bytes cl) = (int n, [])" and "0 < n"
    and "buf = text_of (request_lines (cstr ''POST'') path hs) @ CRLF @ part" and "part \<noteq> []" and "int (length buf) \<le> MAX_HEADER_LENGTH"
    and "n < length buf" and "n \<le> MAX_PAYLOAD_LENGTH" and "length buf \<le> BUF_SIZE" and "off = length buf - length part"
  shows "\<exists>req. hc_state req = PAYLOAD \<and> hc_expecting req = 0 \<and>
    (length part < n \<longrightarrow> conn_read app (registered regs) buf (new_conn port) s = Some
       (if off + n \<le> BUF_SIZE
        then obind
          (case app_callback app g (Some (part @ map (app_stale app s) [length buf..<off + n])) req s of
             (rc, http', s') \<Rightarrow> http_result (payload_more app) app rc (set_payload None http') s')
          (\<lambda>_. Exit 1)
        else Undef)) \<and>
    (n < length part \<longrightarrow>
       conn_read app (registered regs) buf (new_conn port) s =
         Some (obind
           (case app_callback app g (Some (take n part)) req s of
              (rc, http', s') \<Rightarrow> http_result (payload_more app) app rc (set_payload None http') s')
           (\<lambda>(http', s'). Ret (http'\<lparr>hc_partial := if hc_closed http' then [] else take (length part - n) part\<rparr>, s'))))"
proof -
  obtain h where h: "collecting g [] n h" and rd: "conn_read app (registered regs) buf (new_conn port) s =
      map_option (\<lambda>r. obind r (\<lambda>(offset, http', s'). obind (keep_rest offset http') (\<lambda>http''. Ret (http'', s'))))
        (conn_loop app (registered regs) buf False (int (length buf) - int (length part)) h s)"
    using header_then_payload [OF assms(1-8), where app = app and s = s and port = port] by blast
  have o: "part = drop off buf" "off \<le> length buf" "int (length buf) - int (length part) = int off" using assms(6,12) by simp_all
  let ?data = "if length part < n then part @ map (app_stale app s) [length buf..<off + n] else take n part"
  have c: "hc_state (collected g ?data 0 h) = PAYLOAD" "hc_expecting (collected g ?data 0 h) = 0"
    using h by (simp_all add: collected_def collecting_def)
  have "conn_read app (registered regs) buf (new_conn port) s = Some (if off + n \<le> BUF_SIZE
      then obind (give_payload app g ?data (collected g ?data 0 h) s) (\<lambda>_. Exit 1) else Undef)" if "length part < n"
    unfolding rd o(3) short_payload [OF h o(1,2) assms(5,9) that assms(10,11) refl] if_P [OF that]
    by (cases "give_payload app g (part @ map (app_stale app s) [length buf..<off + n]) (collected g (part @ map (app_stale app s) [length buf..<off + n]) 0 h) s") simp_all
  moreover have "conn_read app (registered regs) buf (new_conn port) s = Some (obind (give_payload app g ?data (collected g ?data 0 h) s)
      (\<lambda>(http', s'). Ret (http'\<lparr>hc_partial := if hc_closed http' then [] else take (length part - n) part\<rparr>, s')))" if "n < length part"
    unfolding rd o(3) using behind_payload [OF h o(1,2) assms(5,9) that assms(10)] that by simp
  ultimately show ?thesis using c unfolding give_payload_def by (intro exI [of _ "collected g ?data 0 h"]) auto
qed

section \<open>Witnesses\<close>

lemma demo_get: "method_word (cstr ''GET'')" "abs_path (cstr ''/'')"
  by (simp_all add: method_word_def word_def abs_path_def blank_def cstr_def byte_of_char_def)

theorem http_bad_command_is_fatal_witness:
  "(\<exists>http'. conn_read demo_app (registered []) ((cstr ''GET'' @ [13]) @ 10 # []) (new_conn 80) () = Some (Ret (http', ())) \<and> hc_sent http' = [] \<and> \<not> hc_closed http') \<and>
    conn_reads demo_app (registered []) [(cstr ''GET'' @ [13]) @ 10 # [], command_line (cstr ''GET'') (cstr ''/'') @ 10 # []] (new_conn 80) () = Some (Exit 1)"
  by (rule http_bad_command_is_fatal [OF _ _ _ demo_get])
    (simp_all add: cstr_def byte_of_char_def blank_def command_line_def MAX_HEADER_LENGTH_def)

definition post_fields :: "byte list \<Rightarrow> (byte list \<times> byte list) list" where
  "post_fields n = [(cstr ''Content-Length'', n)]"

lemma demo_post:
  "good_request (cstr ''POST'') (cstr ''/a'' @ []) (post_fields (cstr ''2''))"
  "good_request (cstr ''POST'') (cstr ''/a'' @ []) (post_fields (cstr ''5''))"
  "header_map (post_fields n) (cstr ''content-length'') = Some (Some n)"
  "strtol 10 (str_of_bytes (cstr ''2'')) = (int (length (cstr ''hi'')), [])" "strtol 10 (str_of_bytes (cstr ''5'')) = (int 5, [])"
proof -
  show "strtol 10 (str_of_bytes (cstr ''2'')) = (int (length (cstr ''hi'')), [])" "strtol 10 (str_of_bytes (cstr ''5'')) = (int 5, [])" by code_simp+
qed (simp_all add: good_request_def post_fields_def header_map_def abs_path_def word_def field_value_def blank_def lower_case_def
    cstr_def byte_of_char_def)

theorem http_post_collected_witness:
  "\<exists>req. hc_method req = Some (cstr ''POST'') \<and> hc_matchedPath req = Some (cstr ''/a'') \<and> hc_pathInfo req = path_info [] \<and> hc_query req = path_query [] \<and>
    getFromHashMap (hc_header req) = cut_host (header_map (post_fields (cstr ''2''))) \<and> hc_state req = PAYLOAD \<and> hc_expecting req = 0 \<and>
    conn_reads demo_app (registered (demo_regs (Collecting 7)))
      ([text_of (request_lines (cstr ''POST'') (cstr ''/a'' @ []) (post_fields (cstr ''2''))) @ CRLF] @ [cstr ''h'', cstr ''i'']) (new_conn 4200) () =
      Some (drop_partial (case app_callback demo_app 7 (Some (cstr ''hi'')) req () of
        (rc, http', s') \<Rightarrow> http_result (payload_more demo_app) demo_app rc (set_payload None http') s'))"
  by (rule http_post_collected [OF demo_post(1) demo_routed demo_post(3,4)])
    (simp_all add: cstr_def byte_of_char_def MAX_PAYLOAD_LENGTH_def MAX_HEADER_LENGTH_def CRLF_def request_lines_def command_line_def field_line_def post_fields_def)

theorem http_payload_in_header_read_witness:
  "\<exists>req. conn_read demo_app (registered (demo_regs (Collecting 7)))
     (text_of (request_lines (cstr ''POST'') (cstr ''/a'' @ []) (post_fields (cstr ''5''))) @ CRLF @ cstr ''hi'') (new_conn 4200) () =
   Some (obind (case app_callback demo_app 7 (Some (cstr ''hi'' @ [170, 170, 170])) req () of
       (rc, http', s') \<Rightarrow> http_result (payload_more demo_app) demo_app rc (set_payload None http') s') (\<lambda>_. Exit 1))"
proof -
  let ?buf = "text_of (request_lines (cstr ''POST'') (cstr ''/a'' @ []) (post_fields (cstr ''5''))) @ CRLF @ cstr ''hi''"
  have l: "length ?buf = 41"
    by (simp add: cstr_def byte_of_char_def CRLF_def request_lines_def command_line_def field_line_def post_fields_def)
  have g: "map (app_stale demo_app ()) [41..<39 + 5] = [170, 170, 170]" by (simp add: demo_app_def upt_rec)
  show ?thesis
    using http_payload_in_header_read [OF demo_post(2) demo_routed demo_post(3,5) _ refl, where part = "cstr ''hi''" and off = 39 and app = demo_app and s = "()" and port = 4200]
    unfolding l g by (auto simp: cstr_def MAX_HEADER_LENGTH_def MAX_PAYLOAD_LENGTH_def BUF_SIZE_def)
qed

end
