(* ===== verification/Crc32.thy ===== *)
theory Crc32
  imports Buffalo_Crc
begin

text \<open>
  The checksum of a TRX header. The writer of images (\<^verbatim>\<open>tools/firmware-utils/src/trx.c\<close>) and the flash tool of the
  device (\<^verbatim>\<open>package/system/mtd/src/crc32.c\<close>, \<^verbatim>\<open>crc32.h\<close>) have each their own table and loop. They are the same function: the
  division by the polynomial that \<^verbatim>\<open>buffalo_csum\<close> does bit by bit, started with all bits set.
\<close>

section \<open>The writer's and the device's routine\<close>

text \<open>The two tables have the same entries.\<close>

definition crc_32_tab :: "u32 list" where
  "crc_32_tab = [
     0x00000000, 0x77073096, 0xee0e612c, 0x990951ba, 0x076dc419, 0x706af48f, 0xe963a535, 0x9e6495a3,
     0x0edb8832, 0x79dcb8a4, 0xe0d5e91e, 0x97d2d988, 0x09b64c2b, 0x7eb17cbd, 0xe7b82d07, 0x90bf1d91,
     0x1db71064, 0x6ab020f2, 0xf3b97148, 0x84be41de, 0x1adad47d, 0x6ddde4eb, 0xf4d4b551, 0x83d385c7,
     0x136c9856, 0x646ba8c0, 0xfd62f97a, 0x8a65c9ec, 0x14015c4f, 0x63066cd9, 0xfa0f3d63, 0x8d080df5,
     0x3b6e20c8, 0x4c69105e, 0xd56041e4, 0xa2677172, 0x3c03e4d1, 0x4b04d447, 0xd20d85fd, 0xa50ab56b,
     0x35b5a8fa, 0x42b2986c, 0xdbbbc9d6, 0xacbcf940, 0x32d86ce3, 0x45df5c75, 0xdcd60dcf, 0xabd13d59,
     0x26d930ac, 0x51de003a, 0xc8d75180, 0xbfd06116, 0x21b4f4b5, 0x56b3c423, 0xcfba9599, 0xb8bda50f,
     0x2802b89e, 0x5f058808, 0xc60cd9b2, 0xb10be924, 0x2f6f7c87, 0x58684c11, 0xc1611dab, 0xb6662d3d,
     0x76dc4190, 0x01db7106, 0x98d220bc, 0xefd5102a, 0x71b18589, 0x06b6b51f, 0x9fbfe4a5, 0xe8b8d433,
     0x7807c9a2, 0x0f00f934, 0x9609a88e, 0xe10e9818, 0x7f6a0dbb, 0x086d3d2d, 0x91646c97, 0xe6635c01,
     0x6b6b51f4, 0x1c6c6162, 0x856530d8, 0xf262004e, 0x6c0695ed, 0x1b01a57b, 0x8208f4c1, 0xf50fc457,
     0x65b0d9c6, 0x12b7e950, 0x8bbeb8ea, 0xfcb9887c, 0x62dd1ddf, 0x15da2d49, 0x8cd37cf3, 0xfbd44c65,
     0x4db26158, 0x3ab551ce, 0xa3bc0074, 0xd4bb30e2, 0x4adfa541, 0x3dd895d7, 0xa4d1c46d, 0xd3d6f4fb,
     0x4369e96a, 0x346ed9fc, 0xad678846, 0xda60b8d0, 0x44042d73, 0x33031de5, 0xaa0a4c5f, 0xdd0d7cc9,
     0x5005713c, 0x270241aa, 0xbe0b1010, 0xc90c2086, 0x5768b525, 0x206f85b3, 0xb966d409, 0xce61e49f,
     0x5edef90e, 0x29d9c998, 0xb0d09822, 0xc7d7a8b4, 0x59b33d17, 0x2eb40d81, 0xb7bd5c3b, 0xc0ba6cad,
     0xedb88320, 0x9abfb3b6, 0x03b6e20c, 0x74b1d29a, 0xead54739, 0x9dd277af, 0x04db2615, 0x73dc1683,
     0xe3630b12, 0x94643b84, 0x0d6d6a3e, 0x7a6a5aa8, 0xe40ecf0b, 0x9309ff9d, 0x0a00ae27, 0x7d079eb1,
     0xf00f9344, 0x8708a3d2, 0x1e01f268, 0x6906c2fe, 0xf762575d, 0x806567cb, 0x196c3671, 0x6e6b06e7,
     0xfed41b76, 0x89d32be0, 0x10da7a5a, 0x67dd4acc, 0xf9b9df6f, 0x8ebeeff9, 0x17b7be43, 0x60b08ed5,
     0xd6d6a3e8, 0xa1d1937e, 0x38d8c2c4, 0x4fdff252, 0xd1bb67f1, 0xa6bc5767, 0x3fb506dd, 0x48b2364b,
     0xd80d2bda, 0xaf0a1b4c, 0x36034af6, 0x41047a60, 0xdf60efc3, 0xa867df55, 0x316e8eef, 0x4669be79,
     0xcb61b38c, 0xbc66831a, 0x256fd2a0, 0x5268e236, 0xcc0c7795, 0xbb0b4703, 0x220216b9, 0x5505262f,
     0xc5ba3bbe, 0xb2bd0b28, 0x2bb45a92, 0x5cb36a04, 0xc2d7ffa7, 0xb5d0cf31, 0x2cd99e8b, 0x5bdeae1d,
     0x9b64c2b0, 0xec63f226, 0x756aa39c, 0x026d930a, 0x9c0906a9, 0xeb0e363f, 0x72076785, 0x05005713,
     0x95bf4a82, 0xe2b87a14, 0x7bb12bae, 0x0cb61b38, 0x92d28e9b, 0xe5d5be0d, 0x7cdcefb7, 0x0bdbdf21,
     0x86d3d2d4, 0xf1d4e242, 0x68ddb3f8, 0x1fda836e, 0x81be16cd, 0xf6b9265b, 0x6fb077e1, 0x18b74777,
     0x88085ae6, 0xff0f6a70, 0x66063bca, 0x11010b5c, 0x8f659eff, 0xf862ae69, 0x616bffd3, 0x166ccf45,
     0xa00ae278, 0xd70dd2ee, 0x4e048354, 0x3903b3c2, 0xa7672661, 0xd06016f7, 0x4969474d, 0x3e6e77db,
     0xaed16a4a, 0xd9d65adc, 0x40df0b66, 0x37d83bf0, 0xa9bcae53, 0xdebb9ec5, 0x47b2cf7f, 0x30b5ffe9,
     0xbdbdf21c, 0xcabac28a, 0x53b39330, 0x24b4a3a6, 0xbad03605, 0xcdd70693, 0x54de5729, 0x23d967bf,
     0xb3667a2e, 0xc4614ab8, 0x5d681b02, 0x2a6f2b94, 0xb40bbe37, 0xc30c8ea1, 0x5a05df1b, 0x2d02ef8d]"

text \<open>\<^verbatim>\<open>UPDC32\<close>, with the octet as a \<^verbatim>\<open>char\<close>, which may be signed, and the writer's \<^verbatim>\<open>crc32buf\<close>.\<close>

definition UPDC32 :: "bool \<Rightarrow> byte \<Rightarrow> u32 \<Rightarrow> u32" where
  "UPDC32 sc octet crc = crc_32_tab ! unat ((crc XOR char_to_u32 sc octet) AND 0xFF) XOR drop_bit 8 crc"

fun crc32buf_loop :: "bool \<Rightarrow> byte list \<Rightarrow> u32 \<Rightarrow> u32" where
  "crc32buf_loop sc [] crc = crc"
| "crc32buf_loop sc (b # buf) crc = crc32buf_loop sc buf (UPDC32 sc b crc)"

definition crc32buf :: "bool \<Rightarrow> byte list \<Rightarrow> u32" where
  "crc32buf sc buf = crc32buf_loop sc buf 0xFFFFFFFF"

text \<open>The device's \<^verbatim>\<open>crc32\<close>, which counts \<open>len\<close> down as an \<^verbatim>\<open>int\<close>, and its \<^verbatim>\<open>crc32buf\<close>; \<open>s\<close> is the memory from the pointer on.\<close>

function mtd_crc32 :: "u32 \<Rightarrow> byte list \<Rightarrow> int \<Rightarrow> u32 outcome" where
  "mtd_crc32 val s len =
     (if len - 1 \<ge> 0 then
        (case s of
           [] \<Rightarrow> Undef
         | b # s' \<Rightarrow> mtd_crc32 (crc_32_tab ! unat ((val XOR ucast b) AND 0xFF) XOR drop_bit 8 val) s' (len - 1))
      else Ret val)"
  by pat_completeness auto
termination mtd_crc32
  by (relation "measure (\<lambda>(val, s, len). length s)") auto

declare mtd_crc32.simps [simp del]

definition mtd_crc32buf :: "byte list \<Rightarrow> u32 \<Rightarrow> u32 outcome" where
  "mtd_crc32buf buf len = mtd_crc32 0xFFFFFFFF buf (sint len)"

section \<open>The division it implements\<close>

lemma length_crc_32_tab [simp]: "length crc_32_tab = 256"
  by (simp add: crc_32_tab_def)

lemma csum_shift_bit: "csum_shift c = (if bit c 0 then drop_bit 1 c XOR 0xedb88320 else drop_bit 1 c)"
  by (simp add: csum_shift_def and_one_eq bit_0 odd_iff_mod_2_eq_one)

lemma csum_shift_xor: "csum_shift (a XOR b) = csum_shift a XOR csum_shift b"
  by (rule bit_word_eqI) (auto simp: csum_shift_bit bit_simps)

lemma csum_shift_even: "k < 128 \<Longrightarrow> csum_shift (of_nat (2 * k)) = of_nat k"
proof -
  assume "k < 128"
  then have "drop_bit 1 (of_nat (2 * k) :: u32) = of_nat k"
    by (simp add: drop_bit_eq_div word_unat_eq_iff unat_div unat_of_nat take_bit_nat_eq_self del: of_nat_mult)
  moreover have "\<not> bit (of_nat (2 * k) :: u32) 0" by (simp add: bit_0)
  ultimately show ?thesis by (simp add: csum_shift_bit)
qed

lemma csum_shift8_1: "(csum_shift ^^ 8) 1 = 0x77073096"
  by (simp add: funpow_8 csum_shift_def)

interpretation crc_32: reflected_table csum_shift crc_32_tab
proof
  show "map csum_shift (evens crc_32_tab) = take 128 crc_32_tab" by (simp add: crc_32_tab_def csum_shift_def)
  show "odds crc_32_tab = map (\<lambda>c. c XOR (csum_shift ^^ 8) 1) (evens crc_32_tab)" unfolding csum_shift8_1 by (simp add: crc_32_tab_def)
  show "crc_32_tab ! 0 = 0" by (simp add: crc_32_tab_def)
qed (simp_all only: csum_shift_inj csum_shift_xor csum_shift_even length_crc_32_tab)

text \<open>The high part of the register is only shifted, so that a table for the low byte is enough.\<close>

lemma csum_shifts_high: "n \<le> 8 \<Longrightarrow> (csum_shift ^^ n) (push_bit 8 (drop_bit 8 c)) = push_bit (8 - n) (drop_bit 8 c)"
proof (induction n)
  case (Suc n)
  then have "\<not> bit (push_bit (8 - n) (drop_bit 8 c)) 0" by (simp add: bit_simps)
  moreover have "drop_bit 1 (push_bit (8 - n) (drop_bit 8 c)) = push_bit (8 - Suc n) (drop_bit 8 c)"
    using Suc.prems by (intro bit_word_eqI) (auto simp: bit_simps dest: bit_imp_le_length)
  ultimately show ?case using Suc by (simp add: csum_shift_bit)
qed simp

lemma csum_shift8_table: "(csum_shift ^^ 8) c = crc_32_tab ! unat (c AND 0xFF) XOR drop_bit 8 c"
proof -
  have "c = (c AND 0xFF) XOR push_bit 8 (drop_bit 8 c)"
    unfolding and_ff_take_bit by (rule bit_word_eqI) (auto simp: bit_simps)
  then have "(csum_shift ^^ 8) c = (csum_shift ^^ 8) (c AND 0xFF) XOR (csum_shift ^^ 8) (push_bit 8 (drop_bit 8 c))"
    by (metis crc_32.shifts_xor)
  moreover have "unat (c AND 0xFF) < 2 ^ 8"
    unfolding and_ff_take_bit by (simp only: unsigned_take_bit_eq take_bit_nat_less_exp)
  then have "crc_32_tab ! unat (c AND 0xFF) = (csum_shift ^^ 8) (c AND 0xFF)"
    using crc_32.table_val [of "unat (c AND 0xFF)"] by simp
  ultimately show ?thesis using csum_shifts_high [of 8 c] by simp
qed

lemma csum_step_table:
  "(csum_shift ^^ 8) (c XOR char_to_u32 False b) = crc_32_tab ! unat ((c XOR char_to_u32 sc b) AND 0xFF) XOR drop_bit 8 c"
proof -
  have "(c XOR char_to_u32 False b) AND 0xFF = (c XOR char_to_u32 sc b) AND 0xFF" unfolding and_ff_take_bit
    by (rule bit_word_eqI) (auto simp: char_to_u32_def bit_simps)
  moreover have "drop_bit 8 (c XOR char_to_u32 False b) = drop_bit 8 c"
    by (rule bit_word_eqI) (auto simp: char_to_u32_def bit_simps dest: bit_imp_le_length)
  ultimately show ?thesis by (simp only: csum_shift8_table)
qed

lemma csum_Cons: "buffalo_csum sc c (b # bs) = buffalo_csum sc ((csum_shift ^^ 8) (c XOR char_to_u32 sc b)) bs"
  by (simp add: buffalo_csum_def)

text \<open>The checksum that both routines compute.\<close>

definition crc32_sum :: "byte list \<Rightarrow> u32" where
  "crc32_sum bs = buffalo_csum False 0xFFFFFFFF bs"

lemma crc32buf_sum: "crc32buf sc buf = crc32_sum buf"
proof -
  have "crc32buf_loop sc buf c = buffalo_csum False c buf" for c
  proof (induction buf arbitrary: c)
    case (Cons b buf)
    have "UPDC32 sc b c = (csum_shift ^^ 8) (c XOR char_to_u32 False b)" by (simp only: UPDC32_def csum_step_table [of c b sc])
    then show ?case by (simp only: crc32buf_loop.simps Cons.IH csum_Cons)
  qed (simp add: buffalo_csum_def)
  then show ?thesis by (simp add: crc32buf_def crc32_sum_def)
qed

lemma mtd_crc32_sum:
  "mtd_crc32 val s (int n) = (if n \<le> length s then Ret (buffalo_csum False val (take n s)) else Undef)"
proof (induction n arbitrary: val s)
  case 0
  then show ?case by (subst mtd_crc32.simps) (simp add: buffalo_csum_def)
next
  case (Suc n)
  show ?case
  proof (cases s)
    case (Cons b s')
    have "(csum_shift ^^ 8) (val XOR char_to_u32 False b) = crc_32_tab ! unat ((val XOR ucast b) AND 0xFF) XOR drop_bit 8 val"
      by (simp only: csum_step_table [of val b False]) (simp add: char_to_u32_def)
    then show ?thesis
      using Suc by (subst mtd_crc32.simps) (simp add: Cons csum_Cons del: funpow.simps)
  qed (subst mtd_crc32.simps, simp)
qed

lemma mtd_crc32buf_sum:
  assumes "unat len < 2 ^ 31"
  shows "mtd_crc32buf buf len = (if unat len \<le> length buf then Ret (crc32_sum (take (unat len) buf)) else Undef)"
proof -
  have "int (unat len) < int (2 ^ 31)" using assms by (simp only: of_nat_less_iff)
  then have "uint len < 2 ^ 31" by simp
  moreover have "- (2 ^ 31) \<le> uint len" by (rule order_trans [OF _ uint_ge_0]) simp
  ultimately have "signed_take_bit 31 (uint len) = uint len" by (intro signed_take_bit_int_eq_self)
  then have "sint len = uint len" by (simp add: sint_uint)
  then have "sint len = int (unat len)" by simp
  then show ?thesis unfolding mtd_crc32buf_def by (simp only: mtd_crc32_sum crc32_sum_def)
qed

lemma crc32_single_byte_error: "x \<noteq> y \<Longrightarrow> crc32_sum (pre @ x # post) \<noteq> crc32_sum (pre @ y # post)"
  unfolding crc32_sum_def csum_division by (rule csum.single_byte_error)

end
