(* ===== verification/Trx.thy ===== *)
theory Trx
  imports Crc32 Host_Env
begin

text \<open>
  The writer of TRX images (\<^verbatim>\<open>tools/firmware-utils/src/trx.c\<close>): a header with the length, a checksum and
  the offsets of up to four parts, and the files of the parts behind it. The numbers of the header are stored with the low byte first on
  every host. Every way to leave the program with a failure is \<open>Exit 1\<close>; messages are left out.
\<close>

type_synonym u64 = "64 word"

section \<open>Environment\<close>

text \<open>\<^verbatim>\<open>getopt\<close> with a minus sign in front of the letters: arguments that are no options are results too, as an option
  with the number 1. What follows \<^verbatim>\<open>--\<close> is not seen by the loop.\<close>

definition opt_1 :: char where
  "opt_1 = CHR 0x01"

fun getopt_order :: "string \<Rightarrow> string list \<Rightarrow> opt_result list" where
  "getopt_order ostr [] = []"
| "getopt_order ostr [a] =
     (if a = ''--'' then []
      else if is_option a then fst (opt_cluster ostr (tl a) None)
      else [(opt_1, Some a)])"
| "getopt_order ostr (a # b # args) =
     (if a = ''--'' then []
      else if is_option a then
        (let (r, used) = opt_cluster ostr (tl a) (Some b)
         in r @ (if used then getopt_order ostr args else getopt_order ostr (b # args)))
      else (opt_1, Some a) # getopt_order ostr (b # args))"

text \<open>\<^verbatim>\<open>strtoul\<close> and \<^verbatim>\<open>strtol\<close> with the check for a number that is in range and fills the whole string.\<close>

definition parse_ulong :: "string \<Rightarrow> u64 option" where
  "parse_ulong s =
     (case strto_scan 0 s of
        Some (neg, v, []) \<Rightarrow> if v < 2 ^ 64 then Some (if neg then - of_nat v else of_nat v) else None
      | _ \<Rightarrow> None)"

definition parse_long :: "string \<Rightarrow> int option" where
  "parse_long s =
     (case strto_scan 0 s of
        Some (neg, v, []) \<Rightarrow> if v < 2 ^ 63 \<or> neg \<and> v = 2 ^ 63 then Some (if neg then - int v else int v) else None
      | _ \<Rightarrow> None)"

definition store32 :: "nat \<Rightarrow> u32 \<Rightarrow> byte list \<Rightarrow> byte list outcome" where
  "store32 off w mem = mem_write off (bytes_of_u32 LittleEndian w) mem"

definition load32 :: "nat \<Rightarrow> byte list \<Rightarrow> u32 outcome" where
  "load32 off mem = obind (mem_read off 4 mem) (\<lambda>bs. Ret (u32_of_bytes LittleEndian bs))"

section \<open>The program\<close>

definition TRX_MAGIC :: u32 where "TRX_MAGIC = 0x30524448"
definition TRX_MAX_LEN :: u64 where "TRX_MAX_LEN = 0x720000"

text \<open>The fields of \<^verbatim>\<open>struct trx_header\<close>, by their offsets, and its size.\<close>

definition trx_magic :: nat where "trx_magic = 0"
definition trx_len :: nat where "trx_len = 4"
definition trx_crc32 :: nat where "trx_crc32 = 8"
definition trx_flag_version :: nat where "trx_flag_version = 12"
definition trx_offsets :: "nat \<Rightarrow> nat" where "trx_offsets i = 16 + 4 * i"
definition sizeof_trx_header :: nat where "sizeof_trx_header = 32"

text \<open>The variables of \<^verbatim>\<open>main\<close>. \<open>t_in\<close> is whether a file was opened, \<open>t_out\<close> is \<open>None\<close> for the standard output.\<close>

record trx_state =
  t_buf :: "byte list"
  t_maxlen :: u64
  t_cur_len :: u32
  t_fsmark :: u32
  t_i :: nat
  t_in :: bool
  t_version :: nat
  t_out :: "string option"
  t_fs :: host_fs

text \<open>Options \<^verbatim>\<open>f\<close>, \<^verbatim>\<open>A\<close>, \<^verbatim>\<open>F\<close> and arguments without an option: a file. The end of file is only seen if
  the file is shorter than the room.\<close>

definition trx_offset :: "bool \<Rightarrow> trx_state \<Rightarrow> trx_state outcome" where
  "trx_offset app st =
     (if app then Ret st
      else if t_i st \<ge> 4 then Undef
      else obind (store32 (trx_offsets (t_i st)) (t_cur_len st) (t_buf st)) (\<lambda>buf. Ret (st\<lparr>t_buf := buf, t_i := t_i st + 1\<rparr>)))"

definition trx_file :: "bool \<Rightarrow> string \<Rightarrow> trx_state \<Rightarrow> trx_state outcome" where
  "trx_file app name st0 =
     obind (trx_offset app st0) (\<lambda>st.
     case (if readable (t_fs st) name then files (t_fs st) name else None) of
       None \<Rightarrow> Exit 1
     | Some data \<Rightarrow>
         let cur = unat (t_cur_len st); n = length data in
         if cur > length (t_buf st) then Undef
         else if \<not> n < unat (t_maxlen st) - cur then Exit 1
         else obind (mem_write cur data (t_buf st)) (\<lambda>buf.
           if n mod 4 \<noteq> 0 then
             obind (mem_set (cur + n) 0 (4 - n mod 4) buf) (\<lambda>buf.
             Ret (st\<lparr>t_buf := buf, t_cur_len := t_cur_len st + of_nat (n + (4 - n mod 4)), t_in := True\<rparr>))
           else Ret (st\<lparr>t_buf := buf, t_cur_len := t_cur_len st + of_nat n, t_in := True\<rparr>)))"

text \<open>Option \<^verbatim>\<open>m\<close>: the size of the buffer, rounded up.\<close>

definition trx_maxlen :: "(byte list \<Rightarrow> nat \<Rightarrow> byte list option) \<Rightarrow> u64 \<Rightarrow> trx_state \<Rightarrow> trx_state outcome" where
  "trx_maxlen realloc n st =
     (let maxlen = (if n AND 0xFFF \<noteq> 0 then n + (0x1000 - (n AND 0xFFF)) else n) in
      if maxlen < 0x1000 then Exit 1
      else case realloc (t_buf st) (unat maxlen) of
             None \<Rightarrow> Exit 1
           | Some buf \<Rightarrow> Ret (st\<lparr>t_buf := buf, t_maxlen := maxlen\<rparr>))"

text \<open>Zero bytes at the end, and options \<^verbatim>\<open>a\<close>, \<^verbatim>\<open>b\<close>, \<^verbatim>\<open>x\<close>, which move the end. The negation of the
  least number overflows.\<close>

definition trx_zeros :: "u64 \<Rightarrow> trx_state \<Rightarrow> trx_state outcome" where
  "trx_zeros n st =
     obind (mem_set (unat (t_cur_len st)) 0 (unat n) (t_buf st)) (\<lambda>buf. Ret (st\<lparr>t_buf := buf, t_cur_len := t_cur_len st + ucast n\<rparr>))"

definition trx_align :: "u64 \<Rightarrow> trx_state \<Rightarrow> trx_state outcome" where
  "trx_align n st =
     (let m = ucast (t_cur_len st) AND (n - 1) in if m \<noteq> 0 then trx_zeros (n - m) st else Ret st)"

definition trx_absolute :: "u64 \<Rightarrow> trx_state \<Rightarrow> trx_state outcome" where
  "trx_absolute n st = (if n < ucast (t_cur_len st) then Ret st else trx_zeros (n - ucast (t_cur_len st)) st)"

definition trx_relative :: "int \<Rightarrow> trx_state \<Rightarrow> trx_state outcome" where
  "trx_relative n2 st =
     (if n2 < 0 then
        if n2 = - (2 ^ 63) then Undef
        else if - n2 > int (unat (t_cur_len st)) then Ret (st\<lparr>t_cur_len := 0\<rparr>)
        else Ret (st\<lparr>t_cur_len := t_cur_len st + of_int n2\<rparr>)
      else trx_zeros (of_int n2) st)"

text \<open>The switch over the options; an option letter that takes an argument has one.\<close>

definition trx_opt :: "(byte list \<Rightarrow> nat \<Rightarrow> byte list option) \<Rightarrow> char \<Rightarrow> string \<Rightarrow> trx_state \<Rightarrow> trx_state outcome" where
  "trx_opt realloc c arg st =
     (if c = CHR ''2'' then
        Ret (if t_cur_len st \<noteq> of_nat (sizeof_trx_header - 4) then st
             else st\<lparr>t_version := 2, t_cur_len := t_cur_len st + 4\<rparr>)
      else if c = CHR ''F'' then trx_file True arg (st\<lparr>t_fsmark := t_cur_len st\<rparr>)
      else if c = CHR ''A'' then trx_file True arg st
      else if c = CHR ''f'' \<or> c = opt_1 then trx_file False arg st
      else if c = CHR ''o'' then
        if creatable (t_fs st) arg then Ret (st\<lparr>t_out := Some arg, t_fs := (t_fs st)\<lparr>files := (files (t_fs st))(arg \<mapsto> [])\<rparr>\<rparr>) else Exit 1
      else if c = CHR ''m'' then (case parse_ulong arg of None \<Rightarrow> Exit 1 | Some n \<Rightarrow> trx_maxlen realloc n st)
      else if c = CHR ''a'' then (case parse_ulong arg of None \<Rightarrow> Exit 1 | Some n \<Rightarrow> trx_align n st)
      else if c = CHR ''b'' then (case parse_ulong arg of None \<Rightarrow> Exit 1 | Some n \<Rightarrow> trx_absolute n st)
      else if c = CHR ''x'' then (case parse_long arg of None \<Rightarrow> Exit 1 | Some n \<Rightarrow> trx_relative n st)
      else Exit 1)"

fun trx_opts :: "(byte list \<Rightarrow> nat \<Rightarrow> byte list option) \<Rightarrow> opt_result list \<Rightarrow> trx_state \<Rightarrow> trx_state outcome" where
  "trx_opts realloc [] st = Ret st"
| "trx_opts realloc ((c, arg) # rs) st =
     obind (trx_opt realloc c (case arg of None \<Rightarrow> [] | Some a \<Rightarrow> a) st) (trx_opts realloc rs)"

text \<open>What follows the loop: the rest of the page is cleared, the checksum is computed, in version 2 with the flags of the last
  part set, and the image is written.\<close>

definition trx_page :: "trx_state \<Rightarrow> trx_state outcome" where
  "trx_page st = (let n = t_cur_len st AND 0xFFF in if n \<noteq> 0 then trx_zeros (ucast (0x1000 - n)) st else Ret st)"

definition trx_flags :: "trx_state \<Rightarrow> (byte list \<times> byte list \<times> nat) outcome" where
  "trx_flags st =
     (if t_version st = 2 then
        obind (load32 (trx_offsets 3) (t_buf st)) (\<lambda>off.
        if t_cur_len st - off < 32 then Exit 1
        else obind (mem_read (unat off) 32 (t_buf st)) (\<lambda>binheader.
             obind (mem_set (unat off + 22) 0xFF 8 (t_buf st)) (\<lambda>buf. Ret (buf, binheader, unat off))))
      else Ret (t_buf st, [], 0))"

definition trx_checksum :: "bool \<Rightarrow> u32 \<Rightarrow> byte list \<Rightarrow> byte list outcome" where
  "trx_checksum sc len buf =
     obind (mem_read trx_flag_version (unat (ucast len - of_nat trx_flag_version :: u64)) buf) (\<lambda>bs.
     obind (store32 trx_crc32 (crc32buf sc bs) buf) (\<lambda>buf. store32 trx_len len buf))"

definition trx_end :: "bool \<Rightarrow> trx_state \<Rightarrow> trx_state outcome" where
  "trx_end sc st0 =
     obind (store32 trx_flag_version (push_bit 16 (of_nat (t_version st0))) (t_buf st0)) (\<lambda>buf.
     if \<not> t_in st0 then Exit 1
     else
       obind (trx_page (st0\<lparr>t_buf := buf\<rparr>)) (\<lambda>st.
       obind (trx_flags st) (\<lambda>(buf, binheader, off).
       obind (trx_checksum sc (if t_fsmark st \<noteq> 0 then t_fsmark st else t_cur_len st) buf) (\<lambda>buf.
       obind (if t_version st = 2 then mem_write off binheader buf else Ret buf) (\<lambda>buf.
       Ret (st\<lparr>t_buf := buf\<rparr>))))))"

text \<open>\<^verbatim>\<open>fwrite\<close> of one element of the length of the image, which fails for the length 0.\<close>

definition trx_write :: "trx_state \<Rightarrow> (byte list \<times> host_fs) outcome" where
  "trx_write st =
     (let n = unat (t_cur_len st) in
      if n = 0 then Exit 1
      else obind (mem_read 0 n (t_buf st)) (\<lambda>image.
        if \<not> has_space (t_fs st) n then Exit 1
        else case t_out st of
               None \<Rightarrow> Ret (image, t_fs st)
             | Some ofn \<Rightarrow> Ret ([], (t_fs st)\<lparr>files := (files (t_fs st))(ofn \<mapsto> image)\<rparr>)))"

definition trx_optstring :: string where
  "trx_optstring = ''2o:m:a:x:b:f:A:F:''"

definition trx_init :: "byte list \<Rightarrow> host_fs \<Rightarrow> trx_state outcome" where
  "trx_init mem fs =
     obind (store32 trx_magic TRX_MAGIC mem) (\<lambda>buf.
     Ret \<lparr>t_buf = buf, t_maxlen = TRX_MAX_LEN, t_cur_len = of_nat (sizeof_trx_header - 4), t_fsmark = 0, t_i = 0,
       t_in = False, t_version = 1, t_out = None, t_fs = fs\<rparr>)"

text \<open>\<^verbatim>\<open>main\<close>: what is written to the standard output, and the files.\<close>

definition trx_main ::
  "bool \<Rightarrow> malloc \<Rightarrow> (byte list \<Rightarrow> nat \<Rightarrow> byte list option) \<Rightarrow> string list \<Rightarrow> host_fs \<Rightarrow> (byte list \<times> host_fs) outcome" where
  "trx_main sc malloc realloc args fs =
     (case malloc (unat TRX_MAX_LEN) of
        None \<Rightarrow> Exit 1
      | Some mem \<Rightarrow>
          obind (trx_init mem fs) (\<lambda>st.
          obind (trx_opts realloc (getopt_order trx_optstring args) st) (\<lambda>st.
          obind (trx_end sc st) trx_write)))"

end
