(* ===== verification/Trx_Props.thy ===== *)
theory Trx_Props
  imports Trx
begin

text \<open>
  What the TRX writer makes of a list of files: the layout of the image, with the offset of every part in the header, its length and
  checksum; and the fourth file of a version 1 image, whose offset is written over the first part.
\<close>

abbreviation le32 :: "u32 \<Rightarrow> byte list" where
  "le32 \<equiv> bytes_of_u32 LittleEndian"

section \<open>Parts\<close>

definition pad4 :: "byte list \<Rightarrow> byte list" where
  "pad4 d = d @ (if length d mod 4 = 0 then [] else replicate (4 - length d mod 4) 0)"

fun part_offs :: "nat \<Rightarrow> byte list list \<Rightarrow> nat list" where
  "part_offs c [] = []"
| "part_offs c (d # ds) = c # part_offs (c + length (pad4 d)) ds"

lemma length_pad4: "length d \<le> length (pad4 d)" "take (length d) (pad4 d) = d" "length (pad4 d) mod 4 = 0"
proof -
  show "length d \<le> length (pad4 d)" "take (length d) (pad4 d) = d" by (simp_all add: pad4_def)
  have "(length d + (4 - length d mod 4)) mod 4 = 0" if "length d mod 4 \<noteq> 0"
  proof -
    have "length d = 4 * (length d div 4) + length d mod 4" by simp
    moreover have "length d mod 4 < 4" by simp
    ultimately have "length d + (4 - length d mod 4) = 4 * (length d div 4) + 4" by linarith
    then show ?thesis by simp
  qed
  then show "length (pad4 d) mod 4 = 0" by (simp add: pad4_def)
qed

lemma length_part_offs [simp]: "length (part_offs c ds) = length ds"
  by (induction ds arbitrary: c) auto

lemma store32_append: "length a = off \<Longrightarrow> length b = 4 \<Longrightarrow> store32 off w (a @ b @ c) = Ret (a @ le32 w @ c)"
  by (simp add: store32_def mem_write_append)

lemma store32_split: "off + 4 \<le> length m \<Longrightarrow> store32 off w m = Ret (take off m @ le32 w @ drop (off + 4) m)"
  by (simp add: store32_def mem_write_def)

lemma mem_set_end: "length a = off \<Longrightarrow> n \<le> length b \<Longrightarrow> mem_set off v n (a @ b) = Ret (a @ replicate n v @ drop n b)"
  by (simp add: mem_set_def)

lemma mem_write_end: "length a = off \<Longrightarrow> length bs \<le> length b \<Longrightarrow> mem_write off bs (a @ b) = Ret (a @ bs @ drop (length bs) b)"
  by (simp add: mem_write_def)

text \<open>A file that fits is put at the end, and its offset into the header.\<close>

lemma trx_file_step:
  assumes buf: "t_buf st = h @ body @ rest" and cur: "unat (t_cur_len st) = length (h @ body)"
    and i: "t_i st = k" "k < 4" "trx_offsets k + 4 \<le> length h"
    and maxlen: "unat (t_maxlen st) = length (t_buf st)"
    and f: "readable (t_fs st) name" "files (t_fs st) name = Some d"
    and fits: "length (pad4 d) < length rest"
  shows "trx_file False name st = Ret (st\<lparr>
    t_buf := (take (trx_offsets k) h @ le32 (t_cur_len st) @ drop (trx_offsets k + 4) h) @ (body @ pad4 d) @ drop (length (pad4 d)) rest,
    t_i := k + 1, t_cur_len := t_cur_len st + of_nat (length (pad4 d)), t_in := True\<rparr>)"
proof -
  let ?h = "take (trx_offsets k) h @ le32 (t_cur_len st) @ drop (trx_offsets k + 4) h"
  let ?n = "length d"
  have "store32 (trx_offsets k) (t_cur_len st) (t_buf st) = Ret (?h @ body @ rest)"
    using i by (simp add: store32_split buf)
  then have o: "trx_offset False st = Ret (st\<lparr>t_buf := ?h @ body @ rest, t_i := k + 1\<rparr>)"
    using i by (simp add: trx_offset_def)
  have lh: "length ?h = length h" using i by simp
  have n: "?n < length rest" using fits length_pad4(1) [of d] by simp
  have w: "mem_write (length h + length body) d (?h @ body @ rest) = Ret (?h @ body @ d @ drop ?n rest)"
    using mem_write_end [of "?h @ body" "length h + length body" d rest] n lh by simp
  have z: "mem_set (length h + length body + ?n) 0 (4 - ?n mod 4) (?h @ body @ d @ drop ?n rest) =
      Ret (?h @ body @ pad4 d @ drop (length (pad4 d)) rest)" if "?n mod 4 \<noteq> 0"
    using mem_set_end [of "?h @ body @ d" "length h + length body + ?n" "4 - ?n mod 4" "drop ?n rest" 0] fits that lh
    by (simp add: pad4_def add.commute)
  have lp: "length (pad4 d) = (if ?n mod 4 = 0 then ?n else ?n + (4 - ?n mod 4))" by (simp add: pad4_def)
  have p: "?n mod 4 = 0 \<Longrightarrow> pad4 d = d" by (simp add: pad4_def)
  have room: "\<not> length h + length body > length (?h @ body @ rest)" "?n < unat (t_maxlen st) - (length h + length body)"
    using n lh maxlen buf by simp_all
  show ?thesis
  proof (cases "?n mod 4 = 0")
    case True
    then show ?thesis unfolding trx_file_def o using w room f cur by (simp add: Let_def p)
  next
    case False
    then show ?thesis unfolding trx_file_def o using w room f cur z by (simp add: Let_def lp)
  qed
qed

lemma trx_opt_f: "trx_opt realloc (CHR ''f'') arg st = trx_file False arg st"
  by (simp add: trx_opt_def)

lemma trx_files:
  assumes "t_buf st = h @ body @ rest" and "unat (t_cur_len st) = length (h @ body)"
    and "t_i st = k" and "k + length ds \<le> 4" and "trx_offsets (k + length ds) \<le> length h"
    and "unat (t_maxlen st) = length (t_buf st)" and "length (t_buf st) < 2 ^ 32"
    and "map (files (t_fs st)) ns = map Some ds" and "\<forall>n \<in> set ns. readable (t_fs st) n"
    and "length (concat (map pad4 ds)) < length rest"
  shows "trx_opts realloc (map (\<lambda>n. (CHR ''f'', Some n)) ns) st = Ret (st\<lparr>
    t_buf := (take (trx_offsets k) h @ concat (map (\<lambda>c. le32 (of_nat c)) (part_offs (length (h @ body)) ds)) @ drop (trx_offsets (k + length ds)) h) @
      (body @ concat (map pad4 ds)) @ drop (length (concat (map pad4 ds))) rest,
    t_i := k + length ds, t_cur_len := of_nat (length (h @ body @ concat (map pad4 ds))), t_in := t_in st \<or> ns \<noteq> []\<rparr>)"
  using assms
proof (induction ns arbitrary: ds st h body rest k)
  case Nil
  then have "t_cur_len st = of_nat (length (h @ body))" by (metis of_nat_unat ucast_id)
  then show ?case using Nil by simp
next
  case (Cons n ns)
  then obtain d ds' where ds: "ds = d # ds'" and d: "files (t_fs st) n = Some d" by (cases ds) auto
  let ?h = "take (trx_offsets k) h @ le32 (t_cur_len st) @ drop (trx_offsets k + 4) h"
  let ?body = "body @ pad4 d" and ?rest = "drop (length (pad4 d)) rest"
  have oS: "trx_offsets (Suc k) = trx_offsets k + 4" "trx_offsets (k + length ds) = trx_offsets (k + 1 + length ds')"
    by (simp_all add: trx_offsets_def ds)
  have kh: "trx_offsets k + 4 \<le> length h" using Cons.prems(5) by (simp add: trx_offsets_def ds)
  have len: "length (concat (map pad4 ds)) = length (pad4 d) + length (concat (map pad4 ds'))" by (simp add: ds)
  have cur: "t_cur_len st = of_nat (length (h @ body))" using Cons.prems(2) by (metis of_nat_unat ucast_id)
  define st' where "st' = st\<lparr>t_buf := ?h @ ?body @ ?rest, t_i := k + 1, t_cur_len := t_cur_len st + of_nat (length (pad4 d)), t_in := True\<rparr>"
  have step: "trx_file False n st = Ret st'" unfolding st'_def
    by (rule trx_file_step) (use Cons.prems kh d len ds in simp_all)
  have lh: "length ?h = length h" using kh by simp
  have "length h + length body + length (pad4 d) < 2 ^ 32" using Cons.prems(1,7,10) len by simp
  then have cur': "unat (t_cur_len st') = length (?h @ ?body)"
    unfolding st'_def cur using lh by (simp add: unat_of_nat take_bit_nat_eq_self flip: of_nat_add)
  have "trx_opts realloc (map (\<lambda>n. (CHR ''f'', Some n)) ns) st' = Ret (st'\<lparr>
    t_buf := (take (trx_offsets (k + 1)) ?h @ concat (map (\<lambda>c. le32 (of_nat c)) (part_offs (length (?h @ ?body)) ds')) @ drop (trx_offsets (k + 1 + length ds')) ?h) @
      (?body @ concat (map pad4 ds')) @ drop (length (concat (map pad4 ds'))) ?rest,
    t_i := k + 1 + length ds', t_cur_len := of_nat (length (?h @ ?body @ concat (map pad4 ds'))), t_in := t_in st' \<or> ns \<noteq> []\<rparr>)"
  proof (rule Cons.IH)
    show "t_buf st' = ?h @ ?body @ ?rest" "t_i st' = k + 1" by (simp_all add: st'_def)
    show "unat (t_cur_len st') = length (?h @ ?body)" by (rule cur')
    show "k + 1 + length ds' \<le> 4" "trx_offsets (k + 1 + length ds') \<le> length ?h" using Cons.prems(4,5) lh by (simp_all add: ds oS)
    show "length (concat (map pad4 ds')) < length ?rest" using Cons.prems(10) len by simp
  qed (use Cons.prems lh len ds in \<open>simp_all add: st'_def\<close>)
  moreover have "take (trx_offsets (k + 1)) ?h = take (trx_offsets k) h @ le32 (of_nat (length (h @ body)))"
    "drop (trx_offsets (k + 1 + length ds')) ?h = drop (trx_offsets (k + length ds)) h"
    using kh by (simp_all add: oS(1) oS(2) cur trx_offsets_def ds ac_simps)
  ultimately show ?case
    using lh by (simp add: trx_opt_f step st'_def ds oS(2)) (simp add: len ac_simps)
qed

section \<open>The end of the image\<close>

definition page_pad :: "nat \<Rightarrow> nat" where
  "page_pad n = (if n mod 0x1000 = 0 then 0 else 0x1000 - n mod 0x1000)"

text \<open>The image of version 1 whose contents, with room for the header, are \<open>h\<close>.\<close>

definition trx_tail :: "byte list \<Rightarrow> byte list" where
  "trx_tail h = le32 0x10000 @ drop 16 h @ replicate (page_pad (length h)) 0"

definition trx_image :: "byte list \<Rightarrow> byte list" where
  "trx_image h = le32 TRX_MAGIC @ le32 (of_nat (length h + page_pad (length h))) @ le32 (crc32_sum (trx_tail h)) @ trx_tail h"

lemma page_pad_mod: "(n + page_pad n) mod 0x1000 = 0" "page_pad n < 0x1000"
proof -
  have "(n + (0x1000 - n mod 0x1000)) mod 0x1000 = 0" if "n mod 0x1000 \<noteq> 0"
  proof -
    have "n = 0x1000 * (n div 0x1000) + n mod 0x1000" by simp
    moreover have "n mod 0x1000 < 0x1000" by simp
    ultimately have "n + (0x1000 - n mod 0x1000) = 0x1000 * (n div 0x1000) + 0x1000" by linarith
    then show ?thesis by simp
  qed
  then show "(n + page_pad n) mod 0x1000 = 0" by (simp add: page_pad_def)
  show "page_pad n < 0x1000" by (simp add: page_pad_def)
qed

lemma page_pad_fits:
  assumes "n \<le> m" and "m mod 0x1000 = 0"
  shows "n + page_pad n \<le> m"
proof (rule ccontr)
  assume "\<not> n + page_pad n \<le> m"
  then have "m < n + page_pad n" "n + page_pad n - m < 0x1000" using page_pad_mod(2) [of n] assms(1) by linarith+
  moreover have "(n + page_pad n - m) mod 0x1000 = 0"
    using assms(2) page_pad_mod(1) [of n] by (simp add: mod_eq_0_iff_dvd)
  ultimately show False by simp
qed

lemma unat_and_fff: "unat ((w :: u32) AND 0xFFF) = unat w mod 0x1000"
proof -
  have "(0xFFF :: u32) = mask 12" by (simp add: mask_eq_exp_minus_1)
  then have "w AND 0xFFF = take_bit 12 w" by (simp only: take_bit_eq_mask)
  then show ?thesis by (simp only: unsigned_take_bit_eq) (simp add: take_bit_eq_mod)
qed

lemma trx_page_pads:
  assumes "t_buf st = h @ rest" and "unat (t_cur_len st) = length h" and "length (t_buf st) mod 0x1000 = 0"
  shows "trx_page st = Ret (st\<lparr>t_buf := h @ replicate (page_pad (length h)) 0 @ drop (page_pad (length h)) rest,
    t_cur_len := of_nat (length h + page_pad (length h))\<rparr>)"
proof -
  let ?p = "page_pad (length h)" and ?n = "t_cur_len st AND 0xFFF"
  have cur: "t_cur_len st = of_nat (length h)" using assms(2) by (metis of_nat_unat ucast_id)
  have n: "unat ?n = length h mod 0x1000" using assms(2) by (simp add: unat_and_fff)
  have room: "?p \<le> length rest" using page_pad_fits [OF _ assms(3), of "length h"] assms(1) by simp
  show ?thesis
  proof (cases "length h mod 0x1000 = 0")
    case True
    then have "?n = 0" "?p = 0" using n by (simp_all add: unat_eq_zero page_pad_def)
    then show ?thesis using assms(1) by (simp add: trx_page_def cur)
  next
    case False
    then have nz: "?n \<noteq> 0" using n by auto
    have "?n \<le> 0x1000" unfolding word_le_nat_alt n by simp
    then have "unat (0x1000 - ?n) = 0x1000 - length h mod 0x1000" by (simp add: unat_sub n)
    then have d: "unat (0x1000 - ?n) = ?p" using False by (simp add: page_pad_def)
    then have "0x1000 - ?n = of_nat ?p" by (metis of_nat_unat ucast_id)
    moreover have "unat (ucast (0x1000 - ?n) :: u64) = ?p" using d page_pad_mod(2) [of "length h"] by (simp add: unsigned_ucast_eq take_bit_nat_eq_self)
    moreover have "(ucast (ucast (0x1000 - ?n) :: u64) :: u32) = 0x1000 - ?n"
      by (rule bit_word_eqI) (simp add: bit_simps)
    ultimately show ?thesis
      using nz mem_set_end [OF refl room, of h 0] assms(1,2) by (simp add: trx_page_def trx_zeros_def Let_def cur)
  qed
qed

lemma trx_end_image:
  assumes buf: "t_buf st = h @ rest" and cur: "unat (t_cur_len st) = length h" and len: "length (t_buf st) mod 0x1000 = 0" "length (t_buf st) < 2 ^ 32"
    and h: "take 4 h = le32 TRX_MAGIC" "16 \<le> length h" and st: "t_in st" "t_version st = 1" "t_fsmark st = 0"
  shows "trx_end sc st = Ret (st\<lparr>t_buf := trx_image h @ drop (page_pad (length h)) rest,
    t_cur_len := of_nat (length h + page_pad (length h))\<rparr>)"
proof -
  let ?p = "page_pad (length h)" and ?rest = "drop (page_pad (length h)) rest"
  let ?h = "take 12 h @ le32 0x10000 @ drop 16 h" and ?l = "of_nat (length h + page_pad (length h)) :: u32"
  have v: "(push_bit 16 (of_nat (t_version st)) :: u32) = 0x10000" by (simp add: st push_bit_eq_mult)
  have fv: "store32 trx_flag_version 0x10000 (t_buf st) = Ret (?h @ rest)"
    using h(2) by (simp add: store32_split buf trx_flag_version_def)
  have lh: "length ?h = length h" using h(2) by simp
  have pg: "trx_page (st\<lparr>t_buf := ?h @ rest\<rparr>) =
      Ret (st\<lparr>t_buf := (?h @ replicate ?p 0) @ ?rest, t_cur_len := ?l\<rparr>)"
    using trx_page_pads [of "st\<lparr>t_buf := ?h @ rest\<rparr>" ?h rest] lh cur len buf by simp
  have t: "?h @ replicate ?p 0 = take 4 h @ take 4 (drop 4 h) @ take 4 (drop 8 h) @ trx_tail h"
  proof -
    have "take 12 h = take 4 h @ take 4 (drop 4 h) @ take 4 (drop 8 h)"
      using take_add [of 4 8 h] take_add [of 4 4 "drop 4 h"] by simp
    then show ?thesis by (simp add: trx_tail_def)
  qed
  have four: "length (take 4 h) = 4" "length (take 4 (drop 4 h)) = 4" "length (take 4 (drop 8 h)) = 4" using h(2) by simp_all
  have lt: "length (trx_tail h) = length h + ?p - 12" using h(2) by (simp add: trx_tail_def)
  have small: "length h + ?p < 2 ^ 32" using page_pad_fits [OF _ len(1), of "length h"] len(2) buf by simp
  then have ul: "unat (ucast ?l :: u64) = length h + ?p" by (simp add: unsigned_ucast_eq unat_of_nat take_bit_nat_eq_self del: of_nat_add)
  moreover have "(of_nat trx_flag_version :: u64) \<le> ucast ?l"
    unfolding word_le_nat_alt ul using h(2) by (simp add: trx_flag_version_def)
  ultimately have n: "unat (ucast ?l - of_nat trx_flag_version :: u64) = length (trx_tail h)"
    by (simp add: unat_sub lt) (simp add: trx_flag_version_def)
  have cs: "trx_checksum sc ?l ((?h @ replicate ?p 0) @ ?rest) = Ret (trx_image h @ ?rest)"
    unfolding trx_checksum_def n t
    using mem_read_append [of "take 4 h @ take 4 (drop 4 h) @ take 4 (drop 8 h)" trx_flag_version "trx_tail h" "length (trx_tail h)" ?rest]
      store32_append [of "take 4 h @ take 4 (drop 4 h)" trx_crc32 "take 4 (drop 8 h)" "crc32_sum (trx_tail h)" "trx_tail h @ ?rest"]
      store32_append [of "take 4 h" trx_len "take 4 (drop 4 h)" ?l "le32 (crc32_sum (trx_tail h)) @ trx_tail h @ ?rest"] four
    by (simp add: crc32buf_sum trx_image_def h(1) trx_flag_version_def trx_crc32_def trx_len_def)
  show ?thesis
    unfolding trx_end_def v fv using pg cs st by (simp add: trx_flags_def)
qed

section \<open>Reading an image\<close>

definition trx_field :: "nat \<Rightarrow> byte list \<Rightarrow> u32" where
  "trx_field off im = u32_of_bytes LittleEndian (take 4 (drop off im))"

definition trx_part :: "byte list \<Rightarrow> nat \<Rightarrow> nat \<Rightarrow> byte list" where
  "trx_part im k n = take n (drop (unat (trx_field (trx_offsets k) im)) im)"

definition trx_valid :: "byte list \<Rightarrow> bool" where
  "trx_valid im \<longleftrightarrow> length im mod 0x1000 = 0 \<and> trx_field trx_magic im = TRX_MAGIC \<and>
     unat (trx_field trx_len im) = length im \<and> trx_field trx_crc32 im = crc32_sum (drop trx_flag_version im)"

lemma part_at:
  "k < length ds \<Longrightarrow> c \<le> part_offs c ds ! k \<and>
     (\<exists>r. drop (part_offs c ds ! k - c) (concat (map pad4 ds)) = pad4 (ds ! k) @ r)"
proof (induction ds arbitrary: c k)
  case (Cons d ds)
  show ?case
  proof (cases k)
    case (Suc j)
    define o' where "o' = part_offs (c + length (pad4 d)) ds ! j"
    have "c + length (pad4 d) \<le> o'" "\<exists>r. drop (o' - (c + length (pad4 d))) (concat (map pad4 ds)) = pad4 (ds ! j) @ r"
      using Cons.IH [of j "c + length (pad4 d)"] Cons.prems by (simp_all add: o'_def Suc)
    moreover have "drop (o' - c) (concat (map pad4 (d # ds))) = drop (o' - (c + length (pad4 d))) (concat (map pad4 ds))"
      if "c + length (pad4 d) \<le> o'" using that by (simp add: diff_diff_left)
    ultimately show ?thesis by (simp add: Suc flip: o'_def)
  qed simp
qed simp

lemma part_offs_bound: "k < length ds \<Longrightarrow> part_offs c ds ! k \<le> c + length (concat (map pad4 ds))"
proof (induction ds arbitrary: c k)
  case (Cons d ds)
  then show ?case using Cons.IH [of "k - 1" "c + length (pad4 d)"] by (cases k) (simp_all add: add.assoc)
qed simp

lemma words_at: "k < length ws \<Longrightarrow> take 4 (drop (4 * k) (concat (map le32 ws) @ r)) = le32 (ws ! k)"
proof (induction ws arbitrary: k)
  case (Cons w ws)
  then show ?case using Cons.IH [of "k - 1"] by (cases k) simp_all
qed simp

lemma length_trx_image: "16 \<le> length h \<Longrightarrow> length (trx_image h) = length h + page_pad (length h)"
  by (simp add: trx_image_def trx_tail_def)

lemma drop_trx_image: "16 \<le> j \<Longrightarrow> drop j (trx_image h) = drop (j - 16) (drop 16 h @ replicate (page_pad (length h)) 0)"
proof -
  assume "16 \<le> j"
  then obtain i where j: "j = 16 + i" using le_Suc_ex by blast
  have "drop 16 (trx_image h) = drop 16 h @ replicate (page_pad (length h)) 0"
    by (simp add: trx_image_def trx_tail_def)
  then show ?thesis by (simp add: j flip: drop_drop add: add.commute)
qed

lemma trx_image_valid:
  assumes "16 \<le> length h" and "length h + page_pad (length h) < 2 ^ 32"
  shows "trx_valid (trx_image h)"
proof -
  have "drop trx_flag_version (trx_image h) = trx_tail h" by (simp add: trx_image_def trx_flag_version_def)
  moreover have "trx_field trx_magic (trx_image h) = TRX_MAGIC" "trx_field trx_crc32 (trx_image h) = crc32_sum (trx_tail h)"
    "trx_field trx_len (trx_image h) = of_nat (length h + page_pad (length h))"
    by (simp_all add: trx_field_def trx_image_def trx_magic_def trx_crc32_def trx_len_def)
  ultimately show ?thesis
    using assms page_pad_mod(1) [of "length h"]
    by (simp add: trx_valid_def length_trx_image unat_of_nat take_bit_nat_eq_self del: of_nat_add)
qed

text \<open>The contents of the buffer behind the magic number: offsets, and the parts from \<open>c\<close> on.\<close>

lemma trx_image_parts:
  assumes h: "h = pre @ concat (map (\<lambda>c. le32 (of_nat c)) (part_offs c ds)) @ gap @ concat (map pad4 ds)"
    and "length pre = 16" and "length (pre @ concat (map (\<lambda>c. le32 (of_nat c)) (part_offs c ds)) @ gap) = c"
    and k: "k < length ds" and small: "length h < 2 ^ 32"
  shows "trx_part (trx_image h) k (length (ds ! k)) = ds ! k"
proof -
  let ?o = "part_offs c ds ! k" and ?z = "replicate (page_pad (length h)) (0 :: byte)"
  have "drop 16 h @ ?z = concat (map le32 (map of_nat (part_offs c ds))) @ (gap @ concat (map pad4 ds) @ ?z)"
    using assms(2) by (simp add: h comp_def)
  moreover have "drop (trx_offsets k) (trx_image h) = drop (4 * k) (drop 16 h @ ?z)"
    using drop_trx_image [of "trx_offsets k" h] by (simp add: trx_offsets_def)
  ultimately have "take 4 (drop (trx_offsets k) (trx_image h)) = le32 (of_nat ?o)"
    using words_at [of k "map of_nat (part_offs c ds)"] k by (simp only: length_map length_part_offs nth_map)
  then have f: "unat (trx_field (trx_offsets k) (trx_image h)) = ?o"
    using part_offs_bound [OF k, of c] small assms(3)
    by (simp add: trx_field_def h unat_of_nat take_bit_nat_eq_self)
  have c: "16 \<le> c" using assms(2,3) by simp
  obtain r where r: "drop (?o - c) (concat (map pad4 ds)) = pad4 (ds ! k) @ r" and o: "c \<le> ?o"
    using part_at [OF k, of c] by blast
  define H where "H = pre @ concat (map (\<lambda>c. le32 (of_nat c)) (part_offs c ds)) @ gap"
  have hH: "h = H @ concat (map pad4 ds)" "length H = c" using h assms(3) by (simp_all add: H_def)
  have "drop ?o (trx_image h) = drop ?o (h @ ?z)"
    using drop_trx_image [of ?o h] o c hH by (simp add: drop_drop)
  also have "\<dots> = drop (?o - c) (concat (map pad4 ds)) @ drop (?o - length h) ?z"
    using o hH by simp
  finally have "drop ?o (trx_image h) = pad4 (ds ! k) @ r @ drop (?o - length h) ?z" by (simp add: r)
  then show ?thesis unfolding trx_part_def f using length_pad4(1,2) [of "ds ! k"] by simp
qed

section \<open>The program\<close>

definition f_args :: "string list \<Rightarrow> string list" where
  "f_args ns = concat (map (\<lambda>n. [''-f'', n]) ns)"

lemma getopt_order_pair:
  "opt_kind_of ostr c = Opt_arg \<Longrightarrow> c \<noteq> CHR ''-'' \<Longrightarrow>
     getopt_order ostr ([CHR ''-'', c] # v # args) = (c, Some v) # getopt_order ostr args"
  by (simp add: is_option_def)

lemma getopt_f_args: "getopt_order trx_optstring ([''-o'', ofn] @ f_args ns) = (CHR ''o'', Some ofn) # map (\<lambda>n. (CHR ''f'', Some n)) ns"
proof -
  have "getopt_order trx_optstring (f_args ns) = map (\<lambda>n. (CHR ''f'', Some n)) ns"
    by (induction ns) (simp_all add: f_args_def getopt_order_pair trx_optstring_def del: getopt_order.simps(2,3))
  then show ?thesis by (simp add: getopt_order_pair trx_optstring_def del: getopt_order.simps(2,3))
qed

definition trx_start :: "byte list \<Rightarrow> string \<Rightarrow> host_fs \<Rightarrow> trx_state" where
  "trx_start mem ofn fs = \<lparr>t_buf = le32 TRX_MAGIC @ drop 4 mem, t_maxlen = TRX_MAX_LEN, t_cur_len = 28, t_fsmark = 0, t_i = 0,
     t_in = False, t_version = 1, t_out = Some ofn, t_fs = fs\<lparr>files := (files fs)(ofn \<mapsto> [])\<rparr>\<rparr>"

lemma trx_main_opts:
  assumes "malloc 0x720000 = Some mem" and "length mem = 0x720000" and "creatable fs ofn"
  shows "trx_main sc malloc realloc ([''-o'', ofn] @ f_args ns) fs =
    obind (trx_opts realloc (map (\<lambda>n. (CHR ''f'', Some n)) ns) (trx_start mem ofn fs)) (\<lambda>st. obind (trx_end sc st) trx_write)"
proof -
  have "trx_init mem fs = Ret ((trx_start mem ofn fs)\<lparr>t_out := None, t_fs := fs\<rparr>)"
    using assms(2) by (simp add: trx_init_def store32_split trx_magic_def sizeof_trx_header_def trx_start_def)
  moreover have "unat TRX_MAX_LEN = 0x720000" by (simp add: TRX_MAX_LEN_def)
  moreover have "trx_opt realloc (CHR ''o'') ofn ((trx_start mem ofn fs)\<lparr>t_out := None, t_fs := fs\<rparr>) = Ret (trx_start mem ofn fs)"
    using assms(3) by (simp add: trx_opt_def trx_start_def opt_1_def)
  ultimately show ?thesis unfolding trx_main_def getopt_f_args by (simp add: assms(1))
qed

lemma trx_opts_append: "trx_opts realloc (rs @ rs') st = obind (trx_opts realloc rs st) (trx_opts realloc rs')"
proof (induction rs arbitrary: st)
  case (Cons r rs)
  obtain c arg where r: "r = (c, arg)" by (cases r)
  show ?case using Cons.IH by (cases "trx_opt realloc c (case arg of None \<Rightarrow> [] | Some a \<Rightarrow> a) st") (simp_all add: r)
qed simp

lemma trx_finish:
  assumes "t_buf st = h @ rest" and "unat (t_cur_len st) = length h" and "length (t_buf st) = 0x720000"
    and "take 4 h = le32 TRX_MAGIC" and "16 \<le> length h" and "t_in st" and "t_version st = 1" and "t_fsmark st = 0"
    and "t_out st = Some ofn" and "t_fs st = fs\<lparr>files := (files fs)(ofn \<mapsto> [])\<rparr>" and "\<forall>n. has_space fs n"
  shows "obind (trx_end sc st) trx_write = Ret ([], fs\<lparr>files := (files fs)(ofn \<mapsto> trx_image h)\<rparr>)" "trx_valid (trx_image h)"
proof -
  have fits: "length h + page_pad (length h) \<le> 0x720000"
    using page_pad_fits [of "length h" "0x720000"] assms(1,3) by simp
  then have n: "unat (of_nat (length h + page_pad (length h)) :: u32) = length (trx_image h)"
    using assms(5) by (simp add: length_trx_image unat_of_nat take_bit_nat_eq_self del: of_nat_add)
  have "mem_read 0 (length (trx_image h)) (trx_image h @ drop (page_pad (length h)) rest) = Ret (trx_image h)"
    by (simp add: mem_read_def)
  moreover have "length (trx_image h) \<noteq> 0" using assms(5) length_trx_image [OF assms(5)] by linarith
  ultimately show "obind (trx_end sc st) trx_write = Ret ([], fs\<lparr>files := (files fs)(ofn \<mapsto> trx_image h)\<rparr>)"
    using trx_end_image [OF assms(1,2) _ _ assms(4-8), where sc = sc] assms(3,9-11) n by (simp add: trx_write_def Let_def del: of_nat_add)
  show "trx_valid (trx_image h)" using trx_image_valid [OF assms(5)] fits by simp
qed

text \<open>The buffer after up to three files, and after a fourth one.\<close>

definition trx_contents :: "byte list \<Rightarrow> byte list list \<Rightarrow> byte list" where
  "trx_contents mem ds = (le32 TRX_MAGIC @ take 12 (drop 4 mem)) @ concat (map (\<lambda>c. le32 (of_nat c)) (part_offs 28 ds)) @
     drop (4 * length ds) (take 12 (drop 16 mem)) @ concat (map pad4 ds)"

lemma length_offs [simp]: "length (concat (map (\<lambda>c. le32 (of_nat c)) cs)) = 4 * length cs"
  by (induction cs) simp_all

lemma length_trx_contents:
  "length mem = 0x720000 \<Longrightarrow> length ds \<le> 3 \<Longrightarrow> length (trx_contents mem ds) = 28 + length (concat (map pad4 ds))"
  by (simp add: trx_contents_def)

lemma trx_opts_files:
  assumes mem: "length mem = 0x720000" and ns: "map (files fs) ns = map Some ds" "\<forall>n \<in> set ns. readable fs n" "ofn \<notin> set ns"
    and ds: "length ds \<le> 3" and fits: "28 + length (concat (map pad4 ds)) < 0x720000"
  shows "trx_opts realloc (map (\<lambda>n. (CHR ''f'', Some n)) ns) (trx_start mem ofn fs) =
    Ret ((trx_start mem ofn fs)\<lparr>t_buf := trx_contents mem ds @ drop (28 + length (concat (map pad4 ds))) mem, t_i := length ds,
      t_cur_len := of_nat (28 + length (concat (map pad4 ds))), t_in := ns \<noteq> []\<rparr>)"
proof -
  let ?st = "trx_start mem ofn fs" and ?b = "le32 TRX_MAGIC @ drop 4 mem"
  let ?h = "take 28 ?b"
  have b: "t_buf ?st = ?h @ [] @ drop 28 ?b" unfolding trx_start_def append_Nil by (simp only: trx_state.simps append_take_drop_id)
  have lh: "length ?h = 28" using mem by simp
  have maxlen: "unat (t_maxlen ?st) = 0x720000" by (simp add: trx_start_def TRX_MAX_LEN_def)
  have f: "map (files (t_fs ?st)) ns = map Some ds" using ns(1,3) by (auto simp: trx_start_def intro!: trans [OF map_cong ns(1)])
  have "trx_opts realloc (map (\<lambda>n. (CHR ''f'', Some n)) ns) ?st = Ret (?st\<lparr>
    t_buf := (take (trx_offsets 0) ?h @ concat (map (\<lambda>c. le32 (of_nat c)) (part_offs (length (?h @ [])) ds)) @ drop (trx_offsets (0 + length ds)) ?h) @
      ([] @ concat (map pad4 ds)) @ drop (length (concat (map pad4 ds))) (drop 28 ?b),
    t_i := 0 + length ds, t_cur_len := of_nat (length (?h @ [] @ concat (map pad4 ds))), t_in := t_in ?st \<or> ns \<noteq> []\<rparr>)"
    by (rule trx_files [OF b]) (use mem maxlen f ns(2) ds fits lh in \<open>simp_all add: trx_start_def trx_offsets_def\<close>)
  moreover have "take (trx_offsets 0) ?h = le32 TRX_MAGIC @ take 12 (drop 4 mem)" using mem by (simp add: trx_offsets_def)
  moreover have "drop (trx_offsets (length ds)) ?h = drop (4 * length ds) (take 12 (drop 16 mem))"
    using ds by (simp add: trx_offsets_def drop_take add.commute)
  moreover have "drop (length (concat (map pad4 ds))) (drop 28 ?b) = drop (28 + length (concat (map pad4 ds))) mem" by (simp add: add.commute)
  ultimately show ?thesis using lh by (simp add: trx_contents_def trx_start_def)
qed

lemma trx_main_image:
  assumes "malloc 0x720000 = Some mem" and mem: "length mem = 0x720000" and "creatable fs ofn" and space: "\<forall>n. has_space fs n"
    and ns: "map (files fs) ns = map Some ds" "\<forall>n \<in> set ns. readable fs n" "ofn \<notin> set ns"
    and ds: "ds \<noteq> []" "length ds \<le> 3" and fits: "28 + length (concat (map pad4 ds)) < 0x720000"
  shows "\<exists>im. length im \<le> 0x720000 \<and> trx_main sc malloc realloc ([''-o'', ofn] @ f_args ns) fs = Ret ([], fs\<lparr>files := (files fs)(ofn \<mapsto> im)\<rparr>) \<and>
    trx_valid im \<and> (\<forall>k < length ds. trx_part im k (length (ds ! k)) = ds ! k)"
proof -
  let ?h = "trx_contents mem ds"
  let ?st = "(trx_start mem ofn fs)\<lparr>t_buf := ?h @ drop (28 + length (concat (map pad4 ds))) mem, t_i := length ds,
      t_cur_len := of_nat (28 + length (concat (map pad4 ds))), t_in := ns \<noteq> []\<rparr>"
  note lh = length_trx_contents [OF mem ds(2)]
  have "ns \<noteq> []" using ns(1) ds(1) by auto
  then have st: "t_buf ?st = ?h @ drop (28 + length (concat (map pad4 ds))) mem" "unat (t_cur_len ?st) = length ?h"
      "length (t_buf ?st) = 0x720000" "take 4 ?h = le32 TRX_MAGIC" "16 \<le> length ?h" "t_in ?st" "t_version ?st = 1"
      "t_fsmark ?st = 0" "t_out ?st = Some ofn" "t_fs ?st = fs\<lparr>files := (files fs)(ofn \<mapsto> [])\<rparr>"
    using fits mem by (simp_all add: trx_start_def lh unat_of_nat take_bit_nat_eq_self del: of_nat_add) (simp add: trx_contents_def)
  note fin = trx_finish(1) [OF st space, where sc = sc] trx_finish(2) [OF st space]
  have "trx_main sc malloc realloc ([''-o'', ofn] @ f_args ns) fs = obind (trx_end sc ?st) trx_write"
    using trx_main_opts [where malloc = malloc, OF assms(1-3)] trx_opts_files [OF mem ns ds(2) fits] by simp
  moreover have "trx_part (trx_image ?h) k (length (ds ! k)) = ds ! k" if "k < length ds" for k
    by (rule trx_image_parts [where c = 28, OF trx_contents_def _ _ that]) (use mem ds(2) fits lh in simp_all)
  moreover have "length (trx_image ?h) \<le> 0x720000"
    using page_pad_fits [of "length ?h"] fits lh ds(2) st(5) by (simp add: length_trx_image)
  ultimately show ?thesis using fin by metis
qed

text \<open>
  C5. An image holds its files: \<^verbatim>\<open>trx -o out -f ...\<close> with up to three readable files that fit into the buffer writes an image whose header has
  its length and the checksum of what follows, and from which every file is read back at its offset.
\<close>

theorem trx_image_parts_found:
  assumes "malloc 0x720000 = Some mem" and mem: "length mem = 0x720000" and "creatable fs ofn" and space: "\<forall>n. has_space fs n"
    and ns: "map (files fs) ns = map Some ds" "\<forall>n \<in> set ns. readable fs n" "ofn \<notin> set ns"
    and ds: "ds \<noteq> []" "length ds \<le> 3" and fits: "28 + length (concat (map pad4 ds)) < 0x720000"
  shows "\<exists>im. trx_main sc malloc realloc ([''-o'', ofn] @ f_args ns) fs = Ret ([], fs\<lparr>files := (files fs)(ofn \<mapsto> im)\<rparr>) \<and>
    trx_valid im \<and> (\<forall>k < length ds. trx_part im k (length (ds ! k)) = ds ! k)"
  using trx_main_image [where malloc = malloc, OF assms, of sc realloc] by blast

text \<open>The buffer after a fourth file.\<close>

definition trx_contents4 :: "byte list \<Rightarrow> byte list list \<Rightarrow> byte list \<Rightarrow> byte list" where
  "trx_contents4 mem ds d = take 28 (trx_contents mem ds) @ le32 (of_nat (28 + length (concat (map pad4 ds)))) @
     drop 32 (trx_contents mem ds) @ pad4 d"

lemma trx_opts_fourth:
  assumes mem: "length mem = 0x720000" and ns: "map (files fs) ns = map Some ds" "\<forall>n \<in> set ns. readable fs n" "ofn \<notin> set ns"
    and n: "files fs n = Some d" "readable fs n" "n \<noteq> ofn"
    and ds: "length ds = 3" "4 \<le> length (concat (map pad4 ds))" and fits: "28 + length (concat (map pad4 (ds @ [d]))) < 0x720000"
  shows "trx_opts realloc (map (\<lambda>n. (CHR ''f'', Some n)) (ns @ [n])) (trx_start mem ofn fs) =
    Ret ((trx_start mem ofn fs)\<lparr>t_buf := trx_contents4 mem ds d @ drop (28 + length (concat (map pad4 (ds @ [d])))) mem, t_i := 4,
      t_cur_len := of_nat (28 + length (concat (map pad4 (ds @ [d])))), t_in := True\<rparr>)"
proof -
  let ?c = "trx_contents mem ds" and ?l = "28 + length (concat (map pad4 ds))"
  let ?st = "(trx_start mem ofn fs)\<lparr>t_buf := ?c @ drop ?l mem, t_i := length ds, t_cur_len := of_nat ?l, t_in := ns \<noteq> []\<rparr>"
  note lc = length_trx_contents [OF mem, of ds]
  have st: "trx_opts realloc (map (\<lambda>n. (CHR ''f'', Some n)) ns) (trx_start mem ofn fs) = Ret ?st"
    by (rule trx_opts_files [OF mem ns]) (use ds fits in simp_all)
  have b: "t_buf ?st = take 32 ?c @ drop 32 ?c @ drop ?l mem" by simp
  have cur: "unat (t_cur_len ?st) = length (take 32 ?c @ drop 32 ?c)"
    using lc ds fits by (simp add: unat_of_nat take_bit_nat_eq_self del: of_nat_add)
  have "trx_opts realloc (map (\<lambda>n. (CHR ''f'', Some n)) [n]) ?st = Ret (?st\<lparr>
    t_buf := (take (trx_offsets 3) (take 32 ?c) @ concat (map (\<lambda>c. le32 (of_nat c)) (part_offs (length (take 32 ?c @ drop 32 ?c)) [d])) @
        drop (trx_offsets (3 + length [d])) (take 32 ?c)) @ (drop 32 ?c @ concat (map pad4 [d])) @ drop (length (concat (map pad4 [d]))) (drop ?l mem),
    t_i := 3 + length [d], t_cur_len := of_nat (length (take 32 ?c @ drop 32 ?c @ concat (map pad4 [d]))), t_in := t_in ?st \<or> [n] \<noteq> []\<rparr>)"
    by (rule trx_files [OF b cur]) (use mem lc ds n fits in \<open>simp_all add: trx_start_def trx_offsets_def TRX_MAX_LEN_def\<close>)
  moreover have "take (trx_offsets 3) (take 32 ?c) = take 28 ?c" "drop (trx_offsets (3 + length [d])) (take 32 ?c) = []"
    by (simp_all add: trx_offsets_def)
  moreover have "length (take 32 ?c @ drop 32 ?c) = ?l" using lc ds by simp
  ultimately have "trx_opts realloc (map (\<lambda>n. (CHR ''f'', Some n)) [n]) ?st =
    Ret ((trx_start mem ofn fs)\<lparr>t_buf := trx_contents4 mem ds d @ drop (28 + length (concat (map pad4 (ds @ [d])))) mem, t_i := 4,
      t_cur_len := of_nat (28 + length (concat (map pad4 (ds @ [d])))), t_in := True\<rparr>)"
    using ds by (simp add: trx_contents4_def trx_start_def ac_simps)
  then show ?thesis unfolding map_append trx_opts_append st by simp
qed

text \<open>
  C8. A fourth file is put over the first one. With four files, which the usage only allows for version 2, the image is as
  well-formed as with three and the fourth is found at its offset; but this offset is stored where the first part begins.
\<close>

theorem trx_fourth_file:
  assumes "malloc 0x720000 = Some mem" and mem: "length mem = 0x720000" and "creatable fs ofn" and space: "\<forall>n. has_space fs n"
    and ns: "map (files fs) ns = map Some ds" "\<forall>n \<in> set ns. readable fs n" "ofn \<notin> set ns"
    and n: "files fs n = Some d" "readable fs n" "n \<noteq> ofn"
    and ds: "length ds = 3" "ds ! 0 \<noteq> []" and fits: "28 + length (concat (map pad4 (ds @ [d]))) < 0x720000"
  shows "\<exists>im. trx_main sc malloc realloc ([''-o'', ofn] @ f_args (ns @ [n])) fs = Ret ([], fs\<lparr>files := (files fs)(ofn \<mapsto> im)\<rparr>) \<and>
    trx_valid im \<and> trx_part im 3 (length d) = d \<and> trx_part im 0 4 = le32 (of_nat (28 + length (concat (map pad4 ds))))"
proof -
  let ?c = "trx_contents mem ds" and ?h = "trx_contents4 mem ds d" and ?l = "28 + length (concat (map pad4 ds))"
    and ?n = "28 + length (concat (map pad4 (ds @ [d])))"
  let ?st = "(trx_start mem ofn fs)\<lparr>t_buf := ?h @ drop ?n mem, t_i := 4, t_cur_len := of_nat ?n, t_in := True\<rparr>"
  obtain d0 d1 d2 where d3: "ds = [d0, d1, d2]" using ds(1) by (auto simp: numeral_eq_Suc length_Suc_conv)
  have "length (pad4 d0) mod 4 = 0" "0 < length (pad4 d0)" using length_pad4(1,3) [of d0] ds(2) d3 by auto
  then have "4 \<le> length (pad4 d0)" by (metis dvd_imp_le mod_0_imp_dvd)
  then have four: "4 \<le> length (concat (map pad4 ds))" by (simp add: d3)
  have lc: "length ?c = ?l" using length_trx_contents [OF mem, of ds] ds(1) by simp
  have lh: "length ?h = ?n" using lc four by (simp add: trx_contents4_def)
  have "take 4 ?c = le32 TRX_MAGIC" by (simp add: trx_contents_def)
  then have magic: "take 4 ?h = le32 TRX_MAGIC" using lc by (simp add: trx_contents4_def)
  have st: "t_buf ?st = ?h @ drop ?n mem" "unat (t_cur_len ?st) = length ?h" "length (t_buf ?st) = 0x720000" "take 4 ?h = le32 TRX_MAGIC"
      "16 \<le> length ?h" "t_in ?st" "t_version ?st = 1" "t_fsmark ?st = 0" "t_out ?st = Some ofn" "t_fs ?st = fs\<lparr>files := (files fs)(ofn \<mapsto> [])\<rparr>"
    using fits mem magic by (simp_all add: trx_start_def lh unat_of_nat take_bit_nat_eq_self del: of_nat_add map_append)
  note fin = trx_finish(1) [OF st space, where sc = sc] trx_finish(2) [OF st space]
  have main: "trx_main sc malloc realloc ([''-o'', ofn] @ f_args (ns @ [n])) fs = obind (trx_end sc ?st) trx_write"
    using trx_main_opts [where malloc = malloc, OF assms(1-3)] trx_opts_fourth [OF mem ns n ds(1) four fits] by simp
  have d16: "drop j (trx_image ?h) = drop j (?h @ replicate (page_pad ?n) 0)" if "16 \<le> j" for j
    using that drop_trx_image [OF that, of ?h] lh by simp
  have c: "take 28 ?c = (le32 TRX_MAGIC @ take 12 (drop 4 mem)) @ concat (map (\<lambda>c. le32 (of_nat c)) (part_offs 28 ds))"
    using mem by (simp add: trx_contents_def d3)
  obtain os where os: "part_offs 28 ds = 28 # os" by (simp add: d3)
  have f0: "trx_field (trx_offsets 0) (trx_image ?h) = 28"
    using mem by (simp add: trx_field_def trx_offsets_def d16) (simp add: trx_contents4_def c os)
  have f3: "trx_field (trx_offsets 3) (trx_image ?h) = of_nat ?l" and h28: "take 4 (drop 28 (trx_image ?h)) = le32 (of_nat ?l)"
    using lc four by (simp_all add: trx_field_def trx_offsets_def d16) (simp_all add: trx_contents4_def)
  have "unat (of_nat ?l :: u32) = ?l" using fits by (simp add: unat_of_nat take_bit_nat_eq_self del: of_nat_add)
  moreover have "drop ?l (trx_image ?h) = pad4 d @ replicate (page_pad ?n) 0" using lc four by (simp add: d16) (simp add: trx_contents4_def)
  ultimately have "trx_part (trx_image ?h) 3 (length d) = d"
    using length_pad4(1,2) [of d] unfolding trx_part_def f3 by simp
  moreover have "trx_part (trx_image ?h) 0 4 = le32 (of_nat ?l)" unfolding trx_part_def f0 using h28 by simp
  ultimately show ?thesis using fin main by metis
qed

section \<open>Witnesses\<close>

definition trx_demo_fs :: host_fs where
  "trx_demo_fs = \<lparr>files = (\<lambda>n. if n = ''a'' then Some [1, 2, 3] else if n = ''b'' then Some [7] else None),
     readable = (\<lambda>_. True), creatable = (\<lambda>_. True), has_space = (\<lambda>_. True)\<rparr>"

theorem trx_image_parts_found_witness:
  "\<exists>im. trx_main True (\<lambda>n. Some (replicate n 0)) (\<lambda>_ _. None) ([''-o'', ''o''] @ f_args [''a'', ''b'']) trx_demo_fs =
      Ret ([], trx_demo_fs\<lparr>files := (files trx_demo_fs)(''o'' \<mapsto> im)\<rparr>) \<and>
    trx_valid im \<and> (\<forall>k < length [[1, 2, 3], [7 :: byte]]. trx_part im k (length ([[1, 2, 3], [7 :: byte]] ! k)) = [[1, 2, 3], [7]] ! k)"
  by (rule trx_image_parts_found [where mem = "replicate 0x720000 0"]) (simp_all add: trx_demo_fs_def pad4_def)

theorem trx_fourth_file_witness:
  "\<exists>im. trx_main True (\<lambda>n. Some (replicate n 0)) (\<lambda>_ _. None) ([''-o'', ''o''] @ f_args ([''a'', ''b'', ''a''] @ [''b''])) trx_demo_fs =
      Ret ([], trx_demo_fs\<lparr>files := (files trx_demo_fs)(''o'' \<mapsto> im)\<rparr>) \<and>
    trx_valid im \<and> trx_part im 3 (length [7 :: byte]) = [7] \<and>
    trx_part im 0 4 = le32 (of_nat (28 + length (concat (map pad4 [[1, 2, 3], [7], [1, 2, 3]]))))"
  by (rule trx_fourth_file [where mem = "replicate 0x720000 0"]) (simp_all add: trx_demo_fs_def pad4_def)

end
