(* ===== verification/Mtd.thy ===== *)
theory Mtd
  imports Crc32 Trx
begin

text \<open>
  The flash tool of the device (\<^verbatim>\<open>package/system/mtd/src/mtd.c\<close> and \<^verbatim>\<open>trx.c\<close>): erasing partitions, writing an image block by
  block around bad blocks and over several partitions, checking an image before it is written and a partition after it, and
  the repair of a TRX header on the first boot.

  What the kernel does with a partition is the argument \<open>ops\<close> of the definitions, whose state is of type \<open>'w\<close>. File descriptors are the
  names of the partitions with an explicit position. Files that are integrated into a JFFS2 file system while an image is
  written (option \<^verbatim>\<open>-j\<close>) are left out, and so are the messages.
\<close>

section \<open>Partitions\<close>

record mtd_info =
  mi_size :: int
  mi_erasesize :: int
  mi_nand :: bool

text \<open>The operations of the kernel: opening a partition by its name and \<^verbatim>\<open>MEMGETINFO\<close>; \<^verbatim>\<open>MEMGETBADBLOCK\<close>; \<^verbatim>\<open>MEMUNLOCK\<close> from an
  offset on for a length; \<^verbatim>\<open>MEMERASE\<close> of the block at an offset, which may fail; \<^verbatim>\<open>write\<close> at a position with its result; \<^verbatim>\<open>read\<close>
  of at most so many bytes at a position, \<open>None\<close> being an error; it is not interrupted.\<close>

record 'w mtd_ops =
  mo_info :: "string \<Rightarrow> mtd_info option"
  mo_bad :: "string \<Rightarrow> int \<Rightarrow> int"
  mo_unlock :: "string \<Rightarrow> int \<Rightarrow> int \<Rightarrow> 'w \<Rightarrow> 'w"
  mo_erase :: "string \<Rightarrow> int \<Rightarrow> 'w \<Rightarrow> bool \<times> 'w"
  mo_write :: "string \<Rightarrow> int \<Rightarrow> byte list \<Rightarrow> 'w \<Rightarrow> int \<times> 'w"
  mo_read :: "string \<Rightarrow> int \<Rightarrow> nat \<Rightarrow> 'w \<Rightarrow> byte list option"

definition mtd_check_open :: "'w mtd_ops \<Rightarrow> string \<Rightarrow> mtd_info option" where
  "mtd_check_open ops mtd = mo_info ops mtd"

definition mtd_block_is_bad :: "'w mtd_ops \<Rightarrow> string \<Rightarrow> mtd_info \<Rightarrow> int \<Rightarrow> bool outcome" where
  "mtd_block_is_bad ops mtd info offset =
     (if mi_nand info then (let r = mo_bad ops mtd offset in if r < 0 then Exit 1 else Ret (r \<noteq> 0)) else Ret False)"

definition mtd_erase_block :: "'w mtd_ops \<Rightarrow> string \<Rightarrow> mtd_info \<Rightarrow> int \<Rightarrow> 'w \<Rightarrow> bool \<times> 'w" where
  "mtd_erase_block ops mtd info offset w = mo_erase ops mtd offset (mo_unlock ops mtd offset (mi_erasesize info) w)"

text \<open>The names in a list of partitions, separated by colons: \<^verbatim>\<open>strchr\<close> finds the end of the first.\<close>

function mtd_names :: "string \<Rightarrow> string list" where
  "mtd_names mtd =
     (case dropWhile (\<lambda>c. c \<noteq> CHR '':'') mtd of
        [] \<Rightarrow> [mtd]
      | _ # rest \<Rightarrow> takeWhile (\<lambda>c. c \<noteq> CHR '':'') mtd # mtd_names rest)"
  by pat_completeness auto
termination mtd_names
proof (relation "measure length")
  fix mtd rest :: string and c
  assume "dropWhile (\<lambda>c. c \<noteq> CHR '':'') mtd = c # rest"
  then have "length rest < length (dropWhile (\<lambda>c. c \<noteq> CHR '':'') mtd)" by simp
  also have "\<dots> \<le> length mtd" by (rule length_dropWhile_le)
  finally show "(rest, mtd) \<in> measure length" by simp
qed simp

declare mtd_names.simps [simp del]

text \<open>\<^verbatim>\<open>mtd_check\<close>: all partitions can be opened, and there is a buffer of the block size of the first one.\<close>

fun mtd_check_all :: "'w mtd_ops \<Rightarrow> malloc \<Rightarrow> string list \<Rightarrow> byte list option \<Rightarrow> byte list option option" where
  "mtd_check_all ops malloc [] buf = Some buf"
| "mtd_check_all ops malloc (mtd # next) buf =
     (case mtd_check_open ops mtd of
        None \<Rightarrow> None
      | Some info \<Rightarrow>
          mtd_check_all ops malloc next (case buf of Some m \<Rightarrow> Some m | None \<Rightarrow> malloc (nat (mi_erasesize info))))"

definition mtd_check :: "'w mtd_ops \<Rightarrow> malloc \<Rightarrow> string \<Rightarrow> byte list option option" where
  "mtd_check ops malloc mtd = mtd_check_all ops malloc (mtd_names mtd) None"

fun unlock_all :: "'w mtd_ops \<Rightarrow> string list \<Rightarrow> 'w \<Rightarrow> 'w outcome" where
  "unlock_all ops [] w = Ret w"
| "unlock_all ops (mtd # next) w =
     (case mtd_check_open ops mtd of
        None \<Rightarrow> Exit 1
      | Some info \<Rightarrow> unlock_all ops next (mo_unlock ops mtd 0 (mi_size info) w))"

definition mtd_unlock :: "'w mtd_ops \<Rightarrow> string \<Rightarrow> 'w \<Rightarrow> 'w outcome" where
  "mtd_unlock ops mtd w = unlock_all ops (mtd_names mtd) w"

text \<open>\<^verbatim>\<open>mtd_erase\<close>, which does not end for the block size 0; a failure is only reported.\<close>

partial_function (option) mtd_erase_loop :: "'w mtd_ops \<Rightarrow> string \<Rightarrow> mtd_info \<Rightarrow> int \<Rightarrow> 'w \<Rightarrow> 'w outcome option" where
  "mtd_erase_loop ops mtd info start w =
     (if start < mi_size info then
        (case mtd_block_is_bad ops mtd info start of
           Exit n \<Rightarrow> Some (Exit n)
         | Undef \<Rightarrow> Some Undef
         | Ret bad \<Rightarrow>
             mtd_erase_loop ops mtd info (start + mi_erasesize info)
               (if bad then w else snd (mtd_erase_block ops mtd info start w)))
      else Some (Ret w))"

definition mtd_erase :: "'w mtd_ops \<Rightarrow> string \<Rightarrow> 'w \<Rightarrow> 'w outcome option" where
  "mtd_erase ops mtd w =
     (case mtd_check_open ops mtd of
        None \<Rightarrow> Some (Exit 1)
      | Some info \<Rightarrow> mtd_erase_loop ops mtd info 0 w)"

section \<open>The image\<close>

text \<open>What the successive calls of \<^verbatim>\<open>read\<close> on the image find: bytes, of which a call takes as many as it asks for at most, an
  interruption, or an error. Behind the last one is the end of the file.\<close>

datatype rd_event = Data "byte list" | Again | Fail
datatype rd_result = Got "byte list" | Retry | Failed_read

fun read_call :: "nat \<Rightarrow> rd_event list \<Rightarrow> rd_result \<times> rd_event list" where
  "read_call n [] = (Got [], [])"
| "read_call n (Data bs # evs) = (Got (take n bs), if drop n bs = [] then evs else Data (drop n bs) # evs)"
| "read_call n (Again # evs) = (Retry, evs)"
| "read_call n (Fail # evs) = (Failed_read, evs)"

fun event_size :: "rd_event \<Rightarrow> nat" where
  "event_size (Data bs) = length bs + 1"
| "event_size _ = 1"

lemma read_call_size:
  "read_call n evs = (r, evs') \<Longrightarrow> r = Retry \<or> 0 < n \<and> (\<exists>bs. r = Got bs \<and> bs \<noteq> []) \<Longrightarrow>
     sum_list (map event_size evs') < sum_list (map event_size evs)"
  by (induction n evs rule: read_call.induct) (auto split: if_splits)

text \<open>The loop of \<^verbatim>\<open>mtd_write\<close> that fills the buffer up to the block size.\<close>

function fill_block :: "int \<Rightarrow> byte list \<Rightarrow> int \<Rightarrow> rd_event list \<Rightarrow> (byte list \<times> int \<times> rd_event list) outcome" where
  "fill_block es mem buflen evs =
     (if buflen < es then
        (case read_call (nat (es - buflen)) evs of
           (Retry, evs') \<Rightarrow> fill_block es mem buflen evs'
         | (Failed_read, evs') \<Rightarrow> Ret (mem, buflen, evs')
         | (Got bs, evs') \<Rightarrow>
             if bs = [] then Ret (mem, buflen, evs')
             else if buflen < 0 then Undef
             else (case mem_write (nat buflen) bs mem of
                     Ret mem' \<Rightarrow> fill_block es mem' (buflen + int (length bs)) evs'
                   | Exit n \<Rightarrow> Exit n
                   | Undef \<Rightarrow> Undef))
      else Ret (mem, buflen, evs))"
  by pat_completeness auto
termination fill_block
  by (relation "measure (\<lambda>(es, mem, buflen, evs). sum_list (map event_size evs))") (auto dest!: sym [of _ "read_call _ _"] intro: read_call_size)

declare fill_block.simps [simp del]

text \<open>\<^verbatim>\<open>trx_check\<close>: the first read of the image, into the buffer; its header, read with the byte order of the device; and the
  partition. The result is whether the image is accepted, and the buffer with \<^verbatim>\<open>buflen\<close>, which is -1 after an error.\<close>

definition sizeof_trx_header_mtd :: nat where "sizeof_trx_header_mtd = 28"

definition trx_check ::
  "'w mtd_ops \<Rightarrow> endian \<Rightarrow> rd_event list \<Rightarrow> string \<Rightarrow> byte list option \<Rightarrow> (bool \<times> byte list option \<times> int \<times> rd_event list) outcome" where
  "trx_check ops en evs mtd buf =
     (if mtd \<noteq> ''linux'' then Ret (True, buf, 0, evs)
      else case read_call 32 evs of
        (Got bs, evs') \<Rightarrow>
          obind (case buf of
                   None \<Rightarrow> if bs = [] then Ret [] else Undef
                 | Some m \<Rightarrow> mem_write 0 bs m) (\<lambda>m.
          let len = int (length bs) in
          if len < 32 then Ret (False, Some m, len, evs')
          else
            let magic = u32_of_bytes en (take 4 m); tlen = u32_of_bytes en (take 4 (drop 4 m)) in
            if magic \<noteq> TRX_MAGIC \<or> tlen < of_nat sizeof_trx_header_mtd then Ret (False, Some m, len, evs')
            else case mtd_check_open ops mtd of
                   None \<Rightarrow> Exit 1
                 | Some info \<Rightarrow> Ret (\<not> of_int (mi_size info) < tlen, Some m, len, evs'))
      | (_, evs') \<Rightarrow> Ret (False, buf, - 1, evs'))"

definition image_check ::
  "bool \<Rightarrow> 'w mtd_ops \<Rightarrow> endian \<Rightarrow> rd_event list \<Rightarrow> string \<Rightarrow> byte list option \<Rightarrow> (bool \<times> byte list option \<times> int \<times> rd_event list) outcome" where
  "image_check has_trx ops en evs mtd buf = (if has_trx then trx_check ops en evs mtd buf else Ret (True, buf, 0, evs))"

section \<open>Writing an image\<close>

text \<open>The variables of the loop of \<^verbatim>\<open>mtd_write\<close>: the buffer, the numbers of bytes written and erased, the bytes in bad blocks, the
  offset in the buffer, the position in the partition, the partition, and the rest of the image.\<close>

record 'w wstate =
  w_mem :: "byte list"
  w_buflen :: int
  w_w :: int
  w_e :: int
  w_skip_bad :: int
  w_offset :: int
  w_pos :: int
  w_world :: 'w
  w_image :: "rd_event list"

text \<open>The blocks for the next \<open>buflen\<close> bytes are erased, bad ones are passed over. The result is whether no erasure failed.\<close>

partial_function (option) erase_ahead ::
  "'w mtd_ops \<Rightarrow> string \<Rightarrow> mtd_info \<Rightarrow> 'w wstate \<Rightarrow> (bool \<times> 'w wstate) outcome option" where
  "erase_ahead ops mtd info st =
     (if w_w st + w_buflen st > w_e st - w_skip_bad st then
        (case mtd_block_is_bad ops mtd info (w_e st) of
           Exit n \<Rightarrow> Some (Exit n)
         | Undef \<Rightarrow> Some Undef
         | Ret bad \<Rightarrow>
             if bad then
               erase_ahead ops mtd info (st\<lparr>w_skip_bad := w_skip_bad st + mi_erasesize info, w_e := w_e st + mi_erasesize info,
                 w_pos := w_pos st + mi_erasesize info\<rparr>)
             else (case mtd_erase_block ops mtd info (w_e st) (w_world st) of
                     (ok, w') \<Rightarrow>
                       if ok then erase_ahead ops mtd info (st\<lparr>w_world := w', w_e := w_e st + mi_erasesize info\<rparr>)
                       else Some (Ret (False, st\<lparr>w_world := w'\<rparr>))))
      else Some (Ret (True, st)))"

text \<open>A call of \<^verbatim>\<open>write\<close> with bytes of the buffer.\<close>

definition buf_bytes :: "int \<Rightarrow> int \<Rightarrow> byte list \<Rightarrow> byte list outcome" where
  "buf_bytes off n mem = (if off < 0 \<or> n < 0 then Undef else mem_read (nat off) (nat n) mem)"

definition write_call :: "'w mtd_ops \<Rightarrow> string \<Rightarrow> int \<Rightarrow> int \<Rightarrow> 'w wstate \<Rightarrow> (int \<times> 'w wstate) outcome" where
  "write_call ops mtd off n st =
     obind (buf_bytes off n (w_mem st)) (\<lambda>bs.
       let (result, w') = mo_write ops mtd (w_pos st) bs (w_world st)
       in Ret (result, st\<lparr>w_world := w', w_pos := w_pos st + max 0 result\<rparr>))"

text \<open>An erasure fails: the bytes for which there is room are written, and the rest of the list of partitions goes on.\<close>

definition next_partition :: "'w mtd_ops \<Rightarrow> string \<Rightarrow> 'w wstate \<Rightarrow> 'w wstate outcome" where
  "next_partition ops mtd st =
     obind (if w_w st < w_e st
            then obind (write_call ops mtd (w_offset st) (w_e st - w_w st) st) (\<lambda>(_, st'). Ret (st'\<lparr>w_offset := w_e st - w_w st\<rparr>))
            else Ret st) (\<lambda>st'. Ret (st'\<lparr>w_w := 0, w_e := 0\<rparr>))"

text \<open>The bytes of the block are written.\<close>

definition write_block :: "'w mtd_ops \<Rightarrow> string \<Rightarrow> 'w wstate \<Rightarrow> 'w wstate outcome" where
  "write_block ops mtd st =
     obind (write_call ops mtd (w_offset st) (w_buflen st) st) (\<lambda>(result, st').
       if result < w_buflen st then Exit 1
       else Ret (st'\<lparr>w_w := w_w st + w_buflen st, w_buflen := 0, w_offset := 0\<rparr>))"

text \<open>The next block of the image in the buffer, padded with 0xff, or \<open>None\<close> at its end.\<close>

definition next_block :: "mtd_info \<Rightarrow> 'w wstate \<Rightarrow> 'w wstate option outcome" where
  "next_block info st =
     obind (fill_block (mi_erasesize info) (w_mem st) (w_buflen st) (w_image st)) (\<lambda>(mem, buflen, evs).
       let st = st\<lparr>w_mem := mem, w_buflen := buflen, w_image := evs\<rparr>; es = mi_erasesize info in
       if buflen = 0 then Ret None
       else if buflen < es then
         (if buflen < 0 then Undef
          else obind (mem_set (nat buflen) 0xFF (nat (es - buflen)) mem) (\<lambda>mem. Ret (Some (st\<lparr>w_mem := mem, w_buflen := es\<rparr>))))
       else Ret (Some st))"

text \<open>The loop of \<^verbatim>\<open>mtd_write\<close> and the jump to \<^verbatim>\<open>resume\<close>, for the partition \<open>mtd\<close> and the ones that come next.\<close>

partial_function (option) write_loop ::
  "'w mtd_ops \<Rightarrow> bool \<Rightarrow> int \<Rightarrow> string \<Rightarrow> mtd_info \<Rightarrow> string list \<Rightarrow> 'w wstate \<Rightarrow> 'w wstate outcome option" where
  "write_loop ops no_erase part_offset mtd info next st0 =
     (case next_block info st0 of
        Exit n \<Rightarrow> Some (Exit n)
      | Undef \<Rightarrow> Some Undef
      | Ret None \<Rightarrow> Some (Ret st0)
      | Ret (Some st) \<Rightarrow>
          (case (if no_erase then Some (Ret (True, st)) else erase_ahead ops mtd info st) of
             None \<Rightarrow> None
           | Some (Exit n) \<Rightarrow> Some (Exit n)
           | Some Undef \<Rightarrow> Some Undef
           | Some (Ret (erased, st)) \<Rightarrow>
               if erased then
                 (case write_block ops mtd st of
                    Exit n \<Rightarrow> Some (Exit n)
                  | Undef \<Rightarrow> Some Undef
                  | Ret st' \<Rightarrow> write_loop ops no_erase part_offset mtd info next st')
               else
                 (case next of
                    [] \<Rightarrow> Some (Exit 1)
                  | mtd' # next' \<Rightarrow>
                      (case next_partition ops mtd st of
                         Exit n \<Rightarrow> Some (Exit n)
                       | Undef \<Rightarrow> Some Undef
                       | Ret st' \<Rightarrow>
                           (case mtd_check_open ops mtd' of
                              None \<Rightarrow> Some (Exit 1)
                            | Some info' \<Rightarrow> write_loop ops no_erase part_offset mtd' info' next' (st'\<lparr>w_pos := max 0 part_offset\<rparr>))))))"

definition mtd_write ::
  "'w mtd_ops \<Rightarrow> bool \<Rightarrow> int \<Rightarrow> rd_event list \<Rightarrow> string \<Rightarrow> byte list option \<Rightarrow> int \<Rightarrow> 'w \<Rightarrow> 'w outcome option" where
  "mtd_write ops no_erase part_offset evs mtds buf buflen w =
     (case mtd_names mtds of
        [] \<Rightarrow> Some Undef
      | mtd # next \<Rightarrow>
          (case mtd_check_open ops mtd of
             None \<Rightarrow> Some (Exit 1)
           | Some info \<Rightarrow>
               map_option (\<lambda>r. obind r (\<lambda>st. Ret (w_world st)))
                 (write_loop ops no_erase part_offset mtd info next
                   \<lparr>w_mem = (case buf of None \<Rightarrow> [] | Some m \<Rightarrow> m), w_buflen = buflen, w_w = 0, w_e = 0, w_skip_bad = 0, w_offset = 0,
                     w_pos = max 0 part_offset, w_world = w, w_image = evs\<rparr>)))"

section \<open>Verification\<close>

text \<open>\<^verbatim>\<open>mtd_verify\<close> reads as many bytes as the file has, at most 256 at once; \<open>md5\<close> is the library's. The result is \<^verbatim>\<open>ret\<close>, for which
  the digests are only told apart.\<close>

function verify_read :: "'w mtd_ops \<Rightarrow> string \<Rightarrow> 'w \<Rightarrow> int \<Rightarrow> nat \<Rightarrow> byte list \<Rightarrow> byte list option" where
  "verify_read ops mtd w pos fsize got =
     (let len = min fsize 256 in
      case map_option (take len) (mo_read ops mtd pos len w) of
        None \<Rightarrow> None
      | Some bs \<Rightarrow>
          if bs = [] then Some got
          else if fsize - length bs > 0 then verify_read ops mtd w (pos + int (length bs)) (fsize - length bs) (got @ bs)
          else Some (got @ bs))"
  by pat_completeness auto
termination verify_read
  by (relation "measure (\<lambda>(ops, mtd, w, pos, fsize, got). fsize)") auto

declare verify_read.simps [simp del]

definition mtd_verify :: "'w mtd_ops \<Rightarrow> (byte list \<Rightarrow> byte list) \<Rightarrow> string \<Rightarrow> byte list option \<Rightarrow> 'w \<Rightarrow> int" where
  "mtd_verify ops md5 mtd file w =
     (case file of
        None \<Rightarrow> - 1
      | Some f \<Rightarrow>
          (case mtd_check_open ops mtd of
             None \<Rightarrow> - 1
           | Some _ \<Rightarrow>
               (case verify_read ops mtd w 0 (length f) [] of
                  None \<Rightarrow> - 1
                | Some got \<Rightarrow> if md5 f = md5 got then 0 else 1)))"

section \<open>Repair of a TRX header\<close>

text \<open>\<^verbatim>\<open>mtd_fixtrx\<close>: the block with the header is read, the length is set to the rest of the block, the checksum is computed, and
  the block is erased and written again. The sizes are 32-bit words.\<close>

definition mtd_fixtrx :: "'w mtd_ops \<Rightarrow> malloc \<Rightarrow> string \<Rightarrow> u32 \<Rightarrow> 'w \<Rightarrow> 'w outcome" where
  "mtd_fixtrx ops malloc mtd offset0 w =
     (case mtd_check_open ops mtd of
        None \<Rightarrow> Exit 1
      | Some info \<Rightarrow>
          let es = of_int (mi_erasesize info) :: u32; block_offset = offset0 AND NOT (es - 1);
              offset = unat (offset0 - block_offset); n = unat es in
          if block_offset + es > of_int (mi_size info) then Exit 1
          else case malloc n of
            None \<Rightarrow> Exit 1
          | Some _ \<Rightarrow>
              (case mo_read ops mtd (int (unat block_offset)) n w of
                 None \<Rightarrow> Exit 1
               | Some buf \<Rightarrow>
                   if length buf \<noteq> n then Exit 1
                   else obind (load32 (offset + trx_magic) buf) (\<lambda>magic.
                     if magic \<noteq> TRX_MAGIC then Exit 1
                     else obind (load32 (offset + trx_len) buf) (\<lambda>len.
                     if len = es - of_nat offset then Ret w
                     else obind (store32 (offset + trx_len) (es - of_nat offset) buf) (\<lambda>buf.
                     obind (mtd_crc32buf (drop (offset + trx_flag_version) buf) (es - of_nat offset - 12)) (\<lambda>crc.
                     obind (store32 (offset + trx_crc32) crc buf) (\<lambda>buf.
                     let (ok, w1) = mtd_erase_block ops mtd info (int (unat block_offset)) w in
                     if \<not> ok then Exit 1
                     else let (result, w2) = mo_write ops mtd (int (unat block_offset)) buf w1 in
                          if result \<noteq> int n then Exit 1 else Ret w2)))))))"

section \<open>Commands\<close>

text \<open>The commands of \<^verbatim>\<open>main\<close> with their arguments: the options \<^verbatim>\<open>f\<close>, \<^verbatim>\<open>n\<close>, \<^verbatim>\<open>e\<close> and the offsets.\<close>

record mtd_opts =
  o_force :: bool
  o_no_erase :: bool
  o_erase :: "string list"
  o_part_offset :: int
  o_offset :: u32

datatype mtd_cmd = Cmd_unlock | Cmd_erase | Cmd_write "rd_event list option" | Cmd_verify "byte list option" | Cmd_fixtrx

text \<open>Partitions that option \<^verbatim>\<open>e\<close> names are unlocked and erased first.\<close>

fun erase_first :: "'w mtd_ops \<Rightarrow> string list \<Rightarrow> 'w \<Rightarrow> 'w outcome option" where
  "erase_first ops [] w = Some (Ret w)"
| "erase_first ops (mtd # mtds) w =
     (case mtd_unlock ops mtd w of
        Exit n \<Rightarrow> Some (Exit n)
      | Undef \<Rightarrow> Some Undef
      | Ret w' \<Rightarrow>
          (case mtd_erase ops mtd w' of
             None \<Rightarrow> None
           | Some (Exit n) \<Rightarrow> Some (Exit n)
           | Some Undef \<Rightarrow> Some Undef
           | Some (Ret w'') \<Rightarrow> erase_first ops mtds w''))"

definition unlock_device :: "'w mtd_ops \<Rightarrow> mtd_opts \<Rightarrow> string \<Rightarrow> 'w \<Rightarrow> 'w outcome" where
  "unlock_device ops op device w = (if device \<in> set (o_erase op) then Ret w else mtd_unlock ops device w)"

definition before_write ::
  "bool \<Rightarrow> 'w mtd_ops \<Rightarrow> malloc \<Rightarrow> endian \<Rightarrow> mtd_opts \<Rightarrow> string \<Rightarrow> rd_event list option \<Rightarrow> (byte list option \<times> int \<times> rd_event list) outcome" where
  "before_write has_trx ops malloc en op device img =
     (case img of
        None \<Rightarrow> Exit 1
      | Some evs \<Rightarrow>
          (case mtd_check ops malloc device of
             None \<Rightarrow> Exit 1
           | Some buf \<Rightarrow>
               obind (image_check has_trx ops en evs device buf) (\<lambda>(ok, buf', buflen, evs').
               if \<not> ok \<and> \<not> o_force op then Exit 1 else Ret (buf', buflen, evs'))))"

definition opt_bind :: "'a outcome option \<Rightarrow> ('a \<Rightarrow> 'b outcome option) \<Rightarrow> 'b outcome option" where
  "opt_bind m f = (case m of None \<Rightarrow> None | Some (Ret x) \<Rightarrow> f x | Some (Exit n) \<Rightarrow> Some (Exit n) | Some Undef \<Rightarrow> Some Undef)"

text \<open>The commands in the order of \<^verbatim>\<open>main\<close>: the checks before a write, the erasures, the command. The exit status is 0 if the
  process is not left.\<close>

definition mtd_run ::
  "bool \<Rightarrow> 'w mtd_ops \<Rightarrow> malloc \<Rightarrow> endian \<Rightarrow> (byte list \<Rightarrow> byte list) \<Rightarrow> mtd_opts \<Rightarrow> mtd_cmd \<Rightarrow> string \<Rightarrow> 'w \<Rightarrow> 'w outcome option" where
  "mtd_run has_trx ops malloc en md5 op cmd device w =
     opt_bind (Some (case cmd of Cmd_write img \<Rightarrow> before_write has_trx ops malloc en op device img | _ \<Rightarrow> Ret (None, 0, []))) (\<lambda>(buf, buflen, evs).
     opt_bind (erase_first ops (o_erase op) w) (\<lambda>w.
     case cmd of
       Cmd_unlock \<Rightarrow> Some (unlock_device ops op device w)
     | Cmd_verify file \<Rightarrow> let _ = mtd_verify ops md5 device file w in Some (Ret w)
     | Cmd_erase \<Rightarrow> opt_bind (Some (unlock_device ops op device w)) (mtd_erase ops device)
     | Cmd_write _ \<Rightarrow> opt_bind (Some (unlock_device ops op device w)) (mtd_write ops (o_no_erase op) (o_part_offset op) evs device buf buflen)
     | Cmd_fixtrx \<Rightarrow> Some (mtd_fixtrx ops malloc device (o_offset op) w)))"

end
