(* ===== verification/Mtd_Write.thy ===== *)
theory Mtd_Write
  imports Mtd
begin

text \<open>
  The loop of the flash tool that writes an image, on partitions that behave as the kernel documents it: the blocks of the image, as the reads of
  the file deliver them, go into the good blocks of the partitions in order.
\<close>

section \<open>Partitions that behave as documented\<close>

text \<open>\<open>cont\<close> gives the contents of the partitions. \<open>part_ok\<close> is the documentation of the character device of a partition: block size and
  size; bad blocks, the question for one behind the end being an error; unlocking changes no contents; erasing a good block fills it with
  0xff, and is refused behind the end; a write inside the partition is complete, changes no other bytes, and stores its bytes if the place was
  erased; a read gives the bytes there are.\<close>

definition bad_block :: "'w mtd_ops \<Rightarrow> string \<Rightarrow> nat \<Rightarrow> bool" where
  "bad_block ops mtd i =
     (case mo_info ops mtd of None \<Rightarrow> False | Some info \<Rightarrow> mi_nand info \<and> mo_bad ops mtd (int i * mi_erasesize info) \<noteq> 0)"

definition erase_ok :: "'w mtd_ops \<Rightarrow> ('w \<Rightarrow> string \<Rightarrow> byte list) \<Rightarrow> string \<Rightarrow> nat \<Rightarrow> nat \<Rightarrow> bool" where
  "erase_ok ops cont mtd es n \<longleftrightarrow>
     (\<forall>w i. i < n \<and> \<not> bad_block ops mtd i \<longrightarrow> fst (mo_erase ops mtd (int i * int es) w) \<and>
        cont (snd (mo_erase ops mtd (int i * int es) w)) = (cont w)(mtd := put_at (i * es) (replicate es 0xFF) (cont w mtd))) \<and>
     (\<forall>w i. n \<le> i \<longrightarrow> \<not> fst (mo_erase ops mtd (int i * int es) w) \<and> cont (snd (mo_erase ops mtd (int i * int es) w)) = cont w) \<and>
     (\<forall>w off len. cont (mo_unlock ops mtd off len w) = cont w)"

definition write_ok :: "'w mtd_ops \<Rightarrow> ('w \<Rightarrow> string \<Rightarrow> byte list) \<Rightarrow> string \<Rightarrow> nat \<Rightarrow> bool" where
  "write_ok ops cont mtd len \<longleftrightarrow>
     (\<forall>w off bs. off + length bs \<le> len \<longrightarrow> fst (mo_write ops mtd (int off) bs w) = int (length bs) \<and>
        (\<exists>bs'. length bs' = length bs \<and> cont (snd (mo_write ops mtd (int off) bs w)) = (cont w)(mtd := put_at off bs' (cont w mtd)) \<and>
          (take (length bs) (drop off (cont w mtd)) = replicate (length bs) 0xFF \<longrightarrow> bs' = bs)))"

definition part_ok :: "'w mtd_ops \<Rightarrow> ('w \<Rightarrow> string \<Rightarrow> byte list) \<Rightarrow> string \<Rightarrow> nat \<Rightarrow> nat \<Rightarrow> bool \<Rightarrow> bool" where
  "part_ok ops cont mtd es n nand \<longleftrightarrow>
     mo_info ops mtd = Some \<lparr>mi_size = int (n * es), mi_erasesize = int es, mi_nand = nand\<rparr> \<and> 0 < es \<and>
     (nand \<longrightarrow> (\<forall>i < n. 0 \<le> mo_bad ops mtd (int i * int es)) \<and> (\<forall>i \<ge> n. mo_bad ops mtd (int i * int es) < 0)) \<and>
     erase_ok ops cont mtd es n \<and> write_ok ops cont mtd (n * es) \<and> (\<forall>w. length (cont w mtd) = n * es)"

definition good_blocks :: "'w mtd_ops \<Rightarrow> string \<Rightarrow> nat \<Rightarrow> nat \<Rightarrow> nat list" where
  "good_blocks ops mtd i n = filter (\<lambda>i. \<not> bad_block ops mtd i) [i..<n]"

abbreviation part_info :: "nat \<Rightarrow> nat \<Rightarrow> bool \<Rightarrow> mtd_info" where
  "part_info es n nand \<equiv> \<lparr>mi_size = int (n * es), mi_erasesize = int es, mi_nand = nand\<rparr>"

lemma block_is_bad:
  assumes "part_ok ops cont mtd es n nand"
  shows "i < n \<Longrightarrow> mtd_block_is_bad ops mtd (part_info es n nand) (int i * int es) = Ret (bad_block ops mtd i)"
    and "n \<le> i \<Longrightarrow> mtd_block_is_bad ops mtd (part_info es n nand) (int i * int es) = (if nand then Exit 1 else Ret False)"
    and "\<not> nand \<Longrightarrow> \<not> bad_block ops mtd i"
  using assms by (auto simp: part_ok_def mtd_block_is_bad_def bad_block_def Let_def not_less)

lemma good_blocks_step: "good_blocks ops mtd i n =
    (if i < n then (if bad_block ops mtd i then [] else [i]) @ good_blocks ops mtd (Suc i) n else [])"
  by (simp add: good_blocks_def upt_conv_Cons)

section \<open>Erasing ahead\<close>

lemma erase_block_good:
  assumes "part_ok ops cont mtd es n nand" and "i < n" and "\<not> bad_block ops mtd i"
  obtains w' where "mtd_erase_block ops mtd (part_info es n nand) (int i * int es) w = (True, w')"
    and "cont w' = (cont w)(mtd := put_at (i * es) (replicate es 0xFF) (cont w mtd))"
proof -
  let ?w = "mo_unlock ops mtd (int i * int es) (int es) w"
  have "fst (mo_erase ops mtd (int i * int es) ?w)"
    "cont (snd (mo_erase ops mtd (int i * int es) ?w)) = (cont ?w)(mtd := put_at (i * es) (replicate es 0xFF) (cont ?w mtd))"
    "cont ?w = cont w"
    using assms unfolding part_ok_def erase_ok_def by blast+
  then show ?thesis
    by (intro that [of "snd (mo_erase ops mtd (int i * int es) ?w)"]) (simp_all add: mtd_erase_block_def prod_eq_iff)
qed

lemma erase_block_end:
  assumes "part_ok ops cont mtd es n nand"
  obtains w' where "mtd_erase_block ops mtd (part_info es n nand) (int n * int es) w = (False, w')" and "cont w' = cont w"
proof -
  let ?w = "mo_unlock ops mtd (int n * int es) (int es) w"
  have "\<not> fst (mo_erase ops mtd (int n * int es) ?w)" "cont (snd (mo_erase ops mtd (int n * int es) ?w)) = cont ?w" "cont ?w = cont w"
    using assms unfolding part_ok_def erase_ok_def by blast+
  then show ?thesis
    by (intro that [of "snd (mo_erase ops mtd (int n * int es) ?w)"]) (simp_all add: mtd_erase_block_def prod_eq_iff)
qed

lemma erase_ahead_good:
  assumes part: "part_ok ops cont mtd es n nand"
  shows "\<lbrakk>good_blocks ops mtd i n = j # js; w_buflen st = int es; w_e st = int i * int es; w_w st = w_e st - w_skip_bad st\<rbrakk> \<Longrightarrow>
    i \<le> j \<and> j < n \<and> js = good_blocks ops mtd (Suc j) n \<and>
    (\<exists>w'. cont w' = (cont (w_world st))(mtd := put_at (j * es) (replicate es 0xFF) (cont (w_world st) mtd)) \<and>
      erase_ahead ops mtd (part_info es n nand) st = Some (Ret (True, st\<lparr>w_world := w', w_e := int (Suc j) * int es,
        w_skip_bad := w_skip_bad st + int (j - i) * int es, w_pos := w_pos st + int (j - i) * int es\<rparr>)))"
proof (induction "n - i" arbitrary: i st)
  case 0
  then show ?case using good_blocks_step [of ops mtd i n] by simp
next
  case (Suc m)
  have es: "0 < es" using part by (simp add: part_ok_def)
  have i: "i < n" using Suc.hyps(2) by simp
  note bad = block_is_bad(1) [OF part i]
  have need: "w_w st + w_buflen st > w_e st - w_skip_bad st" using Suc.prems es by simp
  show ?case
  proof (cases "bad_block ops mtd i")
    case True
    let ?st = "st\<lparr>w_skip_bad := w_skip_bad st + int es, w_e := w_e st + int es, w_pos := w_pos st + int es\<rparr>"
    have gb: "good_blocks ops mtd (Suc i) n = j # js" using Suc.prems(1) i True good_blocks_step [of ops mtd i n] by simp
    have we: "w_e ?st = int (Suc i) * int es" using Suc.prems(3) by (simp add: distrib_right)
    have IH: "Suc i \<le> j \<and> j < n \<and> js = good_blocks ops mtd (Suc j) n \<and>
      (\<exists>w'. cont w' = (cont (w_world ?st))(mtd := put_at (j * es) (replicate es 0xFF) (cont (w_world ?st) mtd)) \<and>
        erase_ahead ops mtd (part_info es n nand) ?st = Some (Ret (True, ?st\<lparr>w_world := w', w_e := int (Suc j) * int es,
          w_skip_bad := w_skip_bad ?st + int (j - Suc i) * int es, w_pos := w_pos ?st + int (j - Suc i) * int es\<rparr>)))"
      by (rule Suc.hyps(1) [of "Suc i" ?st]) (use gb we Suc.hyps(2) Suc.prems(2,4) in simp_all)
    moreover have "erase_ahead ops mtd (part_info es n nand) st = erase_ahead ops mtd (part_info es n nand) ?st"
      using need bad True Suc.prems(3) by (subst erase_ahead.simps) simp
    moreover have "int es + int (j - Suc i) * int es = int (j - i) * int es"
      using IH by (simp add: of_nat_diff algebra_simps)
    ultimately show ?thesis by (auto simp: ac_simps)
  next
    case False
    then have "good_blocks ops mtd i n = i # good_blocks ops mtd (Suc i) n" using i good_blocks_step [of ops mtd i n] by simp
    with Suc.prems(1) have "j # js = i # good_blocks ops mtd (Suc i) n" by (rule trans [OF sym])
    then have j: "j = i" "js = good_blocks ops mtd (Suc i) n" by blast+
    obtain w' where e: "mtd_erase_block ops mtd (part_info es n nand) (int i * int es) (w_world st) = (True, w')"
      and c: "cont w' = (cont (w_world st))(mtd := put_at (i * es) (replicate es 0xFF) (cont (w_world st) mtd))"
      using erase_block_good [OF part i False] by metis
    let ?st = "st\<lparr>w_world := w', w_e := w_e st + int es\<rparr>"
    have "erase_ahead ops mtd (part_info es n nand) st = erase_ahead ops mtd (part_info es n nand) ?st"
      using need bad False Suc.prems(3) e by (subst erase_ahead.simps) simp
    also have "\<dots> = Some (Ret (True, ?st))" using Suc.prems by (subst erase_ahead.simps) simp
    finally show ?thesis using c i j Suc.prems(3) by (auto simp: distrib_right add.commute)
  qed
qed

lemma erase_ahead_none:
  assumes part: "part_ok ops cont mtd es n True"
  shows "\<lbrakk>good_blocks ops mtd i n = []; i \<le> n; w_buflen st = int es; w_e st = int i * int es; w_w st = w_e st - w_skip_bad st\<rbrakk> \<Longrightarrow>
    erase_ahead ops mtd (part_info es n True) st = Some (Exit 1)"
proof (induction "n - i" arbitrary: i st)
  case 0
  then have "i = n" "w_w st + w_buflen st > w_e st - w_skip_bad st" using part by (simp_all add: part_ok_def)
  then show ?case using block_is_bad(2) [OF part, of n] 0 by (subst erase_ahead.simps) simp
next
  case (Suc m)
  have i: "i < n" using Suc.hyps(2) by simp
  then have bad: "bad_block ops mtd i" and gb: "good_blocks ops mtd (Suc i) n = []"
    using Suc.prems(1) good_blocks_step [of ops mtd i n] by (simp_all split: if_splits)
  let ?st = "st\<lparr>w_skip_bad := w_skip_bad st + int es, w_e := w_e st + int es, w_pos := w_pos st + int es\<rparr>"
  have we: "w_e ?st = int (Suc i) * int es" using Suc.prems(4) by (simp add: distrib_right)
  have "erase_ahead ops mtd (part_info es n True) ?st = Some (Exit 1)"
    by (rule Suc.hyps(1) [of "Suc i" ?st]) (use gb we i Suc.hyps(2) Suc.prems(3,5) in simp_all)
  moreover have "w_w st + w_buflen st > w_e st - w_skip_bad st" using Suc.prems part by (simp add: part_ok_def)
  ultimately show ?case using block_is_bad(1) [OF part i] bad Suc.prems(4) by (subst erase_ahead.simps) simp
qed

lemma erase_ahead_end:
  assumes part: "part_ok ops cont mtd es n False" and "w_buflen st = int es" and e: "w_e st = int n * int es" and "w_w st = w_e st - w_skip_bad st"
  obtains w' where "erase_ahead ops mtd (part_info es n False) st = Some (Ret (False, st\<lparr>w_world := w'\<rparr>))" and "cont w' = cont (w_world st)"
proof -
  obtain w' where "mtd_erase_block ops mtd (part_info es n False) (int n * int es) (w_world st) = (False, w')" "cont w' = cont (w_world st)"
    using erase_block_end [OF part] by metis
  moreover have "w_w st + w_buflen st > w_e st - w_skip_bad st" using assms by (simp add: part_ok_def)
  ultimately show ?thesis
    using that block_is_bad(2) [OF part, of n] e by (subst (asm) erase_ahead.simps) simp
qed

section \<open>Blocks of the image\<close>

fun image_bytes :: "rd_event list \<Rightarrow> byte list" where
  "image_bytes [] = []"
| "image_bytes (Data bs # evs) = bs @ image_bytes evs"
| "image_bytes (_ # evs) = image_bytes evs"

text \<open>Reads without an error, and no end of the file before the last byte.\<close>

definition good_events :: "rd_event list \<Rightarrow> bool" where
  "good_events evs \<longleftrightarrow> Fail \<notin> set evs \<and> Data [] \<notin> set evs"

lemma good_read_call:
  assumes "good_events evs" and "0 < n" and "read_call n evs = (r, evs')"
  shows "good_events evs' \<and> (r = Retry \<and> image_bytes evs' = image_bytes evs \<or>
    (\<exists>bs. r = Got bs \<and> length bs \<le> n \<and> image_bytes evs = bs @ image_bytes evs' \<and> (bs = [] \<longrightarrow> image_bytes evs = [])))"
  using assms by (cases "(n, evs)" rule: read_call.cases) (auto simp: good_events_def split: if_splits)

lemma fill_block_ok:
  "\<lbrakk>good_events evs; length mem = es; b \<le> es\<rbrakk> \<Longrightarrow>
    \<exists>mem' evs'. fill_block (int es) mem (int b) evs = Ret (mem', int (min es (b + length (image_bytes evs))), evs') \<and> good_events evs' \<and>
      length mem' = es \<and> take (min es (b + length (image_bytes evs))) mem' = take es (take b mem @ image_bytes evs) \<and>
      image_bytes evs' = drop (es - b) (image_bytes evs)"
proof (induction "sum_list (map event_size evs)" arbitrary: evs mem b rule: less_induct)
  case less
  note mem = less.prems(2)
  show ?case
  proof (cases "b < es")
    case True
    obtain r evs1 where rd: "read_call (es - b) evs = (r, evs1)" by force
    have n: "nat (int es - int b) = es - b" by simp
    have pos: "0 < es - b" using True by simp
    note g = good_read_call [OF less.prems(1) pos rd] and smaller = read_call_size [OF rd]
    show ?thesis
    proof (cases r)
      case (Got bs)
      then have bs: "good_events evs1" "length bs \<le> es - b" "image_bytes evs = bs @ image_bytes evs1" "bs = [] \<longrightarrow> image_bytes evs = []"
        using g by auto
      show ?thesis
      proof (cases "bs = []")
        case True
        then show ?thesis using bs rd Got mem \<open>b < es\<close> by (subst fill_block.simps) (auto simp: n)
      next
        case False
        let ?mem = "take b mem @ bs @ drop (b + length bs) mem"
        have w: "mem_write b bs mem = Ret ?mem" using bs(2) mem True by (simp add: mem_write_def)
        have l: "length ?mem = es" "b + length bs \<le> es" using bs(2) mem True by simp_all
        have "sum_list (map event_size evs1) < sum_list (map event_size evs)" using smaller Got False pos by blast
        from less.hyps [OF this bs(1) l] obtain mem' evs' where IH: "fill_block (int es) ?mem (int (b + length bs)) evs1 =
            Ret (mem', int (min es (b + length bs + length (image_bytes evs1))), evs')" "good_events evs'" "length mem' = es"
            "take (min es (b + length bs + length (image_bytes evs1))) mem' = take es (take (b + length bs) ?mem @ image_bytes evs1)"
            "image_bytes evs' = drop (es - (b + length bs)) (image_bytes evs1)" by blast
        have "take (b + length bs) ?mem = take b mem @ bs" using bs(2) mem True by simp
        moreover have "fill_block (int es) mem (int b) evs = fill_block (int es) ?mem (int (b + length bs)) evs1"
          using rd Got False w True by (subst fill_block.simps) (simp add: n)
        ultimately show ?thesis using IH bs(2,3) by (auto simp: add.assoc)
      qed
    next
      case Retry
      then have e: "good_events evs1" "image_bytes evs1 = image_bytes evs" using g by auto
      have "sum_list (map event_size evs1) < sum_list (map event_size evs)" using smaller Retry by blast
      from less.hyps [OF this e(1) mem less.prems(3)] show ?thesis
        unfolding e(2) using rd Retry True by (subst fill_block.simps) (simp add: n)
    qed (use g in auto)
  next
    case False
    then show ?thesis using less.prems by (subst fill_block.simps) auto
  qed
qed

definition pad_block :: "nat \<Rightarrow> byte list \<Rightarrow> byte list" where
  "pad_block es d = d @ replicate (es - length d) 0xFF"

function blocks_of :: "nat \<Rightarrow> byte list \<Rightarrow> byte list list" where
  "blocks_of es p = (if p = [] \<or> es = 0 then [] else pad_block es (take es p) # blocks_of es (drop es p))"
  by pat_completeness auto
termination blocks_of
  by (relation "measure (\<lambda>(es, p). length p)") auto

declare blocks_of.simps [simp del]

lemma blocks_of_simps [simp]: "blocks_of es [] = []"
  "p \<noteq> [] \<Longrightarrow> 0 < es \<Longrightarrow> blocks_of es p = pad_block es (take es p) # blocks_of es (drop es p)"
  by (simp_all add: blocks_of.simps)

lemma length_pad_block: "length d \<le> es \<Longrightarrow> length (pad_block es d) = es"
  by (simp add: pad_block_def)

lemma blocks_of_padded: "0 < es \<Longrightarrow> p \<noteq> [] \<Longrightarrow> blocks_of es (pad_block es (take es p) @ drop es p) = blocks_of es p"
  by (subst (1 2) blocks_of.simps) (simp add: pad_block_def min_def)

lemma next_block_ok:
  assumes "good_events (w_image st)" and mem: "length (w_mem st) = es" and es: "0 < es" and "w_buflen st = int b" and "b \<le> es"
    and p: "p = take b (w_mem st) @ image_bytes (w_image st)"
  shows "p = [] \<Longrightarrow> next_block (part_info es n nand) st = Ret None"
    and "p \<noteq> [] \<Longrightarrow> \<exists>evs'. next_block (part_info es n nand) st =
        Ret (Some (st\<lparr>w_mem := pad_block es (take es p), w_buflen := int es, w_image := evs'\<rparr>)) \<and> good_events evs' \<and> image_bytes evs' = drop es p"
proof -
  define l where "l = min es (b + length (image_bytes (w_image st)))"
  obtain mem' evs' where f: "fill_block (int es) (w_mem st) (w_buflen st) (w_image st) = Ret (mem', int l, evs')" "good_events evs'"
      "length mem' = es" "take l mem' = take es p" "image_bytes evs' = drop (es - b) (image_bytes (w_image st))"
    using fill_block_ok [OF assms(1,2,5)] assms(4) p l_def by metis
  have lp: "length p = b + length (image_bytes (w_image st))" using p mem assms(5) by simp
  show "p = [] \<Longrightarrow> next_block (part_info es n nand) st = Ret None"
    using f(1) lp by (simp add: next_block_def l_def)
  assume "p \<noteq> []"
  then have l0: "l \<noteq> 0" using lp es by (auto simp: l_def)
  have d: "image_bytes evs' = drop es p" using f(5) p mem assms(5) by simp
  show "\<exists>evs'. next_block (part_info es n nand) st =
        Ret (Some (st\<lparr>w_mem := pad_block es (take es p), w_buflen := int es, w_image := evs'\<rparr>)) \<and> good_events evs' \<and> image_bytes evs' = drop es p"
  proof (cases "l < es")
    case True
    then have t: "take es p = p" "l = length p" using lp by (auto simp: l_def)
    have "mem_set l 0xFF (es - l) mem' = Ret (pad_block es (take es p))"
      using f(3,4) True t by (simp add: mem_set_def pad_block_def)
    moreover have "nat (int es - int l) = es - l" by simp
    ultimately show ?thesis using f(1,2) d l0 True by (intro exI [of _ evs']) (simp add: next_block_def Let_def)
  next
    case False
    then have "l = es" by (simp add: l_def)
    then have "mem' = take es p" "int l = int es" using f(3,4) by simp_all
    moreover have "pad_block es (take es p) = take es p" using False lp by (simp add: pad_block_def l_def)
    ultimately show ?thesis using f(1,2) d es by (intro exI [of _ evs']) (simp add: next_block_def Let_def)
  qed
qed

section \<open>The blocks in the partitions\<close>

text \<open>Partitions with their numbers of blocks and whether they are NAND flash; the good blocks of a list of them in order; and the
  contents after blocks of an image are put into them.\<close>

type_synonym part = "string \<times> nat \<times> bool"

definition slots :: "'w mtd_ops \<Rightarrow> part list \<Rightarrow> (string \<times> nat) list" where
  "slots ops ps = concat (map (\<lambda>(m, n, nand). map (Pair m) (good_blocks ops m 0 n)) ps)"

definition put_blocks :: "nat \<Rightarrow> ((string \<times> nat) \<times> byte list) list \<Rightarrow> (string \<Rightarrow> byte list) \<Rightarrow> string \<Rightarrow> byte list" where
  "put_blocks es = fold (\<lambda>((m, i), b) c. c(m := put_at (i * es) b (c m)))"

definition parts_ok :: "'w mtd_ops \<Rightarrow> ('w \<Rightarrow> string \<Rightarrow> byte list) \<Rightarrow> nat \<Rightarrow> part list \<Rightarrow> bool" where
  "parts_ok ops cont es ps \<longleftrightarrow> (\<forall>(m, n, nand) \<in> set ps. part_ok ops cont m es n nand) \<and> (\<forall>(m, n, nand) \<in> set (butlast ps). \<not> nand)"

lemma write_block_ok:
  assumes part: "part_ok ops cont mtd es n nand" and j: "j < n" and st: "w_pos st = int j * int es" "w_buflen st = int es" "w_offset st = 0"
    and mem: "length (w_mem st) = es" and ff: "take es (drop (j * es) (cont (w_world st) mtd)) = replicate es 0xFF"
  shows "\<exists>w'. write_block ops mtd st = Ret (st\<lparr>w_world := w', w_pos := w_pos st + int es, w_w := w_w st + int es, w_buflen := 0, w_offset := 0\<rparr>) \<and>
    cont w' = (cont (w_world st))(mtd := put_at (j * es) (w_mem st) (cont (w_world st) mtd))"
proof -
  have fits: "j * es + length (w_mem st) \<le> n * es" using j mem by (metis Suc_leI add.commute mult_Suc mult_le_mono1)
  have "write_ok ops cont mtd (n * es)" using part by (simp add: part_ok_def)
  from this [unfolded write_ok_def, rule_format, OF fits, of "w_world st"] obtain bs' where
    w: "fst (mo_write ops mtd (int (j * es)) (w_mem st) (w_world st)) = int es"
      "cont (snd (mo_write ops mtd (int (j * es)) (w_mem st) (w_world st))) = (cont (w_world st))(mtd := put_at (j * es) bs' (cont (w_world st) mtd))"
      "bs' = w_mem st" using ff mem by auto
  obtain r w' where m: "mo_write ops mtd (int j * int es) (w_mem st) (w_world st) = (r, w')" by force
  have "buf_bytes 0 (int es) (w_mem st) = Ret (w_mem st)" using mem by (simp add: buf_bytes_def mem_read_def)
  then show ?thesis using w m st by (intro exI [of _ w']) (simp add: write_block_def write_call_def)
qed

text \<open>Between two blocks: what has been read but not written is in the buffer, everything that was erased is written, and the
  position is at the next block.\<close>

definition at_block :: "nat \<Rightarrow> nat \<Rightarrow> bool \<Rightarrow> 'w wstate \<Rightarrow> bool" where
  "at_block es i nand st \<longleftrightarrow> good_events (w_image st) \<and> length (w_mem st) = es \<and> 0 \<le> w_buflen st \<and> w_buflen st \<le> int es \<and> w_offset st = 0 \<and>
     w_e st = int i * int es \<and> w_pos st = w_e st \<and> w_w st = w_e st - w_skip_bad st \<and> (\<not> nand \<longrightarrow> w_skip_bad st = 0)"

definition pending_bytes :: "'w wstate \<Rightarrow> byte list" where
  "pending_bytes st = take (nat (w_buflen st)) (w_mem st) @ image_bytes (w_image st)"

lemma block_at:
  assumes "at_block es i nand st" and "0 < es"
  shows "pending_bytes st = [] \<Longrightarrow> next_block (part_info es n nand) st = Ret None"
    and "pending_bytes st \<noteq> [] \<Longrightarrow> \<exists>st'. next_block (part_info es n nand) st = Ret (Some st') \<and> at_block es i nand st' \<and>
      w_world st' = w_world st \<and> w_mem st' = pad_block es (take es (pending_bytes st)) \<and> w_buflen st' = int es \<and>
      image_bytes (w_image st') = drop es (pending_bytes st)"
proof -
  have b: "w_buflen st = int (nat (w_buflen st))" "nat (w_buflen st) \<le> es" using assms(1) by (auto simp: at_block_def)
  have g: "good_events (w_image st)" "length (w_mem st) = es" using assms(1) by (simp_all add: at_block_def)
  note nb = next_block_ok [OF g assms(2) b pending_bytes_def, where n = n and nand = nand]
  show "pending_bytes st = [] \<Longrightarrow> next_block (part_info es n nand) st = Ret None" by (rule nb(1))
  assume "pending_bytes st \<noteq> []"
  from nb(2) [OF this] show "\<exists>st'. next_block (part_info es n nand) st = Ret (Some st') \<and> at_block es i nand st' \<and>
      w_world st' = w_world st \<and> w_mem st' = pad_block es (take es (pending_bytes st)) \<and> w_buflen st' = int es \<and>
      image_bytes (w_image st') = drop es (pending_bytes st)"
    using assms(1) by (auto simp: at_block_def length_pad_block)
qed

text \<open>A block of the image is put into the next good block.\<close>

lemma write_good_block:
  assumes part: "part_ok ops cont mtd es n nand" and st: "at_block es i nand st" and p: "pending_bytes st \<noteq> []"
    and good: "good_blocks ops mtd i n = j # js"
  shows "\<exists>st'. write_loop ops False 0 mtd (part_info es n nand) nxt st = write_loop ops False 0 mtd (part_info es n nand) nxt st' \<and>
    at_block es (Suc j) nand st' \<and> pending_bytes st' = drop es (pending_bytes st) \<and> js = good_blocks ops mtd (Suc j) n \<and>
    cont (w_world st') = put_blocks es [((mtd, j), pad_block es (take es (pending_bytes st)))] (cont (w_world st))"
proof -
  have es: "0 < es" and len: "length (cont w mtd) = n * es" for w using part by (simp_all add: part_ok_def)
  obtain st1 where 1: "next_block (part_info es n nand) st = Ret (Some st1)" "at_block es i nand st1" "w_world st1 = w_world st"
      "w_mem st1 = pad_block es (take es (pending_bytes st))" "w_buflen st1 = int es" "image_bytes (w_image st1) = drop es (pending_bytes st)"
    using block_at(2) [OF st es p] by blast
  have e: "w_e st1 = int i * int es" "w_w st1 = w_e st1 - w_skip_bad st1" using 1(2) by (simp_all add: at_block_def)
  from erase_ahead_good [OF part good 1(5) e] obtain w' where j: "i \<le> j" "j < n" "js = good_blocks ops mtd (Suc j) n"
    and w': "cont w' = (cont (w_world st1))(mtd := put_at (j * es) (replicate es 0xFF) (cont (w_world st1) mtd))"
    and 2: "erase_ahead ops mtd (part_info es n nand) st1 = Some (Ret (True, st1\<lparr>w_world := w', w_e := int (Suc j) * int es,
        w_skip_bad := w_skip_bad st1 + int (j - i) * int es, w_pos := w_pos st1 + int (j - i) * int es\<rparr>))" (is "_ = Some (Ret (True, ?st2))")
    by blast
  have jes: "j * es + es \<le> n * es" using j(2) by (metis Suc_leI add.commute mult_Suc mult_le_mono1)
  have pos: "w_pos ?st2 = int j * int es" using 1(2) j(1) by (simp add: at_block_def of_nat_diff algebra_simps)
  have mem: "length (w_mem ?st2) = es" using 1(2) by (simp add: at_block_def)
  have "take es (drop (j * es) (cont (w_world ?st2) mtd)) = replicate es 0xFF"
    using put_at_there [of "j * es" "replicate es 0xFF"] jes len by (simp add: w')
  then obtain w'' where 3: "write_block ops mtd ?st2 = Ret (?st2\<lparr>w_world := w'', w_pos := w_pos ?st2 + int es, w_w := w_w ?st2 + int es, w_buflen := 0, w_offset := 0\<rparr>)"
      (is "_ = Ret ?st3") and c: "cont w'' = (cont w')(mtd := put_at (j * es) (w_mem st1) (cont w' mtd))"
    using write_block_ok [OF part j(2) pos] 1(2,5) mem by (auto simp: at_block_def)
  have "cont w'' = (cont (w_world st))(mtd := put_at (j * es) (w_mem st1) (cont (w_world st) mtd))"
    unfolding c w' using jes len 1(3) mem by (simp add: put_at_erased)
  then have "cont (w_world ?st3) = put_blocks es [((mtd, j), pad_block es (take es (pending_bytes st)))] (cont (w_world st))"
    by (simp add: put_blocks_def 1(4))
  moreover have "\<not> nand \<Longrightarrow> i = j"
    using good_blocks_step [of ops mtd i n] good block_is_bad(3) [OF part, of i] j by (auto split: if_splits)
  then have "at_block es (Suc j) nand ?st3" using 1(2,5) pos j(1) by (auto simp: at_block_def of_nat_diff algebra_simps)
  moreover have "pending_bytes ?st3 = drop es (pending_bytes st)" using 1(6) by (simp add: pending_bytes_def)
  moreover have "write_loop ops False 0 mtd (part_info es n nand) nxt st = write_loop ops False 0 mtd (part_info es n nand) nxt ?st3"
    using 1(1) 2 3 by (subst write_loop.simps) simp
  ultimately show ?thesis using j(3) by blast
qed

lemma put_blocks_Cons: "put_blocks es (x # xs) c = put_blocks es xs (put_blocks es [x] c)"
  by (simp add: put_blocks_def)

text \<open>A partition without room and without bad blocks: the loop goes on in the next one with the block that is in the buffer.\<close>

lemma write_next_part:
  assumes part: "part_ok ops cont mtd es n False" and st: "at_block es n False st" and p: "pending_bytes st \<noteq> []"
  shows "nxt = [] \<Longrightarrow> write_loop ops False 0 mtd (part_info es n False) nxt st = Some (Exit 1)"
    and "nxt = mtd' # nxt' \<Longrightarrow> part_ok ops cont mtd' es n' nand' \<Longrightarrow>
      \<exists>st'. write_loop ops False 0 mtd (part_info es n False) nxt st = write_loop ops False 0 mtd' (part_info es n' nand') nxt' st' \<and>
        at_block es 0 nand' st' \<and> pending_bytes st' = pad_block es (take es (pending_bytes st)) @ drop es (pending_bytes st) \<and>
        cont (w_world st') = cont (w_world st)"
proof -
  have es: "0 < es" using part by (simp add: part_ok_def)
  obtain st1 where 1: "next_block (part_info es n False) st = Ret (Some st1)" "at_block es n False st1" "w_world st1 = w_world st"
      "w_mem st1 = pad_block es (take es (pending_bytes st))" "w_buflen st1 = int es" "image_bytes (w_image st1) = drop es (pending_bytes st)"
    using block_at(2) [OF st es p] by blast
  have e: "w_e st1 = int n * int es" "w_w st1 = w_e st1 - w_skip_bad st1" "w_skip_bad st1 = 0" using 1(2) by (simp_all add: at_block_def)
  obtain w' where 2: "erase_ahead ops mtd (part_info es n False) st1 = Some (Ret (False, st1\<lparr>w_world := w'\<rparr>))" "cont w' = cont (w_world st1)"
    using erase_ahead_end [OF part 1(5) e(1,2)] by metis
  have np: "next_partition ops mtd (st1\<lparr>w_world := w'\<rparr>) = Ret (st1\<lparr>w_world := w', w_w := 0, w_e := 0\<rparr>)"
    using e by (simp add: next_partition_def)
  show "nxt = [] \<Longrightarrow> write_loop ops False 0 mtd (part_info es n False) nxt st = Some (Exit 1)"
    using 1(1) 2(1) by (subst write_loop.simps) simp
  let ?st = "st1\<lparr>w_world := w', w_w := 0, w_e := 0, w_pos := 0\<rparr>"
  assume nx: "nxt = mtd' # nxt'" and part': "part_ok ops cont mtd' es n' nand'"
  then have "mtd_check_open ops mtd' = Some (part_info es n' nand')" by (simp add: part_ok_def mtd_check_open_def)
  then have "write_loop ops False 0 mtd (part_info es n False) nxt st = write_loop ops False 0 mtd' (part_info es n' nand') nxt' ?st"
    using 1(1) 2(1) np nx by (subst write_loop.simps) simp
  moreover have "at_block es 0 nand' ?st" using 1(2) e(3) by (simp add: at_block_def)
  moreover have "length (pad_block es (take es (pending_bytes st))) = es" by (simp add: length_pad_block)
  then have "pending_bytes ?st = pad_block es (take es (pending_bytes st)) @ drop es (pending_bytes st)"
    using 1(4-6) by (simp add: pending_bytes_def)
  ultimately show "\<exists>st'. write_loop ops False 0 mtd (part_info es n False) nxt st = write_loop ops False 0 mtd' (part_info es n' nand') nxt' st' \<and>
        at_block es 0 nand' st' \<and> pending_bytes st' = pad_block es (take es (pending_bytes st)) @ drop es (pending_bytes st) \<and>
        cont (w_world st') = cont (w_world st)" using 2(2) 1(3) by (intro exI [of _ ?st]) simp
qed

lemma parts_ok_Cons: "parts_ok ops cont es ((m, n, nand) # ps) \<Longrightarrow>
    part_ok ops cont m es n nand \<and> parts_ok ops cont es ps \<and> (nand \<longrightarrow> ps = [])"
  by (auto simp: parts_ok_def split: if_splits)

lemma good_blocks_less: "good_blocks ops mtd i n = j # js \<Longrightarrow> j < n"
  by (metis atLeastLessThan_iff filter_is_subset good_blocks_def list.set_intros(1) set_upt subset_iff)

text \<open>In one partition: the image ends in it, or it is full.\<close>

lemma write_part:
  "\<lbrakk>part_ok ops cont mtd es n nand; at_block es i nand st; i \<le> n; g = map (Pair mtd) (good_blocks ops mtd i n); bs = blocks_of es (pending_bytes st)\<rbrakk> \<Longrightarrow>
   (length bs \<le> length g \<longrightarrow> (\<exists>st'. write_loop ops False 0 mtd (part_info es n nand) nxt st = Some (Ret st') \<and>
      cont (w_world st') = put_blocks es (zip g bs) (cont (w_world st)))) \<and>
   (length g < length bs \<longrightarrow> (\<exists>st' k. write_loop ops False 0 mtd (part_info es n nand) nxt st = write_loop ops False 0 mtd (part_info es n nand) nxt st' \<and>
      at_block es k nand st' \<and> k \<le> n \<and> good_blocks ops mtd k n = [] \<and> pending_bytes st' \<noteq> [] \<and> blocks_of es (pending_bytes st') = drop (length g) bs \<and>
      cont (w_world st') = put_blocks es (zip g bs) (cont (w_world st))))"
proof (induction "length (pending_bytes st)" arbitrary: i st g bs rule: less_induct)
  case less
  note part = less.prems(1)
  then have es: "0 < es" by (simp add: part_ok_def)
  consider (fin) "pending_bytes st = []" | (room) j js where "pending_bytes st \<noteq> []" "good_blocks ops mtd i n = j # js"
    | (full) "pending_bytes st \<noteq> []" "good_blocks ops mtd i n = []" by (metis list.exhaust)
  then show ?case
  proof cases
    case fin
    then show ?thesis using block_at(1) [OF less.prems(2) es] less.prems(5)
      by (subst write_loop.simps) (simp add: put_blocks_def)
  next
    case room
    let ?x = "((mtd, j), pad_block es (take es (pending_bytes st)))"
    obtain st' where st': "write_loop ops False 0 mtd (part_info es n nand) nxt st = write_loop ops False 0 mtd (part_info es n nand) nxt st'"
        "at_block es (Suc j) nand st'" "pending_bytes st' = drop es (pending_bytes st)" "js = good_blocks ops mtd (Suc j) n"
        "cont (w_world st') = put_blocks es [?x] (cont (w_world st))"
      using write_good_block [OF part less.prems(2) room, where nxt = nxt] by blast
    define g' where "g' = map (Pair mtd) (good_blocks ops mtd (Suc j) n)"
    define bs' where "bs' = blocks_of es (pending_bytes st')"
    have j: "Suc j \<le> n" using good_blocks_less [OF room(2)] by simp
    have smaller: "length (pending_bytes st') < length (pending_bytes st)" using room(1) es st'(3) by simp
    have g: "g = fst ?x # g'" and bs: "bs = snd ?x # bs'"
      using less.prems(4,5) room es st'(3,4) by (simp_all add: g'_def bs'_def)
    have c: "put_blocks es (zip g bs) (cont (w_world st)) = put_blocks es (zip g' bs') (cont (w_world st'))"
      unfolding g bs st'(5) by (simp only: zip_Cons_Cons fst_conv snd_conv) (rule put_blocks_Cons)
    have l: "drop (length g) bs = drop (length g') bs'" "length bs \<le> length g \<longleftrightarrow> length bs' \<le> length g'" "length g < length bs \<longleftrightarrow> length g' < length bs'"
      by (simp_all add: g bs)
    note IH = less.hyps [OF smaller part st'(2) j g'_def bs'_def]
    show ?thesis unfolding l c st'(1) by (rule IH)
  next
    case full
    have "length g < length bs" "drop (length g) bs = bs" "zip g bs = []" using less.prems(4,5) full es by simp_all
    then show ?thesis using less.prems(2,3,5) full by (auto simp: put_blocks_def intro!: exI [of _ st] exI [of _ i])
  qed
qed

lemma write_loop_parts:
  "\<lbrakk>parts_ok ops cont es ((mtd, n, nand) # ps); at_block es 0 nand st; bs = blocks_of es (pending_bytes st)\<rbrakk> \<Longrightarrow>
   (length bs \<le> length (slots ops ((mtd, n, nand) # ps)) \<longrightarrow> (\<exists>st'. write_loop ops False 0 mtd (part_info es n nand) (map fst ps) st = Some (Ret st') \<and>
      cont (w_world st') = put_blocks es (zip (slots ops ((mtd, n, nand) # ps)) bs) (cont (w_world st)))) \<and>
   (length (slots ops ((mtd, n, nand) # ps)) < length bs \<longrightarrow> write_loop ops False 0 mtd (part_info es n nand) (map fst ps) st = Some (Exit 1))"
proof (induction ps arbitrary: mtd n nand st bs)
  case Nil
  note part = parts_ok_Cons [OF Nil.prems(1), THEN conjunct1]
  then have es: "0 < es" by (simp add: part_ok_def)
  have sl: "slots ops [(mtd, n, nand)] = map (Pair mtd) (good_blocks ops mtd 0 n)" by (simp add: slots_def)
  note wp = write_part [OF part Nil.prems(2) _ sl [symmetric, THEN sym] Nil.prems(3), where nxt = "[]"]
  have "write_loop ops False 0 mtd (part_info es n nand) [] st' = Some (Exit 1)"
    if st': "at_block es k nand st'" "k \<le> n" "good_blocks ops mtd k n = []" "pending_bytes st' \<noteq> []" for st' k
  proof (cases nand)
    case True
    obtain st1 where 1: "next_block (part_info es n nand) st' = Ret (Some st1)" "at_block es k nand st1" "w_buflen st1 = int es"
      using block_at(2) [OF st'(1) es st'(4), where n = n] by blast
    have "erase_ahead ops mtd (part_info es n nand) st1 = Some (Exit 1)"
      using erase_ahead_none [of ops cont mtd es n k st1] part st'(2,3) 1(2,3) True by (simp add: at_block_def)
    then show ?thesis using 1(1) by (subst write_loop.simps) simp
  next
    case False
    then have "k = n" using st'(2,3) good_blocks_step [of ops mtd k n] block_is_bad(3) [OF part, of k] by (auto split: if_splits)
    then show ?thesis using write_next_part(1) [of ops cont mtd es n st' "[]"] part st'(1,4) False by simp
  qed
  then show ?case using wp by auto
next
  case (Cons part ps)
  obtain m2 n2 nand2 where p2: "part = (m2, n2, nand2)" by (cases part)
  note ok = parts_ok_Cons [OF Cons.prems(1)]
  then have part: "part_ok ops cont mtd es n False" and nand: "nand = False" and es: "0 < es" by (auto simp: part_ok_def)
  define g where "g = map (Pair mtd) (good_blocks ops mtd 0 n)"
  have sl: "slots ops ((mtd, n, False) # part # ps) = g @ slots ops (part # ps)" by (simp add: slots_def g_def)
  note wp = write_part [OF part Cons.prems(2) [unfolded nand] _ g_def Cons.prems(3), where nxt = "map fst (part # ps)"]
  show ?case
  proof (cases "length bs \<le> length g")
    case True
    then show ?thesis using wp unfolding sl nand by (simp add: zip_append1)
  next
    case False
    then obtain st' k where st': "write_loop ops False 0 mtd (part_info es n False) (map fst (part # ps)) st =
          write_loop ops False 0 mtd (part_info es n False) (map fst (part # ps)) st'"
        "at_block es k False st'" "k \<le> n" "good_blocks ops mtd k n = []" "pending_bytes st' \<noteq> []" "blocks_of es (pending_bytes st') = drop (length g) bs"
        "cont (w_world st') = put_blocks es (zip g bs) (cont (w_world st))"
      using wp by auto
    have "k = n" using st'(3,4) good_blocks_step [of ops mtd k n] block_is_bad(3) [OF part, of k] by (auto split: if_splits)
    moreover have part2: "part_ok ops cont m2 es n2 nand2" using ok by (auto simp: p2 dest: parts_ok_Cons)
    ultimately obtain st2 where st2: "write_loop ops False 0 mtd (part_info es n False) (map fst (part # ps)) st' =
          write_loop ops False 0 m2 (part_info es n2 nand2) (map fst ps) st2" "at_block es 0 nand2 st2"
        "pending_bytes st2 = pad_block es (take es (pending_bytes st')) @ drop es (pending_bytes st')" "cont (w_world st2) = cont (w_world st')"
      using write_next_part(2) [OF part _ st'(5), of "map fst (part # ps)" m2 "map fst ps" n2 nand2] st'(2) by (auto simp: p2)
    have bs: "drop (length g) bs = blocks_of es (pending_bytes st2)"
      unfolding st2(3) st'(6) [symmetric] by (rule blocks_of_padded [OF es st'(5), symmetric])
    have "zip (g @ slots ops (part # ps)) bs = zip g bs @ zip (slots ops (part # ps)) (drop (length g) bs)"
      unfolding zip_append1 append_same_eq by (rule nth_equalityI) simp_all
    then have "put_blocks es (zip (g @ slots ops (part # ps)) bs) c = put_blocks es (zip (slots ops (part # ps)) (drop (length g) bs)) (put_blocks es (zip g bs) c)" for c
      by (simp add: put_blocks_def)
    then show ?thesis
      using Cons.IH [of m2 n2 nand2 st2 "drop (length g) bs", OF _ st2(2) bs] ok False st'(1,7) st2(1,4) unfolding nand sl unfolding p2
      by (auto simp: less_diff_conv2)
  qed
qed

end
