(* ===== verification/Mtd_Props.thy ===== *)
theory Mtd_Props
  imports Mtd_Write Trx_Props
begin

text \<open>
  Properties of the flash tool: an image is put into the good blocks in order and the rest of a partition is kept, what is accepted as an
  image, and the repair of a TRX header.
\<close>

section \<open>Reading the partitions\<close>

definition block_at_index :: "nat \<Rightarrow> byte list \<Rightarrow> nat \<Rightarrow> byte list" where
  "block_at_index es c i = take es (drop (i * es) c)"

lemma block_put_at:
  assumes "length b = es" and "Suc i * es \<le> length c"
  shows "block_at_index es (put_at (i * es) b c) j = (if j = i then b else block_at_index es c j)" "length (put_at (i * es) b c) = length c"
proof -
  have l: "i * es + es \<le> length c" using assms(2) by simp
  consider "j = i" | "Suc j \<le> i" | "Suc i \<le> j" by linarith
  then show "block_at_index es (put_at (i * es) b c) j = (if j = i then b else block_at_index es c j)"
  proof cases
    case 2
    then have "j * es + es \<le> i * es" by (metis add.commute mult_Suc mult_le_mono1)
    then have "es \<le> i * es - j * es" by simp
    then show ?thesis using l 2 by (simp add: block_at_index_def put_at_def drop_take min_absorb1)
  next
    case 3
    then have "i * es + es \<le> j * es" by (metis add.commute mult_Suc mult_le_mono1)
    then show ?thesis using l 3 assms(1) by (simp add: block_at_index_def put_at_def)
  qed (use l assms(1) in \<open>simp add: block_at_index_def put_at_def\<close>)
  show "length (put_at (i * es) b c) = length c" using l assms(1) by (simp add: put_at_def)
qed

definition read_slots :: "nat \<Rightarrow> (string \<Rightarrow> byte list) \<Rightarrow> (string \<times> nat) list \<Rightarrow> byte list" where
  "read_slots es c sl = concat (map (\<lambda>(m, i). block_at_index es (c m) i) sl)"

lemma put_blocks_read:
  "\<lbrakk>distinct sl; length bs = length sl; \<forall>b \<in> set bs. length b = es; \<forall>(m, i) \<in> set sl. Suc i * es \<le> length (c m)\<rbrakk> \<Longrightarrow>
    read_slots es (put_blocks es (zip sl bs) c) sl = concat bs \<and>
    (\<forall>m i. (m, i) \<notin> set sl \<longrightarrow> block_at_index es (put_blocks es (zip sl bs) c m) i = block_at_index es (c m) i) \<and>
    (\<forall>m. length (put_blocks es (zip sl bs) c m) = length (c m))"
proof (induction sl bs arbitrary: c rule: list_induct2')
  case (4 x sl b bs)
  obtain m i where x: "x = (m, i)" by (cases x)
  let ?c = "c(m := put_at (i * es) b (c m))"
  have b: "length b = es" "Suc i * es \<le> length (c m)" using "4.prems" by (simp_all add: x)
  note pb = block_put_at [OF b]
  have eq: "put_blocks es (zip (x # sl) (b # bs)) c = put_blocks es (zip sl bs) ?c" by (simp add: put_blocks_def x)
  have len: "length (?c m') = length (c m')" for m' using pb(2) by simp
  have IH: "read_slots es (put_blocks es (zip sl bs) ?c) sl = concat bs \<and>
      (\<forall>m i. (m, i) \<notin> set sl \<longrightarrow> block_at_index es (put_blocks es (zip sl bs) ?c m) i = block_at_index es (?c m) i) \<and>
      (\<forall>m. length (put_blocks es (zip sl bs) ?c m) = length (?c m))"
    by (rule "4.IH") (use "4.prems" len in auto)
  then have "block_at_index es (put_blocks es (zip sl bs) ?c m) i = b" using "4.prems"(1) pb(1) by (simp add: x)
  then show ?case unfolding eq using IH len pb(1) by (auto simp: read_slots_def x)
qed (simp_all add: read_slots_def put_blocks_def)

lemma slots_distinct: "distinct (map fst ps) \<Longrightarrow> distinct (slots ops ps)"
proof (induction ps)
  case (Cons p ps)
  obtain m n nand where p: "p = (m, n, nand)" by (cases p)
  have "fst x \<in> fst ` set ps" if "x \<in> set (slots ops ps)" for x using that by (force simp: slots_def)
  then have "set (map (Pair m) (good_blocks ops m 0 n)) \<inter> set (slots ops ps) = {}" using Cons.prems by (fastforce simp: p)
  moreover have "distinct (map (Pair m) (good_blocks ops m 0 n))" by (simp add: good_blocks_def distinct_map inj_on_def)
  moreover have "slots ops (p # ps) = map (Pair m) (good_blocks ops m 0 n) @ slots ops ps" by (simp add: slots_def p)
  ultimately show ?case using Cons by simp
qed (simp add: slots_def)

lemma slots_inside: "parts_ok ops cont es ps \<Longrightarrow> (m, i) \<in> set (slots ops ps) \<Longrightarrow> Suc i * es \<le> length (cont w m)"
proof -
  assume ok: "parts_ok ops cont es ps" and "(m, i) \<in> set (slots ops ps)"
  then obtain n nand where "(m, n, nand) \<in> set ps" "i < n" by (auto simp: slots_def good_blocks_def)
  then have "length (cont w m) = n * es" "Suc i \<le> n" using ok by (auto simp: parts_ok_def part_ok_def)
  then show ?thesis by (metis mult_le_mono1)
qed

lemma ceil_div_step: "0 < es \<Longrightarrow> 0 < l \<Longrightarrow> (l + (es - 1)) div es = Suc ((l - es + (es - 1)) div es)" for l es :: nat
proof (cases "es \<le> l")
  case True
  assume True': "0 < es"
  from True have "(l + (es - 1)) div es = ((l - es + (es - 1)) + es) div es" by (intro arg_cong2 [where f = "(div)"]) simp_all
  also have "\<dots> = Suc ((l - es + (es - 1)) div es)" using True' by (subst div_add_self2) simp_all
  finally show ?thesis .
next
  case False
  assume "0 < es" "0 < l"
  then have "l + (es - 1) = es + (l - 1)" by simp
  moreover have "(es + (l - 1)) div es = Suc ((l - 1) div es)"
    using \<open>0 < es\<close> div_add_self1 [of es "l - 1"] by (simp only: Suc_eq_plus1)
  moreover have "(l - 1) div es = 0" "(l - es + (es - 1)) div es = 0" using False \<open>0 < es\<close> by simp_all
  ultimately show ?thesis by (simp only:)
qed

lemma blocks_of_eq: "0 < es \<Longrightarrow> blocks_of es p = (if p = [] then [] else pad_block es (take es p) # blocks_of es (drop es p))"
  by (subst blocks_of.simps) simp

lemma blocks_of_length: "0 < es \<Longrightarrow> b \<in> set (blocks_of es p) \<Longrightarrow> length b = es"
proof (induction es p rule: blocks_of.induct)
  case (1 es p)
  then show ?case using blocks_of_eq [of es p] by (auto simp: length_pad_block split: if_splits)
qed

lemma blocks_of_count: "0 < es \<Longrightarrow> length (blocks_of es p) = (length p + (es - 1)) div es"
proof (induction es p rule: blocks_of.induct)
  case (1 es p)
  then show ?case using blocks_of_eq [of es p] ceil_div_step [of es "length p"] by (cases "p = []") simp_all
qed

lemma blocks_of_concat: "0 < es \<Longrightarrow> take (length p) (concat (blocks_of es p)) = p \<and> length p \<le> length (concat (blocks_of es p))"
proof (induction es p rule: blocks_of.induct)
  case (1 es p)
  note eq = blocks_of_eq [OF "1.prems", of p]
  show ?case
  proof (cases "p = [] \<or> length p < es")
    case False
    then have "pad_block es (take es p) = take es p" by (simp add: pad_block_def)
    then show ?thesis using "1.IH" False "1.prems" unfolding eq by (simp add: le_diff_conv add.commute not_less)
  qed (auto simp: eq pad_block_def)
qed

section \<open>The command\<close>

text \<open>What the partitions hold after a write: the image in the first good blocks, everything else as before.\<close>

definition image_placed :: "nat \<Rightarrow> (string \<times> nat) list \<Rightarrow> byte list \<Rightarrow> (string \<Rightarrow> byte list) \<Rightarrow> (string \<Rightarrow> byte list) \<Rightarrow> bool" where
  "image_placed es sl p c c' \<longleftrightarrow>
     (let used = take ((length p + (es - 1)) div es) sl in
      take (length p) (read_slots es c' used) = p \<and> length p \<le> length (read_slots es c' used) \<and>
      (\<forall>m i. (m, i) \<notin> set used \<longrightarrow> block_at_index es (c' m) i = block_at_index es (c m) i))"

lemma zip_prefix: "zip xs ys = zip (take (length ys) xs) ys"
  by (rule nth_equalityI) simp_all

lemma mtd_write_parts:
  assumes ok: "parts_ok ops cont es ps" "ps \<noteq> []" "distinct (map fst ps)" and names: "mtd_names mtds = map fst ps" and evs: "good_events evs"
    and mem: "length mem = es" "b \<le> es" and p: "p = take b mem @ image_bytes evs"
  shows "length p \<le> es * length (slots ops ps) \<Longrightarrow>
      \<exists>w'. mtd_write ops False 0 evs mtds (Some mem) (int b) w = Some (Ret w') \<and> image_placed es (slots ops ps) p (cont w) (cont w')"
    and "es * length (slots ops ps) < length p \<Longrightarrow> mtd_write ops False 0 evs mtds (Some mem) (int b) w = Some (Exit 1)"
proof -
  obtain mtd n nand ps' where ps: "ps = (mtd, n, nand) # ps'" using ok(2) by (metis neq_Nil_conv prod_cases3)
  note part = parts_ok_Cons [OF ok(1) [unfolded ps], THEN conjunct1]
  then have es: "0 < es" by (simp add: part_ok_def)
  let ?st = "\<lparr>w_mem = mem, w_buflen = int b, w_w = 0, w_e = 0, w_skip_bad = 0, w_offset = 0, w_pos = 0, w_world = w, w_image = evs\<rparr>"
  let ?bs = "blocks_of es p" and ?sl = "slots ops ps"
  have at: "at_block es 0 nand ?st" using evs mem by (simp add: at_block_def)
  have pend: "pending_bytes ?st = p" by (simp add: pending_bytes_def p)
  have run: "mtd_write ops False 0 evs mtds (Some mem) (int b) w =
      map_option (\<lambda>r. obind r (\<lambda>st. Ret (w_world st))) (write_loop ops False 0 mtd (part_info es n nand) (map fst ps') ?st)"
    using part by (simp add: mtd_write_def names ps mtd_check_open_def part_ok_def)
  note loop = write_loop_parts [OF ok(1) [unfolded ps] at refl, unfolded pend, folded ps]
  note bs = blocks_of_length [OF es, of _ p] blocks_of_concat [OF es, of p]
  have count: "length ?bs = (length p + (es - 1)) div es" by (rule blocks_of_count [OF es])
  have room: "length ?bs \<le> length ?sl \<longleftrightarrow> length p \<le> es * length ?sl"
    unfolding count using es less_eq_div_iff_mult_less_eq [OF es, of "Suc (length ?sl)" "length p + (es - 1)"] by (auto simp: algebra_simps not_less_eq_eq [symmetric])
  {
    assume "length p \<le> es * length ?sl"
    then have l: "length ?bs \<le> length ?sl" using room by simp
    then obtain st' where w: "write_loop ops False 0 mtd (part_info es n nand) (map fst ps') ?st = Some (Ret st')"
      and c: "cont (w_world st') = put_blocks es (zip ?sl ?bs) (cont w)" using loop by auto
    let ?used = "take (length ?bs) ?sl"
    have "\<forall>(m, i) \<in> set ?used. Suc i * es \<le> length (cont w m)" using slots_inside [OF ok(1)] by (auto dest!: in_set_takeD)
    then have "read_slots es (cont (w_world st')) ?used = concat ?bs \<and>
        (\<forall>m i. (m, i) \<notin> set ?used \<longrightarrow> block_at_index es (cont (w_world st') m) i = block_at_index es (cont w m) i)"
      unfolding c zip_prefix [of ?sl ?bs] using put_blocks_read [of ?used ?bs es "cont w"] slots_distinct [OF ok(3), of ops] l bs
      by (simp only: distinct_take) simp
    then have "image_placed es ?sl p (cont w) (cont (w_world st'))"
      using bs unfolding image_placed_def Let_def count by simp
    then show "\<exists>w'. mtd_write ops False 0 evs mtds (Some mem) (int b) w = Some (Ret w') \<and> image_placed es ?sl p (cont w) (cont w')"
      using run w by simp
  next
    assume "es * length ?sl < length p"
    then show "mtd_write ops False 0 evs mtds (Some mem) (int b) w = Some (Exit 1)" using run loop room by simp
  }
qed

section \<open>The command line\<close>

definition mtd_device :: "'w mtd_ops \<Rightarrow> ('w \<Rightarrow> string \<Rightarrow> byte list) \<Rightarrow> nat \<Rightarrow> part list \<Rightarrow> string \<Rightarrow> bool" where
  "mtd_device ops cont es ps device \<longleftrightarrow> parts_ok ops cont es ps \<and> ps \<noteq> [] \<and> distinct (map fst ps) \<and> mtd_names device = map fst ps"

lemma mtd_check_all_ok:
  "\<forall>(m, n, nand) \<in> set ps. part_ok ops cont m es n nand \<Longrightarrow> malloc es = Some mem \<Longrightarrow>
    mtd_check_all ops malloc (map fst ps) buf = Some (if ps = [] then buf else case buf of None \<Rightarrow> Some mem | Some m \<Rightarrow> Some m)"
  by (induction ps arbitrary: buf) (auto simp: part_ok_def mtd_check_open_def split: option.splits)

lemma unlock_all_ok:
  "\<forall>(m, n, nand) \<in> set ps. part_ok ops cont m es n nand \<Longrightarrow>
    \<exists>w'. unlock_all ops (map fst ps) w = Ret w' \<and> cont w' = cont w"
proof (induction ps arbitrary: w)
  case (Cons p ps)
  obtain m n nand where p: "p = (m, n, nand)" by (cases p)
  then have part: "part_ok ops cont m es n nand" using Cons.prems by simp
  let ?w = "mo_unlock ops m 0 (int (n * es)) w"
  have "cont ?w = cont w" using part by (simp add: part_ok_def erase_ok_def)
  moreover obtain w' where "unlock_all ops (map fst ps) ?w = Ret w'" "cont w' = cont ?w" using Cons.IH [of ?w] Cons.prems by auto
  ultimately show ?case using part by (simp add: p part_ok_def mtd_check_open_def)
qed simp

lemma mtd_run_write:
  assumes dev: "mtd_device ops cont es ps device" and before: "before_write has_trx ops malloc en op device img = Ret (Some mem, int b, evs)"
    and op: "o_erase op = []" "\<not> o_no_erase op" "o_part_offset op = 0"
    and evs: "good_events evs" and mem: "length mem = es" "b \<le> es" and p: "p = take b mem @ image_bytes evs"
  shows "length p \<le> es * length (slots ops ps) \<Longrightarrow>
      \<exists>w'. mtd_run has_trx ops malloc en md5 op (Cmd_write img) device w = Some (Ret w') \<and> image_placed es (slots ops ps) p (cont w) (cont w')"
    and "es * length (slots ops ps) < length p \<Longrightarrow> mtd_run has_trx ops malloc en md5 op (Cmd_write img) device w = Some (Exit 1)"
proof -
  have d: "parts_ok ops cont es ps" "ps \<noteq> []" "distinct (map fst ps)" "mtd_names device = map fst ps"
    using dev by (simp_all add: mtd_device_def)
  then have all: "\<forall>(m, n, nand) \<in> set ps. part_ok ops cont m es n nand" by (simp add: parts_ok_def)
  obtain w1 where w1: "mtd_unlock ops device w = Ret w1" "cont w1 = cont w"
    using unlock_all_ok [OF all, of w] by (auto simp: mtd_unlock_def d(4))
  have run: "mtd_run has_trx ops malloc en md5 op (Cmd_write img) device w = mtd_write ops False 0 evs device (Some mem) (int b) w1"
    using before op w1(1) by (simp add: mtd_run_def opt_bind_def unlock_device_def)
  note parts = mtd_write_parts [OF d evs mem p, of w1]
  show "length p \<le> es * length (slots ops ps) \<Longrightarrow>
      \<exists>w'. mtd_run has_trx ops malloc en md5 op (Cmd_write img) device w = Some (Ret w') \<and> image_placed es (slots ops ps) p (cont w) (cont w')"
    unfolding run using parts(1) w1(2) by simp
  show "es * length (slots ops ps) < length p \<Longrightarrow> mtd_run has_trx ops malloc en md5 op (Cmd_write img) device w = Some (Exit 1)"
    unfolding run by (rule parts(2))
qed

lemma before_write_plain:
  assumes dev: "mtd_device ops cont es ps device" and "malloc es = Some mem" and "\<not> has_trx \<or> device \<noteq> ''linux''"
  shows "before_write has_trx ops malloc en op device (Some evs) = Ret (Some mem, int 0, evs)"
proof -
  have d: "ps \<noteq> []" "mtd_names device = map fst ps" "\<forall>(m, n, nand) \<in> set ps. part_ok ops cont m es n nand"
    using dev by (simp_all add: mtd_device_def parts_ok_def)
  show ?thesis
    using mtd_check_all_ok [where malloc = malloc, OF d(3) assms(2), of None] d(1,2) assms(3)
    by (auto simp: before_write_def mtd_check_def image_check_def trx_check_def)
qed

text \<open>
  C13. Writing an image, without \<^verbatim>\<open>-e\<close>, \<^verbatim>\<open>-n\<close> and \<^verbatim>\<open>-p\<close>, into partitions with blocks of one size, all but the last of them NOR flash. However the reads of the file are cut, \<^verbatim>\<open>mtd write\<close> into a list of partitions puts the image into the good
  blocks of the first partition, then of the next ones, in order, and keeps all other blocks of all partitions; if the good blocks do not suffice the
  command fails.
\<close>

theorem mtd_write_image:
  assumes dev: "mtd_device ops cont es ps device" and mem: "malloc es = Some mem" "length mem = es" and evs: "good_events evs"
    and no_check: "\<not> has_trx \<or> device \<noteq> ''linux''" and op: "o_erase op = []" "\<not> o_no_erase op" "o_part_offset op = 0"
  shows "(length (image_bytes evs) \<le> es * length (slots ops ps) \<longrightarrow>
      (\<exists>w'. mtd_run has_trx ops malloc en md5 op (Cmd_write (Some evs)) device w = Some (Ret w') \<and>
        image_placed es (slots ops ps) (image_bytes evs) (cont w) (cont w'))) \<and>
    (es * length (slots ops ps) < length (image_bytes evs) \<longrightarrow>
      mtd_run has_trx ops malloc en md5 op (Cmd_write (Some evs)) device w = Some (Exit 1))"
  using mtd_run_write [OF dev before_write_plain [where malloc = malloc, OF dev mem(1) no_check] op evs mem(2)] by simp

section \<open>Images of the TRX writer\<close>

lemma trx_valid_length: "trx_valid im \<Longrightarrow> 0x1000 \<le> length im"
proof -
  assume v: "trx_valid im"
  have "im \<noteq> []"
  proof
    assume "im = []"
    then have "trx_field trx_magic im = 0" by (simp add: trx_field_def u32_of_bytes_def word_be_def)
    then show False using v by (simp add: trx_valid_def TRX_MAGIC_def)
  qed
  moreover have "length im mod 0x1000 = 0" using v by (simp add: trx_valid_def)
  ultimately show ?thesis by (metis dvd_imp_le length_greater_0_conv mod_0_imp_dvd)
qed

lemma trx_valid_magic_bytes: "trx_valid im \<Longrightarrow> take 4 im = [0x48, 0x44, 0x52, 0x30]"
proof -
  assume v: "trx_valid im"
  have "bytes_of_u32 LittleEndian (u32_of_bytes LittleEndian (take 4 im)) = take 4 im"
    by (rule bytes_of_u32_of_bytes) (use trx_valid_length [OF v] in simp)
  moreover have "u32_of_bytes LittleEndian (take 4 im) = TRX_MAGIC" using v by (simp add: trx_valid_def trx_field_def trx_magic_def)
  ultimately have "take 4 im = bytes_of_u32 LittleEndian TRX_MAGIC" by simp
  also have "\<dots> = [0x48, 0x44, 0x52, 0x30]" by code_simp
  finally show ?thesis .
qed

lemma trx_check_valid:
  assumes im: "trx_valid im" and mem: "length mem = es" "32 \<le> es" and part: "mo_info ops ''linux'' = Some (part_info es n nand)"
    and fits: "length im \<le> n * es" "n * es < 2 ^ 32"
  shows "trx_check ops LittleEndian [Data im] ''linux'' (Some mem) = Ret (True, Some (take 32 im @ drop 32 mem), 32, [Data (drop 32 im)])"
    and "trx_check ops BigEndian [Data im] ''linux'' (Some mem) = Ret (False, Some (take 32 im @ drop 32 mem), 32, [Data (drop 32 im)])"
proof -
  have l: "0x1000 \<le> length im" by (rule trx_valid_length [OF im])
  let ?m = "take 32 im @ drop 32 mem"
  have rd: "read_call 32 [Data im] = (Got (take 32 im), [Data (drop 32 im)])" using l by simp
  have w: "mem_write 0 (take 32 im) mem = Ret ?m" using l mem by (simp add: mem_write_def)
  have f: "take 4 ?m = take 4 im" "take 4 (drop 4 ?m) = take 4 (drop 4 im)" using l by (simp_all add: take_drop min_def)
  have magic: "u32_of_bytes LittleEndian (take 4 im) = TRX_MAGIC" and tlen: "unat (u32_of_bytes LittleEndian (take 4 (drop 4 im))) = length im"
    using im by (simp_all add: trx_valid_def trx_field_def trx_magic_def trx_len_def)
  have "\<not> u32_of_bytes LittleEndian (take 4 (drop 4 im)) < of_nat sizeof_trx_header_mtd"
    using tlen l by (simp add: word_less_nat_alt sizeof_trx_header_mtd_def)
  moreover have "unat (of_int (int (n * es)) :: u32) = n * es"
    using fits(2) by (simp only: of_int_of_nat_eq unat_of_nat) (simp add: take_bit_nat_eq_self)
  then have "\<not> (of_int (int (n * es)) :: u32) < u32_of_bytes LittleEndian (take 4 (drop 4 im))"
    using tlen fits(1) by (simp only: word_less_nat_alt not_less)
  moreover have "length (take 32 im) = 32" using l by simp
  ultimately show "trx_check ops LittleEndian [Data im] ''linux'' (Some mem) = Ret (True, Some ?m, 32, [Data (drop 32 im)])"
    unfolding trx_check_def rd using w f magic part by (simp add: Let_def mtd_check_open_def del: take_append take_take of_int_of_nat_eq of_nat_mult)
  have "u32_of_bytes BigEndian (take 4 im) \<noteq> TRX_MAGIC" unfolding trx_valid_magic_bytes [OF im] by code_simp
  then show "trx_check ops BigEndian [Data im] ''linux'' (Some mem) = Ret (False, Some ?m, 32, [Data (drop 32 im)])"
    unfolding trx_check_def rd using w f \<open>length (take 32 im) = 32\<close> by (simp add: Let_def del: take_append take_take)
qed

lemma trx_part_append:
  assumes "28 \<le> length im" and "k < 3" and len: "length (trx_part im k n) = n"
  shows "trx_part (im @ r) k n = trx_part im k n"
proof -
  have f: "trx_field (trx_offsets k) (im @ r) = trx_field (trx_offsets k) im" using assms(1,2) by (simp add: trx_field_def trx_offsets_def)
  define a where "a = unat (trx_field (trx_offsets k) im)"
  have "n - (length im - a) = 0" using len by (simp add: trx_part_def a_def)
  then show ?thesis by (simp add: trx_part_def f flip: a_def)
qed

lemma image_in_slots:
  assumes "image_placed es sl p c c'"
  shows "\<exists>r. read_slots es c' sl = p @ r"
proof -
  let ?used = "take ((length p + (es - 1)) div es) sl"
  have "read_slots es c' sl = read_slots es c' ?used @ read_slots es c' (drop ((length p + (es - 1)) div es) sl)"
    by (simp add: read_slots_def flip: concat_append map_append)
  moreover have "read_slots es c' ?used = p @ drop (length p) (read_slots es c' ?used)"
    using assms by (metis append_take_drop_id image_placed_def)
  ultimately show ?thesis by (metis append.assoc)
qed

lemma good_blocks_length: "length (good_blocks ops mtd i n) \<le> n - i"
  using length_filter_le [of _ "[i..<n]"] by (simp add: good_blocks_def)

lemma trx_image_written:
  assumes im: "trx_valid im" and small: "length im \<le> es * length (slots ops [(''linux'', n, nand)])"
    and dev: "mtd_device ops cont es [(''linux'', n, nand)] ''linux''" and mem: "malloc es = Some mem" "length mem = es" "32 \<le> es" and flash: "n * es < 2 ^ 32"
    and op: "o_erase op = []" "\<not> o_no_erase op" "o_part_offset op = 0"
  shows "\<exists>w'. mtd_run True ops malloc LittleEndian md5 op (Cmd_write (Some [Data im])) ''linux'' w = Some (Ret w') \<and>
      image_placed es (slots ops [(''linux'', n, nand)]) im (cont w) (cont w')"
    and "\<not> o_force op \<Longrightarrow> mtd_run True ops malloc BigEndian md5 op (Cmd_write (Some [Data im])) ''linux'' w = Some (Exit 1)"
proof -
  have d: "mtd_names ''linux'' = map fst [(''linux'', n, nand)]" "\<forall>(m, k, b) \<in> set [(''linux'', n, nand)]. part_ok ops cont m es k b"
    using dev by (simp_all add: mtd_device_def parts_ok_def)
  have chk: "mtd_check ops malloc ''linux'' = Some (Some mem)"
    using mtd_check_all_ok [where malloc = malloc, OF d(2) mem(1), of None] by (simp add: mtd_check_def d(1))
  have info: "mo_info ops ''linux'' = Some (part_info es n nand)" using d(2) by (simp add: part_ok_def)
  have "length (slots ops [(''linux'', n, nand)]) \<le> n" using good_blocks_length [of ops "''linux''" 0 n] by (simp add: slots_def)
  then have "es * length (slots ops [(''linux'', n, nand)]) \<le> es * n" by (rule mult_le_mono2)
  then have fits: "length im \<le> n * es" using small by (simp only: mult.commute [of n es])
  note tc = trx_check_valid [OF im mem(2,3) info fits flash]
  have l: "0x1000 \<le> length im" by (rule trx_valid_length [OF im])
  have "before_write True ops malloc LittleEndian op ''linux'' (Some [Data im]) = Ret (Some (take 32 im @ drop 32 mem), int 32, [Data (drop 32 im)])"
    using chk tc(1) by (simp add: before_write_def image_check_def)
  moreover have "good_events [Data (drop 32 im)]" using l by (simp add: good_events_def)
  moreover have "im = take 32 (take 32 im @ drop 32 mem) @ image_bytes [Data (drop 32 im)]" using l by simp
  moreover have "length (take 32 im @ drop 32 mem) = es" using mem(2,3) l by simp
  ultimately show "\<exists>w'. mtd_run True ops malloc LittleEndian md5 op (Cmd_write (Some [Data im])) ''linux'' w = Some (Ret w') \<and>
      image_placed es (slots ops [(''linux'', n, nand)]) im (cont w) (cont w')"
    using mtd_run_write(1) [OF dev _ op _ _ mem(3), of True malloc LittleEndian "Some [Data im]"] small by blast
  show "\<not> o_force op \<Longrightarrow> mtd_run True ops malloc BigEndian md5 op (Cmd_write (Some [Data im])) ''linux'' w = Some (Exit 1)"
    using chk tc(2) by (simp add: mtd_run_def before_write_def image_check_def opt_bind_def)
qed

text \<open>
  C27. From the writer of images to the flash. An image that \<^verbatim>\<open>trx\<close> makes of up to three files is accepted and written by \<^verbatim>\<open>mtd write\<close>
  on a little-endian device, and every file is found in the good blocks of the partition at the offset in the header; a big-endian device, which
  reads the header in its own byte order, refuses the same image.
\<close>

theorem trx_image_flashed:
  assumes host: "malloc 0x720000 = Some mem" "length mem = 0x720000" "creatable fs ofn" "\<forall>n. has_space fs n"
    "map (files fs) ns = map Some ds" "\<forall>n \<in> set ns. readable fs n" "ofn \<notin> set ns"
    "ds \<noteq> []" "length ds \<le> 3" "28 + length (concat (map pad4 ds)) < 0x720000"
    and dev: "mtd_device ops cont es [(''linux'', n, nand)] ''linux''" and room: "0x720000 \<le> es * length (slots ops [(''linux'', n, nand)])"
    and buf: "dmalloc es = Some dmem" "length dmem = es" "32 \<le> es" and flash: "n * es < 2 ^ 32"
    and op: "o_erase op = []" "\<not> o_no_erase op" "o_part_offset op = 0" "\<not> o_force op"
  shows "\<exists>im w'. trx_main sc malloc realloc ([''-o'', ofn] @ f_args ns) fs = Ret ([], fs\<lparr>files := (files fs)(ofn \<mapsto> im)\<rparr>) \<and>
    mtd_run True ops dmalloc LittleEndian md5 op (Cmd_write (Some [Data im])) ''linux'' w = Some (Ret w') \<and>
    (\<forall>k < length ds. trx_part (read_slots es (cont w') (slots ops [(''linux'', n, nand)])) k (length (ds ! k)) = ds ! k) \<and>
    mtd_run True ops dmalloc BigEndian md5 op (Cmd_write (Some [Data im])) ''linux'' w = Some (Exit 1)"
proof -
  obtain im where im: "length im \<le> 0x720000" "trx_valid im"
      "trx_main sc malloc realloc ([''-o'', ofn] @ f_args ns) fs = Ret ([], fs\<lparr>files := (files fs)(ofn \<mapsto> im)\<rparr>)"
      "\<forall>k < length ds. trx_part im k (length (ds ! k)) = ds ! k"
    using trx_main_image [where malloc = malloc, OF host, of sc realloc] by blast
  have small: "length im \<le> es * length (slots ops [(''linux'', n, nand)])" using im(1) room by simp
  note written = trx_image_written [where malloc = dmalloc, OF im(2) small dev buf flash op(1-3)]
  obtain w' where w': "mtd_run True ops dmalloc LittleEndian md5 op (Cmd_write (Some [Data im])) ''linux'' w = Some (Ret w')"
    "image_placed es (slots ops [(''linux'', n, nand)]) im (cont w) (cont w')" using written(1) by blast
  obtain r where r: "read_slots es (cont w') (slots ops [(''linux'', n, nand)]) = im @ r" using image_in_slots [OF w'(2)] by blast
  have "trx_part (im @ r) k (length (ds ! k)) = ds ! k" if "k < length ds" for k
    using trx_part_append [of im k "length (ds ! k)" r] trx_valid_length [OF im(2)] im(4) that host(9) by simp
  then show ?thesis using im(3) w'(1) written(2) [OF op(4)] r by metis
qed

section \<open>The repair of a header\<close>

definition read_ok :: "'w mtd_ops \<Rightarrow> ('w \<Rightarrow> string \<Rightarrow> byte list) \<Rightarrow> string \<Rightarrow> bool" where
  "read_ok ops cont mtd \<longleftrightarrow> (\<forall>w off n. mo_read ops mtd (int off) n w = Some (take n (drop off (cont w mtd))))"







section \<open>Verification\<close>

text \<open>\<^verbatim>\<open>mtd_verify\<close> compares the digest of the file with that of the first bytes of the partition; the exit status of the command does not
  depend on its result.\<close>

lemma verify_read_prefix:
  assumes "read_ok ops cont mtd"
  shows "verify_read ops mtd w (int pos) n got = Some (got @ take n (drop pos (cont w mtd)))"
proof (induction n arbitrary: pos got rule: less_induct)
  case (less n)
  let ?bs = "take (min n 256) (drop pos (cont w mtd))"
  have rd: "mo_read ops mtd (int pos) (min n 256) w = Some ?bs" using assms by (simp add: read_ok_def)
  show ?case
  proof (cases "?bs = []")
    case True
    then have "take n (drop pos (cont w mtd)) = []" by (auto split: if_splits simp: min_def)
    then show ?thesis using rd True by (subst verify_read.simps) (simp add: Let_def)
  next
    case False
    then have l: "0 < length ?bs" by (cases ?bs) simp_all
    have split: "?bs @ take (n - length ?bs) (drop (pos + length ?bs) (cont w mtd)) = take n (drop pos (cont w mtd))"
    proof (cases "length (drop pos (cont w mtd)) \<le> min n 256")
      case True
      then show ?thesis by simp
    next
      case False
      then have "min n 256 \<le> length (drop pos (cont w mtd))" using nat_le_linear by blast
      then have "length ?bs = min n 256" by (simp only: length_take min_absorb2)
      then show ?thesis using take_add [of "min n 256" "n - min n 256" "drop pos (cont w mtd)"] by (simp add: add.commute)
    qed
    show ?thesis
    proof (cases "n - length ?bs > 0")
      case True
      then show ?thesis using less [of "n - length ?bs" "pos + length ?bs" "got @ ?bs"] rd False l split
        by (subst verify_read.simps) (simp add: Let_def)
    next
      case end': False
      then show ?thesis using rd False split by (subst verify_read.simps) (simp add: Let_def)
    qed
  qed
qed

lemma mtd_verify_prefix:
  assumes "read_ok ops cont mtd" and "part_ok ops cont mtd es n nand"
  shows "mtd_verify ops md5 mtd (Some f) w = (if md5 f = md5 (take (length f) (cont w mtd)) then 0 else 1)"
    and "o_erase op = [] \<Longrightarrow> mtd_run has_trx ops malloc en md5 op (Cmd_verify (Some f)) mtd w = Some (Ret w)"
  using verify_read_prefix [OF assms(1), of w 0 "length f" "[]"] assms(2)
  by (simp_all add: mtd_verify_def mtd_check_open_def part_ok_def mtd_run_def opt_bind_def)

section \<open>Witnesses\<close>

text \<open>Partitions in memory: sizes in blocks, whether they are NAND flash, and bad blocks.\<close>

definition sim_cont :: "nat \<Rightarrow> (string \<Rightarrow> nat option) \<Rightarrow> (string \<Rightarrow> byte list) \<Rightarrow> string \<Rightarrow> byte list" where
  "sim_cont es sizes w m = (case sizes m of None \<Rightarrow> w m | Some n \<Rightarrow> take (n * es) (w m @ replicate (n * es) 0))"

definition sim_put :: "nat \<Rightarrow> (string \<Rightarrow> nat option) \<Rightarrow> string \<Rightarrow> int \<Rightarrow> byte list \<Rightarrow> (string \<Rightarrow> byte list) \<Rightarrow> (bool \<times> (string \<Rightarrow> byte list))" where
  "sim_put es sizes m off bs w =
     (case sizes m of
        None \<Rightarrow> (False, w)
      | Some n \<Rightarrow>
          if 0 \<le> off \<and> off + int (length bs) \<le> int (n * es) then (True, w(m := put_at (nat off) bs (sim_cont es sizes w m))) else (False, w))"

definition mtd_sim :: "nat \<Rightarrow> (string \<Rightarrow> nat option) \<Rightarrow> (string \<Rightarrow> bool) \<Rightarrow> (string \<Rightarrow> nat \<Rightarrow> bool) \<Rightarrow> (string \<Rightarrow> byte list) mtd_ops" where
  "mtd_sim es sizes nand bad = \<lparr>
     mo_info = (\<lambda>m. map_option (\<lambda>n. part_info es n (nand m)) (sizes m)),
     mo_bad = (\<lambda>m off. case sizes m of None \<Rightarrow> - 1 | Some n \<Rightarrow> if off < int (n * es) then (if bad m (nat off div es) then 1 else 0) else - 1),
     mo_unlock = (\<lambda>m off len w. w),
     mo_erase = (\<lambda>m off. sim_put es sizes m off (replicate es 0xFF)),
     mo_write = (\<lambda>m off bs w. case sim_put es sizes m off bs w of (ok, w') \<Rightarrow> (if ok then int (length bs) else - 1, w')),
     mo_read = (\<lambda>m off n w. Some (take n (drop (nat off) (sim_cont es sizes w m))))\<rparr>"

lemma sim_put_inside:
  assumes "sizes m = Some n" and "off + length bs \<le> n * es"
  shows "sim_put es sizes m (int off) bs w = (True, w(m := put_at off bs (sim_cont es sizes w m)))"
    and "sim_cont es sizes (w(m := put_at off bs (sim_cont es sizes w m))) = (sim_cont es sizes w)(m := put_at off bs (sim_cont es sizes w m))"
proof -
  have "int off + int (length bs) \<le> int (n * es)" using assms(2) by (simp only: of_nat_add [symmetric] of_nat_le_iff)
  then show "sim_put es sizes m (int off) bs w = (True, w(m := put_at off bs (sim_cont es sizes w m)))"
    using assms(1) by (simp add: sim_put_def)
  have "length (put_at off bs (sim_cont es sizes w m)) = n * es" using assms by (simp add: put_at_def sim_cont_def)
  then show "sim_cont es sizes (w(m := put_at off bs (sim_cont es sizes w m))) = (sim_cont es sizes w)(m := put_at off bs (sim_cont es sizes w m))"
    using assms(1) by (auto simp: sim_cont_def fun_eq_iff split: option.split)
qed

lemma mtd_sim_part:
  assumes sz: "sizes m = Some n" and es: "0 < es"
  shows "part_ok (mtd_sim es sizes nand bad) (sim_cont es sizes) m es n (nand m)" and "read_ok (mtd_sim es sizes nand bad) (sim_cont es sizes) m"
    and "bad_block (mtd_sim es sizes nand bad) m i \<longleftrightarrow> nand m \<and> (n \<le> i \<or> bad m i)"
proof -
  have le: "i * es + es \<le> n * es" if "i < n" for i using that by (metis Suc_leI add.commute mult_Suc mult_le_mono1)
  have lt: "int i * int es < int n * int es \<longleftrightarrow> i < n" for i using es by simp
  have "erase_ok (mtd_sim es sizes nand bad) (sim_cont es sizes) m es n"
    unfolding erase_ok_def
  proof (intro conjI allI impI)
    fix w i
    assume "i < n \<and> \<not> bad_block (mtd_sim es sizes nand bad) m i"
    then have f: "i * es + length (replicate es (0xFF :: byte)) \<le> n * es" using le by simp
    note put = sim_put_inside [where sizes = sizes, OF sz f, of w]
    show "fst (mo_erase (mtd_sim es sizes nand bad) m (int i * int es) w)" using put(1) by (simp add: mtd_sim_def)
    show "sim_cont es sizes (snd (mo_erase (mtd_sim es sizes nand bad) m (int i * int es) w)) =
        (sim_cont es sizes w)(m := put_at (i * es) (replicate es 0xFF) (sim_cont es sizes w m))"
      using put by (simp add: mtd_sim_def)
  next
    fix w i
    assume "n \<le> i"
    then have "n * es < i * es + es" using es by (metis add_strict_increasing add.commute mult_le_mono1)
    then have "int (n * es) < int i * int es + int es" by (simp only: of_nat_mult [symmetric] of_nat_add [symmetric] of_nat_less_iff)
    then have "sim_put es sizes m (int i * int es) (replicate es 0xFF) w = (False, w)" using sz by (simp add: sim_put_def)
    then show "\<not> fst (mo_erase (mtd_sim es sizes nand bad) m (int i * int es) w)"
      "sim_cont es sizes (snd (mo_erase (mtd_sim es sizes nand bad) m (int i * int es) w)) = sim_cont es sizes w"
      by (simp_all add: mtd_sim_def)
  qed (simp add: mtd_sim_def)
  moreover have "write_ok (mtd_sim es sizes nand bad) (sim_cont es sizes) m (n * es)"
    using sim_put_inside [where sizes = sizes, OF sz] by (auto simp: write_ok_def mtd_sim_def)
  ultimately show "part_ok (mtd_sim es sizes nand bad) (sim_cont es sizes) m es n (nand m)"
    using sz es lt by (auto simp: part_ok_def mtd_sim_def sim_cont_def)
  show "read_ok (mtd_sim es sizes nand bad) (sim_cont es sizes) m" by (simp add: read_ok_def mtd_sim_def)
  have "nat (int i * int es) div es = i" using es by (simp add: nat_mult_distrib)
  then show "bad_block (mtd_sim es sizes nand bad) m i \<longleftrightarrow> nand m \<and> (n \<le> i \<or> bad m i)"
    using sz lt by (auto simp: bad_block_def mtd_sim_def)
qed

definition demo_opts :: mtd_opts where
  "demo_opts = \<lparr>o_force = False, o_no_erase = False, o_erase = [], o_part_offset = 0, o_offset = of_nat (1 * 32 + 4)\<rparr>"

text \<open>A partition of one block in NOR flash and one of three blocks in NAND flash whose first block is bad; an image of nine bytes that is read in
  two pieces with an interruption.\<close>

definition demo_sizes :: "string \<Rightarrow> nat option" where
  "demo_sizes m = (if m = ''a'' then Some 1 else if m = ''b'' then Some 3 else None)"

abbreviation demo_mtd :: "(string \<Rightarrow> byte list) mtd_ops" where
  "demo_mtd \<equiv> mtd_sim 4 demo_sizes (\<lambda>m. m = ''b'') (\<lambda>m i. i = 0)"

lemma demo_slots: "slots demo_mtd [(''a'', 1, False), (''b'', 3, True)] = [(''a'', 0), (''b'', 1), (''b'', 2)]"
proof -
  have "bad_block demo_mtd ''a'' i \<longleftrightarrow> False" "bad_block demo_mtd ''b'' i \<longleftrightarrow> 3 \<le> i \<or> i = 0" for i
    using mtd_sim_part(3) [of demo_sizes "''a''" 1 4 "\<lambda>m. m = ''b''" "\<lambda>m i. i = 0"]
      mtd_sim_part(3) [of demo_sizes "''b''" 3 4 "\<lambda>m. m = ''b''" "\<lambda>m i. i = 0"] by (simp_all add: demo_sizes_def)
  moreover have "[0..<1] = [0 :: nat]" "[0..<3] = [0, 1, 2 :: nat]" by (simp_all add: upt_conv_Cons)
  ultimately show ?thesis unfolding slots_def good_blocks_def by simp
qed

lemma demo_device: "mtd_device demo_mtd (sim_cont 4 demo_sizes) 4 [(''a'', 1, False), (''b'', 3, True)] ''a:b''"
proof -
  have "mtd_names ''a:b'' = [''a'', ''b'']" by (simp add: mtd_names.simps [of "''a:b''"] mtd_names.simps [of "''b''"])
  moreover have "part_ok demo_mtd (sim_cont 4 demo_sizes) ''a'' 4 1 False" "part_ok demo_mtd (sim_cont 4 demo_sizes) ''b'' 4 3 True"
    using mtd_sim_part(1) [of demo_sizes "''a''" 1 4 "\<lambda>m. m = ''b''" "\<lambda>m i. i = 0"]
      mtd_sim_part(1) [of demo_sizes "''b''" 3 4 "\<lambda>m. m = ''b''" "\<lambda>m i. i = 0"] by (simp_all add: demo_sizes_def)
  ultimately show ?thesis by (simp add: mtd_device_def parts_ok_def)
qed

theorem mtd_write_image_witness:
  "\<exists>w'. mtd_run True demo_mtd (\<lambda>n. Some (replicate n 0)) LittleEndian id demo_opts (Cmd_write (Some [Data [1, 2, 3], Again, Data [4, 5, 6, 7, 8, 9]])) ''a:b''
      (\<lambda>_. []) = Some (Ret w') \<and>
    image_placed 4 [(''a'', 0), (''b'', 1), (''b'', 2)] [1, 2, 3, 4, 5, 6, 7, 8, 9] (sim_cont 4 demo_sizes (\<lambda>_. [])) (sim_cont 4 demo_sizes w')"
  using mtd_write_image [OF demo_device, of "\<lambda>n. Some (replicate n 0)" "replicate 4 0" "[Data [1, 2, 3], Again, Data [4, 5, 6, 7, 8, 9]]" True demo_opts LittleEndian id "\<lambda>_. []"]
  by (simp add: good_events_def demo_opts_def demo_slots [unfolded One_nat_def])

text \<open>A flash of 8 MB whose partition has 114 blocks of 64 KB.\<close>

abbreviation demo_nor :: "(string \<Rightarrow> byte list) mtd_ops" where
  "demo_nor \<equiv> mtd_sim 0x10000 (\<lambda>m. if m = ''linux'' then Some 114 else None) (\<lambda>_. False) (\<lambda>_ _. False)"

abbreviation demo_nor_cont :: "(string \<Rightarrow> byte list) \<Rightarrow> string \<Rightarrow> byte list" where
  "demo_nor_cont \<equiv> sim_cont 0x10000 (\<lambda>m. if m = ''linux'' then Some 114 else None)"

lemma demo_nor_ok:
  "mtd_device demo_nor demo_nor_cont 0x10000 [(''linux'', 114, False)] ''linux''" "length (slots demo_nor [(''linux'', 114, False)]) = 114"
proof -
  have "part_ok demo_nor demo_nor_cont ''linux'' 0x10000 114 False" "\<not> bad_block demo_nor ''linux'' i" for i
    using mtd_sim_part(1,3) [where sizes = "\<lambda>m. if m = ''linux'' then Some 114 else None" and m = "''linux''" and n = 114 and es = "0x10000"
        and nand = "\<lambda>_. False" and bad = "\<lambda>_ _. False"] by simp_all
  moreover have "mtd_names ''linux'' = [''linux'']" by (subst mtd_names.simps) simp
  ultimately show "mtd_device demo_nor demo_nor_cont 0x10000 [(''linux'', 114, False)] ''linux''"
    "length (slots demo_nor [(''linux'', 114, False)]) = 114"
    by (simp_all add: mtd_device_def parts_ok_def slots_def good_blocks_def)
qed

theorem trx_image_flashed_witness:
  "\<exists>im w'. trx_main True (\<lambda>n. Some (replicate n 0)) (\<lambda>_ _. None) ([''-o'', ''o''] @ f_args [''a'', ''b'']) trx_demo_fs =
      Ret ([], trx_demo_fs\<lparr>files := (files trx_demo_fs)(''o'' \<mapsto> im)\<rparr>) \<and>
    mtd_run True demo_nor (\<lambda>n. Some (replicate n 0)) LittleEndian id demo_opts (Cmd_write (Some [Data im])) ''linux'' (\<lambda>_. []) = Some (Ret w') \<and>
    (\<forall>k < length [[1, 2, 3], [7 :: byte]].
      trx_part (read_slots 0x10000 (demo_nor_cont w') (slots demo_nor [(''linux'', 114, False)])) k (length ([[1, 2, 3], [7 :: byte]] ! k)) = [[1, 2, 3], [7]] ! k) \<and>
    mtd_run True demo_nor (\<lambda>n. Some (replicate n 0)) BigEndian id demo_opts (Cmd_write (Some [Data im])) ''linux'' (\<lambda>_. []) = Some (Exit 1)"
  by (rule trx_image_flashed [where mem = "replicate 0x720000 0" and dmem = "replicate 0x10000 0", OF _ _ _ _ _ _ _ _ _ _ demo_nor_ok(1)])
    (simp_all add: trx_demo_fs_def pad4_def demo_nor_ok(2) demo_opts_def)




end
