(* ===== verification/Spec2Isabelle.thy ===== *)
theory Spec2Isabelle
  imports Nvram_Props Owipcalc_Props Kconfig_Props Kconfig_Print Maccalc Sixrdcalc Buffalo_Enc Buffalo_Crc Buffalo_Tag Nand_Image Hashmap Trie
    Url_Props Websocket_Props Http_Post Trx_Props Mtd_Props
begin

text \<open>
  \<^bold>\<open>Programs of a router firmware.\<close>

  The repository is the firmware of a family of routers: a build system with its configuration
  language, host tools that turn a kernel and a file system into vendor images, small programs for the
  device, kernel drivers and large services that were taken over from other projects. This
  development models the self-contained programs whose answers other parts rely on, function by
  function, and proves what they promise; where the code does something else than it means to, the
  theorem states what it does.

  \<^bold>\<open>Conventions.\<close> \<open>Fw_Prelude\<close> has the byte and word types, the two byte orders and \<open>outcome\<close>: a C function
  returns (\<open>Ret\<close>), leaves the process (\<open>Exit\<close>), or does something C leaves undefined (\<open>Undef\<close>: an
  access outside an object, a shift by the width, a NULL string). A theorem with the conclusion \<open>Ret\<close> therefore
  includes memory safety and the absence of undefined arithmetic. \<open>C_Stdlib\<close> models the number parsers and
  character classes of the C library for a 32-bit \<^verbatim>\<open>long\<close> (of the 64-bit targets only numbers that are negative or do not fit differ), \<open>Host_Env\<close> getopt, files, buffers and the 64-bit \<^verbatim>\<open>long\<close> of the
  build host. Functions that are not part of the repository and whose results matter (\<^verbatim>\<open>inet_pton\<close>,
  \<^verbatim>\<open>inet_ntop\<close>, the contents of memory from \<^verbatim>\<open>malloc\<close>, whether it fails) are arguments of the definitions. Two theories hold the contracts
  that several programs share, as locales: \<open>Store_Spec\<close> the key/value store, which the NVRAM table and the hash map interpret, and the table of
  routes, which the trie interprets and the HTTP library uses; \<open>Checksum_Spec\<close> checksums that detect every change of one byte, the
  division they implement and the tables for it, interpreted by \<open>Nvram_Crc\<close>, \<open>Buffalo_Crc\<close> and \<open>Crc32\<close>.

  \<^bold>\<open>NVRAM\<close> (\<^verbatim>\<open>package/utils/nvram/src\<close>). \<open>Nvram_Crc\<close>: \<^verbatim>\<open>hndcrc8\<close> and its table. \<open>Nvram\<close>: the hash table with its
  dead list (record \<open>nvram_handle\<close>), \<^verbatim>\<open>_nvram_realloc\<close>, \<^verbatim>\<open>nvram_get\<close>, \<^verbatim>\<open>nvram_set\<close>, \<^verbatim>\<open>nvram_unset\<close>, \<^verbatim>\<open>_nvram_rehash\<close>, \<^verbatim>\<open>nvram_commit\<close>.
  \<open>Nvram_Commit\<close>: what is written and what is read back. \<open>Nvram_Cli\<close>: search for the device, staging file,
  commands of \<^verbatim>\<open>cli.c\<close>. \<open>Nvram_Props\<close> (C1--C4, C7): the table is a finite map, a commit stays in its space and is read
  back, the CRC is the polynomial division, \<^verbatim>\<open>set\<close> in one process is seen by \<^verbatim>\<open>get\<close> in the next, and two errors of the tool.

  \<^bold>\<open>Address calculators.\<close> \<open>Owipcalc\<close> (\<^verbatim>\<open>package/network/utils/owipcalc\<close>): the stack of prefixes and every operation, with the
  byte order of the machine; \<open>Owipcalc_Props\<close> (C9, C12) compares them with arithmetic on addresses and with sets of
  addresses. \<open>Maccalc\<close> and \<open>Sixrdcalc\<close> (C29) are the MAC and the 6rd calculator.

  \<^bold>\<open>Configuration expressions\<close> (\<^verbatim>\<open>scripts/config/expr.c\<close>). \<open>Kconfig_Expr\<close>: three-valued expressions and the
  simplifications that the menus use; \<open>Kconfig_Props\<close> (C18--C20): each keeps the value that \<^verbatim>\<open>expr_calc_value\<close> gives, or
  the theorem says where it does not. The simplifications that call themselves on their own results are functions with a
  termination proof. \<open>Kconfig_Print\<close> (C11, C28): the printer and the growable string; what is printed, read with the
  precedences of the grammar, has the value of the expression, and wrapped lines keep to the width.

  \<^bold>\<open>Image tools\<close> (\<^verbatim>\<open>tools/firmware-utils/src\<close>). \<open>Buffalo_Lib\<close>, \<open>Buffalo_Crypt\<close>, \<open>Buffalo_Enc\<close>, \<open>Buffalo_Crc\<close> (C30--C33): cipher, container, checksums and the
  encryption program; decryption of an arbitrary file is safe and inverts encryption. \<open>Buffalo_Tag\<close>: the program that puts a header with
  names, regions, lengths and a checksum before the files (\<open>buffalo_tag_image\<close>). \<open>Nand_Ecc\<close>, \<open>Nand_Image\<close>
  (C34, C35): the error correction code corrects one bit and detects two, and the page loop, a
  \<^theory_text>\<open>partial_function\<close> because it does not end for page size 0, returns for every other one.

  \<^bold>\<open>Flash images\<close> (\<^verbatim>\<open>tools/firmware-utils/src/trx.c\<close> on the build host, \<^verbatim>\<open>package/system/mtd/src\<close> on the device). \<open>Crc32\<close>: the
  two checksum routines, which are one function. \<open>Trx\<close>: the writer of images with all its options; \<open>Trx_Props\<close> (C5, C8): its images
  are valid and hold the files, and a fourth file damages the first. \<open>Mtd\<close>: the commands of the flash tool; the operations of
  the kernel on partitions are the argument \<open>ops\<close>, with a state of any type, and the reads of the image are a list of events. \<open>Mtd_Write\<close> states
  what the kernel documents about a partition (\<open>part_ok\<close>) and follows the loop of \<^verbatim>\<open>mtd_write\<close> from block to block: \<open>at_block\<close> is its invariant.
  \<open>Mtd_Props\<close> (C13, C23, C27): an image ends up in the good blocks of a list of partitions, the repair of a header, and the way of a file from
  \<^verbatim>\<open>trx\<close> into the flash. The loops over the blocks, \<open>mtd_erase_loop\<close>, \<open>erase_ahead\<close> and \<open>write_loop\<close>, are \<^theory_text>\<open>partial_function\<close>s, since they do
  not end for the block size 0; the theorems state that the result is \<open>Some\<close>. The partitions in memory, \<open>mtd_sim\<close>, show that the documented
  behaviour is possible.

  \<^bold>\<open>Containers of the web terminal\<close> (\<^verbatim>\<open>package/shellinabox/src/libhttp\<close>). \<open>Hashmap\<close> (C36--C38): the map that grows by moving its
  entries through its own insertion, whose termination rests on the number of entries; it is a finite
  map, calls the destructor for exactly the pairs that leave, and miscounts. \<open>Trie\<close> (C17, C40): lookup of
  URL handlers by the longest prefix, and the life of the stored values.

  \<^bold>\<open>HTTP library of the web terminal\<close> (\<^verbatim>\<open>url.c\<close>, \<^verbatim>\<open>httpconnection.c\<close> and \<^verbatim>\<open>server.c\<close> of the same directory), on top of
  these containers. \<open>Http_Conn\<close>: the record \<open>http_conn\<close> of a connection, its states and the end of a request. \<open>Url\<close>: the arguments of
  GET and POST requests; \<open>Url_Props\<close> (C6, C10, C14): queries are decoded, multipart forms are read
  field by field, and a truncated one is never finished. \<open>Websocket\<close>: the state machine of \<^verbatim>\<open>httpHandleWebSocket\<close> and the two
  encoders; \<open>Websocket_Props\<close> (C15, C16, C22): on a connection, up to its bound of 64 KiB, it refines a reader that takes one byte at a time, so the way the bytes are cut into reads
  does not matter, and it reads what the encoders write, except for long binary messages. \<open>Http_Request\<close>: command line, header,
  choice of the handler and payload; \<open>Http_Loop\<close>: a read of \<^verbatim>\<open>httpHandleConnection\<close>, how it looks at a line, and that a
  line may come in any number of reads; \<open>Http_Props\<close> (C24, C25) and \<open>Http_Post\<close> (C21, C26, C39): requests reach the registered
  function whole, and the inputs that keep the loop busy, pass stale bytes to the application or end the server. The functions that an application
  registers are the argument \<open>app\<close> of the definitions, together with what the array of a read holds behind its bytes. The loops over a multipart body and over the bytes of a
  read, \<open>post_loop\<close> and \<open>conn_loop\<close>, are \<^theory_text>\<open>partial_function\<close>s: \<open>None\<close> is a call that does not return, and the theorems on
  ordinary input state that the result is \<open>Some\<close>.

  \<^bold>\<open>Bounds.\<close> No definition uses fuel. Loops are recursive functions with a measure; the sizes that
  the programs fix (the NVRAM space, the array lengths of the headers, the 256 bytes of a block) are the constants of the source. Where
  an \<^verbatim>\<open>int\<close> only counts objects in memory it is an \<open>int\<close> or \<open>nat\<close>; where its wrap-around can be seen it is a word.

  \<^bold>\<open>Not modelled.\<close> Kernel drivers and the boot loader (hardware registers and interrupts), the SNMP agent, the captive portal
  and the other services (third-party code around sockets and event loops), the modem updater (USB transfers),
  the rest of the web terminal (sockets, TLS, the poll loop, compression and the queue of outgoing data, processes and terminals), messages and
  memory release of the modelled programs,
  \<^verbatim>\<open>expr_eliminate_dups\<close>, symbols and menus of the configuration system, the other image tools, and of the flash tool the files that are
  integrated into JFFS2 data, the FIS partition table, the headers of other vendors, and the parsing of its options.

  \<^bold>\<open>What would come next.\<close> The evaluation of symbols in \<^verbatim>\<open>scripts/config/symbol.c\<close> on top of the expressions, with
  \<^verbatim>\<open>expr_eliminate_dups\<close>; the writers and readers of the other headers (\<^verbatim>\<open>seama\<close>, \<^verbatim>\<open>imagetag\<close>) on the model of \<open>Trx\<close>; JFFS2 data on
  the flash operations of \<open>Mtd\<close>; replies to suspended requests in \<^verbatim>\<open>libhttp\<close>.
\<close>

end
